(* ===== verification/Prelude.thy ===== *)
theory Prelude
  imports Main "HOL-Library.Word" "HOL-Library.Monad_Syntax"
  "HOL-Library.Code_Target_Numeral"
begin

text \<open>
  Shared vocabulary of the development: the machine integers of the code (\<open>types.h\<close>),
  byte strings, little- and big-endian byte images of words, the \<open>memcpy\<close>-style update of
  a slice of a buffer, and generic lemmas on lists that several components use.

  A failed \<open>assert\<close>, \<open>panic\<close> or \<open>abort\<close> of the code is the value \<open>None\<close> of an
  option result; an error that the code returns is a value of a sum or of the code's own
  result type.
\<close>

unbundle bit_operations_syntax

section \<open>Machine integers\<close>

type_synonym u8 = "8 word"
type_synonym u16 = "16 word"
type_synonym u32 = "32 word"
type_synonym u64 = "64 word"
type_synonym bytes = "u8 list"

named_theorems unat_simps \<open>reading word expressions as natural numbers\<close>
named_theorems slice_simps \<open>reading and updating slices of a buffer\<close>

definition SIZE_MAX :: nat where
  "SIZE_MAX = 2 ^ 64 - 1"

definition sat_add :: "nat \<Rightarrow> nat \<Rightarrow> nat" where
  "sat_add a b = (if a + b > SIZE_MAX then SIZE_MAX else a + b)"

lemma sat_add_ge: "b \<le> SIZE_MAX \<Longrightarrow> a \<le> SIZE_MAX \<Longrightarrow> a \<le> sat_add a b"
  by (simp add: sat_add_def)

lemma sat_add_le_iff: "n < SIZE_MAX \<Longrightarrow> sat_add a b \<le> n \<longleftrightarrow> a + b \<le> n"
  by (auto simp: sat_add_def)

text \<open>Sums and differences of two \<open>size_t\<close> (or \<open>uintptr_t\<close>) values, which wrap.\<close>

definition size_add :: "nat \<Rightarrow> nat \<Rightarrow> nat" where
  "size_add a b = (a + b) mod 2 ^ 64"

lemma size_add_eq [simp]: "a + b \<le> SIZE_MAX \<Longrightarrow> size_add a b = a + b"
  by (simp add: size_add_def SIZE_MAX_def)

lemma size_add_less [simp]: "size_add a b < 2 ^ 64"
  unfolding size_add_def by (rule mod_less_divisor) simp

definition size_sub :: "nat \<Rightarrow> nat \<Rightarrow> nat" where
  "size_sub a b = (a + 2 ^ 64 - b) mod 2 ^ 64"

lemma size_sub_eq [simp]:
  assumes "b \<le> a" and "a \<le> SIZE_MAX"
  shows "size_sub a b = a - b"
proof -
  have "a + 2 ^ 64 - b = (a - b) + 2 ^ 64" using assms(1) by simp
  then have "size_sub a b = (a - b) mod 2 ^ 64" by (simp only: size_sub_def mod_add_self2)
  also have "\<dots> = a - b" using assms by (simp add: SIZE_MAX_def)
  finally show ?thesis .
qed

lemma size_sub_le: "b \<le> a \<Longrightarrow> size_sub a b \<le> a - b"
proof -
  assume "b \<le> a"
  then have "a + 2 ^ 64 - b = (a - b) + 2 ^ 64" by simp
  then have "size_sub a b = (a - b) mod 2 ^ 64" by (simp only: size_sub_def mod_add_self2)
  then show ?thesis by simp
qed

lemma unat_u8_less [simp, intro]: "unat (b :: u8) < 256"
  using unsigned_less [of b] by simp

lemma unat_u16_less [simp, intro]: "unat (b :: u16) < 65536"
  using unsigned_less [of b] by simp

lemma unat_u32_less [simp, intro]: "unat (b :: u32) < 4294967296"
  using unsigned_less [of b] by simp

lemma unat_u64_less [simp, intro]: "unat (b :: u64) < 18446744073709551616"
  using unsigned_less [of b] by simp

section \<open>Byte strings and byte images of numbers\<close>

definition ascii :: "string \<Rightarrow> bytes" where
  "ascii s = map (\<lambda>c. word_of_nat (of_char c)) s"

lemma length_ascii [simp]: "length (ascii s) = length s"
  by (simp add: ascii_def)

text \<open>The \<open>n\<close> lowest bytes of a number, least significant first, and the number they denote.\<close>

fun le_bytes :: "nat \<Rightarrow> nat \<Rightarrow> bytes" where
  "le_bytes 0 v = []"
| "le_bytes (Suc n) v = word_of_nat (v mod 256) # le_bytes n (v div 256)"

fun le_value :: "bytes \<Rightarrow> nat" where
  "le_value [] = 0"
| "le_value (b # bs) = unat b + 256 * le_value bs"

definition be_bytes :: "nat \<Rightarrow> nat \<Rightarrow> bytes" where
  "be_bytes n v = rev (le_bytes n v)"

definition be_value :: "bytes \<Rightarrow> nat" where
  "be_value bs = le_value (rev bs)"

lemma length_le_bytes [simp]: "length (le_bytes n v) = n"
  by (induction n arbitrary: v) auto

lemma length_be_bytes [simp]: "length (be_bytes n v) = n"
  by (simp add: be_bytes_def)

lemma le_value_less: "le_value bs < 256 ^ length bs"
proof (induction bs)
  case (Cons b bs)
  have "unat b < 256" by simp
  with Cons.IH have "unat b + 256 * le_value bs < 256 + 256 * (256 ^ length bs - 1)"
    by (intro add_less_le_mono) auto
  then show ?case by (simp add: right_diff_distrib')
qed simp

lemma le_value_le_bytes: "le_value (le_bytes n v) = v mod 256 ^ n"
proof (induction n arbitrary: v)
  case (Suc n)
  have "unat (word_of_nat (v mod 256) :: u8) = v mod 256"
    by (simp add: unat_of_nat)
  then show ?case
    by (simp add: Suc.IH mod_mult2_eq)
qed simp

lemma be_value_be_bytes: "be_value (be_bytes n v) = v mod 256 ^ n"
  by (simp add: be_value_def be_bytes_def le_value_le_bytes)

lemma le_bytes_le_value: "le_bytes (length bs) (le_value bs) = bs"
proof (induction bs)
  case (Cons b bs)
  have "(unat b + 256 * le_value bs) mod 256 = unat b"
    by (metis unat_u8_less mod_less mod_mult_self2)
  moreover have "(unat b + 256 * le_value bs) div 256 = le_value bs"
    using unat_u8_less [of b] by (simp del: unat_u8_less)
  ultimately show ?case using Cons.IH by simp
qed simp

section \<open>Indices that count from one\<close>

lemma ex_less_Suc_iff: "(\<exists>i < n. P (Suc i)) \<longleftrightarrow> (\<exists>x. 0 < x \<and> x \<le> n \<and> P x)"
  by (auto simp: Suc_le_eq gr0_conv_Suc)

section \<open>Slices of a buffer\<close>

text \<open>\<open>slice xs i j\<close> is the part of the buffer from offset \<open>i\<close> up to, not including, \<open>j\<close>.\<close>

definition slice :: "'a list \<Rightarrow> nat \<Rightarrow> nat \<Rightarrow> 'a list" where
  "slice xs i j = take (j - i) (drop i xs)"

text \<open>\<open>memcpy(buf + i, src, length src)\<close>: \<open>None\<close> where the copy would leave the buffer.\<close>

definition put_slice :: "'a list \<Rightarrow> nat \<Rightarrow> 'a list \<Rightarrow> 'a list" where
  "put_slice xs i ys = take i xs @ ys @ drop (i + length ys) xs"

definition memcpy_into :: "'a list \<Rightarrow> nat \<Rightarrow> 'a list \<Rightarrow> 'a list option" where
  "memcpy_into xs i ys = (if i + length ys \<le> length xs then Some (put_slice xs i ys) else None)"

lemma length_slice [slice_simps]: "j \<le> length xs \<Longrightarrow> length (slice xs i j) = j - i"
  by (simp add: slice_def)

lemma slice_empty [slice_simps, simp]: "j \<le> i \<Longrightarrow> slice xs i j = []"
  by (simp add: slice_def)

lemma slice_append [slice_simps]: "i \<le> j \<Longrightarrow> j \<le> k \<Longrightarrow> slice xs i j @ slice xs j k = slice xs i k"
proof -
  assume "i \<le> j" "j \<le> k"
  then have "k - i = (j - i) + (k - j)" and "drop j xs = drop (j - i) (drop i xs)" by simp_all
  then show ?thesis by (simp only: slice_def take_add)
qed

lemma length_put_slice [slice_simps]:
  "i + length ys \<le> length xs \<Longrightarrow> length (put_slice xs i ys) = length xs"
  by (simp add: put_slice_def)

lemma nth_put_slice:
  assumes "i + length ys \<le> length xs" and "k < length xs"
  shows "put_slice xs i ys ! k = (if i \<le> k \<and> k < i + length ys then ys ! (k - i) else xs ! k)"
  using assms by (auto simp: put_slice_def nth_append min_def)

lemma slice_put_slice_same [slice_simps]:
  "i + length ys \<le> length xs \<Longrightarrow> slice (put_slice xs i ys) i (i + length ys) = ys"
  by (simp add: slice_def put_slice_def)

lemma slice_cong:
  assumes "length xs = length ys" and "\<And>k. i \<le> k \<Longrightarrow> k < j \<Longrightarrow> k < length xs \<Longrightarrow> xs ! k = ys ! k"
  shows "slice xs i j = slice ys i j"
proof (rule nth_equalityI)
  show "length (slice xs i j) = length (slice ys i j)"
    using assms(1) by (simp add: slice_def)
  fix k assume "k < length (slice xs i j)"
  then have "k < j - i" and "i + k < length xs" by (auto simp: slice_def)
  then show "slice xs i j ! k = slice ys i j ! k"
    using assms by (simp add: slice_def)
qed

lemma slice_put_slice_other [slice_simps]:
  assumes "i + length ys \<le> length xs" and "b \<le> i \<or> i + length ys \<le> a"
  shows "slice (put_slice xs i ys) a b = slice xs a b"
  using assms by (intro slice_cong) (auto simp: length_put_slice nth_put_slice)

lemma take_put_slice [slice_simps]: "i \<le> length xs \<Longrightarrow> take i (put_slice xs i ys) = take i xs"
  by (simp add: put_slice_def)

lemma slice_list_update_other [slice_simps]:
  "k < a \<or> b \<le> k \<Longrightarrow> slice (xs[k := y]) a b = slice xs a b"
  by (rule slice_cong) auto

lemma slice_snoc: "i \<le> k \<Longrightarrow> k < length xs \<Longrightarrow> slice xs i (Suc k) = slice xs i k @ [xs ! k]"
  by (simp add: slice_def Suc_diff_le take_Suc_conv_app_nth)

lemma take_slice [slice_simps]: "i + n \<le> j \<Longrightarrow> take n (slice xs i j) = slice xs i (i + n)"
  by (simp add: slice_def min_absorb1)

lemma drop_slice [slice_simps]: "drop n (slice xs i j) = slice xs (i + n) j"
  by (simp add: slice_def drop_take add.commute)

section \<open>Binary search\<close>

text \<open>\<open>std::lower_bound\<close>: the binary search for the first element that does not satisfy \<open>P\<close>.\<close>

function lower_bound_loop :: "('a \<Rightarrow> bool) \<Rightarrow> 'a list \<Rightarrow> nat \<Rightarrow> nat \<Rightarrow> nat" where
  "lower_bound_loop P xs first count =
     (if count = 0 then first
      else
        (let step = count div 2; it = first + step in
         if P (xs ! it) then lower_bound_loop P xs (it + 1) (count - (step + 1))
         else lower_bound_loop P xs first step))"
  by pat_completeness auto
termination
  by (relation "measure (\<lambda>(P, xs, first, count). count)") auto

declare lower_bound_loop.simps [simp del]

definition lower_bound :: "('a \<Rightarrow> bool) \<Rightarrow> 'a list \<Rightarrow> nat" where
  "lower_bound P xs = lower_bound_loop P xs 0 (length xs)"

lemma lower_bound_partitioned:
  assumes "first + count \<le> length xs" and "first \<le> m" and "m \<le> first + count"
    and "\<And>i. i < m \<Longrightarrow> P (xs ! i)" and "\<And>i. m \<le> i \<Longrightarrow> i < length xs \<Longrightarrow> \<not> P (xs ! i)"
  shows "lower_bound_loop P xs first count = m"
  using assms
proof (induction P xs first count rule: lower_bound_loop.induct)
  case (1 P xs first count)
  show ?case
  proof (cases "count = 0")
    case True
    with 1 show ?thesis by (subst lower_bound_loop.simps) simp
  next
    case False
    let ?step = "count div 2"
    have step: "first + ?step < length xs" "?step < count" using False 1(3) by auto
    show ?thesis
    proof (cases "P (xs ! (first + ?step))")
      case True
      then have "first + ?step < m" using 1(7) [of "first + ?step"] step(1) by (cases "m \<le> first + ?step") auto
      then have "lower_bound_loop P xs (first + ?step + 1) (count - (?step + 1)) = m"
        using step 1(3-7) by (intro 1(1) [OF False refl refl True]) auto
      with True False show ?thesis by (subst lower_bound_loop.simps) (simp add: Let_def)
    next
      case no: False
      then have "m \<le> first + ?step" using 1(6) by (metis not_le)
      then have "lower_bound_loop P xs first ?step = m"
        using step 1(3-7) by (intro 1(2) [OF False refl refl no]) auto
      with no False show ?thesis by (subst lower_bound_loop.simps) (simp add: Let_def)
    qed
  qed
qed

lemma lower_bound_partition:
  assumes "m \<le> length xs" and "\<And>i. i < m \<Longrightarrow> P (xs ! i)" and "\<And>i. m \<le> i \<Longrightarrow> i < length xs \<Longrightarrow> \<not> P (xs ! i)"
  shows "lower_bound P xs = m"
  unfolding lower_bound_def using assms by (intro lower_bound_partitioned) simp_all

lemma lower_bound_loop_le: "first + count \<le> length xs \<Longrightarrow> lower_bound_loop P xs first count \<le> length xs"
proof (induction P xs first count rule: lower_bound_loop.induct)
  case (1 P xs first count)
  have "count \<noteq> 0 \<Longrightarrow> first + count div 2 + 1 + (count - (count div 2 + 1)) \<le> length xs" using 1(3) by linarith
  moreover have "first + count div 2 \<le> length xs" using 1(3) by linarith
  ultimately show ?case using 1
    by (subst lower_bound_loop.simps) (simp add: Let_def)
qed

lemma lower_bound_le: "lower_bound P xs \<le> length xs"
  unfolding lower_bound_def by (rule lower_bound_loop_le) simp

end
