(* ===== verification/Links.thy ===== *)
theory Links
  imports Prelude
begin

text \<open>
  Doubly linked chains over integer links, shared by the hash table (\<open>stupid_hash.hpp\<close>, indices
  into an array) and the address-space reservations (\<open>virtmem.c\<close>, heap addresses): the path
  predicate \<open>seg\<close> and the list surgeries the code performs. A link of 0 is the null link.
\<close>

text \<open>
  \<open>seg pf nf p i xs j\<close>: following \<open>nf\<close> from index \<open>i\<close> visits exactly \<open>xs\<close> and ends at
  \<open>j\<close>, and each visited entry points back, through \<open>pf\<close>, to the one before it (\<open>p\<close> for the
  first).
\<close>

fun seg :: "(nat \<Rightarrow> nat) \<Rightarrow> (nat \<Rightarrow> nat) \<Rightarrow> nat \<Rightarrow> nat \<Rightarrow> nat list \<Rightarrow> nat \<Rightarrow> bool" where
  "seg pf nf p i [] j \<longleftrightarrow> i = j"
| "seg pf nf p i (x # xs) j \<longleftrightarrow> i = x \<and> 0 < x \<and> pf x = p \<and> seg pf nf x (nf x) xs j"

lemma seg_append:
  "seg pf nf p i (xs @ ys) j \<longleftrightarrow> (\<exists>k. seg pf nf p i xs k \<and> seg pf nf (last (p # xs)) k ys j)"
  by (induction xs arbitrary: p i) auto

lemma seg_cong:
  "(\<And>x. x \<in> set xs \<Longrightarrow> pf x = pf' x \<and> nf x = nf' x) \<Longrightarrow> seg pf nf p i xs j = seg pf' nf' p i xs j"
  by (induction xs arbitrary: p i) auto

lemma seg_pos: "seg pf nf p i xs j \<Longrightarrow> x \<in> set xs \<Longrightarrow> 0 < x"
  by (induction xs arbitrary: p i) auto

lemma seg_head: "seg pf nf p i xs 0 \<Longrightarrow> i = (if xs = [] then 0 else hd xs)"
  by (cases xs) auto

lemma seg_redirect:
  "distinct xs \<Longrightarrow> xs \<noteq> [] \<Longrightarrow> seg pf nf p i xs k \<Longrightarrow> seg pf (nf(last xs := k')) p i xs k'"
proof (induction xs arbitrary: p i)
  case (Cons x xs)
  then show ?case by (cases xs) auto
qed simp

lemma seg_rehead:
  assumes "seg pf nf p k (z # zs) j" and "z \<notin> set zs"
  shows "seg (pf(z := p')) nf p' k (z # zs) j"
proof -
  have "seg (pf(z := p')) nf z (nf z) zs j = seg pf nf z (nf z) zs j"
    using assms(2) by (intro seg_cong) auto
  with assms(1) show ?thesis by simp
qed

lemma seg_fresh:
  "x \<notin> set xs \<Longrightarrow> seg (pf(x := a)) (nf(x := b)) p i xs j = seg pf nf p i xs j"
  by (rule seg_cong) auto

text \<open>The three surgeries the operations perform: append, unlink and rename.\<close>

lemma seg_snoc:
  assumes "seg pf nf p i xs 0" and "distinct xs" and "m \<notin> set xs" and "0 < m"
  shows "seg (pf(m := last (p # xs))) ((if xs = [] then nf else nf(last xs := m))(m := 0)) p
           (if xs = [] then m else i) (xs @ [m]) 0"
proof (cases "xs = []")
  case True
  with assms show ?thesis by simp
next
  case False
  have "seg pf (nf(last xs := m)) p i xs m"
    using assms False by (intro seg_redirect) auto
  then have "seg (pf(m := last (p # xs))) ((nf(last xs := m))(m := 0)) p i xs m"
    using assms(3) by (simp add: seg_fresh)
  with False assms(4) show ?thesis by (auto simp: seg_append)
qed

lemma seg_fresh_pf: "x \<notin> set xs \<Longrightarrow> seg (pf(x := a)) nf p i xs j = seg pf nf p i xs j"
  by (rule seg_cong) auto

lemma seg_fresh_nf: "x \<notin> set xs \<Longrightarrow> seg pf (nf(x := b)) p i xs j = seg pf nf p i xs j"
  by (rule seg_cong) auto

lemma seg_backpatch:
  "seg pf nf q k zs 0 \<Longrightarrow> distinct zs \<Longrightarrow> seg (if zs = [] then pf else pf(hd zs := p)) nf p k zs 0"
  by (cases zs) (auto simp: seg_fresh_pf)

lemma seg_redirect':
  "seg pf nf p i ys k \<Longrightarrow> distinct ys \<Longrightarrow>
     seg pf (if ys = [] then nf else nf(last ys := k')) p (if ys = [] then k' else i) ys k'"
  by (auto intro: seg_redirect)

lemma seg_unlink:
  assumes "seg pf nf p i (ys @ x # zs) 0" and "distinct (ys @ x # zs)"
  shows "seg (if zs = [] then pf else pf(hd zs := pf x)) (if ys = [] then nf else nf(last ys := nf x)) p
           (if ys = [] then nf x else i) (ys @ zs) 0" (is "seg ?pf ?nf p ?i _ 0")
proof -
  from assms(1) obtain k where ys: "seg pf nf p i ys k" and x: "pf x = last (p # ys)"
    and zs: "seg pf nf x (nf x) zs 0"
    by (auto simp: seg_append)
  have "seg ?pf ?nf p ?i ys (nf x) = seg pf ?nf p ?i ys (nf x)"
    using assms(2) by (intro seg_cong) (auto dest: hd_in_set)
  moreover have "seg pf ?nf p ?i ys (nf x)"
    using ys assms(2) by (intro seg_redirect' [of pf nf p i ys k]) auto
  moreover have "seg ?pf ?nf (last (p # ys)) (nf x) zs 0 = seg ?pf nf (last (p # ys)) (nf x) zs 0"
    using assms(2) by (intro seg_cong) (auto dest: last_in_set)
  moreover have "seg ?pf nf (last (p # ys)) (nf x) zs 0"
    using seg_backpatch [OF zs, of "last (p # ys)"] assms(2) x zs by (cases "zs = []") simp_all
  ultimately show ?thesis unfolding seg_append by blast
qed

lemma seg_rename:
  assumes "seg pf nf p i (ys @ v # zs) 0" and "distinct (ys @ v # zs)"
    and "x \<notin> set (ys @ v # zs)" and "0 < x"
    and "pf' = (if zs = [] then pf(x := pf v) else pf(x := pf v, hd zs := x))"
    and "nf' = (if ys = [] then nf(x := nf v) else nf(x := nf v, last ys := x))"
  shows "seg pf' nf' p (if ys = [] then x else i) (ys @ x # zs) 0" (is "seg _ _ p ?i _ 0")
proof -
  from assms(1) obtain k where ys: "seg pf nf p i ys k" and v: "pf v = last (p # ys)"
    and zs: "seg pf nf v (nf v) zs 0"
    by (auto simp: seg_append)
  have hd: "hd zs \<notin> set ys \<and> hd zs \<noteq> x" if "zs \<noteq> []"
    using hd_in_set [OF that] assms(2,3) by auto
  have la: "last ys \<notin> set zs \<and> last ys \<noteq> x" if "ys \<noteq> []"
    using last_in_set [OF that] assms(2,3) by auto
  have x': "pf' x = last (p # ys)" "nf' x = nf v"
    using hd la assms(5,6) v by (cases "zs = []"; cases "ys = []"; simp)+
  have "seg pf' nf' p ?i ys x = seg pf (if ys = [] then nf else nf(last ys := x)) p ?i ys x"
    using hd assms(3,5,6) by (intro seg_cong) (cases "zs = []"; cases "ys = []"; auto)
  moreover have "seg pf (if ys = [] then nf else nf(last ys := x)) p ?i ys x"
    using ys assms(2) by (intro seg_redirect' [of pf nf p i ys k]) auto
  moreover have "seg pf' nf' x (nf v) zs 0 = seg (if zs = [] then pf else pf(hd zs := x)) nf x (nf v) zs 0"
    using la assms(3,5,6) by (intro seg_cong) (cases "zs = []"; cases "ys = []"; auto)
  moreover have "seg (if zs = [] then pf else pf(hd zs := x)) nf x (nf v) zs 0"
    using zs assms(2) by (intro seg_backpatch) auto
  ultimately show ?thesis using x' assms(4) by (auto simp: seg_append)
qed

end
