(* ===== verification/Kernel.thy ===== *)
theory Kernel
  imports Prelude
begin

text \<open>
  The vocabulary of the Horizon kernel the library sees (\<open>lib/nx/result.h\<close>,
  \<open>lib/nx/kernel/svc.h\<close>): result codes and their packing, error and memory-type constants, the
  memory information record. The system calls themselves are assembly stubs into the kernel,
  which is not part of the repository: they are arguments of the definitions that call them.
\<close>

section \<open>Result codes\<close>

type_synonym Result = u32

definition R_SUCCEEDED :: "Result \<Rightarrow> bool" where "R_SUCCEEDED res \<longleftrightarrow> res = 0"
definition R_FAILED :: "Result \<Rightarrow> bool" where "R_FAILED res \<longleftrightarrow> res \<noteq> 0"
definition R_MODULE :: "Result \<Rightarrow> u32" where "R_MODULE res = res AND 0x1FF"
definition R_DESCRIPTION :: "Result \<Rightarrow> u32" where "R_DESCRIPTION res = drop_bit 9 res AND 0x1FFF"
definition R_VALUE :: "Result \<Rightarrow> u32" where "R_VALUE res = res AND 0x3FFFFF"

definition MAKERESULT :: "u32 \<Rightarrow> u32 \<Rightarrow> Result" where
  "MAKERESULT m d = (m AND 0x1FF) OR push_bit 9 (d AND 0x1FFF)"

datatype Module =
    Module_Kernel
  | Module_Libnx
  | Module_HomebrewAbi
  | Module_HomebrewLoader
  | Module_LibnxNvidia
  | Module_LibnxBinder

primrec Module_value :: "Module \<Rightarrow> u32" where
  "Module_value Module_Kernel = 1"
| "Module_value Module_Libnx = 345"
| "Module_value Module_HomebrewAbi = 346"
| "Module_value Module_HomebrewLoader = 347"
| "Module_value Module_LibnxNvidia = 348"
| "Module_value Module_LibnxBinder = 349"

datatype KernelError =
    KernelError_OutOfSessions
  | KernelError_InvalidCapabilityDescriptor
  | KernelError_NotImplemented
  | KernelError_ThreadTerminating
  | KernelError_OutOfDebugEvents
  | KernelError_InvalidSize
  | KernelError_InvalidAddress
  | KernelError_ResourceExhausted
  | KernelError_OutOfMemory
  | KernelError_OutOfHandles
  | KernelError_InvalidMemoryState
  | KernelError_InvalidMemoryPermissions
  | KernelError_InvalidMemoryRange
  | KernelError_InvalidPriority
  | KernelError_InvalidCoreId
  | KernelError_InvalidHandle
  | KernelError_InvalidUserBuffer
  | KernelError_InvalidCombination
  | KernelError_TimedOut
  | KernelError_Cancelled
  | KernelError_OutOfRange
  | KernelError_InvalidEnumValue
  | KernelError_NotFound
  | KernelError_AlreadyExists
  | KernelError_ConnectionClosed
  | KernelError_UnhandledUserInterrupt
  | KernelError_InvalidState
  | KernelError_ReservedValue
  | KernelError_InvalidHwBreakpoint
  | KernelError_FatalUserException
  | KernelError_OwnedByAnotherProcess
  | KernelError_ConnectionRefused
  | KernelError_OutOfResource
  | KernelError_IpcMapFailed
  | KernelError_IpcCmdbufTooSmall
  | KernelError_NotDebugged

primrec KernelError_value :: "KernelError \<Rightarrow> u32" where
  "KernelError_value KernelError_OutOfSessions = 7"
| "KernelError_value KernelError_InvalidCapabilityDescriptor = 14"
| "KernelError_value KernelError_NotImplemented = 33"
| "KernelError_value KernelError_ThreadTerminating = 59"
| "KernelError_value KernelError_OutOfDebugEvents = 70"
| "KernelError_value KernelError_InvalidSize = 101"
| "KernelError_value KernelError_InvalidAddress = 102"
| "KernelError_value KernelError_ResourceExhausted = 103"
| "KernelError_value KernelError_OutOfMemory = 104"
| "KernelError_value KernelError_OutOfHandles = 105"
| "KernelError_value KernelError_InvalidMemoryState = 106"
| "KernelError_value KernelError_InvalidMemoryPermissions = 108"
| "KernelError_value KernelError_InvalidMemoryRange = 110"
| "KernelError_value KernelError_InvalidPriority = 112"
| "KernelError_value KernelError_InvalidCoreId = 113"
| "KernelError_value KernelError_InvalidHandle = 114"
| "KernelError_value KernelError_InvalidUserBuffer = 115"
| "KernelError_value KernelError_InvalidCombination = 116"
| "KernelError_value KernelError_TimedOut = 117"
| "KernelError_value KernelError_Cancelled = 118"
| "KernelError_value KernelError_OutOfRange = 119"
| "KernelError_value KernelError_InvalidEnumValue = 120"
| "KernelError_value KernelError_NotFound = 121"
| "KernelError_value KernelError_AlreadyExists = 122"
| "KernelError_value KernelError_ConnectionClosed = 123"
| "KernelError_value KernelError_UnhandledUserInterrupt = 124"
| "KernelError_value KernelError_InvalidState = 125"
| "KernelError_value KernelError_ReservedValue = 126"
| "KernelError_value KernelError_InvalidHwBreakpoint = 127"
| "KernelError_value KernelError_FatalUserException = 128"
| "KernelError_value KernelError_OwnedByAnotherProcess = 129"
| "KernelError_value KernelError_ConnectionRefused = 131"
| "KernelError_value KernelError_OutOfResource = 132"
| "KernelError_value KernelError_IpcMapFailed = 259"
| "KernelError_value KernelError_IpcCmdbufTooSmall = 260"
| "KernelError_value KernelError_NotDebugged = 520"

datatype LibnxError =
    LibnxError_BadReloc
  | LibnxError_OutOfMemory
  | LibnxError_AlreadyMapped
  | LibnxError_BadGetInfo_Stack
  | LibnxError_BadGetInfo_Heap
  | LibnxError_BadQueryMemory
  | LibnxError_AlreadyInitialized
  | LibnxError_NotInitialized
  | LibnxError_NotFound
  | LibnxError_IoError
  | LibnxError_BadInput
  | LibnxError_BadReent
  | LibnxError_BufferProducerError
  | LibnxError_HandleTooEarly
  | LibnxError_HeapAllocFailed
  | LibnxError_TooManyOverrides
  | LibnxError_ParcelError
  | LibnxError_BadGfxInit
  | LibnxError_BadGfxEventWait
  | LibnxError_BadGfxQueueBuffer
  | LibnxError_BadGfxDequeueBuffer
  | LibnxError_AppletCmdidNotFound
  | LibnxError_BadAppletReceiveMessage
  | LibnxError_BadAppletNotifyRunning
  | LibnxError_BadAppletGetCurrentFocusState
  | LibnxError_BadAppletGetOperationMode
  | LibnxError_BadAppletGetPerformanceMode
  | LibnxError_BadUsbCommsRead
  | LibnxError_BadUsbCommsWrite
  | LibnxError_InitFail_SM
  | LibnxError_InitFail_AM
  | LibnxError_InitFail_HID
  | LibnxError_InitFail_FS
  | LibnxError_BadGetInfo_Rng
  | LibnxError_JitUnavailable
  | LibnxError_WeirdKernel
  | LibnxError_IncompatSysVer
  | LibnxError_InitFail_Time
  | LibnxError_TooManyDevOpTabs
  | LibnxError_DomainMessageUnknownType
  | LibnxError_DomainMessageTooManyObjectIds
  | LibnxError_AppletFailedToInitialize
  | LibnxError_ApmFailedToInitialize
  | LibnxError_NvinfoFailedToInitialize
  | LibnxError_NvbufFailedToInitialize
  | LibnxError_LibAppletBadExit
  | LibnxError_InvalidCmifOutHeader
  | LibnxError_ShouldNotHappen

primrec LibnxError_value :: "LibnxError \<Rightarrow> u32" where
  "LibnxError_value LibnxError_BadReloc = 1"
| "LibnxError_value LibnxError_OutOfMemory = 2"
| "LibnxError_value LibnxError_AlreadyMapped = 3"
| "LibnxError_value LibnxError_BadGetInfo_Stack = 4"
| "LibnxError_value LibnxError_BadGetInfo_Heap = 5"
| "LibnxError_value LibnxError_BadQueryMemory = 6"
| "LibnxError_value LibnxError_AlreadyInitialized = 7"
| "LibnxError_value LibnxError_NotInitialized = 8"
| "LibnxError_value LibnxError_NotFound = 9"
| "LibnxError_value LibnxError_IoError = 10"
| "LibnxError_value LibnxError_BadInput = 11"
| "LibnxError_value LibnxError_BadReent = 12"
| "LibnxError_value LibnxError_BufferProducerError = 13"
| "LibnxError_value LibnxError_HandleTooEarly = 14"
| "LibnxError_value LibnxError_HeapAllocFailed = 15"
| "LibnxError_value LibnxError_TooManyOverrides = 16"
| "LibnxError_value LibnxError_ParcelError = 17"
| "LibnxError_value LibnxError_BadGfxInit = 18"
| "LibnxError_value LibnxError_BadGfxEventWait = 19"
| "LibnxError_value LibnxError_BadGfxQueueBuffer = 20"
| "LibnxError_value LibnxError_BadGfxDequeueBuffer = 21"
| "LibnxError_value LibnxError_AppletCmdidNotFound = 22"
| "LibnxError_value LibnxError_BadAppletReceiveMessage = 23"
| "LibnxError_value LibnxError_BadAppletNotifyRunning = 24"
| "LibnxError_value LibnxError_BadAppletGetCurrentFocusState = 25"
| "LibnxError_value LibnxError_BadAppletGetOperationMode = 26"
| "LibnxError_value LibnxError_BadAppletGetPerformanceMode = 27"
| "LibnxError_value LibnxError_BadUsbCommsRead = 28"
| "LibnxError_value LibnxError_BadUsbCommsWrite = 29"
| "LibnxError_value LibnxError_InitFail_SM = 30"
| "LibnxError_value LibnxError_InitFail_AM = 31"
| "LibnxError_value LibnxError_InitFail_HID = 32"
| "LibnxError_value LibnxError_InitFail_FS = 33"
| "LibnxError_value LibnxError_BadGetInfo_Rng = 34"
| "LibnxError_value LibnxError_JitUnavailable = 35"
| "LibnxError_value LibnxError_WeirdKernel = 36"
| "LibnxError_value LibnxError_IncompatSysVer = 37"
| "LibnxError_value LibnxError_InitFail_Time = 38"
| "LibnxError_value LibnxError_TooManyDevOpTabs = 39"
| "LibnxError_value LibnxError_DomainMessageUnknownType = 40"
| "LibnxError_value LibnxError_DomainMessageTooManyObjectIds = 41"
| "LibnxError_value LibnxError_AppletFailedToInitialize = 42"
| "LibnxError_value LibnxError_ApmFailedToInitialize = 43"
| "LibnxError_value LibnxError_NvinfoFailedToInitialize = 44"
| "LibnxError_value LibnxError_NvbufFailedToInitialize = 45"
| "LibnxError_value LibnxError_LibAppletBadExit = 46"
| "LibnxError_value LibnxError_InvalidCmifOutHeader = 47"
| "LibnxError_value LibnxError_ShouldNotHappen = 48"

datatype LibnxBinderError =
    LibnxBinderError_Unknown
  | LibnxBinderError_NoMemory
  | LibnxBinderError_InvalidOperation
  | LibnxBinderError_BadValue
  | LibnxBinderError_BadType
  | LibnxBinderError_NameNotFound
  | LibnxBinderError_PermissionDenied
  | LibnxBinderError_NoInit
  | LibnxBinderError_AlreadyExists
  | LibnxBinderError_DeadObject
  | LibnxBinderError_FailedTransaction
  | LibnxBinderError_BadIndex
  | LibnxBinderError_NotEnoughData
  | LibnxBinderError_WouldBlock
  | LibnxBinderError_TimedOut
  | LibnxBinderError_UnknownTransaction
  | LibnxBinderError_FdsNotAllowed

primrec LibnxBinderError_value :: "LibnxBinderError \<Rightarrow> u32" where
  "LibnxBinderError_value LibnxBinderError_Unknown = 1"
| "LibnxBinderError_value LibnxBinderError_NoMemory = 2"
| "LibnxBinderError_value LibnxBinderError_InvalidOperation = 3"
| "LibnxBinderError_value LibnxBinderError_BadValue = 4"
| "LibnxBinderError_value LibnxBinderError_BadType = 5"
| "LibnxBinderError_value LibnxBinderError_NameNotFound = 6"
| "LibnxBinderError_value LibnxBinderError_PermissionDenied = 7"
| "LibnxBinderError_value LibnxBinderError_NoInit = 8"
| "LibnxBinderError_value LibnxBinderError_AlreadyExists = 9"
| "LibnxBinderError_value LibnxBinderError_DeadObject = 10"
| "LibnxBinderError_value LibnxBinderError_FailedTransaction = 11"
| "LibnxBinderError_value LibnxBinderError_BadIndex = 12"
| "LibnxBinderError_value LibnxBinderError_NotEnoughData = 13"
| "LibnxBinderError_value LibnxBinderError_WouldBlock = 14"
| "LibnxBinderError_value LibnxBinderError_TimedOut = 15"
| "LibnxBinderError_value LibnxBinderError_UnknownTransaction = 16"
| "LibnxBinderError_value LibnxBinderError_FdsNotAllowed = 17"

datatype LibnxNvidiaError =
    LibnxNvidiaError_Unknown
  | LibnxNvidiaError_NotImplemented
  | LibnxNvidiaError_NotSupported
  | LibnxNvidiaError_NotInitialized
  | LibnxNvidiaError_BadParameter
  | LibnxNvidiaError_Timeout
  | LibnxNvidiaError_InsufficientMemory
  | LibnxNvidiaError_ReadOnlyAttribute
  | LibnxNvidiaError_InvalidState
  | LibnxNvidiaError_InvalidAddress
  | LibnxNvidiaError_InvalidSize
  | LibnxNvidiaError_BadValue
  | LibnxNvidiaError_AlreadyAllocated
  | LibnxNvidiaError_Busy
  | LibnxNvidiaError_ResourceError
  | LibnxNvidiaError_CountMismatch
  | LibnxNvidiaError_SharedMemoryTooSmall
  | LibnxNvidiaError_FileOperationFailed
  | LibnxNvidiaError_IoctlFailed

primrec LibnxNvidiaError_value :: "LibnxNvidiaError \<Rightarrow> u32" where
  "LibnxNvidiaError_value LibnxNvidiaError_Unknown = 1"
| "LibnxNvidiaError_value LibnxNvidiaError_NotImplemented = 2"
| "LibnxNvidiaError_value LibnxNvidiaError_NotSupported = 3"
| "LibnxNvidiaError_value LibnxNvidiaError_NotInitialized = 4"
| "LibnxNvidiaError_value LibnxNvidiaError_BadParameter = 5"
| "LibnxNvidiaError_value LibnxNvidiaError_Timeout = 6"
| "LibnxNvidiaError_value LibnxNvidiaError_InsufficientMemory = 7"
| "LibnxNvidiaError_value LibnxNvidiaError_ReadOnlyAttribute = 8"
| "LibnxNvidiaError_value LibnxNvidiaError_InvalidState = 9"
| "LibnxNvidiaError_value LibnxNvidiaError_InvalidAddress = 10"
| "LibnxNvidiaError_value LibnxNvidiaError_InvalidSize = 11"
| "LibnxNvidiaError_value LibnxNvidiaError_BadValue = 12"
| "LibnxNvidiaError_value LibnxNvidiaError_AlreadyAllocated = 13"
| "LibnxNvidiaError_value LibnxNvidiaError_Busy = 14"
| "LibnxNvidiaError_value LibnxNvidiaError_ResourceError = 15"
| "LibnxNvidiaError_value LibnxNvidiaError_CountMismatch = 16"
| "LibnxNvidiaError_value LibnxNvidiaError_SharedMemoryTooSmall = 17"
| "LibnxNvidiaError_value LibnxNvidiaError_FileOperationFailed = 18"
| "LibnxNvidiaError_value LibnxNvidiaError_IoctlFailed = 19"

definition KERNELRESULT :: "KernelError \<Rightarrow> Result" where
  "KERNELRESULT e = MAKERESULT (Module_value Module_Kernel) (KernelError_value e)"

definition LIBNXRESULT :: "LibnxError \<Rightarrow> Result" where
  "LIBNXRESULT e = MAKERESULT (Module_value Module_Libnx) (LibnxError_value e)"

section \<open>Memory\<close>

datatype MemoryType =
    MemType_Io
  | MemType_Unmapped
  | MemType_Normal
  | MemType_CodeStatic
  | MemType_CodeMutable
  | MemType_Heap
  | MemType_SharedMem
  | MemType_WeirdMappedMem
  | MemType_ModuleCodeStatic
  | MemType_ModuleCodeMutable
  | MemType_IpcBuffer0
  | MemType_MappedMemory
  | MemType_ThreadLocal
  | MemType_TransferMemIsolated
  | MemType_TransferMem
  | MemType_ProcessMem
  | MemType_Reserved
  | MemType_IpcBuffer1
  | MemType_IpcBuffer3
  | MemType_KernelStack
  | MemType_CodeReadOnly
  | MemType_CodeWritable

primrec MemoryType_value :: "MemoryType \<Rightarrow> nat" where
  "MemoryType_value MemType_Io = 1"
| "MemoryType_value MemType_Unmapped = 0"
| "MemoryType_value MemType_Normal = 2"
| "MemoryType_value MemType_CodeStatic = 3"
| "MemoryType_value MemType_CodeMutable = 4"
| "MemoryType_value MemType_Heap = 5"
| "MemoryType_value MemType_SharedMem = 6"
| "MemoryType_value MemType_WeirdMappedMem = 7"
| "MemoryType_value MemType_ModuleCodeStatic = 8"
| "MemoryType_value MemType_ModuleCodeMutable = 9"
| "MemoryType_value MemType_IpcBuffer0 = 10"
| "MemoryType_value MemType_MappedMemory = 11"
| "MemoryType_value MemType_ThreadLocal = 12"
| "MemoryType_value MemType_TransferMemIsolated = 13"
| "MemoryType_value MemType_TransferMem = 14"
| "MemoryType_value MemType_ProcessMem = 15"
| "MemoryType_value MemType_Reserved = 16"
| "MemoryType_value MemType_IpcBuffer1 = 17"
| "MemoryType_value MemType_IpcBuffer3 = 18"
| "MemoryType_value MemType_KernelStack = 19"
| "MemoryType_value MemType_CodeReadOnly = 20"
| "MemoryType_value MemType_CodeWritable = 21"

datatype Permission =
    Perm_None
  | Perm_R
  | Perm_W
  | Perm_X
  | Perm_Rw
  | Perm_Rx
  | Perm_DontCare

primrec Permission_value :: "Permission \<Rightarrow> u32" where
  "Permission_value Perm_None = 0"
| "Permission_value Perm_R = 1"
| "Permission_value Perm_W = 2"
| "Permission_value Perm_X = 4"
| "Permission_value Perm_Rw = 3"
| "Permission_value Perm_Rx = 5"
| "Permission_value Perm_DontCare = 268435456"

datatype InfoType =
    InfoType_CoreMask
  | InfoType_PriorityMask
  | InfoType_AliasRegionAddress
  | InfoType_AliasRegionSize
  | InfoType_HeapRegionAddress
  | InfoType_HeapRegionSize
  | InfoType_TotalMemorySize
  | InfoType_UsedMemorySize
  | InfoType_DebuggerAttached
  | InfoType_ResourceLimit
  | InfoType_IdleTickCount
  | InfoType_RandomEntropy
  | InfoType_AslrRegionAddress
  | InfoType_AslrRegionSize
  | InfoType_StackRegionAddress
  | InfoType_StackRegionSize
  | InfoType_SystemResourceSizeTotal
  | InfoType_SystemResourceSizeUsed
  | InfoType_ProgramId
  | InfoType_InitialProcessIdRange
  | InfoType_UserExceptionContextAddress
  | InfoType_TotalNonSystemMemorySize
  | InfoType_UsedNonSystemMemorySize
  | InfoType_IsApplication
  | InfoType_FreeThreadCount
  | InfoType_MesosphereMeta
  | InfoType_MesosphereCurrentProcess
  | InfoType_ThreadTickCount

primrec InfoType_value :: "InfoType \<Rightarrow> nat" where
  "InfoType_value InfoType_CoreMask = 0"
| "InfoType_value InfoType_PriorityMask = 1"
| "InfoType_value InfoType_AliasRegionAddress = 2"
| "InfoType_value InfoType_AliasRegionSize = 3"
| "InfoType_value InfoType_HeapRegionAddress = 4"
| "InfoType_value InfoType_HeapRegionSize = 5"
| "InfoType_value InfoType_TotalMemorySize = 6"
| "InfoType_value InfoType_UsedMemorySize = 7"
| "InfoType_value InfoType_DebuggerAttached = 8"
| "InfoType_value InfoType_ResourceLimit = 9"
| "InfoType_value InfoType_IdleTickCount = 10"
| "InfoType_value InfoType_RandomEntropy = 11"
| "InfoType_value InfoType_AslrRegionAddress = 12"
| "InfoType_value InfoType_AslrRegionSize = 13"
| "InfoType_value InfoType_StackRegionAddress = 14"
| "InfoType_value InfoType_StackRegionSize = 15"
| "InfoType_value InfoType_SystemResourceSizeTotal = 16"
| "InfoType_value InfoType_SystemResourceSizeUsed = 17"
| "InfoType_value InfoType_ProgramId = 18"
| "InfoType_value InfoType_InitialProcessIdRange = 19"
| "InfoType_value InfoType_UserExceptionContextAddress = 20"
| "InfoType_value InfoType_TotalNonSystemMemorySize = 21"
| "InfoType_value InfoType_UsedNonSystemMemorySize = 22"
| "InfoType_value InfoType_IsApplication = 23"
| "InfoType_value InfoType_FreeThreadCount = 24"
| "InfoType_value InfoType_MesosphereMeta = 65000"
| "InfoType_value InfoType_MesosphereCurrentProcess = 65001"
| "InfoType_value InfoType_ThreadTickCount = 4026531842"

record MemoryInfo =
  mi_addr :: nat
  mi_size :: nat
  mi_type :: nat
  mi_attr :: u32
  mi_perm :: u32
  mi_device_refcount :: u32
  mi_ipc_refcount :: u32

section \<open>Facts about result codes\<close>

lemma low_masks: "(0x1FF :: u32) = mask 9" "(0x1FFF :: u32) = mask 13" "(0x3FFFFF :: u32) = mask 22"
  by (simp_all add: mask_eq_exp_minus_1)

lemma result_fields:
  "R_MODULE (MAKERESULT m d) = m AND 0x1FF" "R_DESCRIPTION (MAKERESULT m d) = d AND 0x1FFF"
  "R_VALUE (MAKERESULT m d) = MAKERESULT m d"
  unfolding R_MODULE_def R_DESCRIPTION_def R_VALUE_def MAKERESULT_def low_masks
  by (rule bit_word_eqI; auto simp: bit_simps)+

definition all_kernel_errors :: "KernelError list" where
  "all_kernel_errors =
    [KernelError_OutOfSessions, KernelError_InvalidCapabilityDescriptor, KernelError_NotImplemented,
     KernelError_ThreadTerminating, KernelError_OutOfDebugEvents, KernelError_InvalidSize,
     KernelError_InvalidAddress, KernelError_ResourceExhausted, KernelError_OutOfMemory,
     KernelError_OutOfHandles, KernelError_InvalidMemoryState, KernelError_InvalidMemoryPermissions,
     KernelError_InvalidMemoryRange, KernelError_InvalidPriority, KernelError_InvalidCoreId,
     KernelError_InvalidHandle, KernelError_InvalidUserBuffer, KernelError_InvalidCombination,
     KernelError_TimedOut, KernelError_Cancelled, KernelError_OutOfRange, KernelError_InvalidEnumValue,
     KernelError_NotFound, KernelError_AlreadyExists, KernelError_ConnectionClosed,
     KernelError_UnhandledUserInterrupt, KernelError_InvalidState, KernelError_ReservedValue,
     KernelError_InvalidHwBreakpoint, KernelError_FatalUserException, KernelError_OwnedByAnotherProcess,
     KernelError_ConnectionRefused, KernelError_OutOfResource, KernelError_IpcMapFailed,
     KernelError_IpcCmdbufTooSmall, KernelError_NotDebugged]"

definition all_libnx_errors :: "LibnxError list" where
  "all_libnx_errors =
    [LibnxError_BadReloc, LibnxError_OutOfMemory, LibnxError_AlreadyMapped, LibnxError_BadGetInfo_Stack,
     LibnxError_BadGetInfo_Heap, LibnxError_BadQueryMemory, LibnxError_AlreadyInitialized,
     LibnxError_NotInitialized, LibnxError_NotFound, LibnxError_IoError, LibnxError_BadInput,
     LibnxError_BadReent, LibnxError_BufferProducerError, LibnxError_HandleTooEarly,
     LibnxError_HeapAllocFailed, LibnxError_TooManyOverrides, LibnxError_ParcelError, LibnxError_BadGfxInit,
     LibnxError_BadGfxEventWait, LibnxError_BadGfxQueueBuffer, LibnxError_BadGfxDequeueBuffer,
     LibnxError_AppletCmdidNotFound, LibnxError_BadAppletReceiveMessage, LibnxError_BadAppletNotifyRunning,
     LibnxError_BadAppletGetCurrentFocusState, LibnxError_BadAppletGetOperationMode,
     LibnxError_BadAppletGetPerformanceMode, LibnxError_BadUsbCommsRead, LibnxError_BadUsbCommsWrite,
     LibnxError_InitFail_SM, LibnxError_InitFail_AM, LibnxError_InitFail_HID, LibnxError_InitFail_FS,
     LibnxError_BadGetInfo_Rng, LibnxError_JitUnavailable, LibnxError_WeirdKernel, LibnxError_IncompatSysVer,
     LibnxError_InitFail_Time, LibnxError_TooManyDevOpTabs, LibnxError_DomainMessageUnknownType,
     LibnxError_DomainMessageTooManyObjectIds, LibnxError_AppletFailedToInitialize,
     LibnxError_ApmFailedToInitialize, LibnxError_NvinfoFailedToInitialize,
     LibnxError_NvbufFailedToInitialize, LibnxError_LibAppletBadExit, LibnxError_InvalidCmifOutHeader,
     LibnxError_ShouldNotHappen]"

lemma all_errors: "e \<in> set all_kernel_errors" "e' \<in> set all_libnx_errors"
  by (cases e; simp add: all_kernel_errors_def) (cases e'; simp add: all_libnx_errors_def)

lemma distinct_map_inj: "distinct (map f xs) \<Longrightarrow> (\<And>x. x \<in> set xs) \<Longrightarrow> f x = f y \<longleftrightarrow> x = y"
  by (auto simp: distinct_map inj_on_def)

lemma ascending_distinct: "successively (<) (xs :: 'a :: linorder list) \<Longrightarrow> distinct xs"
  by (simp add: successively_conv_sorted_wrt strict_sorted_iff)

lemma distinct_codes: "distinct (map KERNELRESULT all_kernel_errors)" "distinct (map LIBNXRESULT all_libnx_errors)"
proof -
  show "distinct (map KERNELRESULT all_kernel_errors)"
    by (rule ascending_distinct) (simp add: all_kernel_errors_def KERNELRESULT_def MAKERESULT_def)
  show "distinct (map LIBNXRESULT all_libnx_errors)"
    by (rule ascending_distinct) (simp add: all_libnx_errors_def LIBNXRESULT_def MAKERESULT_def)
qed

lemma failing_codes: "R_FAILED (KERNELRESULT e)" "R_FAILED (LIBNXRESULT l)"
proof -
  have "R_MODULE (KERNELRESULT e) = 1" "R_MODULE (LIBNXRESULT l) = 345"
    by (simp_all add: KERNELRESULT_def LIBNXRESULT_def result_fields)
  then show "R_FAILED (KERNELRESULT e)" "R_FAILED (LIBNXRESULT l)"
    by (auto simp: R_FAILED_def R_MODULE_def)
qed

section \<open>Properties\<close>

text \<open>
  Result codes: the module and the description packed by \<open>MAKERESULT\<close> are read back by
  \<open>R_MODULE\<close> and \<open>R_DESCRIPTION\<close> (reduced to their 9 and 13 bits), \<open>R_VALUE\<close> keeps the
  code, every kernel and libnx error is a failure, and no two errors share a code.
\<close>

theorem result_codes:
  "R_MODULE (MAKERESULT m d) = m AND 0x1FF \<and> R_DESCRIPTION (MAKERESULT m d) = d AND 0x1FFF \<and>
   R_VALUE (MAKERESULT m d) = MAKERESULT m d \<and>
   R_FAILED (KERNELRESULT e) \<and> R_FAILED (LIBNXRESULT l) \<and> KERNELRESULT e \<noteq> LIBNXRESULT l \<and>
   (KERNELRESULT e = KERNELRESULT e' \<longleftrightarrow> e = e') \<and> (LIBNXRESULT l = LIBNXRESULT l' \<longleftrightarrow> l = l')"
proof -
  have "R_MODULE (KERNELRESULT e) = 1" "R_MODULE (LIBNXRESULT l) = 345"
    by (simp_all add: KERNELRESULT_def LIBNXRESULT_def result_fields)
  moreover have "(1 :: u32) \<noteq> 345" by simp
  ultimately have "KERNELRESULT e \<noteq> LIBNXRESULT l" by metis
  then show ?thesis
    using distinct_map_inj [OF distinct_codes(1) all_errors(1)] distinct_map_inj [OF distinct_codes(2) all_errors(2)]
      failing_codes by (simp add: result_fields)
qed

end
