(* ===== verification/StupidHash.thy ===== *)
theory StupidHash
  imports Prelude Links "HOL-Library.AList" "HOL-Library.Multiset" "HOL-Library.Product_Lexorder"
begin

text \<open>
  The fixed-capacity hash table \<open>StupidHash\<close> of \<open>program/stupid_hash.hpp\<close>: an array of
  entries kept dense (entry \<open>i\<close> lives at index \<open>i - 1\<close>, index 0 means "none"), chained per
  hash slot by 16-bit \<open>prev\<close> / \<open>next\<close> indices; \<open>remove\<close> fills the hole with the last
  entry. The template parameters are the arguments \<open>nh\<close> (\<open>NUM_HASH_SLOTS\<close>) and the
  length of the entry array (\<open>NUM_ENTRY_SLOTS\<close>). Pointers into the table
  (\<open>Packed<EntryIdx> *\<close>) are values of \<open>link\<close>; an \<open>Entry *\<close> is its 1-based index.
\<close>

section \<open>Keys\<close>

type_synonym uint48 = "48 word"

definition UInt48 :: "u64 \<Rightarrow> uint48 option" where
  "UInt48 v = (if drop_bit 48 v = 0 then Some (ucast v) else None)"

definition UInt48_to_u64 :: "uint48 \<Rightarrow> u64" where
  "UInt48_to_u64 k = ucast k"

section \<open>State\<close>

record 'v entry =
  prev :: nat
  "next" :: nat
  key :: uint48
  val :: 'v

record 'v stupid_hash =
  entries :: "'v entry list"
  entries_count :: nat
  by_hash :: "nat list"

datatype link = HashSlot nat | NextOf nat | PrevOf nat

definition EntryIdx :: "nat \<Rightarrow> nat" where
  "EntryIdx n = n mod 2 ^ 16"

definition hash :: "nat \<Rightarrow> uint48 \<Rightarrow> nat" where
  "hash nh k = unat (UInt48_to_u64 k) mod nh"

definition NUM_HASH_SLOTS :: "'v stupid_hash \<Rightarrow> nat" where
  "NUM_HASH_SLOTS h = length (by_hash h)"

definition entry_at_idx :: "'v stupid_hash \<Rightarrow> nat \<Rightarrow> 'v entry option" where
  "entry_at_idx h idx =
     (if idx > 0 \<and> idx \<le> length (entries h) then Some (entries h ! (idx - 1)) else None)"

definition set_entry :: "'v stupid_hash \<Rightarrow> nat \<Rightarrow> 'v entry \<Rightarrow> 'v stupid_hash" where
  "set_entry h idx e = h\<lparr>entries := (entries h)[idx - 1 := e]\<rparr>"

definition entry_to_idx :: "'v stupid_hash \<Rightarrow> nat \<Rightarrow> nat option" where
  "entry_to_idx h e = (if 0 < e \<and> e \<le> length (entries h) then Some (EntryIdx e) else None)"

fun store_link :: "'v stupid_hash \<Rightarrow> link \<Rightarrow> nat \<Rightarrow> 'v stupid_hash" where
  "store_link h (HashSlot s) v = h\<lparr>by_hash := (by_hash h)[s := v]\<rparr>"
| "store_link h (NextOf i) v = set_entry h i ((entries h ! (i - 1))\<lparr>next := v\<rparr>)"
| "store_link h (PrevOf i) v = set_entry h i ((entries h ! (i - 1))\<lparr>prev := v\<rparr>)"

section \<open>Operations\<close>

definition try_alloc_entry_idx :: "'v stupid_hash \<Rightarrow> nat \<times> 'v stupid_hash" where
  "try_alloc_entry_idx h =
     (if entries_count h = length (entries h) then (0, h)
      else (EntryIdx (entries_count h + 1), h\<lparr>entries_count := entries_count h + 1\<rparr>))"

text \<open>
  The \<open>while\<close> loop of \<open>lookup\<close>. The fuel is one more than the number of entries, which is
  enough in every well-formed table (\<open>lookup_walk_chain\<close>).
\<close>

fun lookup_walk :: "nat \<Rightarrow> 'v stupid_hash \<Rightarrow> uint48 \<Rightarrow> link \<Rightarrow> nat \<Rightarrow> nat
    \<Rightarrow> (link \<times> nat \<times> nat) option" where
  "lookup_walk 0 h k next_p expected_prev idx = None"
| "lookup_walk (Suc fuel) h k next_p expected_prev idx =
     (if idx = 0 then Some (next_p, expected_prev, 0)
      else do {
        e \<leftarrow> entry_at_idx h idx;
        if prev e \<noteq> expected_prev then None
        else if key e = k then Some (next_p, expected_prev, idx)
        else lookup_walk fuel h k (NextOf idx) idx (next e)
      })"

text \<open>The result: the new table, the entry pointer (0 for \<open>nullptr\<close>) and the "found" flag.\<close>

definition lookup :: "'v stupid_hash \<Rightarrow> uint48 \<Rightarrow> bool \<Rightarrow> ('v stupid_hash \<times> nat \<times> bool) option" where
  "lookup h k ins =
     (let slot = hash (NUM_HASH_SLOTS h) k in do {
        (next_p, expected_prev, idx) \<leftarrow>
          lookup_walk (length (entries h) + 1) h k (HashSlot slot) 0 (by_hash h ! slot);
        if idx \<noteq> 0 then Some (h, idx, True)
        else if ins then
          (case try_alloc_entry_idx h of (new_idx, h1) \<Rightarrow>
             if new_idx = 0 then Some (h1, 0, False)
             else do {
               let h2 = store_link h1 next_p new_idx;
               e \<leftarrow> entry_at_idx h2 new_idx;
               Some (set_entry h2 new_idx (e\<lparr>prev := expected_prev, next := 0, key := k\<rparr>), new_idx, False)
             })
        else Some (h, 0, False)
      })"

definition prevs_next :: "'v stupid_hash \<Rightarrow> 'v entry \<Rightarrow> link option" where
  "prevs_next h e =
     (if prev e = 0 then Some (HashSlot (hash (NUM_HASH_SLOTS h) (key e)))
      else do { _ \<leftarrow> entry_at_idx h (prev e); Some (NextOf (prev e)) })"

text \<open>The outer option is the assertion of \<open>entry_at_idx\<close>, the inner one the null pointer.\<close>

definition nexts_prev :: "'v stupid_hash \<Rightarrow> 'v entry \<Rightarrow> link option option" where
  "nexts_prev h e =
     (if next e = 0 then Some None
      else do { _ \<leftarrow> entry_at_idx h (next e); Some (Some (PrevOf (next e))) })"

definition store_opt :: "'v stupid_hash \<Rightarrow> link option \<Rightarrow> nat \<Rightarrow> 'v stupid_hash" where
  "store_opt h p v = (case p of None \<Rightarrow> h | Some l \<Rightarrow> store_link h l v)"

definition move_entry :: "'v stupid_hash \<Rightarrow> nat \<Rightarrow> nat \<Rightarrow> 'v stupid_hash option" where
  "move_entry h old_idx new_idx = do {
     old_entry \<leftarrow> entry_at_idx h old_idx;
     _ \<leftarrow> entry_at_idx h new_idx;
     let h1 = set_entry h new_idx old_entry;
     old_entry1 \<leftarrow> entry_at_idx h1 old_idx;
     pn \<leftarrow> prevs_next h1 old_entry1;
     let h2 = store_link h1 pn new_idx;
     old_entry2 \<leftarrow> entry_at_idx h2 old_idx;
     np \<leftarrow> nexts_prev h2 old_entry2;
     Some (store_opt h2 np new_idx)
   }"

definition unlink_entry :: "'v stupid_hash \<Rightarrow> nat \<Rightarrow> 'v stupid_hash option" where
  "unlink_entry h entry_idx = do {
     e \<leftarrow> entry_at_idx h entry_idx;
     let p = prev e;
     let n = next e;
     pn \<leftarrow> prevs_next h e;
     let h1 = store_link h pn n;
     e1 \<leftarrow> entry_at_idx h1 entry_idx;
     np \<leftarrow> nexts_prev h1 e1;
     Some (store_opt h1 np p)
   }"

definition remove :: "'v stupid_hash \<Rightarrow> nat \<Rightarrow> 'v stupid_hash option" where
  "remove h e = do {
     entry_idx \<leftarrow> entry_to_idx h e;
     h1 \<leftarrow> unlink_entry h entry_idx;
     if entries_count h1 > 0 then do {
       let victim_idx = EntryIdx (entries_count h1);
       let h2 = h1\<lparr>entries_count := entries_count h1 - 1\<rparr>;
       if victim_idx \<noteq> entry_idx then move_entry h2 victim_idx entry_idx else Some h2
     } else None
   }"

definition clear :: "'v stupid_hash \<Rightarrow> 'v stupid_hash" where
  "clear h = h\<lparr>by_hash := replicate (NUM_HASH_SLOTS h) 0, entries_count := 0\<rparr>"

definition size :: "'v stupid_hash \<Rightarrow> nat" where
  "size h = entries_count h"

definition capacity :: "'v stupid_hash \<Rightarrow> nat" where
  "capacity h = length (entries h)"

text \<open>The range \<open>[begin(), end())\<close> that a range-based \<open>for\<close> visits.\<close>

definition begin_end :: "'v stupid_hash \<Rightarrow> 'v entry list" where
  "begin_end h = take (entries_count h) (entries h)"

text \<open>The zero-initialised table of a static object.\<close>

definition empty_table :: "'v \<Rightarrow> nat \<Rightarrow> nat \<Rightarrow> 'v stupid_hash" where
  "empty_table v nh ne =
     \<lparr>entries = replicate ne \<lparr>prev = 0, next = 0, key = 0, val = v\<rparr>,
      entries_count = 0, by_hash = replicate nh 0\<rparr>"

text \<open>\<open>entry->value = v\<close> through the pointer \<open>lookup\<close> returned.\<close>

definition set_value :: "'v stupid_hash \<Rightarrow> nat \<Rightarrow> 'v \<Rightarrow> 'v stupid_hash" where
  "set_value h e v = set_entry h e ((entries h ! (e - 1))\<lparr>val := v\<rparr>)"


section \<open>Field views\<close>

text \<open>The three columns of the entry array as functions of the 1-based index.\<close>

definition pv :: "'v stupid_hash \<Rightarrow> nat \<Rightarrow> nat" where
  "pv h i = (if 0 < i \<and> i \<le> length (entries h) then prev (entries h ! (i - 1)) else 0)"

definition nx :: "'v stupid_hash \<Rightarrow> nat \<Rightarrow> nat" where
  "nx h i = (if 0 < i \<and> i \<le> length (entries h) then next (entries h ! (i - 1)) else 0)"

definition ky :: "'v stupid_hash \<Rightarrow> nat \<Rightarrow> uint48" where
  "ky h i = (if 0 < i \<and> i \<le> length (entries h) then key (entries h ! (i - 1)) else 0)"

definition vl :: "'v stupid_hash \<Rightarrow> nat \<Rightarrow> 'v" where
  "vl h i = val (entries h ! (i - 1))"

named_theorems view_simps \<open>how each write changes the columns\<close>

lemma entry_at_idx_in [view_simps]:
  "0 < i \<Longrightarrow> i \<le> length (entries h) \<Longrightarrow> entry_at_idx h i = Some (entries h ! (i - Suc 0))"
  by (simp add: entry_at_idx_def)

lemma set_entry_views [view_simps]:
  assumes "0 < i" and "i \<le> length (entries h)"
  shows "pv (set_entry h i e) = (pv h)(i := prev e)"
    and "nx (set_entry h i e) = (nx h)(i := next e)"
    and "ky (set_entry h i e) = (ky h)(i := key e)"
    and "0 < j \<Longrightarrow> vl (set_entry h i e) j = (if j = i then val e else vl h j)"
  using assms by (auto simp: set_entry_def pv_def nx_def ky_def vl_def fun_eq_iff nth_list_update)

lemma set_entry_frame [view_simps]:
  "length (entries (set_entry h i e)) = length (entries h)"
  "entries_count (set_entry h i e) = entries_count h"
  "by_hash (set_entry h i e) = by_hash h"
  by (simp_all add: set_entry_def)

lemma nth_set_entry [view_simps]:
  "0 < i \<Longrightarrow> i \<le> length (entries h) \<Longrightarrow> entries (set_entry h i e) ! (i - Suc 0) = e"
  by (simp add: set_entry_def)

lemma nth_views:
  assumes "0 < i" and "i \<le> length (entries h)"
  shows "prev (entries h ! (i - Suc 0)) = pv h i" and "next (entries h ! (i - Suc 0)) = nx h i"
    and "key (entries h ! (i - Suc 0)) = ky h i" and "val (entries h ! (i - Suc 0)) = vl h i"
  using assms by (simp_all add: pv_def nx_def ky_def vl_def)

fun in_range :: "'v stupid_hash \<Rightarrow> link \<Rightarrow> bool" where
  "in_range h (HashSlot s) = True"
| "in_range h (NextOf i) = (0 < i \<and> i \<le> length (entries h))"
| "in_range h (PrevOf i) = (0 < i \<and> i \<le> length (entries h))"

lemma store_link_frame [view_simps]:
  "length (entries (store_link h l v)) = length (entries h)"
  "entries_count (store_link h l v) = entries_count h"
  "length (by_hash (store_link h l v)) = length (by_hash h)"
  by (cases l; simp add: set_entry_def)+

lemma store_link_views [view_simps]:
  assumes "in_range h l"
  shows "nx (store_link h l v) = (case l of NextOf i \<Rightarrow> (nx h)(i := v) | _ \<Rightarrow> nx h)"
    and "pv (store_link h l v) = (case l of PrevOf i \<Rightarrow> (pv h)(i := v) | _ \<Rightarrow> pv h)"
    and "ky (store_link h l v) = ky h"
    and "0 < j \<Longrightarrow> vl (store_link h l v) j = vl h j"
    and "by_hash (store_link h l v) = (case l of HashSlot s \<Rightarrow> (by_hash h)[s := v] | _ \<Rightarrow> by_hash h)"
  using assms
  by (cases l; auto simp: set_entry_def pv_def nx_def ky_def vl_def fun_eq_iff nth_list_update)+

lemma count_update_views [view_simps]:
  "pv (h\<lparr>entries_count := n\<rparr>) = pv h" "nx (h\<lparr>entries_count := n\<rparr>) = nx h"
  "ky (h\<lparr>entries_count := n\<rparr>) = ky h" "vl (h\<lparr>entries_count := n\<rparr>) = vl h"
  by (auto simp: pv_def nx_def ky_def vl_def fun_eq_iff)

section \<open>Well-formed tables and the map they denote\<close>

definition chains_on :: "'v stupid_hash \<Rightarrow> (nat \<Rightarrow> nat list) \<Rightarrow> nat set \<Rightarrow> bool" where
  "chains_on h cs S \<longleftrightarrow> 0 \<notin> S \<and>
     (\<forall>s < NUM_HASH_SLOTS h. seg (pv h) (nx h) 0 (by_hash h ! s) (cs s) 0 \<and> distinct (cs s) \<and>
        (\<forall>x \<in> set (cs s). x \<in> S \<and> hash (NUM_HASH_SLOTS h) (ky h x) = s)) \<and>
     (\<forall>x \<in> S. x \<in> set (cs (hash (NUM_HASH_SLOTS h) (ky h x))))"

definition chains :: "'v stupid_hash \<Rightarrow> (nat \<Rightarrow> nat list) \<Rightarrow> bool" where
  "chains h cs \<longleftrightarrow> chains_on h cs {1..entries_count h}"

definition well_formed :: "'v stupid_hash \<Rightarrow> bool" where
  "well_formed h \<longleftrightarrow>
     0 < NUM_HASH_SLOTS h \<and> length (entries h) < 2 ^ 16 \<and> entries_count h \<le> length (entries h) \<and>
     inj_on (ky h) {1..entries_count h} \<and> (\<exists>cs. chains h cs)"

definition table_map :: "'v stupid_hash \<Rightarrow> uint48 \<Rightarrow> 'v option" where
  "table_map h = map_of (map (\<lambda>e. (key e, val e)) (begin_end h))"

lemma chains_onD:
  assumes "chains_on h cs S" and "s < NUM_HASH_SLOTS h"
  shows "seg (pv h) (nx h) 0 (by_hash h ! s) (cs s) 0" and "distinct (cs s)"
    and "x \<in> set (cs s) \<Longrightarrow> x \<in> S"
    and "x \<in> set (cs s) \<Longrightarrow> hash (NUM_HASH_SLOTS h) (ky h x) = s"
  using assms unfolding chains_on_def by blast+

lemma chains_on_covers:
  "chains_on h cs S \<Longrightarrow> x \<in> S \<Longrightarrow> x \<in> set (cs (hash (NUM_HASH_SLOTS h) (ky h x)))"
  unfolding chains_on_def by blast

lemma chainsD:
  assumes "chains h cs" and "s < NUM_HASH_SLOTS h"
  shows "seg (pv h) (nx h) 0 (by_hash h ! s) (cs s) 0" and "distinct (cs s)"
    and "x \<in> set (cs s) \<Longrightarrow> 0 < x" and "x \<in> set (cs s) \<Longrightarrow> x \<le> entries_count h"
    and "x \<in> set (cs s) \<Longrightarrow> hash (NUM_HASH_SLOTS h) (ky h x) = s"
  using chains_onD [of h cs "{1..entries_count h}" s] assms by (auto simp: chains_def Suc_le_eq)

lemma chains_covers:
  "chains h cs \<Longrightarrow> 0 < x \<Longrightarrow> x \<le> entries_count h \<Longrightarrow> x \<in> set (cs (hash (NUM_HASH_SLOTS h) (ky h x)))"
  unfolding chains_def by (rule chains_on_covers) auto

text \<open>One chain is replaced, the others keep their links and keys.\<close>

lemma chains_on_update:
  assumes C: "chains_on h cs S" and "NUM_HASH_SLOTS h' = NUM_HASH_SLOTS h" and "0 \<notin> S'"
    and other: "\<And>t x. t < NUM_HASH_SLOTS h \<Longrightarrow> t \<noteq> s \<Longrightarrow> x \<in> set (cs t) \<Longrightarrow>
      pv h' x = pv h x \<and> nx h' x = nx h x \<and> ky h' x = ky h x \<and> x \<in> S'"
    and slots: "\<And>t. t \<noteq> s \<Longrightarrow> by_hash h' ! t = by_hash h ! t"
    and "seg (pv h') (nx h') 0 (by_hash h' ! s) xs 0" and "distinct xs"
    and xs: "\<And>x. x \<in> set xs \<Longrightarrow> x \<in> S' \<and> hash (NUM_HASH_SLOTS h) (ky h' x) = s"
    and cover: "\<And>x. x \<in> S' \<Longrightarrow> x \<in> set xs \<or>
      x \<in> S \<and> ky h' x = ky h x \<and> hash (NUM_HASH_SLOTS h) (ky h x) \<noteq> s"
  shows "chains_on h' (cs(s := xs)) S'"
  unfolding chains_on_def assms(2)
proof (intro conjI allI impI ballI)
  show "0 \<notin> S'" by fact
  fix t assume t: "t < NUM_HASH_SLOTS h"
  note ct = chains_onD [OF C t]
  have "seg (pv h') (nx h') 0 (by_hash h ! t) (cs t) 0" if "t \<noteq> s"
    using ct(1) other [OF t that] by (subst seg_cong) auto
  then show "seg (pv h') (nx h') 0 (by_hash h' ! t) ((cs(s := xs)) t) 0"
    using assms(6) slots by auto
  show "distinct ((cs(s := xs)) t)" using ct(2) assms(7) by auto
  fix x assume x: "x \<in> set ((cs(s := xs)) t)"
  show "x \<in> S'" using x xs other [OF t] by (cases "t = s") auto
  show "hash (NUM_HASH_SLOTS h) (ky h' x) = t"
    using x xs other [OF t] ct(4) by (cases "t = s") auto
next
  fix x assume "x \<in> S'"
  then show "x \<in> set ((cs(s := xs)) (hash (NUM_HASH_SLOTS h) (ky h' x)))"
    using cover [of x] xs [of x] chains_on_covers [OF C, of x] by auto
qed

lemma hash_less: "0 < nh \<Longrightarrow> hash nh k < nh"
  by (simp add: hash_def)

lemma well_formedE:
  assumes "well_formed h"
  obtains cs where "chains h cs" and "0 < NUM_HASH_SLOTS h" and "length (entries h) < 2 ^ 16"
    and "entries_count h \<le> length (entries h)" and "inj_on (ky h) {1..entries_count h}"
  using assms unfolding well_formed_def by blast

lemma EntryIdx_id: "n < 2 ^ 16 \<Longrightarrow> EntryIdx n = n"
  by (simp add: EntryIdx_def)

definition kvs :: "'v stupid_hash \<Rightarrow> (uint48 \<times> 'v) list" where
  "kvs h = map (\<lambda>e. (key e, val e)) (begin_end h)"

lemma kvs_facts:
  assumes "well_formed h"
  shows "length (kvs h) = entries_count h" and "distinct (map fst (kvs h))"
    and "i < entries_count h \<Longrightarrow> kvs h ! i = (ky h (Suc i), vl h (Suc i))"
proof -
  have cnt: "entries_count h \<le> length (entries h)" and inj: "inj_on (ky h) {1..entries_count h}"
    using assms by (auto elim: well_formedE)
  have nth: "kvs h ! i = (ky h (Suc i), vl h (Suc i))" if "i < entries_count h" for i
    using that cnt by (simp add: kvs_def begin_end_def ky_def vl_def)
  then show "i < entries_count h \<Longrightarrow> kvs h ! i = (ky h (Suc i), vl h (Suc i))" .
  show len: "length (kvs h) = entries_count h"
    using cnt by (simp add: kvs_def begin_end_def)
  have "inj_on (\<lambda>i. ky h (Suc i)) {..<entries_count h}"
  proof (rule inj_onI)
    fix i j assume "i \<in> {..<entries_count h}" "j \<in> {..<entries_count h}" "ky h (Suc i) = ky h (Suc j)"
    then show "i = j" using inj_onD [OF inj, of "Suc i" "Suc j"] by simp
  qed
  then have "distinct (map (\<lambda>i. ky h (Suc i)) [0..<entries_count h])"
    by (simp add: distinct_map lessThan_atLeast0)
  moreover have "map fst (kvs h) = map (\<lambda>i. ky h (Suc i)) [0..<entries_count h]"
    using nth len by (intro nth_equalityI) auto
  ultimately show "distinct (map fst (kvs h))" by metis
qed

lemma table_map_Some:
  assumes "well_formed h"
  shows "table_map h k = Some v \<longleftrightarrow> (\<exists>x. 0 < x \<and> x \<le> entries_count h \<and> ky h x = k \<and> vl h x = v)"
proof -
  note kvs = kvs_facts [OF assms]
  have "table_map h k = Some v \<longleftrightarrow> (k, v) \<in> set (kvs h)"
    using kvs(2) by (simp only: table_map_def map_of_eq_Some_iff flip: kvs_def)
  also have "\<dots> \<longleftrightarrow> (\<exists>i < entries_count h. ky h (Suc i) = k \<and> vl h (Suc i) = v)"
    unfolding in_set_conv_nth kvs(1) by (intro ex_cong1 conj_cong refl) (simp only: kvs(3) prod.inject)
  also have "\<dots> \<longleftrightarrow> (\<exists>x. 0 < x \<and> x \<le> entries_count h \<and> ky h x = k \<and> vl h x = v)"
    by (rule ex_less_Suc_iff)
  finally show ?thesis .
qed

section \<open>Correctness of the operations\<close>

lemma chain_le_entries:
  "chains h cs \<Longrightarrow> entries_count h \<le> length (entries h) \<Longrightarrow> s < NUM_HASH_SLOTS h \<Longrightarrow>
     x \<in> set (cs s) \<Longrightarrow> 0 < x \<and> x \<le> length (entries h)"
  using chainsD(3,4) [of h cs s x] by linarith

lemma distinct_bounded_length:
  assumes "distinct xs" and "\<And>x. x \<in> set xs \<Longrightarrow> 0 < x \<and> x \<le> (n :: nat)"
  shows "length xs \<le> n"
proof -
  have "set xs \<subseteq> {1..n}" using assms(2) by (intro subsetI) (simp add: Suc_le_eq)
  then have "card (set xs) \<le> n" using card_mono [of "{1..n}" "set xs"] by simp
  then show ?thesis using distinct_card [OF assms(1)] by simp
qed

lemma lookup_walk_found:
  assumes "seg (pv h) (nx h) p i xs 0" and "\<And>y. y \<in> set xs \<Longrightarrow> 0 < y \<and> y \<le> length (entries h)"
    and "length xs < fuel" and "x \<in> set xs" and "ky h x = k"
    and "\<And>y. y \<in> set xs \<Longrightarrow> ky h y = k \<Longrightarrow> y = x"
  shows "\<exists>l p'. lookup_walk fuel h k l0 p i = Some (l, p', x)"
  using assms
proof (induction xs arbitrary: fuel p i l0)
  case (Cons y xs)
  obtain f where f: "fuel = Suc f" using Cons.prems(3) by (cases fuel) simp_all
  have y: "0 < y" "y \<le> length (entries h)" and py: "pv h y = p" "i = y"
    and rest: "seg (pv h) (nx h) y (nx h y) xs 0"
    using Cons.prems(1,2) by auto
  show ?case
  proof (cases "ky h y = k")
    case True
    then have "y = x" using Cons.prems(6) by simp
    with True y py f show ?thesis by (simp add: view_simps nth_views)
  next
    case False
    then have "x \<in> set xs" using Cons.prems(4,5) by auto
    then have "\<exists>l p'. lookup_walk f h k (NextOf y) y (nx h y) = Some (l, p', x)"
      using Cons.prems rest f by (intro Cons.IH) auto
    with False y py f show ?thesis by (simp add: view_simps nth_views)
  qed
qed simp

lemma lookup_walk_absent:
  assumes "seg (pv h) (nx h) p i xs 0" and "\<And>y. y \<in> set xs \<Longrightarrow> 0 < y \<and> y \<le> length (entries h)"
    and "length xs < fuel" and "\<And>y. y \<in> set xs \<Longrightarrow> ky h y \<noteq> k"
  shows "lookup_walk fuel h k l0 p i = Some (if xs = [] then l0 else NextOf (last xs), last (p # xs), 0)"
  using assms
proof (induction xs arbitrary: fuel p i l0)
  case Nil
  then show ?case by (cases fuel) auto
next
  case (Cons y xs)
  obtain f where f: "fuel = Suc f" using Cons.prems(3) by (cases fuel) simp_all
  have y: "0 < y" "y \<le> length (entries h)" and py: "pv h y = p" "i = y" and ky: "ky h y \<noteq> k"
    and rest: "seg (pv h) (nx h) y (nx h y) xs 0"
    using Cons.prems(1,2,4) by auto
  have "lookup_walk f h k (NextOf y) y (nx h y)
      = Some (if xs = [] then NextOf y else NextOf (last xs), last (y # xs), 0)"
    using Cons.prems rest f by (intro Cons.IH) auto
  with y py ky f show ?case by (simp add: view_simps nth_views)
qed

declare lookup_walk.simps [simp del]

text \<open>In a well-formed table the loop never asserts and never runs out of fuel.\<close>

lemma lookup_walk_chain:
  assumes "chains h cs" and "0 < NUM_HASH_SLOTS h" and "entries_count h \<le> length (entries h)"
    and "inj_on (ky h) {1..entries_count h}" and "s = hash (NUM_HASH_SLOTS h) k"
  shows "x \<in> set (cs s) \<Longrightarrow> ky h x = k \<Longrightarrow>
           \<exists>l p. lookup_walk (length (entries h) + 1) h k (HashSlot s) 0 (by_hash h ! s) = Some (l, p, x)"
    and "(\<And>x. x \<in> set (cs s) \<Longrightarrow> ky h x \<noteq> k) \<Longrightarrow>
           lookup_walk (length (entries h) + 1) h k (HashSlot s) 0 (by_hash h ! s)
             = Some (if cs s = [] then HashSlot s else NextOf (last (cs s)), last (0 # cs s), 0)"
proof -
  have s: "s < NUM_HASH_SLOTS h" using assms(2,5) by (simp add: hash_less)
  note c = chainsD [OF assms(1) s]
  have rng: "\<And>y. y \<in> set (cs s) \<Longrightarrow> 0 < y \<and> y \<le> length (entries h)"
    using chain_le_entries [OF assms(1,3) s] .
  have len: "length (cs s) < length (entries h) + 1"
    using distinct_bounded_length [OF c(2), of "length (entries h)"] rng by simp
  have inj: "y = x" if "x \<in> set (cs s)" "ky h x = k" "y \<in> set (cs s)" "ky h y = k" for x y
  proof (rule inj_onD [OF assms(4)])
    show "ky h y = ky h x" using that by simp
    show "y \<in> {1..entries_count h}" "x \<in> {1..entries_count h}"
      using that c(3,4) by (auto simp: Suc_le_eq)
  qed
  show "x \<in> set (cs s) \<Longrightarrow> ky h x = k \<Longrightarrow>
      \<exists>l p. lookup_walk (length (entries h) + 1) h k (HashSlot s) 0 (by_hash h ! s) = Some (l, p, x)"
    using lookup_walk_found [OF c(1) rng len] inj by blast
  show "(\<And>x. x \<in> set (cs s) \<Longrightarrow> ky h x \<noteq> k) \<Longrightarrow>
      lookup_walk (length (entries h) + 1) h k (HashSlot s) 0 (by_hash h ! s)
        = Some (if cs s = [] then HashSlot s else NextOf (last (cs s)), last (0 # cs s), 0)"
    by (rule lookup_walk_absent [OF c(1) rng len])
qed

lemma table_map_None_iff:
  "well_formed h \<Longrightarrow> table_map h k = None \<longleftrightarrow> (\<forall>x. 0 < x \<and> x \<le> entries_count h \<longrightarrow> ky h x \<noteq> k)"
  using table_map_Some [of h k] by (metis not_Some_eq)

lemma lookup_present:
  assumes "well_formed h" and "table_map h k = Some v"
  shows "\<exists>x. lookup h k ins = Some (h, x, True) \<and> 0 < x \<and> x \<le> entries_count h \<and> ky h x = k \<and> vl h x = v"
proof -
  obtain cs where cs: "chains h cs" "0 < NUM_HASH_SLOTS h" "entries_count h \<le> length (entries h)"
    "inj_on (ky h) {1..entries_count h}"
    using assms(1) by (rule well_formedE)
  obtain x where x: "0 < x" "x \<le> entries_count h" "ky h x = k" "vl h x = v"
    using assms by (auto simp: table_map_Some)
  then have "x \<in> set (cs (hash (NUM_HASH_SLOTS h) k))"
    using chains_covers [OF cs(1)] by blast
  from lookup_walk_chain(1) [OF cs refl this x(3)] x show ?thesis
    by (auto simp: lookup_def Let_def)
qed

lemma lookup_absent:
  assumes "well_formed h" and "table_map h k = None"
  shows "lookup h k False = Some (h, 0, False)"
proof -
  obtain cs where cs: "chains h cs" "0 < NUM_HASH_SLOTS h" "entries_count h \<le> length (entries h)"
    "inj_on (ky h) {1..entries_count h}"
    using assms(1) by (rule well_formedE)
  have "\<And>x. x \<in> set (cs (hash (NUM_HASH_SLOTS h) k)) \<Longrightarrow> ky h x \<noteq> k"
    using assms chainsD(3,4) [OF cs(1) hash_less [OF cs(2)]] by (auto simp: table_map_None_iff)
  from lookup_walk_chain(2) [OF cs refl this] show ?thesis
    by (simp add: lookup_def Let_def)
qed

lemma lookup_full:
  assumes "well_formed h" and "table_map h k = None" and "entries_count h = length (entries h)"
  shows "lookup h k True = Some (h, 0, False)"
proof -
  obtain cs where cs: "chains h cs" "0 < NUM_HASH_SLOTS h" "entries_count h \<le> length (entries h)"
    "inj_on (ky h) {1..entries_count h}"
    using assms(1) by (rule well_formedE)
  have "\<And>x. x \<in> set (cs (hash (NUM_HASH_SLOTS h) k)) \<Longrightarrow> ky h x \<noteq> k"
    using assms chainsD(3,4) [OF cs(1) hash_less [OF cs(2)]] by (auto simp: table_map_None_iff)
  from lookup_walk_chain(2) [OF cs refl this] assms(3) show ?thesis
    by (simp add: lookup_def Let_def try_alloc_entry_idx_def)
qed


definition ent :: "'v stupid_hash \<Rightarrow> nat \<Rightarrow> 'v entry" where
  "ent h i = \<lparr>prev = pv h i, next = nx h i, key = ky h i, val = vl h i\<rparr>"

lemma ent_sel [simp]:
  "prev (ent h i) = pv h i" "next (ent h i) = nx h i" "key (ent h i) = ky h i" "val (ent h i) = vl h i"
  by (simp_all add: ent_def)

lemma entry_at_idx_ent:
  "0 < i \<Longrightarrow> i \<le> length (entries h) \<Longrightarrow> entry_at_idx h i = Some (ent h i)"
  by (simp add: entry_at_idx_def ent_def pv_def nx_def ky_def vl_def)

lemma NUM_HASH_SLOTS_frame [simp]:
  "NUM_HASH_SLOTS (set_entry h i e) = NUM_HASH_SLOTS h"
  "NUM_HASH_SLOTS (store_link h l v) = NUM_HASH_SLOTS h"
  "NUM_HASH_SLOTS (h\<lparr>entries_count := n\<rparr>) = NUM_HASH_SLOTS h"
  by (simp_all add: NUM_HASH_SLOTS_def view_simps)

lemma store_opt_frame [view_simps]:
  "length (entries (store_opt h p v)) = length (entries h)"
  "entries_count (store_opt h p v) = entries_count h"
  "NUM_HASH_SLOTS (store_opt h p v) = NUM_HASH_SLOTS h"
  by (simp_all add: store_opt_def view_simps split: option.split)

text \<open>The link that points at entry \<open>x\<close>, whose chain is \<open>ys @ x # zs\<close>, and the one that points back.\<close>

definition in_link :: "nat \<Rightarrow> nat list \<Rightarrow> link" where
  "in_link s ys = (if ys = [] then HashSlot s else NextOf (last ys))"

definition back_link :: "nat list \<Rightarrow> link option" where
  "back_link zs = (if zs = [] then None else Some (PrevOf (hd zs)))"

lemma seg_at:
  assumes "seg pf nf 0 i (ys @ x # zs) 0"
  shows "pf x = last (0 # ys)" and "nf x = (if zs = [] then 0 else hd zs)"
  using assms seg_head [of pf nf x "nf x" zs] by (auto simp: seg_append)

lemma prevs_next_in_link:
  assumes "seg (pv h) (nx h) 0 i (ys @ x # zs) 0" and "\<And>y. y \<in> set ys \<Longrightarrow> y \<le> length (entries h)"
    and "prev e = pv h x" and "key e = ky h x" and "hash (NUM_HASH_SLOTS h) (ky h x) = s"
  shows "prevs_next h e = Some (in_link s ys)"
proof (cases "ys = []")
  case True
  with assms show ?thesis by (simp add: prevs_next_def in_link_def)
next
  case False
  then have l: "last ys \<in> set ys" by simp
  then have "0 < last ys" using seg_pos [OF assms(1)] by simp
  with False l assms seg_at(1) [OF assms(1)] show ?thesis
    by (simp add: prevs_next_def in_link_def entry_at_idx_ent)
qed

lemma nexts_prev_back_link:
  assumes "seg pf nf 0 i (ys @ x # zs) 0" and "\<And>y. y \<in> set zs \<Longrightarrow> y \<le> length (entries h)"
    and "next e = nf x"
  shows "nexts_prev h e = Some (back_link zs)"
proof (cases "zs = []")
  case True
  with assms seg_at(2) [OF assms(1)] show ?thesis by (simp add: nexts_prev_def back_link_def)
next
  case False
  then have l: "hd zs \<in> set zs" by simp
  then have "0 < hd zs" using seg_pos [OF assms(1)] by simp
  with False l assms seg_at(2) [OF assms(1)] show ?thesis
    by (simp add: nexts_prev_def back_link_def entry_at_idx_ent)
qed

lemma in_link_views:
  assumes "\<And>y. y \<in> set ys \<Longrightarrow> 0 < y \<and> y \<le> length (entries h)"
  shows "nx (store_link h (in_link s ys) v) = (if ys = [] then nx h else (nx h)(last ys := v))"
    and "pv (store_link h (in_link s ys) v) = pv h" and "ky (store_link h (in_link s ys) v) = ky h"
    and "0 < j \<Longrightarrow> vl (store_link h (in_link s ys) v) j = vl h j"
    and "by_hash (store_link h (in_link s ys) v) = (if ys = [] then (by_hash h)[s := v] else by_hash h)"
proof -
  have r: "in_range h (in_link s ys)" using assms by (simp add: in_link_def)
  show "nx (store_link h (in_link s ys) v) = (if ys = [] then nx h else (nx h)(last ys := v))"
    "pv (store_link h (in_link s ys) v) = pv h" "ky (store_link h (in_link s ys) v) = ky h"
    "0 < j \<Longrightarrow> vl (store_link h (in_link s ys) v) j = vl h j"
    "by_hash (store_link h (in_link s ys) v) = (if ys = [] then (by_hash h)[s := v] else by_hash h)"
    unfolding store_link_views [OF r] by (simp_all add: in_link_def store_link_views [OF r])
qed

lemma back_link_views:
  assumes "\<And>y. y \<in> set zs \<Longrightarrow> 0 < y \<and> y \<le> length (entries h)"
  shows "pv (store_opt h (back_link zs) v) = (if zs = [] then pv h else (pv h)(hd zs := v))"
    and "nx (store_opt h (back_link zs) v) = nx h" and "ky (store_opt h (back_link zs) v) = ky h"
    and "0 < j \<Longrightarrow> vl (store_opt h (back_link zs) v) j = vl h j"
    and "by_hash (store_opt h (back_link zs) v) = by_hash h"
proof -
  have r: "zs \<noteq> [] \<Longrightarrow> in_range h (PrevOf (hd zs))" using assms by simp
  show "pv (store_opt h (back_link zs) v) = (if zs = [] then pv h else (pv h)(hd zs := v))"
    "nx (store_opt h (back_link zs) v) = nx h" "ky (store_opt h (back_link zs) v) = ky h"
    "0 < j \<Longrightarrow> vl (store_opt h (back_link zs) v) j = vl h j"
    "by_hash (store_opt h (back_link zs) v) = by_hash h"
    using store_link_views [OF r] by (cases "zs = []"; simp add: back_link_def store_opt_def)+
qed


lemma chain_split:
  assumes "chains_on h cs S" and "S \<subseteq> {1..length (entries h)}" and "0 < NUM_HASH_SLOTS h" and "x \<in> S"
    and "s = hash (NUM_HASH_SLOTS h) (ky h x)"
  obtains ys zs where "cs s = ys @ x # zs" and "s < NUM_HASH_SLOTS h"
    and "seg (pv h) (nx h) 0 (by_hash h ! s) (ys @ x # zs) 0" and "distinct (ys @ x # zs)"
    and "\<And>y. y \<in> set (ys @ x # zs) \<Longrightarrow> 0 < y \<and> y \<le> length (entries h)"
    and "\<And>y. y \<in> set (ys @ x # zs) \<Longrightarrow> y \<in> S \<and> hash (NUM_HASH_SLOTS h) (ky h y) = s"
proof -
  have s: "s < NUM_HASH_SLOTS h" using assms(3,5) by (simp add: hash_less)
  have "x \<in> set (cs s)" using chains_on_covers [OF assms(1,4)] assms(5) by simp
  then obtain ys zs where yz: "cs s = ys @ x # zs" by (meson split_list)
  have in_S: "y \<in> S \<and> hash (NUM_HASH_SLOTS h) (ky h y) = s" if "y \<in> set (ys @ x # zs)" for y
    using chains_onD(3,4) [OF assms(1) s, of y] that yz by simp
  have "0 < y \<and> y \<le> length (entries h)" if "y \<in> set (ys @ x # zs)" for y
    using in_S [OF that] assms(2) by (auto simp: Suc_le_eq)
  with in_S show thesis
    using chains_onD(1,2) [OF assms(1) s] yz s that by metis
qed

lemma by_hash_nth [simp]: "s < NUM_HASH_SLOTS h \<Longrightarrow> (by_hash h)[s := v] ! s = v"
  by (simp add: NUM_HASH_SLOTS_def)

lemma disjoint_chain:
  assumes "chains_on h cs S" and "t < NUM_HASH_SLOTS h" and "t \<noteq> s" and "y \<in> set (cs t)"
    and "\<And>z. z \<in> set xs \<Longrightarrow> hash (NUM_HASH_SLOTS h) (ky h z) = s"
  shows "y \<notin> set xs"
  using chains_onD(4) [OF assms(1,2,4)] assms(3,5) by blast

definition frame :: "'v stupid_hash \<Rightarrow> 'v stupid_hash \<Rightarrow> bool" where
  "frame h h' \<longleftrightarrow> length (entries h') = length (entries h) \<and> NUM_HASH_SLOTS h' = NUM_HASH_SLOTS h"

lemma unlink_entry_correct:
  assumes C: "chains_on h cs S" and S: "S \<subseteq> {1..length (entries h)}" and nh: "0 < NUM_HASH_SLOTS h"
    and x: "x \<in> S"
  shows "\<exists>h' cs'. unlink_entry h x = Some h' \<and> chains_on h' cs' (S - {x}) \<and> ky h' = ky h \<and>
           (\<forall>j > 0. vl h' j = vl h j) \<and> frame h h' \<and> entries_count h' = entries_count h"
proof -
  define s where "s = hash (NUM_HASH_SLOTS h) (ky h x)"
  obtain ys zs where yz: "cs s = ys @ x # zs" and s: "s < NUM_HASH_SLOTS h"
    and sg: "seg (pv h) (nx h) 0 (by_hash h ! s) (ys @ x # zs) 0" and d: "distinct (ys @ x # zs)"
    and rng: "\<And>y. y \<in> set (ys @ x # zs) \<Longrightarrow> 0 < y \<and> y \<le> length (entries h)"
    and inS: "\<And>y. y \<in> set (ys @ x # zs) \<Longrightarrow> y \<in> S \<and> hash (NUM_HASH_SLOTS h) (ky h y) = s"
    using chain_split [OF C S nh x s_def] by blast
  define h1 where "h1 = store_link h (in_link s ys) (nx h x)"
  define h' where "h' = store_opt h1 (back_link zs) (pv h x)"
  have ysr: "\<And>y. y \<in> set ys \<Longrightarrow> 0 < y \<and> y \<le> length (entries h)"
    and zsr: "\<And>y. y \<in> set zs \<Longrightarrow> 0 < y \<and> y \<le> length (entries h1)"
    using rng by (auto simp: h1_def view_simps)
  note v1 = in_link_views [where ys = ys and h = h and s = s and v = "nx h x", OF ysr, folded h1_def]
  note v2 = back_link_views [where zs = zs and h = h1 and v = "pv h x", OF zsr, folded h'_def]
  have len1: "length (entries h1) = length (entries h)" by (simp add: h1_def view_simps)
  have x1: "entry_at_idx h x = Some (ent h x)" "entry_at_idx h1 x = Some (ent h1 x)"
    using rng [of x] len1 by (auto intro!: entry_at_idx_ent)
  have nxx: "nx h1 x = nx h x" using v1(1) d by (auto dest: last_in_set)
  have pn: "prevs_next h (ent h x) = Some (in_link s ys)"
    using ysr sg s_def by (intro prevs_next_in_link) auto
  have np: "nexts_prev h1 (ent h1 x) = Some (back_link zs)"
    using zsr nxx by (intro nexts_prev_back_link [OF sg]) auto
  have res: "unlink_entry h x = Some h'"
    by (simp add: unlink_entry_def x1 pn np Let_def h1_def [symmetric] h'_def)
  have bh: "by_hash h' = (if ys = [] then (by_hash h)[s := nx h x] else by_hash h)"
    using v1(5) v2(5) by simp
  have kyh: "ky h' = ky h" using v1(3) v2(3) by simp
  have "chains_on h' (cs(s := ys @ zs)) (S - {x})"
  proof (rule chains_on_update [OF C])
    show "NUM_HASH_SLOTS h' = NUM_HASH_SLOTS h" by (simp add: h'_def h1_def view_simps)
    show "0 \<notin> S - {x}" using S by auto
    show "seg (pv h') (nx h') 0 (by_hash h' ! s) (ys @ zs) 0"
      using seg_unlink [OF sg d] v1(1,2) v2(1,2) bh s by (simp split: if_splits)
    show "distinct (ys @ zs)" using d by simp
    show "by_hash h' ! t = by_hash h ! t" if "t \<noteq> s" for t using bh that by simp
    show "pv h' y = pv h y \<and> nx h' y = nx h y \<and> ky h' y = ky h y \<and> y \<in> S - {x}"
      if "t < NUM_HASH_SLOTS h" "t \<noteq> s" "y \<in> set (cs t)" for t y
    proof -
      have y: "y \<notin> set (ys @ x # zs)"
        by (rule disjoint_chain [OF C that]) (use inS in blast)
      then have "ys \<noteq> [] \<Longrightarrow> y \<noteq> last ys" "zs \<noteq> [] \<Longrightarrow> y \<noteq> hd zs" by auto
      with y show ?thesis
        using chains_onD(3) [OF C that(1,3)] by (simp add: v1(1,2,3) v2(1,2,3))
    qed
    show "y \<in> S - {x} \<and> hash (NUM_HASH_SLOTS h) (ky h' y) = s" if "y \<in> set (ys @ zs)" for y
      using that inS [of y] d kyh by auto
    show "y \<in> set (ys @ zs) \<or> y \<in> S \<and> ky h' y = ky h y \<and> hash (NUM_HASH_SLOTS h) (ky h y) \<noteq> s"
      if "y \<in> S - {x}" for y
      using that chains_on_covers [OF C, of y] yz kyh by auto
  qed
  moreover have "frame h h'" "entries_count h' = entries_count h"
    by (simp_all add: frame_def h'_def h1_def view_simps)
  ultimately show ?thesis using res v1(3,4) v2(3,4) by metis
qed


lemma move_entry_correct:
  assumes C: "chains_on h cs S" and S: "S \<subseteq> {1..length (entries h)}" and nh: "0 < NUM_HASH_SLOTS h"
    and v: "v \<in> S" and x: "x \<notin> S" "0 < x" "x \<le> length (entries h)"
  shows "\<exists>h' cs'. move_entry h v x = Some h' \<and> chains_on h' cs' (insert x (S - {v})) \<and>
           ky h' = (ky h)(x := ky h v) \<and> (\<forall>j > 0. vl h' j = (if j = x then vl h v else vl h j)) \<and>
           frame h h' \<and> entries_count h' = entries_count h"
proof -
  define s where "s = hash (NUM_HASH_SLOTS h) (ky h v)"
  obtain ys zs where yz: "cs s = ys @ v # zs" and s: "s < NUM_HASH_SLOTS h"
    and sg: "seg (pv h) (nx h) 0 (by_hash h ! s) (ys @ v # zs) 0" and d: "distinct (ys @ v # zs)"
    and rng: "\<And>y. y \<in> set (ys @ v # zs) \<Longrightarrow> 0 < y \<and> y \<le> length (entries h)"
    and inS: "\<And>y. y \<in> set (ys @ v # zs) \<Longrightarrow> y \<in> S \<and> hash (NUM_HASH_SLOTS h) (ky h y) = s"
    using chain_split [OF C S nh v s_def] by blast
  define h1 where "h1 = set_entry h x (ent h v)"
  define h2 where "h2 = store_link h1 (in_link s ys) x"
  define h' where "h' = store_opt h2 (back_link zs) x"
  have xf: "x \<notin> set (ys @ v # zs)" using inS x(1) by blast
  have v0: "pv h1 = (pv h)(x := pv h v)" "nx h1 = (nx h)(x := nx h v)" "ky h1 = (ky h)(x := ky h v)"
    "\<And>j. 0 < j \<Longrightarrow> vl h1 j = (if j = x then vl h v else vl h j)" "by_hash h1 = by_hash h"
    "length (entries h1) = length (entries h)" "NUM_HASH_SLOTS h1 = NUM_HASH_SLOTS h"
    using x(2,3) by (simp_all add: h1_def set_entry_views set_entry_frame)
  have ysr: "\<And>y. y \<in> set ys \<Longrightarrow> 0 < y \<and> y \<le> length (entries h1)"
    and zsr: "\<And>y. y \<in> set zs \<Longrightarrow> 0 < y \<and> y \<le> length (entries h2)"
    using rng v0(6) by (auto simp: h2_def view_simps)
  note v1 = in_link_views [where ys = ys and h = h1 and s = s and v = x, OF ysr, folded h2_def]
  note v2 = back_link_views [where zs = zs and h = h2 and v = x, OF zsr, folded h'_def]
  have len2: "length (entries h2) = length (entries h)" by (simp add: h2_def view_simps v0(6))
  have at: "entry_at_idx h v = Some (ent h v)" "entry_at_idx h x = Some (ent h x)"
    "entry_at_idx h1 v = Some (ent h1 v)" "entry_at_idx h2 v = Some (ent h2 v)"
    using rng [of v] len2 v0(6) x by (auto intro!: entry_at_idx_ent)
  have sg1: "seg (pv h1) (nx h1) 0 (by_hash h ! s) (ys @ v # zs) 0"
    unfolding v0 seg_fresh [OF xf] by (rule sg)
  have vx: "v \<noteq> x" using v x(1) by blast
  have nxv: "nx h2 v = nx h1 v" using v1(1) d by (auto dest: last_in_set)
  have pn: "prevs_next h1 (ent h1 v) = Some (in_link s ys)"
    using ysr sg1 s_def v0(3,7) vx by (intro prevs_next_in_link) auto
  have np: "nexts_prev h2 (ent h2 v) = Some (back_link zs)"
    using zsr nxv by (intro nexts_prev_back_link [OF sg1]) auto
  have res: "move_entry h v x = Some h'"
    by (simp add: move_entry_def at pn np Let_def h1_def [symmetric] h2_def [symmetric] h'_def)
  have bh: "by_hash h' = (if ys = [] then (by_hash h)[s := x] else by_hash h)"
    using v0(5) v1(5) v2(5) by simp
  have kyh: "ky h' = (ky h)(x := ky h v)" using v0(3) v1(3) v2(3) by simp
  have pvh: "pv h' = (if zs = [] then (pv h)(x := pv h v) else (pv h)(x := pv h v, hd zs := x))"
    and nxh: "nx h' = (if ys = [] then (nx h)(x := nx h v) else (nx h)(x := nx h v, last ys := x))"
    using v0(1,2) v1(1,2) v2(1,2) by simp_all
  have "chains_on h' (cs(s := ys @ x # zs)) (insert x (S - {v}))"
  proof (rule chains_on_update [OF C])
    show "NUM_HASH_SLOTS h' = NUM_HASH_SLOTS h" by (simp add: h'_def h2_def view_simps v0(7))
    show "0 \<notin> insert x (S - {v})" using S x(2) by auto
    show "seg (pv h') (nx h') 0 (by_hash h' ! s) (ys @ x # zs) 0"
      using seg_rename [OF sg d xf x(2) pvh nxh] bh s by (simp split: if_splits)
    show "distinct (ys @ x # zs)" using d xf by simp
    show "by_hash h' ! t = by_hash h ! t" if "t \<noteq> s" for t using bh that by simp
    show "pv h' y = pv h y \<and> nx h' y = nx h y \<and> ky h' y = ky h y \<and> y \<in> insert x (S - {v})"
      if "t < NUM_HASH_SLOTS h" "t \<noteq> s" "y \<in> set (cs t)" for t y
    proof -
      have y: "y \<notin> set (ys @ v # zs)"
        by (rule disjoint_chain [OF C that]) (use inS in blast)
      then have "ys \<noteq> [] \<Longrightarrow> y \<noteq> last ys" "zs \<noteq> [] \<Longrightarrow> y \<noteq> hd zs" by auto
      moreover have "y \<in> S" using chains_onD(3) [OF C that(1,3)] .
      ultimately show ?thesis using x(1) y by (auto simp: pvh nxh kyh)
    qed
    show "y \<in> insert x (S - {v}) \<and> hash (NUM_HASH_SLOTS h) (ky h' y) = s"
      if "y \<in> set (ys @ x # zs)" for y
    proof (cases "y = x")
      case False
      then have "y \<in> set ys \<or> y \<in> set zs" using that by auto
      with False inS [of y] d show ?thesis by (auto simp: kyh)
    qed (simp add: kyh s_def)
    show "y \<in> set (ys @ x # zs) \<or> y \<in> S \<and> ky h' y = ky h y \<and> hash (NUM_HASH_SLOTS h) (ky h y) \<noteq> s"
      if "y \<in> insert x (S - {v})" for y
      using that chains_on_covers [OF C, of y] yz kyh by auto
  qed
  moreover have "frame h h'" "entries_count h' = entries_count h"
    by (simp_all add: frame_def h'_def h2_def h1_def view_simps)
  moreover have "\<forall>j > 0. vl h' j = (if j = x then vl h v else vl h j)"
    using v0(4) v1(4) v2(4) by simp
  ultimately show ?thesis using res kyh by blast
qed

lemma insert_correct:
  assumes wf: "well_formed h" and absent: "table_map h k = None"
    and room: "entries_count h < length (entries h)"
  shows "\<exists>h'. lookup h k True = Some (h', entries_count h + 1, False) \<and> well_formed h' \<and>
           entries_count h' = entries_count h + 1 \<and> ky h' = (ky h)(entries_count h + 1 := k) \<and>
           (\<forall>j > 0. vl h' j = vl h j) \<and> frame h h'"
proof -
  obtain cs where C: "chains h cs" and nh: "0 < NUM_HASH_SLOTS h" and le: "entries_count h \<le> length (entries h)"
    and inj: "inj_on (ky h) {1..entries_count h}" and small: "length (entries h) < 2 ^ 16"
    using wf by (rule well_formedE)
  define s where "s = hash (NUM_HASH_SLOTS h) k"
  define m where "m = entries_count h + 1"
  have s: "s < NUM_HASH_SLOTS h" using nh by (simp add: s_def hash_less)
  note c = chainsD [OF C s]
  have rng: "\<And>y. y \<in> set (cs s) \<Longrightarrow> 0 < y \<and> y \<le> length (entries h)"
    using chain_le_entries [OF C le s] .
  have no: "\<And>y. y \<in> set (cs s) \<Longrightarrow> ky h y \<noteq> k"
    using absent c(3,4) by (simp add: table_map_None_iff [OF wf])
  define h1 where "h1 = h\<lparr>entries_count := m\<rparr>"
  define h2 where "h2 = store_link h1 (in_link s (cs s)) m"
  define h' where "h' = set_entry h2 m ((ent h2 m)\<lparr>prev := last (0 # cs s), next := 0, key := k\<rparr>)"
  have v0: "pv h1 = pv h" "nx h1 = nx h" "ky h1 = ky h" "vl h1 = vl h" "by_hash h1 = by_hash h"
    "length (entries h1) = length (entries h)"
    by (simp_all add: h1_def count_update_views)
  have "\<And>y. y \<in> set (cs s) \<Longrightarrow> 0 < y \<and> y \<le> length (entries h1)" using rng v0(6) by simp
  note v1 = in_link_views [where ys = "cs s" and h = h1 and s = s and v = m, OF this, folded h2_def]
  have m: "0 < m" "m \<le> length (entries h2)" "m \<notin> set (cs s)"
    using room c(4) [of m] by (auto simp: m_def h2_def view_simps v0(6))
  note v2 = set_entry_views [where e = "(ent h2 m)\<lparr>prev := last (0 # cs s), next := 0, key := k\<rparr>",
      OF m(1,2), folded h'_def]
  have walk: "lookup_walk (length (entries h) + 1) h k (HashSlot s) 0 (by_hash h ! s)
      = Some (in_link s (cs s), last (0 # cs s), 0)"
    using lookup_walk_chain(2) [OF C nh le inj s_def no] by (simp add: in_link_def)
  have alloc: "try_alloc_entry_idx h = (m, h1)"
    using room small by (simp add: try_alloc_entry_idx_def h1_def m_def EntryIdx_id)
  have res: "lookup h k True = Some (h', m, False)"
    using walk m by (simp add: lookup_def Let_def s_def [symmetric] alloc h2_def [symmetric]
        entry_at_idx_ent h'_def)
  have pvh: "pv h' = (pv h)(m := last (0 # cs s))" and kyh: "ky h' = (ky h)(m := k)"
    and nxh: "nx h' = (if cs s = [] then nx h else (nx h)(last (cs s) := m))(m := 0)"
    and vlh: "\<forall>j > 0. vl h' j = vl h j"
    and bh: "by_hash h' = (if cs s = [] then (by_hash h)[s := m] else by_hash h)"
    using v0 v1 v2 by (simp_all add: h'_def set_entry_frame)
  have cnt: "entries_count h' = m" and fr: "frame h h'"
    by (simp_all add: h'_def h2_def h1_def view_simps frame_def)
  have S: "{1..m} = insert m {1..entries_count h}" by (auto simp: m_def)
  have "chains_on h' (cs(s := cs s @ [m])) (insert m {1..entries_count h})"
  proof (rule chains_on_update [OF C [unfolded chains_def]])
    show "NUM_HASH_SLOTS h' = NUM_HASH_SLOTS h" using fr by (simp add: frame_def)
    show "0 \<notin> insert m {1..entries_count h}" using m by auto
    show "seg (pv h') (nx h') 0 (by_hash h' ! s) (cs s @ [m]) 0"
      using seg_snoc [OF c(1,2) m(3,1)] bh s by (simp add: pvh nxh split: if_splits)
    show "distinct (cs s @ [m])" using c(2) m(3) by simp
    show "by_hash h' ! t = by_hash h ! t" if "t \<noteq> s" for t using bh that by simp
    show "pv h' y = pv h y \<and> nx h' y = nx h y \<and> ky h' y = ky h y \<and> y \<in> insert m {1..entries_count h}"
      if "t < NUM_HASH_SLOTS h" "t \<noteq> s" "y \<in> set (cs t)" for t y
    proof -
      have y: "y \<notin> set (cs s)"
        by (rule disjoint_chain [OF C [unfolded chains_def] that]) (use c(5) in blast)
      then have "cs s \<noteq> [] \<Longrightarrow> y \<noteq> last (cs s)" by auto
      moreover have "0 < y" "y \<le> entries_count h" using chainsD(3,4) [OF C that(1,3)] .
      ultimately show ?thesis using m by (auto simp: pvh nxh kyh m_def)
    qed
    show "y \<in> insert m {1..entries_count h} \<and> hash (NUM_HASH_SLOTS h) (ky h' y) = s"
      if "y \<in> set (cs s @ [m])" for y
      using that c(3,4,5) [of y] m by (auto simp: kyh s_def Suc_le_eq)
    show "y \<in> set (cs s @ [m]) \<or> y \<in> {1..entries_count h} \<and> ky h' y = ky h y \<and>
        hash (NUM_HASH_SLOTS h) (ky h y) \<noteq> s"
      if "y \<in> insert m {1..entries_count h}" for y
      using that chains_covers [OF C, of y] by (auto simp: kyh)
  qed
  then have ch: "chains h' (cs(s := cs s @ [m]))" by (simp only: chains_def cnt S)
  have "inj_on (ky h') (insert m {1..entries_count h})"
  proof (rule inj_onI)
    fix i j assume "i \<in> insert m {1..entries_count h}" "j \<in> insert m {1..entries_count h}" "ky h' i = ky h' j"
    then show "i = j"
      using inj_onD [OF inj, of i j] absent by (auto simp: kyh table_map_None_iff [OF wf] Suc_le_eq split: if_splits)
  qed
  then have "well_formed h'"
    using ch nh small room fr m unfolding well_formed_def cnt S by (auto simp: m_def frame_def)
  with res kyh vlh cnt fr show ?thesis unfolding m_def by metis
qed


lemma remove_correct:
  assumes wf: "well_formed h" and x: "0 < x" "x \<le> entries_count h"
  shows "\<exists>h'. remove h x = Some h' \<and> well_formed h' \<and> entries_count h' = entries_count h - 1 \<and>
           table_map h' = (table_map h)(ky h x := None) \<and> frame h h'"
proof -
  let ?n = "entries_count h"
  obtain cs where C: "chains h cs" and nh: "0 < NUM_HASH_SLOTS h" and le: "?n \<le> length (entries h)"
    and inj: "inj_on (ky h) {1..?n}" and small: "length (entries h) < 2 ^ 16"
    using wf by (rule well_formedE)
  have xS: "x \<in> {1..?n}" using x by auto
  obtain h1 cs1 where u: "unlink_entry h x = Some h1" "chains_on h1 cs1 ({1..?n} - {x})"
    "ky h1 = ky h" "\<forall>j > 0. vl h1 j = vl h j" "frame h h1" "entries_count h1 = ?n"
    using unlink_entry_correct [OF C [unfolded chains_def] _ nh xS] le by auto
  define h2 where "h2 = h1\<lparr>entries_count := ?n - 1\<rparr>"
  have h2: "chains_on h2 cs1 ({1..?n} - {x})" "ky h2 = ky h" "\<forall>j > 0. vl h2 j = vl h j" "frame h h2"
    "entries_count h2 = ?n - 1"
    using u(2-5) by (simp_all add: h2_def chains_on_def count_update_views frame_def)
  have idx: "entry_to_idx h x = Some x" "EntryIdx ?n = ?n"
    using x le small by (simp_all add: entry_to_idx_def EntryIdx_id)
  have ex: "\<exists>h' cs'. remove h x = Some h' \<and> chains_on h' cs' {1..?n - 1} \<and>
      ky h' = (ky h)(x := ky h ?n) \<and> (\<forall>j > 0. vl h' j = (if j = x then vl h ?n else vl h j)) \<and>
      frame h h' \<and> entries_count h' = ?n - 1"
  proof (cases "?n = x")
    case True
    have "{1..?n} - {x} = {1..?n - 1}" using True x by auto
    moreover have "remove h x = Some h2"
      using x True idx u by (simp add: remove_def Let_def h2_def)
    ultimately show ?thesis using h2 True by (intro exI [of _ h2] exI [of _ cs1]) auto
  next
    case False
    have sub: "{1..?n} - {x} \<subseteq> {1..length (entries h2)}"
      using le h2(4) by (auto simp: frame_def)
    have nh2: "0 < NUM_HASH_SLOTS h2" using nh h2(4) by (simp add: frame_def)
    have n: "?n \<in> {1..?n} - {x}" "x \<notin> {1..?n} - {x}" "x \<le> length (entries h2)"
      using False x le h2(4) by (auto simp: frame_def)
    obtain h' cs' where m: "move_entry h2 ?n x = Some h'"
      "chains_on h' cs' (insert x ({1..?n} - {x} - {?n}))" "ky h' = (ky h2)(x := ky h2 ?n)"
      "\<forall>j > 0. vl h' j = (if j = x then vl h2 ?n else vl h2 j)" "frame h2 h'"
      "entries_count h' = entries_count h2"
      using move_entry_correct [OF h2(1) sub nh2 n(1,2) x(1) n(3)] by blast
    have "insert x ({1..?n} - {x} - {?n}) = {1..?n - 1}" using x False by auto
    moreover have "remove h x = Some h'"
      using x False idx u m(1) by (simp add: remove_def Let_def h2_def)
    ultimately show ?thesis
      using m h2 x by (intro exI [of _ h'] exI [of _ cs']) (auto simp: frame_def)
  qed
  then obtain h' cs' where r: "remove h x = Some h'" "chains_on h' cs' {1..?n - 1}"
    "ky h' = (ky h)(x := ky h ?n)" "\<forall>j > 0. vl h' j = (if j = x then vl h ?n else vl h j)"
    "frame h h'" "entries_count h' = ?n - 1"
    by blast
  have inj': "inj_on (ky h') {1..?n - 1}"
  proof (rule inj_onI)
    fix i j assume ij: "i \<in> {1..?n - 1}" "j \<in> {1..?n - 1}" and "ky h' i = ky h' j"
    moreover have "0 < i" "i < ?n" "0 < j" "j < ?n" using ij by auto
    ultimately show "i = j"
      using inj_onD [OF inj, of "if i = x then ?n else i" "if j = x then ?n else j"] x
      by (auto simp: r(3) split: if_splits)
  qed
  have wf': "well_formed h'"
    using r inj' nh small le unfolding well_formed_def chains_def by (auto simp: frame_def)
  have "table_map h' k = Some v \<longleftrightarrow> ((table_map h)(ky h x := None)) k = Some v" for k v
  proof -
    have "table_map h' k = Some v \<longleftrightarrow>
        (\<exists>y. 0 < y \<and> y \<le> ?n - 1 \<and> ky h' y = k \<and> vl h' y = v)"
      using table_map_Some [OF wf'] r(6) by simp
    also have "\<dots> \<longleftrightarrow> (\<exists>y. 0 < y \<and> y \<le> ?n \<and> y \<noteq> x \<and> ky h y = k \<and> vl h y = v)" (is "?L \<longleftrightarrow> ?R")
    proof
      assume ?L
      then obtain y where y: "0 < y" "y \<le> ?n - 1" "ky h' y = k" "vl h' y = v" by blast
      then show ?R using r(3,4) x
        by (intro exI [of _ "if y = x then ?n else y"]) (auto split: if_splits)
    next
      assume ?R
      then obtain y where "0 < y" "y \<le> ?n" "y \<noteq> x" "ky h y = k" "vl h y = v" by blast
      then show ?L using r(3,4) x
        by (intro exI [of _ "if y = ?n then x else y"]) (auto split: if_splits)
    qed
    also have "\<dots> \<longleftrightarrow> ((table_map h)(ky h x := None)) k = Some v"
      using inj_onD [OF inj, of _ x] x by (auto simp: table_map_Some [OF wf] Suc_le_eq)
    finally show ?thesis .
  qed
  then have "table_map h' = (table_map h)(ky h x := None)"
    by (intro ext) (metis not_Some_eq)
  with r wf' show ?thesis by blast
qed

lemma well_formed_cleared:
  assumes "0 < NUM_HASH_SLOTS h" and "length (entries h) < 2 ^ 16"
    and "entries_count h = 0" and "by_hash h = replicate (NUM_HASH_SLOTS h) 0"
  shows "well_formed h" and "table_map h = Map.empty"
proof -
  have "chains h (\<lambda>_. [])"
    using assms by (auto simp: chains_def chains_on_def)
  with assms show "well_formed h" unfolding well_formed_def by auto
  show "table_map h = Map.empty" using assms(3) by (simp add: table_map_def begin_end_def)
qed

lemma empty_table_well_formed:
  "0 < nh \<Longrightarrow> ne < 2 ^ 16 \<Longrightarrow> well_formed (empty_table v nh ne) \<and> table_map (empty_table v nh ne) = Map.empty"
  using well_formed_cleared [of "empty_table v nh ne"] by (simp add: empty_table_def NUM_HASH_SLOTS_def)

lemma clear_well_formed:
  "well_formed h \<Longrightarrow> well_formed (clear h) \<and> table_map (clear h) = Map.empty"
  using well_formed_cleared [of "clear h"]
  by (auto simp: clear_def NUM_HASH_SLOTS_def elim!: well_formedE)

lemma set_value_correct:
  assumes "well_formed h" and "0 < x" and "x \<le> entries_count h"
  shows "well_formed (set_value h x v)" and "table_map (set_value h x v) = (table_map h)(ky h x \<mapsto> v)"
    and "frame h (set_value h x v)" and "entries_count (set_value h x v) = entries_count h"
    and "ky (set_value h x v) = ky h"
proof -
  obtain cs where C: "chains h cs" and le: "entries_count h \<le> length (entries h)"
    and inj: "inj_on (ky h) {1..entries_count h}"
    using assms(1) by (rule well_formedE)
  have e: "entries h ! (x - Suc 0) = ent h x"
    using assms(2,3) le entry_at_idx_ent [of x h] by (simp add: entry_at_idx_def)
  have x: "0 < x" "x \<le> length (entries h)" using assms(2,3) le by auto
  note v = set_entry_views [where e = "(ent h x)\<lparr>val := v\<rparr>", OF x]
  show ky: "ky (set_value h x v) = ky h" by (auto simp: set_value_def e v)
  have "pv (set_value h x v) = pv h" "nx (set_value h x v) = nx h"
    "by_hash (set_value h x v) = by_hash h"
    by (auto simp: set_value_def e v set_entry_frame)
  moreover show fr: "frame h (set_value h x v)"
    and cnt: "entries_count (set_value h x v) = entries_count h"
    by (simp_all add: set_value_def set_entry_frame frame_def)
  ultimately have "chains (set_value h x v) cs"
    using C ky by (simp add: chains_def chains_on_def frame_def)
  then show wf: "well_formed (set_value h x v)"
    using assms(1) fr cnt ky unfolding well_formed_def by (auto simp: frame_def)
  have vl: "0 < j \<Longrightarrow> vl (set_value h x v) j = (if j = x then v else vl h j)" for j
    using v(4) by (simp add: set_value_def e)
  have uniq: "y = x" if "0 < y" "y \<le> entries_count h" "ky h y = ky h x" for y
    using inj_onD [OF inj, of y x] that assms(2,3) by simp
  have "table_map (set_value h x v) k = Some w \<longleftrightarrow> ((table_map h)(ky h x \<mapsto> v)) k = Some w" for k w
  proof (cases "k = ky h x")
    case True
    then have "table_map (set_value h x v) k = Some w \<longleftrightarrow> v = w"
      using assms(2,3) vl [of x] by (auto simp: table_map_Some [OF wf] cnt ky dest: uniq)
    with True show ?thesis by simp
  next
    case False
    then have "table_map (set_value h x v) k = Some w \<longleftrightarrow> table_map h k = Some w"
      unfolding table_map_Some [OF wf] table_map_Some [OF assms(1)] cnt ky
      by (intro ex_cong1) (auto simp: vl)
    with False show ?thesis by simp
  qed
  then show "table_map (set_value h x v) = (table_map h)(ky h x \<mapsto> v)"
    by (intro ext) (metis not_Some_eq)
qed


lemma frame_trans: "frame h h' \<Longrightarrow> frame h' h'' \<Longrightarrow> frame h h''"
  by (simp add: frame_def)

lemma frame_refl [simp]: "frame h h"
  by (simp add: frame_def)

lemma insert_table_map:
  assumes "well_formed h" and "well_formed h'" and "entries_count h' = entries_count h + 1"
    and "ky h' = (ky h)(entries_count h + 1 := k)" and "\<forall>j > 0. vl h' j = vl h j"
    and "table_map h k = None"
  shows "table_map h' = (table_map h)(k \<mapsto> vl h (entries_count h + 1))"
proof -
  have "table_map h' a = Some w \<longleftrightarrow> ((table_map h)(k \<mapsto> vl h (entries_count h + 1))) a = Some w" for a w
  proof (cases "a = k")
    case True
    have "table_map h' k = Some w \<longleftrightarrow> vl h (entries_count h + 1) = w"
      using assms(3,4,5,6) by (auto simp: table_map_Some [OF assms(2)] table_map_None_iff [OF assms(1)] le_Suc_eq)
    with True show ?thesis by simp
  next
    case False
    have "table_map h' a = Some w \<longleftrightarrow> table_map h a = Some w"
      unfolding table_map_Some [OF assms(1)] table_map_Some [OF assms(2)]
      using assms(3,4,5) False by (intro ex_cong1) auto
    with False show ?thesis by simp
  qed
  then show ?thesis by (intro ext) (metis not_Some_eq)
qed

section \<open>The contract of the table, and the fuzzing harness as its client\<close>

text \<open>
  What a client of the table relies on, stated over the observable operations: \<open>lookup\<close>
  with and without insertion, the value and the key behind the returned pointer, \<open>remove\<close>,
  the number of entries and the map the table denotes.
\<close>

locale bounded_map =
  fixes invar :: "'h \<Rightarrow> bool"
    and amap :: "'h \<Rightarrow> 'k \<Rightarrow> 'v option"
    and count :: "'h \<Rightarrow> nat" and cap :: "'h \<Rightarrow> nat"
    and find_or_insert :: "'h \<Rightarrow> 'k \<Rightarrow> bool \<Rightarrow> ('h \<times> nat \<times> bool) option"
    and assign :: "'h \<Rightarrow> nat \<Rightarrow> 'v \<Rightarrow> 'h"
    and delete_at :: "'h \<Rightarrow> nat \<Rightarrow> 'h option"
    and key_at :: "'h \<Rightarrow> nat \<Rightarrow> 'k" and val_at :: "'h \<Rightarrow> nat \<Rightarrow> 'v"
  assumes found: "invar h \<Longrightarrow> amap h k = Some v \<Longrightarrow>
      \<exists>x. find_or_insert h k ins = Some (h, x, True) \<and> 0 < x \<and> x \<le> count h \<and> key_at h x = k \<and> val_at h x = v"
    and missing: "invar h \<Longrightarrow> amap h k = None \<Longrightarrow> find_or_insert h k False = Some (h, 0, False)"
    and full: "invar h \<Longrightarrow> amap h k = None \<Longrightarrow> count h = cap h \<Longrightarrow>
      find_or_insert h k True = Some (h, 0, False)"
    and inserted: "invar h \<Longrightarrow> amap h k = None \<Longrightarrow> count h < cap h \<Longrightarrow>
      \<exists>h' x. find_or_insert h k True = Some (h', x, False) \<and> invar h' \<and> 0 < x \<and> x \<le> count h' \<and>
        count h' = count h + 1 \<and> cap h' = cap h \<and> key_at h' x = k \<and>
        (\<forall>k'. k' \<noteq> k \<longrightarrow> amap h' k' = amap h k') \<and> amap h' k \<noteq> None"
    and assigned: "invar h \<Longrightarrow> 0 < x \<Longrightarrow> x \<le> count h \<Longrightarrow>
      invar (assign h x v) \<and> amap (assign h x v) = (amap h)(key_at h x \<mapsto> v) \<and>
      count (assign h x v) = count h \<and> cap (assign h x v) = cap h"
    and deleted: "invar h \<Longrightarrow> 0 < x \<Longrightarrow> x \<le> count h \<Longrightarrow>
      \<exists>h'. delete_at h x = Some h' \<and> invar h' \<and> amap h' = (amap h)(key_at h x := None) \<and>
        count h' = count h - 1 \<and> cap h' = cap h"
    and count_le: "invar h \<Longrightarrow> count h \<le> cap h"
    and key_bound: "invar h \<Longrightarrow> 0 < x \<Longrightarrow> x \<le> count h \<Longrightarrow> amap h (key_at h x) = Some (val_at h x)"
begin

lemma put:
  assumes "invar h" and "amap h k \<noteq> None \<or> count h < cap h"
  shows "\<exists>h' x f. find_or_insert h k True = Some (h', x, f) \<and> (f \<longleftrightarrow> amap h k \<noteq> None) \<and> 0 < x \<and>
           x \<le> count h' \<and> key_at h' x = k \<and> invar (assign h' x v) \<and> amap (assign h' x v) = (amap h)(k \<mapsto> v) \<and>
           count (assign h' x v) = (if f then count h else count h + 1) \<and> cap (assign h' x v) = cap h"
proof (cases "amap h k")
  case None
  with assms obtain h' x where i: "find_or_insert h k True = Some (h', x, False)" "invar h'" "0 < x"
    "x \<le> count h'" "count h' = count h + 1" "cap h' = cap h" "key_at h' x = k"
    "\<forall>k'. k' \<noteq> k \<longrightarrow> amap h' k' = amap h k'"
    using inserted [of h k] by auto
  have "(amap h')(k \<mapsto> v) = (amap h)(k \<mapsto> v)" using i(8) by auto
  with i assigned [of h' x v] None show ?thesis by auto
next
  case (Some w)
  with assms obtain x where "find_or_insert h k True = Some (h, x, True)" "0 < x" "x \<le> count h" "key_at h x = k"
    using found by blast
  with assms Some assigned [of h x v] show ?thesis by auto
qed

end

interpretation table: bounded_map well_formed table_map size capacity lookup set_value remove ky vl
proof (unfold_locales, goal_cases)
  case (1 h k v ins)
  then show ?case using lookup_present [of h k v ins] by (simp add: size_def)
next
  case (2 h k)
  then show ?case by (rule lookup_absent)
next
  case (3 h k)
  then show ?case using lookup_full by (simp add: size_def capacity_def)
next
  case (4 h k)
  then obtain h' where h': "lookup h k True = Some (h', entries_count h + 1, False)" "well_formed h'"
    "entries_count h' = entries_count h + 1" "ky h' = (ky h)(entries_count h + 1 := k)"
    "\<forall>j > 0. vl h' j = vl h j" "frame h h'"
    using insert_correct [of h k] by (auto simp: size_def capacity_def)
  with insert_table_map [OF 4(1) h'(2-5) 4(2)] show ?case
    by (auto simp: size_def capacity_def frame_def)
next
  case (5 h x v)
  then show ?case using set_value_correct [of h x v] by (simp add: size_def capacity_def frame_def)
next
  case (6 h x)
  then show ?case using remove_correct [of h x] by (auto simp: size_def capacity_def frame_def)
next
  case (7 h)
  then show ?case by (auto simp: size_def capacity_def elim: well_formedE)
next
  case (8 h x)
  then show ?case by (auto simp: size_def table_map_Some)
qed


text \<open>
  \<open>LLVMFuzzerTestOneInput\<close>: the harness runs the table against a reference map
  (\<open>std::unordered_map\<close>, here an association list) and asserts that they agree. Inputs are
  decoded from the byte string by \<open>shift\<close>, which zero-fills at the end of the data. The
  signed remainder \<open>shift<int>() % 2\<close> can be \<open>-1\<close>, which selects neither case.
\<close>

type_synonym fuzz_state = "u32 stupid_hash \<times> (uint48 \<times> u32) list"

definition shift :: "nat \<Rightarrow> bytes \<Rightarrow> nat \<times> bytes" where
  "shift n span = (le_value (take n span), drop n span)"

definition int_rem2 :: "nat \<Rightarrow> int" where
  "int_rem2 v = (let i = sint (word_of_nat v :: u32) in sgn i * (\<bar>i\<bar> mod 2))"

definition fuzz_put :: "fuzz_state \<Rightarrow> uint48 \<Rightarrow> u32 \<Rightarrow> bool \<Rightarrow> fuzz_state option" where
  "fuzz_put st k v insert_flag = (case st of (sh, um) \<Rightarrow> do {
     let it = map_of um k;
     (sh1, e, was_found) \<leftarrow> lookup sh k insert_flag;
     if was_found then
       (if it \<noteq> None \<and> e \<noteq> 0 \<and> ky sh1 e = k \<and> it = Some (vl sh1 e)
        then Some (set_value sh1 e v, AList.update k v um) else None)
     else if it \<noteq> None then None
     else if insert_flag then
       (if e \<noteq> 0 \<and> ky sh1 e = k then Some (set_value sh1 e v, AList.update k v um) else None)
     else if e = 0 then Some (sh1, um) else None
   })"

definition fuzz_remove :: "fuzz_state \<Rightarrow> uint48 \<Rightarrow> fuzz_state option" where
  "fuzz_remove st k = (case st of (sh, um) \<Rightarrow> do {
     (sh1, e, was_found) \<leftarrow> lookup sh k False;
     if \<not> was_found then None else do {
       sh2 \<leftarrow> remove sh1 e;
       (sh3, e2, was_found2) \<leftarrow> lookup sh2 k False;
       if was_found2 then None
       else if map_of um k = None then None
       else Some (sh3, AList.delete k um)
     }
   })"

definition fuzz_iter :: "fuzz_state \<Rightarrow> bytes \<Rightarrow> (fuzz_state \<times> bytes) option" where
  "fuzz_iter st span = (case st of (sh, um) \<Rightarrow>
     if entries_count sh \<noteq> length um then None
     else (case shift 4 span of (sel, span1) \<Rightarrow>
       if int_rem2 sel = 0 then
         (case shift 6 span1 of (kv, span2) \<Rightarrow> (case shift 4 span2 of (vv, span3) \<Rightarrow>
            if size sh = capacity sh then Some (st, span3)
            else (case shift 1 span3 of (b, span4) \<Rightarrow>
              map_option (\<lambda>st1. (st1, span4))
                (fuzz_put st (word_of_nat kv) (word_of_nat vv) (b \<noteq> 0)))))
       else if int_rem2 sel = 1 then
         (if size sh = 0 then Some (st, span1)
          else (case shift 4 span1 of (iv, span2) \<Rightarrow>
            map_option (\<lambda>st1. (st1, span2)) (fuzz_remove st (ky sh (iv mod size sh + 1)))))
       else Some (st, span1)))"

lemma fuzz_iter_shrinks:
  "fuzz_iter st span = Some (st', span') \<Longrightarrow> span \<noteq> [] \<Longrightarrow> length span' < length span"
  by (cases span) (auto simp: fuzz_iter_def shift_def split: prod.splits if_splits)

function fuzz_loop :: "fuzz_state \<Rightarrow> bytes \<Rightarrow> fuzz_state option" where
  "fuzz_loop st span =
     (if span = [] then Some st
      else (case fuzz_iter st span of None \<Rightarrow> None | Some (st', span') \<Rightarrow> fuzz_loop st' span'))"
  by pat_completeness auto
termination
  by (relation "measure (\<lambda>(st, span). length span)") (auto dest: fuzz_iter_shrinks)

declare fuzz_loop.simps [simp del]

text \<open>\<open>verify\<close>: the sorted key/value vectors of both containers are equal.\<close>

definition kv_key :: "uint48 \<times> u32 \<Rightarrow> nat \<times> nat" where
  "kv_key kv = (unat (fst kv), unat (snd kv))"

definition fuzz_verify :: "fuzz_state \<Rightarrow> bool" where
  "fuzz_verify st = (case st of (sh, um) \<Rightarrow>
     sort_key kv_key (map (\<lambda>e. (key e, val e)) (begin_end sh)) = sort_key kv_key um)"

text \<open>\<open>None\<close> where an assertion fails, the exit code otherwise.\<close>

definition LLVMFuzzerTestOneInput :: "nat \<Rightarrow> nat \<Rightarrow> bytes \<Rightarrow> int option" where
  "LLVMFuzzerTestOneInput nh ne data = do {
     let sh = empty_table 0 nh ne;
     if (\<forall>e \<in> set (entries sh). prev e = 0 \<and> next e = 0 \<and> key e = 0 \<and> val e = 0)
        \<and> entries_count sh = 0 \<and> (\<forall>s \<in> set (by_hash sh). s = 0)
     then do {
       st \<leftarrow> fuzz_loop (sh, []) data;
       if fuzz_verify st then Some 0 else None
     } else None
   }"

definition fuzz_inv :: "fuzz_state \<Rightarrow> bool" where
  "fuzz_inv st \<longleftrightarrow> (case st of (sh, um) \<Rightarrow>
     well_formed sh \<and> table_map sh = map_of um \<and> distinct (map fst um) \<and> entries_count sh = length um)"

lemma length_update_alist:
  "length (AList.update k v al) = (if map_of al k = None then length al + 1 else length al)"
  by (induction al) (auto split: if_splits)

lemma length_delete_alist:
  "distinct (map fst al) \<Longrightarrow>
     length (AList.delete k al) = (if map_of al k = None then length al else length al - 1)"
proof (induction al)
  case (Cons a al)
  show ?case
  proof (cases "fst a = k")
    case True
    with Cons.prems have "k \<notin> fst ` set al" by auto
    with True show ?thesis by (cases a) (simp add: delete_idem)
  next
    case False
    have "0 < length al" if "map_of al k \<noteq> None" using that by (cases al) auto
    with False Cons show ?thesis by (cases a) auto
  qed
qed simp

lemma fuzz_put_ok:
  assumes "fuzz_inv st" and "size (fst st) \<noteq> capacity (fst st)"
  shows "\<exists>st'. fuzz_put st k v b = Some st' \<and> fuzz_inv st'"
proof -
  obtain sh um where st: "st = (sh, um)" by fastforce
  then have inv: "well_formed sh" "table_map sh = map_of um" "distinct (map fst um)"
    "entries_count sh = length um" "size sh < capacity sh"
    using assms table.count_le [of sh] by (auto simp: fuzz_inv_def)
  show ?thesis
  proof (cases "table_map sh k = None \<and> \<not> b")
    case True
    then show ?thesis
      using table.missing [OF inv(1), of k] inv st by (auto simp: fuzz_put_def fuzz_inv_def)
  next
    case False
    obtain sh1 e f where p: "lookup sh k b = Some (sh1, e, f)" "f \<longleftrightarrow> map_of um k \<noteq> None" "e > 0"
      "ky sh1 e = k" "well_formed (set_value sh1 e v)" "table_map (set_value sh1 e v) = (map_of um)(k \<mapsto> v)"
      "entries_count (set_value sh1 e v) = (if f then length um else length um + 1)"
      "f \<longrightarrow> map_of um k = Some (vl sh1 e)"
    proof (cases "table_map sh k")
      case None
      with False have b by simp
      with None table.put [OF inv(1), of k v] inv that show thesis by (auto simp: size_def)
    next
      case (Some w)
      with inv(2) table.found [OF inv(1) Some, of b] table.assigned [OF inv(1), of _ v] inv(4) that
      show thesis by (auto simp: size_def)
    qed
    have "fuzz_put st k v b = Some (set_value sh1 e v, AList.update k v um)"
      using p False inv(2) by (auto simp: fuzz_put_def st)
    moreover have "fuzz_inv (set_value sh1 e v, AList.update k v um)"
      using p inv(3) by (auto simp: fuzz_inv_def update_conv' distinct_update length_update_alist)
    ultimately show ?thesis by blast
  qed
qed

lemma fuzz_remove_ok:
  assumes "fuzz_inv (sh, um)" and "0 < x" and "x \<le> size sh"
  shows "\<exists>st'. fuzz_remove (sh, um) (ky sh x) = Some st' \<and> fuzz_inv st'"
proof -
  let ?k = "ky sh x"
  have inv: "well_formed sh" "table_map sh = map_of um" "distinct (map fst um)"
    "entries_count sh = length um"
    using assms(1) by (auto simp: fuzz_inv_def)
  have k: "table_map sh ?k = Some (vl sh x)" using table.key_bound [OF inv(1) assms(2,3)] .
  obtain e where e: "lookup sh ?k False = Some (sh, e, True)" "0 < e" "e \<le> size sh" "ky sh e = ?k"
    using table.found [OF inv(1) k, of False] by blast
  obtain sh2 where r: "remove sh e = Some sh2" "well_formed sh2" "table_map sh2 = (table_map sh)(?k := None)"
    "size sh2 = size sh - 1"
    using table.deleted [OF inv(1) e(2,3)] e(4) by auto
  have "fuzz_remove (sh, um) ?k = Some (sh2, AList.delete ?k um)"
    using e(1) r table.missing [OF r(2), of ?k] k inv(2) by (auto simp: fuzz_remove_def)
  moreover have "fuzz_inv (sh2, AList.delete ?k um)"
    using r inv k by (auto simp: fuzz_inv_def delete_conv' distinct_delete length_delete_alist size_def)
  ultimately show ?thesis by blast
qed

lemma fuzz_iter_ok:
  assumes "fuzz_inv st"
  shows "\<exists>st' span'. fuzz_iter st span = Some (st', span') \<and> fuzz_inv st'"
proof -
  obtain sh um where st: "st = (sh, um)" by fastforce
  have cnt: "entries_count sh = length um" using assms by (simp add: st fuzz_inv_def)
  have "\<exists>st'. fuzz_put st k v b = Some st' \<and> fuzz_inv st'" if "size sh \<noteq> capacity sh" for k v b
    using fuzz_put_ok [OF assms] that by (simp add: st)
  moreover have "\<exists>st'. fuzz_remove st (ky sh (i mod size sh + 1)) = Some st' \<and> fuzz_inv st'"
    if "size sh \<noteq> 0" for i
    using fuzz_remove_ok [OF assms [unfolded st], of "i mod size sh + 1"] that
    by (simp add: st Suc_le_eq)
  moreover have "fuzz_inv (sh, um)" "entries_count sh = length um" using assms cnt by (simp_all add: st)
  ultimately show ?thesis
    unfolding st fuzz_iter_def shift_def by (simp; metis option.simps(9))
qed

lemma fuzz_loop_ok: "fuzz_inv st \<Longrightarrow> \<exists>st'. fuzz_loop st span = Some st' \<and> fuzz_inv st'"
proof (induction st span rule: fuzz_loop.induct)
  case (1 st span)
  show ?case
  proof (cases "span = []")
    case True
    with 1(2) show ?thesis by (subst fuzz_loop.simps) simp
  next
    case False
    obtain st1 span1 where i: "fuzz_iter st span = Some (st1, span1)" "fuzz_inv st1"
      using fuzz_iter_ok [OF 1(2)] by blast
    with False 1(1) [OF False i(1) refl i(2)] show ?thesis by (subst fuzz_loop.simps) simp
  qed
qed

lemma fuzz_inv_verify:
  assumes "fuzz_inv st"
  shows "fuzz_verify st"
proof -
  obtain sh um where st: "st = (sh, um)" by fastforce
  have inv: "well_formed sh" "map_of (kvs sh) = map_of um" "distinct (map fst um)"
    using assms by (auto simp: fuzz_inv_def st table_map_def kvs_def)
  have "set (kvs sh) = set um"
    using inv kvs_facts(2) [OF inv(1)] by (simp add: map_of_inject_set)
  then have "mset (kvs sh) = mset um"
    using inv(3) kvs_facts(2) [OF inv(1)] by (simp add: distinct_map set_eq_iff_mset_eq_distinct)
  then have "sort_key kv_key (kvs sh) = sort_key kv_key um"
    by (intro sort_key_inj_key_eq) (auto simp: inj_on_def kv_key_def prod_eq_iff word_unat_eq_iff)
  then show ?thesis by (simp add: fuzz_verify_def st kvs_def)
qed

lemma fuzz_inv_empty:
  "0 < nh \<Longrightarrow> ne < 2 ^ 16 \<Longrightarrow> fuzz_inv (empty_table 0 nh ne, [])"
  using empty_table_well_formed [of nh ne 0] by (simp add: fuzz_inv_def) (simp add: empty_table_def)

section \<open>Properties\<close>

text \<open>
  C1. For every input the fuzzing harness of the table (3000 hash slots and entries) runs to
  its end with exit code 0: no assertion of the table or of the harness fails, the pointers
  into the table stay in range, and the sorted contents agree with the reference map.
\<close>

theorem fuzz_harness_passes: "LLVMFuzzerTestOneInput 3000 3000 data = Some 0"
proof -
  let ?sh = "empty_table 0 3000 3000 :: u32 stupid_hash"
  have zero: "(\<forall>e \<in> set (entries ?sh). prev e = 0 \<and> next e = 0 \<and> key e = 0 \<and> val e = 0)
      \<and> entries_count ?sh = 0 \<and> (\<forall>s \<in> set (by_hash ?sh). s = 0)"
    by (simp add: empty_table_def)
  have "fuzz_inv (?sh, [])" by (rule fuzz_inv_empty) simp_all
  then obtain st where "fuzz_loop (?sh, []) data = Some st" "fuzz_verify st"
    using fuzz_loop_ok fuzz_inv_verify by blast
  then show ?thesis unfolding LLVMFuzzerTestOneInput_def Let_def if_P [OF zero] by simp
qed

text \<open>
  What \<open>lookup\<close> returns on a well-formed table, in each of its cases: the entry of a key
  that is present; a null pointer for an absent key without \<open>insert\<close>, or when the table is
  full; otherwise a fresh entry for the key, in a table that is well formed again and
  denotes the old map extended at that key.
\<close>

theorem lookup_cases:
  assumes "well_formed h"
  shows "case table_map h k of
      Some v \<Rightarrow> \<exists>x. lookup h k ins = Some (h, x, True) \<and> 0 < x \<and> x \<le> size h \<and> ky h x = k \<and> vl h x = v
    | None \<Rightarrow> if \<not> ins \<or> size h = capacity h then lookup h k ins = Some (h, 0, False)
        else \<exists>h' x. lookup h k ins = Some (h', x, False) \<and> well_formed h' \<and> size h' = size h + 1 \<and>
          0 < x \<and> x \<le> size h' \<and> ky h' x = k \<and> table_map h' = (table_map h)(k \<mapsto> vl h' x)"
proof (cases "table_map h k")
  case (Some v)
  then show ?thesis using table.found [OF assms Some] by simp
next
  case None
  show ?thesis
  proof (cases "\<not> ins \<or> size h = capacity h")
    case True
    then show ?thesis using None table.missing [OF assms None] table.full [OF assms None] by (cases ins) auto
  next
    case False
    then have "size h < capacity h" using table.count_le [OF assms] by simp
    from table.inserted [OF assms None this] obtain h' x
      where i: "lookup h k True = Some (h', x, False)" "well_formed h'" "0 < x" "x \<le> size h'"
        "size h' = size h + 1" "ky h' x = k" "\<forall>k'. k' \<noteq> k \<longrightarrow> table_map h' k' = table_map h k'"
      by blast
    have "table_map h' = (table_map h)(k \<mapsto> vl h' x)"
      using i(7) table.key_bound [OF i(2,3,4)] i(6) by auto
    with i False None show ?thesis by simp
  qed
qed

theorem lookup_cases_witness:
  "\<exists>h' x. lookup (empty_table (7 :: nat) 2 2) 5 True = Some (h', x, False) \<and> table_map h' 5 = Some (vl h' x)"
proof -
  have wf: "well_formed (empty_table (7 :: nat) 2 2)" and "table_map (empty_table (7 :: nat) 2 2) 5 = None"
    using empty_table_well_formed [of 2 2 "7 :: nat"] by simp_all
  then show ?thesis using lookup_cases [OF wf, where k = 5 and ins = True]
    by (auto simp: size_def capacity_def empty_table_def)
qed

text \<open>
  C2. \<open>remove\<close> on any live entry of a well-formed table fails no assertion, keeps the table
  well formed although the last entry moves into the hole, and deletes exactly the key of
  that entry from the map the table denotes.
\<close>

theorem remove_refines_delete:
  assumes "well_formed h" and "0 < x" and "x \<le> size h"
  shows "\<exists>h'. remove h x = Some h' \<and> well_formed h' \<and> size h' = size h - 1 \<and>
           table_map h' = (table_map h)(ky h x := None)"
  using table.deleted [OF assms] by blast

theorem remove_refines_delete_witness:
  "\<exists>h h'. lookup (empty_table (7 :: nat) 2 2) 5 True = Some (h, 1, False) \<and> remove h 1 = Some h' \<and> size h' = 0"
proof -
  have "well_formed (empty_table (7 :: nat) 2 2)" and "table_map (empty_table (7 :: nat) 2 2) 5 = None"
    using empty_table_well_formed [of 2 2 "7 :: nat"] by simp_all
  then obtain h where "lookup (empty_table (7 :: nat) 2 2) 5 True = Some (h, 1, False)" "well_formed h" "size h = 1"
    using insert_correct [of "empty_table (7 :: nat) 2 2" 5] by (auto simp: size_def empty_table_def)
  then show ?thesis using remove_refines_delete [of h 1] by auto
qed

end
