(* ===== verification/WsFrame.thy ===== *)
theory WsFrame
  imports Prelude
begin

text \<open>
  WebSocket frames: the header arithmetic of \<open>program/serve.cpp\<close> (\<open>add_ws_header_size\<close>,
  \<open>fill_ws_header\<close>), which the hose and the RPC server use to build frames in place, and the
  frame writer and parser of the bundled mongoose (\<open>ws.c\<close>: \<open>mkhdr\<close>, \<open>mg_ws_mask\<close>,
  \<open>ws_process\<close>). Buffers are byte lists; \<open>size_t\<close> values are naturals with the wrap-around or
  saturation of the code written out.
\<close>

section \<open>Writers\<close>

definition WEBSOCKET_OP_CONTINUE :: nat where "WEBSOCKET_OP_CONTINUE = 0"
definition WEBSOCKET_OP_TEXT :: nat where "WEBSOCKET_OP_TEXT = 1"
definition WEBSOCKET_OP_BINARY :: nat where "WEBSOCKET_OP_BINARY = 2"
definition WEBSOCKET_OP_CLOSE :: nat where "WEBSOCKET_OP_CLOSE = 8"
definition WEBSOCKET_OP_PING :: nat where "WEBSOCKET_OP_PING = 9"
definition WEBSOCKET_OP_PONG :: nat where "WEBSOCKET_OP_PONG = 10"

lemmas op_defs = WEBSOCKET_OP_CONTINUE_def WEBSOCKET_OP_TEXT_def WEBSOCKET_OP_BINARY_def
  WEBSOCKET_OP_CLOSE_def WEBSOCKET_OP_PING_def WEBSOCKET_OP_PONG_def

definition add_ws_header_size :: "nat \<Rightarrow> nat" where
  "add_ws_header_size n =
     (if n < 126 then n + 2
      else if n < 65536 then n + 4
      else if n \<le> SIZE_MAX - 10 then n + 10
      else SIZE_MAX)"

text \<open>\<open>__builtin_bswap64\<close>: the number whose little-endian image is reversed.\<close>

definition bswap64 :: "nat \<Rightarrow> nat" where
  "bswap64 v = le_value (rev (le_bytes 8 v))"

text \<open>The bytes written at \<open>p\<close>; the returned pointer is \<open>p\<close> plus their number.\<close>

definition fill_ws_header :: "nat \<Rightarrow> bytes" where
  "fill_ws_header n =
     word_of_nat (WEBSOCKET_OP_BINARY OR 128) #
     (if n < 126 then [word_of_nat n]
      else if n < 65536 then [126, word_of_nat (drop_bit 8 n), word_of_nat n]
      else 127 # le_bytes 8 (bswap64 n))"

text \<open>
  \<open>mkhdr\<close> of mongoose; \<open>mg_htons\<close> and \<open>mg_htonl\<close> store big-endian images. The masking key of a
  client (\<open>mg_random(&buf[n], 4)\<close>) is the argument \<open>rnd\<close>.
\<close>

definition mkhdr :: "nat \<Rightarrow> nat \<Rightarrow> bool \<Rightarrow> bytes \<Rightarrow> bytes" where
  "mkhdr len op is_client rnd =
     (let hdr = word_of_nat (op OR 128) #
        (if len < 126 then [word_of_nat len]
         else if len < 65536 then 126 # be_bytes 2 len
         else 127 # be_bytes 4 (len div 2 ^ 32) @ be_bytes 4 (len AND 0xffffffff))
      in if is_client then hdr[1 := hdr ! 1 OR push_bit 7 1] @ take 4 rnd else hdr)"

text \<open>The xor loop of \<open>mg_ws_mask\<close> and \<open>ws_process\<close>: byte \<open>i\<close> with mask byte \<open>i & 3\<close>.\<close>

definition xor_mask :: "bytes \<Rightarrow> bytes \<Rightarrow> bytes" where
  "xor_mask m p = map (\<lambda>(i, b). b XOR m ! (i mod 4)) (enumerate 0 p)"

definition mg_ws_frame :: "bool \<Rightarrow> bytes \<Rightarrow> nat \<Rightarrow> bytes \<Rightarrow> bytes" where
  "mg_ws_frame is_client rnd op payload =
     mkhdr (length payload) op is_client rnd @
     (if is_client then xor_mask (take 4 rnd) payload else payload)"

section \<open>The parser\<close>

record ws_msg =
  flags :: u8
  header_len :: nat
  data_len :: nat

definition be32 :: "bytes \<Rightarrow> nat" where
  "be32 p = unat (p ! 3) + 256 * unat (p ! 2) + 65536 * unat (p ! 1) + 16777216 * unat (p ! 0)"

definition ws_parse_header :: "bytes \<Rightarrow> ws_msg \<times> nat" where
  "ws_parse_header buf =
     (let len = length buf in
      if len \<ge> 2 then
        (let n = unat (buf ! 1 AND 0x7f);
             mask_len = (if buf ! 1 AND 128 \<noteq> 0 then 4 else 0) in
         (if n < 126 \<and> len \<ge> mask_len then
            \<lparr>flags = buf ! 0, header_len = 2 + mask_len, data_len = n\<rparr>
          else if n = 126 \<and> len \<ge> 4 + mask_len then
            \<lparr>flags = buf ! 0, header_len = 4 + mask_len,
             data_len = unat (buf ! 2) * 256 + unat (buf ! 3)\<rparr>
          else if len \<ge> 10 + mask_len then
            \<lparr>flags = buf ! 0, header_len = 10 + mask_len,
             data_len = be32 (drop 2 buf) * 2 ^ 32 + be32 (drop 6 buf)\<rparr>
          else \<lparr>flags = buf ! 0, header_len = 0, data_len = 0\<rparr>, mask_len))
      else (\<lparr>flags = 0, header_len = 0, data_len = 0\<rparr>, 0))"

text \<open>
  \<open>ws_process\<close>: the frame length (0 when there is no whole frame), the parsed header and the
  buffer with the payload unmasked in place.
\<close>

definition ws_process :: "bytes \<Rightarrow> nat \<times> ws_msg \<times> bytes" where
  "ws_process buf =
     (case ws_parse_header buf of (msg, mask_len) \<Rightarrow>
        if data_len msg > 1024 * 1024 * 1024 then (0, msg, buf)
        else if header_len msg + data_len msg > length buf then (0, msg, buf)
        else
          (let hl = header_len msg; dl = data_len msg;
               buf' = (if mask_len > 0
                       then put_slice buf hl (xor_mask (slice buf (hl - mask_len) hl) (slice buf hl (hl + dl)))
                       else buf)
           in (hl + dl, msg, buf')))"

section \<open>Lemmas\<close>

lemma bswap64_bytes: "le_bytes 8 (bswap64 v) = be_bytes 8 v"
  using le_bytes_le_value [of "rev (le_bytes 8 v)"] by (simp add: bswap64_def be_bytes_def)

lemma length_fill_ws_header:
  "length (fill_ws_header n) = (if n < 126 then 2 else if n < 65536 then 4 else 10)"
  by (simp add: fill_ws_header_def)

lemma length_mkhdr:
  "length (mkhdr n op cl rnd) =
     (if n < 126 then 2 else if n < 65536 then 4 else 10) + (if cl then min 4 (length rnd) else 0)"
  by (simp add: mkhdr_def Let_def min.commute)

lemma header_fits: "length (fill_ws_header n) + n \<le> SIZE_MAX \<Longrightarrow> add_ws_header_size n = length (fill_ws_header n) + n"
  by (auto simp: length_fill_ws_header add_ws_header_size_def split: if_splits)

lemma le_bytes_append: "le_bytes (m + n) v = le_bytes m v @ le_bytes n (v div 256 ^ m)"
proof (induction m arbitrary: v)
  case (Suc m)
  then show ?case by (simp add: div_mult2_eq)
qed simp

lemma be_bytes_append: "be_bytes (m + n) v = be_bytes m (v div 256 ^ n) @ be_bytes n v"
  by (metis add.commute be_bytes_def le_bytes_append rev_append)

lemma le_bytes_mod: "256 ^ n dvd k \<Longrightarrow> le_bytes n (v mod k) = le_bytes n v"
proof (induction n arbitrary: v k)
  case (Suc n)
  from Suc.prems obtain j where k: "k = 256 * (256 ^ n * j)" by (auto simp: dvd_def mult.assoc)
  have "v mod k mod 256 = v mod 256" by (simp add: k mod_mod_cancel)
  moreover have "v mod k div 256 = v div 256 mod (256 ^ n * j)"
    by (simp add: k mod_mult2_eq)
  ultimately show ?case using Suc.IH [of "256 ^ n * j" "v div 256"] by simp
qed simp

lemma and_low32: "n AND 0xffffffff = (n :: nat) mod 2 ^ 32"
proof -
  have "(0xffffffff :: nat) = mask 32" by (simp add: mask_eq_exp_minus_1)
  then show ?thesis by (simp only: take_bit_eq_mod flip: take_bit_eq_mask)
qed

lemma be_bytes_8: "be_bytes 8 n = be_bytes 4 (n div 2 ^ 32) @ be_bytes 4 (n mod 2 ^ 32)"
  using be_bytes_append [of 4 4 n] le_bytes_mod [of 4 "2 ^ 32" n] by (simp add: be_bytes_def)

lemma be_bytes_2: "be_bytes 2 n = [word_of_nat (n div 256 mod 256), word_of_nat (n mod 256)]"
  by (simp add: be_bytes_def numeral_2_eq_2)

lemma word_of_nat_mod256: "(word_of_nat (n mod 256) :: u8) = word_of_nat n"
  by (simp add: word_unat_eq_iff unat_of_nat)

lemma fill_ws_header_mkhdr: "fill_ws_header n = mkhdr n WEBSOCKET_OP_BINARY False rnd"
proof -
  have "(word_of_nat (n mod 256) :: u8) = word_of_nat n" "(word_of_nat (n div 256 mod 256) :: u8) = word_of_nat (n div 256)"
    by (rule word_of_nat_mod256)+
  then show ?thesis
    by (simp add: fill_ws_header_def mkhdr_def bswap64_bytes be_bytes_8 be_bytes_2 and_low32
        drop_bit_eq_div Let_def)
qed


section \<open>Reading back what was written\<close>

lemma and_127: "(w :: u8) AND 127 = take_bit 7 w"
proof -
  have "(127 :: u8) = mask 7" by (simp add: mask_eq_exp_minus_1)
  then show ?thesis by (simp only: take_bit_eq_mask)
qed

lemma length_byte:
  assumes "n < 128"
  shows "(word_of_nat n :: u8) AND 127 = word_of_nat n" and "(word_of_nat n :: u8) AND 128 = 0"
    and "(word_of_nat n OR 128 :: u8) AND 127 = word_of_nat n" and "(word_of_nat n OR 128 :: u8) AND 128 = 128"
proof -
  have "unat (word_of_nat n :: u8) = n" using assms by (simp add: unat_of_nat)
  then have "take_bit 7 (word_of_nat n :: u8) = word_of_nat n"
    using assms by (simp add: word_unat_eq_iff take_bit_eq_mod unat_mod)
  then show 1: "(word_of_nat n :: u8) AND 127 = word_of_nat n" by (simp add: and_127)
  then have "(word_of_nat n :: u8) AND 128 = (word_of_nat n AND 127) AND 128" by simp
  then show 2: "(word_of_nat n :: u8) AND 128 = 0" by (simp add: and.assoc)
  show "(word_of_nat n OR 128 :: u8) AND 127 = word_of_nat n"
    using 1 by (simp add: bit.conj_disj_distrib2)
  show "(word_of_nat n OR 128 :: u8) AND 128 = 128"
    using 2 by (simp add: bit.conj_disj_distrib2)
qed

lemma le_bytes_4: "le_bytes 4 n = [word_of_nat n, word_of_nat (n div 256), word_of_nat (n div 65536), word_of_nat (n div 16777216)]"
proof -
  have four: "(4 :: nat) = Suc (Suc (Suc (Suc 0)))" by simp
  have "n div 256 div 256 = n div 65536" "n div 65536 div 256 = n div 16777216"
    by (simp_all flip: div_mult2_eq)
  then show ?thesis unfolding four le_bytes.simps word_of_nat_mod256 by simp
qed

lemma be32_bytes: "be32 (be_bytes 4 n @ xs) = n mod 2 ^ 32"
proof -
  have "be32 (be_bytes 4 n @ xs) = le_value (le_bytes 4 n)"
    by (simp add: be32_def be_bytes_def le_bytes_4)
  then show ?thesis by (simp add: le_value_le_bytes)
qed

lemma length_byte_126_127:
  "(126 :: u8) AND 127 = 126" "(127 :: u8) AND 127 = 127" "(126 :: u8) AND 128 = 0" "(127 :: u8) AND 128 = 0"
  "((126 :: u8) OR 128) AND 127 = 126" "((127 :: u8) OR 128) AND 127 = 127"
  "((126 :: u8) OR 128) AND 128 = 128" "((127 :: u8) OR 128) AND 128 = 128"
  using length_byte [of 126] length_byte [of 127] by simp_all

lemma ws_parse_large:
  assumes "b AND 127 = 127" and "length h = 4" and "length l = 4" and "b AND 128 \<noteq> 0 \<Longrightarrow> 4 \<le> length ys"
  shows "ws_parse_header (w # b # h @ l @ ys) =
    (\<lparr>flags = w, header_len = 10 + (if b AND 128 \<noteq> 0 then 4 else 0),
      data_len = be32 (h @ l @ ys) * 2 ^ 32 + be32 (l @ ys)\<rparr>, if b AND 128 \<noteq> 0 then 4 else 0)"
proof -
  have "drop 2 (w # b # h @ l @ ys) = h @ l @ ys" by simp
  moreover have "drop 6 (w # b # h @ l @ ys) = l @ ys" using assms(2) by simp
  ultimately show ?thesis using assms by (simp add: ws_parse_header_def Let_def)
qed

lemma mkhdr_large:
  "\<not> n < 65536 \<Longrightarrow> mkhdr n op cl rnd = word_of_nat (op OR 128) # (if cl then 127 OR 128 else 127) #
     be_bytes 4 (n div 2 ^ 32) @ be_bytes 4 (n mod 2 ^ 32) @ (if cl then take 4 rnd else [])"
  by (simp add: mkhdr_def Let_def and_low32)

lemma ws_parse_mkhdr:
  assumes "n < 2 ^ 64" and "cl \<Longrightarrow> length rnd = 4"
  shows "ws_parse_header (mkhdr n op cl rnd @ xs) =
    (\<lparr>flags = word_of_nat (op OR 128), header_len = length (mkhdr n op cl rnd), data_len = n\<rparr>,
     if cl then 4 else 0)"
proof -
  consider (small) "n < 126" | (medium) "\<not> n < 126" "n < 65536" | (large) "\<not> n < 65536" by blast
  then show ?thesis
  proof cases
    case small
    then have "unat (word_of_nat n :: u8) = n" "n < 128" by (simp_all add: unat_of_nat)
    with small length_byte [of n] show ?thesis
      by (cases cl) (simp_all add: ws_parse_header_def mkhdr_def Let_def assms(2))
  next
    case medium
    have "unat (word_of_nat (n div 256 mod 256) :: u8) = n div 256" "unat (word_of_nat (n mod 256) :: u8) = n mod 256"
      using medium by (simp_all add: unat_of_nat)
    then have "unat (word_of_nat (n div 256 mod 256) :: u8) * 256 + unat (word_of_nat (n mod 256) :: u8) = n" by simp
    with medium show ?thesis
      by (cases cl) (simp_all add: ws_parse_header_def mkhdr_def Let_def assms(2) be_bytes_2 length_byte_126_127)
  next
    case large
    have split: "n div 2 ^ 32 mod 2 ^ 32 * 2 ^ 32 + n mod 2 ^ 32 mod 2 ^ 32 = n" using assms(1) by simp
    let ?b = "if cl then 127 OR 128 else 127 :: u8" and ?m = "(if cl then take 4 rnd else []) @ xs"
    have b: "?b AND 127 = 127" "?b AND 128 \<noteq> 0 \<longleftrightarrow> cl" by (simp_all add: length_byte_126_127)
    have "ws_parse_header (mkhdr n op cl rnd @ xs) =
        (\<lparr>flags = word_of_nat (op OR 128), header_len = 10 + (if cl then 4 else 0), data_len = n\<rparr>, if cl then 4 else 0)"
      unfolding mkhdr_large [OF large] append_Cons append_assoc
      by (subst ws_parse_large [OF b(1)]) (simp_all only: length_be_bytes be32_bytes split b(2), simp add: assms(2))
    then show ?thesis using large assms(2) by (simp add: length_mkhdr)
  qed
qed

lemma length_xor_mask [simp]: "length (xor_mask m p) = length p"
  by (simp add: xor_mask_def)

lemma xor_mask_xor_mask: "xor_mask m (xor_mask m p) = p"
  by (rule nth_equalityI) (simp_all add: xor_mask_def nth_enumerate_eq xor.assoc)

lemma mkhdr_client: "mkhdr n op True rnd = take (length (mkhdr n op True rnd) - min 4 (length rnd)) (mkhdr n op True rnd) @ take 4 rnd"
  by (simp add: mkhdr_def Let_def min.commute)

lemma ws_process_frame:
  assumes "length payload \<le> 2 ^ 30" and "cl \<Longrightarrow> length rnd = 4"
  shows "ws_process (mg_ws_frame cl rnd op payload @ rest) =
    (length (mg_ws_frame cl rnd op payload),
     \<lparr>flags = word_of_nat (op OR 128), header_len = length (mkhdr (length payload) op cl rnd),
      data_len = length payload\<rparr>,
     mkhdr (length payload) op cl rnd @ payload @ rest)"
proof -
  let ?h = "mkhdr (length payload) op cl rnd"
  have parse: "ws_parse_header (mg_ws_frame cl rnd op payload @ rest) =
      (\<lparr>flags = word_of_nat (op OR 128), header_len = length ?h, data_len = length payload\<rparr>, if cl then 4 else 0)"
    using ws_parse_mkhdr [of "length payload" cl rnd op] assms by (simp add: mg_ws_frame_def)
  show ?thesis
  proof (cases cl)
    case False
    then show ?thesis using assms(1) unfolding ws_process_def parse by (simp add: mg_ws_frame_def Let_def)
  next
    case True
    then have rnd: "length rnd = 4" using assms(2) by simp
    define pre where "pre = take (length ?h - 4) ?h"
    have h: "?h = pre @ rnd" using mkhdr_client [of "length payload" op rnd] True rnd by (simp add: pre_def)
    have frame: "mg_ws_frame cl rnd op payload @ rest = pre @ rnd @ xor_mask rnd payload @ rest"
      using True rnd h by (simp add: mg_ws_frame_def)
    have "slice (pre @ rnd @ xor_mask rnd payload @ rest) (length pre) (length pre + 4) = rnd"
      "slice (pre @ rnd @ xor_mask rnd payload @ rest) (length pre + 4) (length pre + 4 + length payload) = xor_mask rnd payload"
      using rnd by (simp_all add: slice_def)
    moreover have "put_slice (pre @ rnd @ xor_mask rnd payload @ rest) (length pre + 4) payload = pre @ rnd @ payload @ rest"
      using rnd by (simp add: put_slice_def)
    moreover have "length (mkhdr (length payload) op True rnd) = length pre + 4"
      using arg_cong [OF h, of length] True rnd by simp
    ultimately show ?thesis
      using assms(1) True rnd unfolding ws_process_def parse unfolding frame h
      by (simp add: xor_mask_xor_mask mg_ws_frame_def Let_def)
  qed
qed

lemma ws_parse_header_mask: "ws_parse_header buf = (msg, mask_len) \<Longrightarrow> header_len msg = 0 \<and> data_len msg = 0 \<or> 2 + mask_len \<le> header_len msg"
  by (auto simp: ws_parse_header_def Let_def split: if_splits)

lemma ws_process_bounds:
  assumes "ws_process buf = (n, msg, buf')"
  shows "n \<le> length buf" and "length buf' = length buf"
    and "n > 0 \<Longrightarrow> n = header_len msg + data_len msg \<and> 2 \<le> header_len msg \<and> data_len msg \<le> 2 ^ 30"
    and "take (header_len msg) buf' = take (header_len msg) buf" and "drop n buf' = drop n buf"
proof -
  obtain msg' ml where p: "ws_parse_header buf = (msg', ml)" by fastforce
  let ?hl = "header_len msg'" and ?dl = "data_len msg'"
  have all: "n \<le> length buf \<and> length buf' = length buf \<and>
      (n > 0 \<longrightarrow> n = header_len msg + data_len msg \<and> 2 \<le> header_len msg \<and> data_len msg \<le> 2 ^ 30) \<and>
      take (header_len msg) buf' = take (header_len msg) buf \<and> drop n buf' = drop n buf"
  proof (cases "?dl > 1024 * 1024 * 1024 \<or> ?hl + ?dl > length buf")
    case True
    with assms show ?thesis by (auto simp: ws_process_def p split: if_splits)
  next
    case False
    let ?x = "xor_mask (slice buf (?hl - ml) ?hl) (slice buf ?hl (?hl + ?dl))"
    have len: "length ?x = ?dl" using False by (simp add: length_slice)
    have "length (put_slice buf ?hl ?x) = length buf" using False len by (simp add: length_put_slice)
    moreover have "take ?hl (put_slice buf ?hl ?x) = take ?hl buf" using False by (simp add: put_slice_def)
    moreover have "drop (?hl + ?dl) (put_slice buf ?hl ?x) = drop (?hl + ?dl) buf"
      using False len by (simp add: put_slice_def)
    ultimately show ?thesis
      using assms False ws_parse_header_mask [OF p] by (auto simp: ws_process_def p Let_def)
  qed
  from all show "n \<le> length buf" "length buf' = length buf"
    "n > 0 \<Longrightarrow> n = header_len msg + data_len msg \<and> 2 \<le> header_len msg \<and> data_len msg \<le> 2 ^ 30"
    "take (header_len msg) buf' = take (header_len msg) buf" "drop n buf' = drop n buf" by blast+
qed

section \<open>Properties\<close>

text \<open>
  C7. A frame written by mongoose (\<open>mkhdr\<close>, with the payload masked for a client), or built in
  place by \<open>fill_ws_header\<close> for a binary message, is read back by \<open>ws_process\<close> whatever follows
  it in the buffer: the same opcode byte, the same payload unmasked in place, and a frame
  length that is exactly the number of bytes written. Payloads up to the parser's limit of
  \<open>2^30\<close> bytes, masked or not, in all three header formats.
\<close>

theorem ws_frame_roundtrip:
  assumes "length payload \<le> 2 ^ 30" and "cl \<Longrightarrow> length rnd = 4"
  shows "ws_process (mg_ws_frame cl rnd op payload @ rest) =
      (length (mg_ws_frame cl rnd op payload),
       \<lparr>flags = word_of_nat (op OR 128), header_len = length (mkhdr (length payload) op cl rnd),
        data_len = length payload\<rparr>,
       mkhdr (length payload) op cl rnd @ payload @ rest)
    \<and> mg_ws_frame False rnd WEBSOCKET_OP_BINARY payload = fill_ws_header (length payload) @ payload
    \<and> length (fill_ws_header (length payload)) + length payload = add_ws_header_size (length payload)"
proof -
  have "length (fill_ws_header (length payload)) + length payload \<le> SIZE_MAX"
    using assms(1) by (simp add: length_fill_ws_header SIZE_MAX_def)
  then show ?thesis
    using ws_process_frame [OF assms] fill_ws_header_mkhdr [of "length payload" rnd]
    by (simp add: mg_ws_frame_def header_fits)
qed

theorem ws_frame_roundtrip_witness:
  "ws_process (mg_ws_frame True [1, 2, 3, 4] WEBSOCKET_OP_TEXT [104, 105] @ [9]) =
     (8, \<lparr>flags = 129, header_len = 6, data_len = 2\<rparr>, [129, 130, 1, 2, 3, 4, 104, 105, 9])"
proof -
  have "(129 :: u8) = word_of_nat (1 OR 128)" "(130 :: u8) = 2 OR 128" by simp_all
  then show ?thesis
    using ws_frame_roundtrip [of "[104, 105]" True "[1, 2, 3, 4]" WEBSOCKET_OP_TEXT "[9]"]
    by (simp add: length_mkhdr mg_ws_frame_def) (simp add: mkhdr_def op_defs Let_def)
qed

text \<open>
  \<open>ws_process\<close> stays inside its buffer on arbitrary input: the claimed frame fits in the
  bytes received, a nonzero result is header plus at most 1 GiB of data, and unmasking leaves
  the header and everything after the frame as they were.
\<close>

theorem ws_process_in_bounds:
  "case ws_process buf of (n, msg, buf') \<Rightarrow>
     n \<le> length buf \<and> length buf' = length buf \<and>
     (n = 0 \<or> n = header_len msg + data_len msg \<and> 2 \<le> header_len msg \<and> data_len msg \<le> 2 ^ 30) \<and>
     take (header_len msg) buf' = take (header_len msg) buf \<and> drop n buf' = drop n buf"
proof -
  obtain n msg buf' where p: "ws_process buf = (n, msg, buf')" by (metis prod_cases3)
  show ?thesis using ws_process_bounds [OF p] unfolding p by auto
qed

end
