(* ===== verification/Hose.thy ===== *)
theory Hose
  imports Prelude WsFrame "HOL-Library.Sublist"
begin

text \<open>
  The hose of \<open>program/serve.cpp\<close>: a single-writer single-reader ring buffer of whole WebSocket
  frames. The game's main thread writes packets (\<open>write_packet\<close>), the hose thread sends them to
  the current connection (\<open>do_iter\<close>), and the mongoose thread hands over new connections
  (\<open>push_fd\<close>). The first part translates each function; the second puts the threads together
  as a step relation whose steps are the atomic accesses of the code, with the copies into the
  buffer and the calls of \<open>send\<close> as steps of their own.

  Offsets are naturals; where the code stores them in 32-bit or 31-bit fields the reduction is
  written out. \<open>sizeof(buf_)\<close> is the length of the buffer.
\<close>

section \<open>Sizes and the writers passed to a packet callback\<close>

text \<open>
  A write callback runs twice, against \<open>size_calculator\<close> and against \<open>actual_writer\<close>; it is the
  list of the chunks it passes to \<open>write_raw\<close> (or reserves and fills), the same in both passes: a
  callback that writes another number of bytes than it measured is not modelled.
\<close>

definition size_calculator_write_raw :: "nat \<Rightarrow> nat \<Rightarrow> nat" where
  "size_calculator_write_raw acc write_size = sat_add acc write_size"

definition calc_size :: "bytes list \<Rightarrow> nat" where
  "calc_size chunks = foldl size_calculator_write_raw 0 (map length chunks)"

definition actual_writer_write_raw :: "bytes \<times> nat \<Rightarrow> bytes \<Rightarrow> (bytes \<times> nat) option" where
  "actual_writer_write_raw st chunk = (case st of (b, cur) \<Rightarrow>
     map_option (\<lambda>b'. (b', cur + length chunk)) (memcpy_into b cur chunk))"

section \<open>Shared state\<close>

record write_info =
  write_offset :: nat
  wrap_offset :: nat
  just_wrote_overrun :: bool

record hose =
  wr_info :: write_info
  read_offset :: nat
  buf :: bytes
  new_fd :: int
  cur_fd :: int
  enable_backpressure :: bool
  sent_event :: bool
  total_overrun_bytes :: u64
  total_written_bytes :: u64

definition OVERRUN_PACKET_SIZE :: nat where "OVERRUN_PACKET_SIZE = 10"

definition overrun_tag :: bytes where
  "overrun_tag = ascii ''overrun'' @ [0]"

definition hose_init :: "nat \<Rightarrow> hose" where
  "hose_init B =
     \<lparr>wr_info = \<lparr>write_offset = 0, wrap_offset = B mod 2 ^ 31, just_wrote_overrun = False\<rparr>,
      read_offset = 0, buf = replicate B 0, new_fd = -1, cur_fd = -1,
      enable_backpressure = False, sent_event = False,
      total_overrun_bytes = 0, total_written_bytes = 0\<rparr>"

section \<open>The writer\<close>

text \<open>The search for space of \<open>reserve_space_and_write_header\<close>: the flag \<open>ok\<close> and the local copy
  of the write information, moved to the front of the buffer when the packet wraps.\<close>

definition find_space :: "nat \<Rightarrow> nat \<Rightarrow> write_info \<Rightarrow> nat \<Rightarrow> bool \<times> write_info" where
  "find_space B r wi needed_size =
     (if write_offset wi < r then
        (needed_size < r - write_offset wi, wi)
      else if needed_size \<le> size_sub B (write_offset wi) then (True, wi)
      else if needed_size < r then
        (True, wi\<lparr>wrap_offset := write_offset wi mod 2 ^ 31, write_offset := 0\<rparr>)
      else (False, wi))"

definition needed_size :: "nat \<Rightarrow> bool \<Rightarrow> nat" where
  "needed_size full_size for_overrun = sat_add full_size (if for_overrun then 0 else OVERRUN_PACKET_SIZE)"

text \<open>The last lines of the function: the write information to be published.\<close>

definition advance :: "write_info \<Rightarrow> nat \<Rightarrow> bool \<Rightarrow> write_info" where
  "advance wi full_size for_overrun =
     (let w = (write_offset wi + full_size) mod 2 ^ 32 in
      \<lparr>write_offset = w, wrap_offset = max (wrap_offset wi) w mod 2 ^ 31,
       just_wrote_overrun = for_overrun\<rparr>)"

text \<open>
  What \<open>reserve_space_and_write_header\<close> does after its two loads: a reservation with the header
  written, an assertion that failed, another try after \<open>backpressure()\<close>, an overrun packet, or
  giving up.
\<close>

datatype reserve_result =
  Reserved hose write_info
  | AssertFailed
  | Retry
  | WriteOverrun nat
  | GiveUp nat

definition reserve_space_and_write_header :: "hose \<Rightarrow> nat \<Rightarrow> nat \<Rightarrow> bool \<Rightarrow> reserve_result" where
  "reserve_space_and_write_header h r body_size for_overrun =
     (let full_size = add_ws_header_size body_size;
          (ok, wi) = find_space (length (buf h)) r (wr_info h) (needed_size full_size for_overrun) in
      if ok then
        (case memcpy_into (buf h) (write_offset wi) (fill_ws_header body_size) of
           None \<Rightarrow> AssertFailed
         | Some b \<Rightarrow> Reserved (h\<lparr>buf := b\<rparr>) (advance wi full_size for_overrun))
      else if for_overrun then AssertFailed
      else if enable_backpressure h then Retry
      else if \<not> just_wrote_overrun (wr_info h) then WriteOverrun full_size
      else GiveUp full_size)"

text \<open>The publication at the end of \<open>write_packet\<close>.\<close>

definition publish :: "hose \<Rightarrow> write_info \<Rightarrow> nat \<Rightarrow> hose" where
  "publish h wi n =
     h\<lparr>wr_info := wi, total_written_bytes := total_written_bytes h + word_of_nat n\<rparr>"

definition note_overrun :: "hose \<Rightarrow> nat \<Rightarrow> hose" where
  "note_overrun h full_size = h\<lparr>total_overrun_bytes := total_overrun_bytes h + word_of_nat full_size\<rparr>"

section \<open>The reader and the hand-over of connections\<close>

datatype iter_plan = IterPanic | IterSleep | IterSend nat nat

definition iter_plan :: "nat \<Rightarrow> write_info \<Rightarrow> nat \<Rightarrow> iter_plan" where
  "iter_plan B wi r =
     (if \<not> (r \<le> wrap_offset wi \<and> write_offset wi \<le> wrap_offset wi \<and> wrap_offset wi \<le> B) then IterPanic
      else if r = write_offset wi then IterSleep
      else
        (let r1 = (if r = wrap_offset wi then 0 else r) in
         IterSend r1 (if r1 < write_offset wi then write_offset wi - r1 else wrap_offset wi - r1)))"

definition SEND_LIMIT :: nat where "SEND_LIMIT = 128 * 1024"

text \<open>A new connection is picked up; then what is left in the buffer is dropped.\<close>

definition take_new_fd :: "hose \<Rightarrow> hose" where
  "take_new_fd h = h\<lparr>cur_fd := new_fd h, new_fd := -1\<rparr>"

definition drop_buffer :: "hose \<Rightarrow> write_info \<Rightarrow> hose" where
  "drop_buffer h wi = h\<lparr>read_offset := write_offset wi\<rparr>"

definition finish_send :: "hose \<Rightarrow> nat \<Rightarrow> nat \<Rightarrow> hose option" where
  "finish_send h r actual =
     (let r1 = (r + actual) mod 2 ^ 32 in
      if r1 \<le> length (buf h) then Some (h\<lparr>read_offset := r1, sent_event := True\<rparr>) else None)"

text \<open>
  A new connection is handed over: \<open>push_fd\<close> is the exchange of the descriptor, \<open>hose_push_fd\<close> the whole
  function, with the results of its two calls of \<open>fcntl\<close>; it also gives the descriptor it closes.
  \<open>None\<close> is one of its assertions.
\<close>

definition push_fd :: "hose \<Rightarrow> int \<Rightarrow> hose" where
  "push_fd h fd = h\<lparr>new_fd := fd\<rparr>"

definition hose_push_fd :: "int \<Rightarrow> int \<Rightarrow> hose \<Rightarrow> int \<Rightarrow> (hose \<times> int option) option" where
  "hose_push_fd fl ret h fd =
     (if fl = -1 then None
      else if ret = -1 then None
      else
        (let old = new_fd h in Some (push_fd h fd, if old \<noteq> -1 then Some old else None)))"

definition set_enable_backpressure :: "hose \<Rightarrow> bool \<Rightarrow> hose" where
  "set_enable_backpressure h enable =
     (if enable then h\<lparr>enable_backpressure := True\<rparr>
      else h\<lparr>enable_backpressure := False, sent_event := True\<rparr>)"

text \<open>
  The time between two ticks, in nanoseconds, that \<open>backpressure()\<close> counts; it fails when time ran
  backwards. Threads are numbers, the main thread is the one the hose was initialised on.
\<close>

definition backpressure_ns :: "int \<Rightarrow> int \<Rightarrow> int option" where
  "backpressure_ns before after = (let ns = after - before in if ns \<ge> 0 then Some ns else None)"

definition s_main_thread :: nat where "s_main_thread = 0"

definition assert_on_write_thread :: "nat \<Rightarrow> bool" where
  "assert_on_write_thread self \<longleftrightarrow> self = s_main_thread"

section \<open>The threads together\<close>

text \<open>
  A request is a packet, as the chunks of its callback, or the overrun packet written on behalf
  of a packet of the given full size that did not fit.
\<close>

datatype request = Packet "bytes list" | OverrunFor nat

fun chunks_of :: "request \<Rightarrow> bytes list" where
  "chunks_of (Packet cs) = cs"
| "chunks_of (OverrunFor n) = [overrun_tag]"

fun for_overrun :: "request \<Rightarrow> bool" where
  "for_overrun (Packet cs) = False"
| "for_overrun (OverrunFor n) = True"

definition frame_of :: "request \<Rightarrow> bytes" where
  "frame_of q = fill_ws_header (calc_size (chunks_of q)) @ concat (chunks_of q)"

text \<open>
  Where the writer is: before and after the load of \<open>read_offset_\<close>; filling a reserved region
  (\<open>start\<close>, the body pointer, the current pointer and the chunks left); about to count an
  overrun; in \<open>backpressure()\<close> before and after it looked at the clock. The reader: after its two loads, after taking a connection, before \<open>send\<close>, before
  the store of \<open>read_offset_\<close>.
\<close>

datatype writer_pc =
  WIdle
  | WLoad request
  | WLoaded request nat
  | WWriting request write_info nat nat nat "bytes list"
  | WNote nat
  | WBack request
  | WWait request int
  | WPanic

datatype reader_pc =
  RIdle
  | RLoaded write_info nat nat
  | RNewFd write_info nat
  | RSend nat nat
  | RStore nat nat
  | RPanic

text \<open>
  The other threads, which may push connections or call \<open>write_packet\<close> where they must not: a panic
  of \<open>assert_on_write_thread\<close> with the thread, or of \<open>push_fd\<close> with the results of \<open>fcntl\<close>.
\<close>

datatype other_pc = Running | OffThread nat | PushFailed int int

text \<open>
  The last four fields are history: every byte published so far, the positions in that stream
  where a packet starts, the reader's position in it, and for the current connection its
  starting position and the bytes passed to \<open>send\<close>. No step depends on them.
\<close>

record sys =
  hs :: hose
  wpc :: writer_pc
  rpc :: reader_pc
  others :: other_pc
  now :: int
  waited_nsec :: u64
  stream :: bytes
  starts :: "nat set"
  pos :: nat
  conn_start :: nat
  sent :: bytes

definition after_reserve :: "request \<Rightarrow> hose \<Rightarrow> reserve_result \<Rightarrow> hose \<times> writer_pc" where
  "after_reserve q h res =
     (case res of
        Reserved h' wi \<Rightarrow>
          (let p = size_sub (write_offset wi) (calc_size (chunks_of q)) in
           (h', WWriting q wi (p - length (fill_ws_header (calc_size (chunks_of q)))) p p (chunks_of q)))
      | AssertFailed \<Rightarrow> (h, WPanic)
      | Retry \<Rightarrow> (h, WBack q)
      | WriteOverrun n \<Rightarrow> (h, WLoad (OverrunFor n))
      | GiveUp n \<Rightarrow> (h, WNote n))"

fun after_publish :: "request \<Rightarrow> writer_pc" where
  "after_publish (Packet cs) = WIdle"
| "after_publish (OverrunFor n) = WNote n"

inductive hose_step :: "sys \<Rightarrow> sys \<Rightarrow> bool" where
  start_packet: "wpc s = WIdle \<Longrightarrow> assert_on_write_thread self \<Longrightarrow> hose_step s (s\<lparr>wpc := WLoad (Packet cs)\<rparr>)"
| write_elsewhere: "others s = Running \<Longrightarrow> \<not> assert_on_write_thread self \<Longrightarrow> hose_step s (s\<lparr>others := OffThread self\<rparr>)"
| load_read_offset: "wpc s = WLoad q \<Longrightarrow> hose_step s (s\<lparr>wpc := WLoaded q (read_offset (hs s))\<rparr>)"
| reserve: "wpc s = WLoaded q r \<Longrightarrow>
    after_reserve q (hs s) (reserve_space_and_write_header (hs s) r (calc_size (chunks_of q)) (for_overrun q)) = (h', pc') \<Longrightarrow>
    hose_step s (s\<lparr>hs := h', wpc := pc'\<rparr>)"
| write_chunk: "wpc s = WWriting q wi st p cur (c # cs) \<Longrightarrow>
    actual_writer_write_raw (buf (hs s), cur) c = Some (b', cur') \<Longrightarrow>
    hose_step s (s\<lparr>hs := (hs s)\<lparr>buf := b'\<rparr>, wpc := WWriting q wi st p cur' cs\<rparr>)"
| write_chunk_fault: "wpc s = WWriting q wi st p cur (c # cs) \<Longrightarrow>
    actual_writer_write_raw (buf (hs s), cur) c = None \<Longrightarrow> hose_step s (s\<lparr>wpc := WPanic\<rparr>)"
| size_assert_fails: "wpc s = WWriting q wi st p cur [] \<Longrightarrow> cur \<noteq> p + calc_size (chunks_of q) \<Longrightarrow>
    hose_step s (s\<lparr>wpc := WPanic\<rparr>)"
| review_rejects: "wpc s = WWriting (Packet cs) wi st p cur [] \<Longrightarrow> cur = p + calc_size cs \<Longrightarrow>
    hose_step s (s\<lparr>wpc := WIdle\<rparr>)"
| publish_packet: "wpc s = WWriting q wi st p cur [] \<Longrightarrow> cur = p + calc_size (chunks_of q) \<Longrightarrow>
    hose_step s (s\<lparr>hs := publish (hs s) wi (calc_size (chunks_of q)), wpc := after_publish q,
                   stream := stream s @ frame_of q, starts := insert (length (stream s @ frame_of q)) (starts s)\<rparr>)"
| count_overrun: "wpc s = WNote n \<Longrightarrow> hose_step s (s\<lparr>hs := note_overrun (hs s) n, wpc := WIdle\<rparr>)"
| wait_starts: "wpc s = WBack q \<Longrightarrow> hose_step s (s\<lparr>wpc := WWait q (now s)\<rparr>)"
| wait_ends: "wpc s = WWait q before \<Longrightarrow> backpressure_ns before (now s) = Some ns \<Longrightarrow>
    hose_step s (s\<lparr>hs := (hs s)\<lparr>sent_event := False\<rparr>, waited_nsec := waited_nsec s + word_of_int ns, wpc := WLoad q\<rparr>)"
| clock_assert_fails: "wpc s = WWait q before \<Longrightarrow> backpressure_ns before (now s) = None \<Longrightarrow> hose_step s (s\<lparr>wpc := WPanic\<rparr>)"
| time_passes: "0 \<le> d \<Longrightarrow> hose_step s (s\<lparr>now := now s + d\<rparr>)"
| load_info: "rpc s = RIdle \<Longrightarrow>
    hose_step s (s\<lparr>rpc := RLoaded (wr_info (hs s)) (read_offset (hs s)) (length (stream s))\<rparr>)"
| new_connection: "rpc s = RLoaded wi r wpos \<Longrightarrow> new_fd (hs s) \<noteq> -1 \<Longrightarrow>
    hose_step s (s\<lparr>hs := take_new_fd (hs s), rpc := RNewFd wi wpos\<rparr>)"
| store_dropped: "rpc s = RNewFd wi wpos \<Longrightarrow>
    hose_step s (s\<lparr>hs := drop_buffer (hs s) wi, rpc := RIdle, pos := wpos, conn_start := wpos, sent := []\<rparr>)"
| plan: "rpc s = RLoaded wi r wpos \<Longrightarrow> new_fd (hs s) = -1 \<Longrightarrow>
    hose_step s (s\<lparr>rpc := (case iter_plan (length (buf (hs s))) wi r of
       IterPanic \<Rightarrow> RPanic | IterSleep \<Rightarrow> RIdle | IterSend off n \<Rightarrow> RSend off n)\<rparr>)"
| discard: "rpc s = RSend off n \<Longrightarrow> cur_fd (hs s) = -1 \<Longrightarrow> hose_step s (s\<lparr>rpc := RStore off n\<rparr>)"
| send_ok: "rpc s = RSend off n \<Longrightarrow> cur_fd (hs s) \<noteq> -1 \<Longrightarrow> actual \<le> min n SEND_LIMIT \<Longrightarrow>
    hose_step s (s\<lparr>rpc := RStore off actual, sent := sent s @ slice (buf (hs s)) off (off + actual)\<rparr>)"
| send_fails: "rpc s = RSend off n \<Longrightarrow> cur_fd (hs s) \<noteq> -1 \<Longrightarrow>
    hose_step s (s\<lparr>hs := (hs s)\<lparr>cur_fd := -1\<rparr>, rpc := RIdle\<rparr>)"
| store_read_offset: "rpc s = RStore off n \<Longrightarrow> finish_send (hs s) off n = Some h' \<Longrightarrow>
    hose_step s (s\<lparr>hs := h', rpc := RIdle, pos := pos s + n\<rparr>)"
| store_assert_fails: "rpc s = RStore off n \<Longrightarrow> finish_send (hs s) off n = None \<Longrightarrow> hose_step s (s\<lparr>rpc := RPanic\<rparr>)"
| connection_arrives: "0 \<le> fd \<Longrightarrow> hose_push_fd fl ret (hs s) fd = Some (h', old) \<Longrightarrow> hose_step s (s\<lparr>hs := h'\<rparr>)"
| fcntl_assert_fails: "others s = Running \<Longrightarrow> hose_push_fd fl ret (hs s) fd = None \<Longrightarrow>
    hose_step s (s\<lparr>others := PushFailed fl ret\<rparr>)"
| backpressure_set: "hose_step s (s\<lparr>hs := set_enable_backpressure (hs s) e\<rparr>)"

definition sys_init :: "nat \<Rightarrow> sys" where
  "sys_init B = \<lparr>hs = hose_init B, wpc = WIdle, rpc = RIdle, others = Running, now = 0, waited_nsec = 0, stream = [], starts = {0}, pos = 0,
                 conn_start = 0, sent = []\<rparr>"

inductive reachable :: "nat \<Rightarrow> sys \<Rightarrow> bool" for B where
  init: "reachable B (sys_init B)"
| step: "reachable B s \<Longrightarrow> hose_step s s' \<Longrightarrow> reachable B s'"

section \<open>The invariant\<close>

text \<open>
  The bytes between the reader and the writer, in sending order; then the relations between
  the offsets: in the shared state, between a reader's snapshot and the current state, for the
  piece a reader is about to send, for a loaded \<open>read_offset_\<close>, and for a reserved region.
\<close>

definition ring :: "bytes \<Rightarrow> nat \<Rightarrow> nat \<Rightarrow> nat \<Rightarrow> bytes" where
  "ring b wrap r w = (if r \<le> w then slice b r w else slice b r wrap @ slice b 0 w)"

definition geom :: "nat \<Rightarrow> nat \<Rightarrow> nat \<Rightarrow> nat \<Rightarrow> bool" where
  "geom B r w wrap \<longleftrightarrow> w \<le> wrap \<and> wrap \<le> B \<and> r \<le> wrap \<and> (w < r \<longrightarrow> 0 < w)"

definition room :: "nat \<Rightarrow> nat \<Rightarrow> nat \<Rightarrow> bool" where
  "room B r w \<longleftrightarrow> (w < r \<longrightarrow> w + OVERRUN_PACKET_SIZE < r) \<and>
     (r \<le> w \<longrightarrow> w + OVERRUN_PACKET_SIZE \<le> B \<or> OVERRUN_PACKET_SIZE < r)"

definition snap_ok :: "nat \<Rightarrow> nat \<Rightarrow> nat \<Rightarrow> nat \<Rightarrow> nat \<Rightarrow> nat \<Rightarrow> bool" where
  "snap_ok B r w wrap w0 wrap0 \<longleftrightarrow> w0 \<le> wrap0 \<and> wrap0 \<le> B \<and> r \<le> wrap0 \<and>
     (r \<le> w0 \<and> (r \<le> w \<and> w0 \<le> w \<or> w < r \<and> w0 \<le> wrap) \<or>
      w0 < r \<and> 0 < w0 \<and> w0 \<le> w \<and> w < r \<and> wrap0 = wrap)"

definition piece_ok :: "nat \<Rightarrow> nat \<Rightarrow> nat \<Rightarrow> nat \<Rightarrow> nat \<Rightarrow> bool" where
  "piece_ok r w wrap off n \<longleftrightarrow>
     off = r \<and> (off + n \<le> w \<or> w < r \<and> off + n \<le> wrap) \<or>
     off = 0 \<and> r = wrap \<and> w < r \<and> n \<le> w"

definition loaded_ok :: "nat \<Rightarrow> nat \<Rightarrow> nat \<Rightarrow> nat \<Rightarrow> bool" where
  "loaded_ok B r w r_old \<longleftrightarrow> r_old \<le> B \<and> (w < r_old \<and> (r \<le> w \<or> r_old \<le> r) \<or> r_old \<le> r \<and> r \<le> w)"

definition region_ok :: "nat \<Rightarrow> nat \<Rightarrow> nat \<Rightarrow> nat \<Rightarrow> nat \<Rightarrow> nat \<Rightarrow> nat \<Rightarrow> bool" where
  "region_ok B r w wrap st w' wrap' \<longleftrightarrow> st < w' \<and> w' \<le> B \<and>
     (st = w \<and> (w < r \<longrightarrow> w' < r) \<and> wrap' = max wrap w' \<or> st = 0 \<and> r \<le> w \<and> w' < r \<and> wrap' = w)"

definition region_room :: "nat \<Rightarrow> nat \<Rightarrow> nat \<Rightarrow> nat \<Rightarrow> nat \<Rightarrow> bool" where
  "region_room B r w st w' \<longleftrightarrow>
     st = w \<and> (w < r \<longrightarrow> w' + OVERRUN_PACKET_SIZE < r) \<and> w' + OVERRUN_PACKET_SIZE \<le> B \<or>
     st = 0 \<and> r \<le> w \<and> w' + OVERRUN_PACKET_SIZE < r"

text \<open>What the reader does to the offsets: it takes a piece, or jumps to a snapshot.\<close>

definition reader_move :: "nat \<Rightarrow> nat \<Rightarrow> nat \<Rightarrow> nat \<Rightarrow> nat \<Rightarrow> bool" where
  "reader_move B r w wrap r' \<longleftrightarrow> r' \<le> wrap \<and> (r \<le> r' \<and> r' \<le> w \<or> w < r \<and> (r \<le> r' \<or> r' \<le> w))"

lemma piece_move: "piece_ok r w wrap off n \<Longrightarrow> geom B r w wrap \<Longrightarrow> reader_move B r w wrap (off + n)"
  by (auto simp: piece_ok_def geom_def reader_move_def)

lemma snap_move: "snap_ok B r w wrap w0 wrap0 \<Longrightarrow> geom B r w wrap \<Longrightarrow> reader_move B r w wrap w0"
  by (auto simp: snap_ok_def geom_def reader_move_def)

lemma move_geom: "reader_move B r w wrap r' \<Longrightarrow> geom B r w wrap \<Longrightarrow> geom B r' w wrap"
  by (auto simp: geom_def reader_move_def)

lemma move_room: "reader_move B r w wrap r' \<Longrightarrow> geom B r w wrap \<Longrightarrow> room B r w \<Longrightarrow> room B r' w"
  by (auto simp: geom_def reader_move_def room_def)

lemma move_loaded: "reader_move B r w wrap r' \<Longrightarrow> loaded_ok B r w r_old \<Longrightarrow> loaded_ok B r' w r_old"
  by (auto simp: reader_move_def loaded_ok_def)

lemma move_region:
  "reader_move B r w wrap r' \<Longrightarrow> geom B r w wrap \<Longrightarrow> region_ok B r w wrap st w' wrap' \<Longrightarrow> region_ok B r' w wrap st w' wrap'"
  by (auto simp: reader_move_def region_ok_def geom_def)

lemma move_region_room:
  "reader_move B r w wrap r' \<Longrightarrow> geom B r w wrap \<Longrightarrow> region_room B r w st w' \<Longrightarrow> region_room B r' w st w'"
  by (auto simp: reader_move_def region_room_def geom_def)

lemma load_snap: "geom B r w wrap \<Longrightarrow> snap_ok B r w wrap w wrap"
  by (auto simp: geom_def snap_ok_def)

lemma load_loaded: "geom B r w wrap \<Longrightarrow> loaded_ok B r w r"
  by (auto simp: geom_def loaded_ok_def)

text \<open>Publication moves the writer to the end of its region.\<close>

lemma publish_geom: "region_ok B r w wrap st w' wrap' \<Longrightarrow> geom B r w wrap \<Longrightarrow> geom B r w' wrap'"
  by (auto simp: region_ok_def geom_def)

lemma publish_room:
  "region_room B r w st w' \<Longrightarrow> region_ok B r w wrap st w' wrap' \<Longrightarrow> room B r w'"
  by (auto simp: region_ok_def region_room_def room_def)

lemma publish_snap:
  "region_ok B r w wrap st w' wrap' \<Longrightarrow> geom B r w wrap \<Longrightarrow> snap_ok B r w wrap w0 wrap0 \<Longrightarrow> snap_ok B r w' wrap' w0 wrap0"
  by (auto simp: region_ok_def geom_def snap_ok_def)

lemma publish_piece:
  "region_ok B r w wrap st w' wrap' \<Longrightarrow> geom B r w wrap \<Longrightarrow> piece_ok r w wrap off n \<Longrightarrow> piece_ok r w' wrap' off n"
  by (auto simp: region_ok_def geom_def piece_ok_def)

lemma iter_plan_ok:
  assumes "geom B r w wrap" and "snap_ok B r w wrap (write_offset wi) (wrap_offset wi)"
  shows "iter_plan B wi r \<noteq> IterPanic"
    and "iter_plan B wi r = IterSend off n \<Longrightarrow> piece_ok r w wrap off n"
proof -
  show "iter_plan B wi r \<noteq> IterPanic" using assms by (auto simp: snap_ok_def iter_plan_def Let_def)
  assume "iter_plan B wi r = IterSend off n"
  with assms show "piece_ok r w wrap off n"
    by (auto simp: snap_ok_def geom_def piece_ok_def iter_plan_def Let_def split: if_splits)
qed

lemma piece_disjoint:
  "region_ok B r w wrap st w' wrap' \<Longrightarrow> geom B r w wrap \<Longrightarrow> piece_ok r w wrap off n \<Longrightarrow>
     off + n \<le> st \<or> w' \<le> off \<or> n = 0"
  by (auto simp: region_ok_def geom_def piece_ok_def)

section \<open>Reservations\<close>

lemma calc_size_sat: "calc_size cs = min (length (concat cs)) SIZE_MAX"
proof -
  have "a \<le> SIZE_MAX \<Longrightarrow> foldl size_calculator_write_raw a (map length cs) = min (a + length (concat cs)) SIZE_MAX" for a
  proof (induction cs arbitrary: a)
    case (Cons c cs)
    then show ?case
      by (simp add: size_calculator_write_raw_def sat_add_def min_def split: if_splits)
  qed simp
  from this [of 0] show ?thesis by (simp add: calc_size_def)
qed

lemma needed_size_bound:
  assumes "needed_size (add_ws_header_size n) ov \<le> B" and "B < 2 ^ 31"
  shows "add_ws_header_size n = length (fill_ws_header n) + n"
    and "needed_size (add_ws_header_size n) ov = length (fill_ws_header n) + n + (if ov then 0 else OVERRUN_PACKET_SIZE)"
proof -
  have "add_ws_header_size n \<le> B"
    using assms by (auto simp: needed_size_def sat_add_def SIZE_MAX_def split: if_splits)
  then show 1: "add_ws_header_size n = length (fill_ws_header n) + n"
    using assms(2) by (auto simp: add_ws_header_size_def length_fill_ws_header SIZE_MAX_def split: if_splits)
  then show "needed_size (add_ws_header_size n) ov = length (fill_ws_header n) + n + (if ov then 0 else OVERRUN_PACKET_SIZE)"
    using assms by (auto simp: needed_size_def sat_add_def SIZE_MAX_def split: if_splits)
qed

lemma find_space_region:
  assumes g: "geom B r w wrap" and l: "loaded_ok B r w ro" and B: "B < 2 ^ 31"
    and wi: "wi = \<lparr>write_offset = w, wrap_offset = wrap, just_wrote_overrun = jo\<rparr>"
    and f: "find_space B ro wi (needed_size (add_ws_header_size n) ov) = (True, wi2)"
  defines "st \<equiv> write_offset wi2" and "full \<equiv> length (fill_ws_header n) + n"
    and "wi' \<equiv> advance wi2 (add_ws_header_size n) ov"
  shows "region_ok B r w wrap st (st + full) (wrap_offset wi')" and "write_offset wi' = st + full"
    and "\<not> ov \<Longrightarrow> region_room B r w st (st + full)" and "just_wrote_overrun wi' = ov"
proof -
  let ?n = "needed_size (add_ws_header_size n) ov"
  have wB: "w \<le> B" "B \<le> SIZE_MAX" "wrap \<le> B" using g B by (auto simp: geom_def SIZE_MAX_def)
  have "?n \<le> B" using f l wB g by (auto simp: find_space_def wi loaded_ok_def split: if_splits)
  note n = needed_size_bound [OF this B]
  have pos: "0 < full" by (simp add: full_def length_fill_ws_header)
  have two: "w < ro \<and> w + ?n < ro \<and> st = w \<and> wi2 = wi \<or>
      ro \<le> w \<and> w + ?n \<le> B \<and> st = w \<and> wi2 = wi \<or>
      ro \<le> w \<and> ?n < ro \<and> st = 0 \<and> wi2 = wi\<lparr>wrap_offset := w, write_offset := 0\<rparr>"
    using f wB B by (auto simp: find_space_def wi st_def split: if_splits)
  have end_le: "st + full \<le> B"
    using two n l by (auto simp: full_def loaded_ok_def split: if_splits)
  then have adv: "wi' = \<lparr>write_offset = st + full, wrap_offset = max (wrap_offset wi2) (st + full) mod 2 ^ 31,
      just_wrote_overrun = ov\<rparr>"
    using B by (simp add: wi'_def advance_def n(1) Let_def st_def full_def)
  have "wrap_offset wi2 \<le> B" using two wB by (auto simp: wi)
  then have wrap': "wrap_offset wi' = max (wrap_offset wi2) (st + full)"
    using B end_le by (simp add: adv)
  show "write_offset wi' = st + full" and "just_wrote_overrun wi' = ov" by (simp_all add: adv)
  have ge: "full \<le> ?n" using n(2) by (simp add: full_def)
  from two consider "w < ro" "w + ?n < ro" "st = w" "wrap_offset wi2 = wrap"
    | "ro \<le> w" "w + ?n \<le> B" "st = w" "wrap_offset wi2 = wrap"
    | "ro \<le> w" "?n < ro" "st = 0" "wrap_offset wi2 = w" by (auto simp: wi)
  then show "region_ok B r w wrap st (st + full) (wrap_offset wi')"
    unfolding region_ok_def wrap' using ge l end_le pos by cases (auto simp: loaded_ok_def)
  show "region_room B r w st (st + full)" if "\<not> ov"
    using two n(2) l that by (auto simp: region_room_def loaded_ok_def full_def)
qed

lemma find_space_overrun:
  assumes "geom B r w wrap" and "B < 2 ^ 31" and "room B ro w"
    and wi: "wi = \<lparr>write_offset = w, wrap_offset = wrap, just_wrote_overrun = jo\<rparr>"
  shows "fst (find_space B ro wi (needed_size (add_ws_header_size 8) True))"
proof -
  have "needed_size (add_ws_header_size 8) True = 10" "w \<le> B" "B \<le> SIZE_MAX"
    using assms(1,2) by (auto simp: needed_size_def add_ws_header_size_def sat_add_def SIZE_MAX_def geom_def)
  with assms(3) show ?thesis by (auto simp: find_space_def wi room_def OVERRUN_PACKET_SIZE_def)
qed

lemma overrun_frame: "calc_size [overrun_tag] = 8" "concat [overrun_tag] = overrun_tag" "length overrun_tag = 8"
  by (simp_all add: calc_size_sat overrun_tag_def SIZE_MAX_def)

section \<open>Reading the ring\<close>

text \<open>A position of the ring that a reserved region is not in front of.\<close>

definition behind :: "nat \<Rightarrow> nat \<Rightarrow> nat \<Rightarrow> nat \<Rightarrow> nat \<Rightarrow> nat \<Rightarrow> bool" where
  "behind w wrap st w' wrap' x \<longleftrightarrow>
     st = w \<and> (x \<le> w \<or> w' < x \<and> wrap' = wrap) \<or> st = 0 \<and> wrap' = w \<and> x \<le> w \<and> w' < x"

lemma region_behind_reader: "region_ok B r w wrap st w' wrap' \<Longrightarrow> geom B r w wrap \<Longrightarrow> behind w wrap st w' wrap' r"
  by (auto simp: region_ok_def geom_def behind_def)

lemma region_behind_snap:
  "region_ok B r w wrap st w' wrap' \<Longrightarrow> geom B r w wrap \<Longrightarrow> snap_ok B r w wrap w0 wrap0 \<Longrightarrow> behind w wrap st w' wrap' w0"
  by (auto simp: region_ok_def geom_def behind_def snap_ok_def)

lemma ring_extend:
  assumes "behind w wrap st w' wrap' x" and "st < w'"
  shows "ring b wrap' x w' = ring b wrap x w @ slice b st w'"
  using assms slice_append [of 0 w w' b] slice_append [of x w w' b]
  by (auto simp: behind_def ring_def)

lemma ring_frame:
  assumes "behind w wrap st w' wrap' x" and "st \<le> i" and "i + length ys \<le> w'" and "w' \<le> length b"
  shows "ring (put_slice b i ys) wrap x w = ring b wrap x w"
  using assms by (auto simp: behind_def ring_def slice_put_slice_other)

lemma ring_advance:
  assumes "piece_ok r w wrap off n" and "geom B r w wrap"
  shows "ring b wrap r w = slice b off (off + n) @ ring b wrap (off + n) w"
  using assms slice_append [of off "off + n" w b] slice_append [of off "off + n" wrap b]
  by (auto simp: piece_ok_def geom_def ring_def)

lemma ring_self: "ring b wrap w w = []"
  by (simp add: ring_def)

section \<open>The invariant of the system\<close>

abbreviation W :: "sys \<Rightarrow> nat" where "W s \<equiv> write_offset (wr_info (hs s))"
abbreviation WR :: "sys \<Rightarrow> nat" where "WR s \<equiv> wrap_offset (wr_info (hs s))"
abbreviation JO :: "sys \<Rightarrow> bool" where "JO s \<equiv> just_wrote_overrun (wr_info (hs s))"
abbreviation R :: "sys \<Rightarrow> nat" where "R s \<equiv> read_offset (hs s)"
abbreviation BUF :: "sys \<Rightarrow> bytes" where "BUF s \<equiv> buf (hs s)"

definition shared_ok :: "nat \<Rightarrow> sys \<Rightarrow> bool" where
  "shared_ok B s \<longleftrightarrow> B < 2 ^ 31 \<and> length (BUF s) = B \<and> geom B (R s) (W s) (WR s) \<and>
     (\<not> JO s \<longrightarrow> room B (R s) (W s)) \<and> pos s \<le> length (stream s) \<and>
     drop (pos s) (stream s) = ring (BUF s) (WR s) (R s) (W s) \<and>
     conn_start s \<le> pos s \<and> conn_start s \<in> starts s \<and> length (stream s) \<in> starts s"

definition snapshot_ok :: "nat \<Rightarrow> sys \<Rightarrow> write_info \<Rightarrow> nat \<Rightarrow> bool" where
  "snapshot_ok B s wi wpos \<longleftrightarrow> snap_ok B (R s) (W s) (WR s) (write_offset wi) (wrap_offset wi) \<and>
     pos s \<le> wpos \<and> wpos \<le> length (stream s) \<and> wpos \<in> starts s \<and>
     drop wpos (stream s) = ring (BUF s) (WR s) (write_offset wi) (W s)"

definition in_flight :: "reader_pc \<Rightarrow> nat" where
  "in_flight pc = (case pc of RStore off n \<Rightarrow> n | _ \<Rightarrow> 0)"

definition reader_ok :: "nat \<Rightarrow> sys \<Rightarrow> bool" where
  "reader_ok B s \<longleftrightarrow>
     (case rpc s of
        RIdle \<Rightarrow> True
      | RLoaded wi r0 wpos \<Rightarrow> r0 = R s \<and> snapshot_ok B s wi wpos
      | RNewFd wi wpos \<Rightarrow> snapshot_ok B s wi wpos
      | RSend off n \<Rightarrow> piece_ok (R s) (W s) (WR s) off n
      | RStore off n \<Rightarrow> piece_ok (R s) (W s) (WR s) off n
      | RPanic \<Rightarrow> False)"

definition connection_ok :: "sys \<Rightarrow> bool" where
  "connection_ok s \<longleftrightarrow> (cur_fd (hs s) = -1 \<or> (\<exists>wi wpos. rpc s = RNewFd wi wpos) \<or>
     sent s = slice (stream s) (conn_start s) (pos s + in_flight (rpc s)))"

definition writing_ok :: "nat \<Rightarrow> sys \<Rightarrow> request \<Rightarrow> write_info \<Rightarrow> nat \<Rightarrow> nat \<Rightarrow> nat \<Rightarrow> bytes list \<Rightarrow> bool" where
  "writing_ok B s q wi st p cur cs \<longleftrightarrow>
     region_ok B (R s) (W s) (WR s) st (write_offset wi) (wrap_offset wi) \<and>
     just_wrote_overrun wi = for_overrun q \<and>
     (\<not> for_overrun q \<longrightarrow> region_room B (R s) (W s) st (write_offset wi)) \<and>
     p = st + length (fill_ws_header (calc_size (chunks_of q))) \<and>
     calc_size (chunks_of q) = length (concat (chunks_of q)) \<and>
     write_offset wi = p + calc_size (chunks_of q) \<and>
     (\<exists>written. chunks_of q = written @ cs \<and> cur = p + length (concat written) \<and>
        slice (BUF s) st cur = fill_ws_header (calc_size (chunks_of q)) @ concat written)"

definition writer_ok :: "nat \<Rightarrow> sys \<Rightarrow> bool" where
  "writer_ok B s \<longleftrightarrow>
     (case wpc s of
        WIdle \<Rightarrow> True
      | WLoad q \<Rightarrow> (for_overrun q \<longrightarrow> \<not> JO s)
      | WLoaded q r_old \<Rightarrow> loaded_ok B (R s) (W s) r_old \<and> (\<not> JO s \<longrightarrow> room B r_old (W s)) \<and> (for_overrun q \<longrightarrow> \<not> JO s)
      | WWriting q wi st p cur cs \<Rightarrow> writing_ok B s q wi st p cur cs
      | WNote n \<Rightarrow> True
      | WBack q \<Rightarrow> \<not> for_overrun q
      | WWait q before \<Rightarrow> \<not> for_overrun q \<and> before \<le> now s
      | WPanic \<Rightarrow> False)"

definition hose_inv :: "nat \<Rightarrow> sys \<Rightarrow> bool" where
  "hose_inv B s \<longleftrightarrow> shared_ok B s \<and> reader_ok B s \<and> connection_ok s \<and> writer_ok B s"

lemmas inv_defs = hose_inv_def shared_ok_def reader_ok_def snapshot_ok_def connection_ok_def writer_ok_def in_flight_def

lemma inv_init: "10 \<le> B \<Longrightarrow> B < 2 ^ 31 \<Longrightarrow> hose_inv B (sys_init B)"
  by (simp add: inv_defs sys_init_def hose_init_def geom_def room_def OVERRUN_PACKET_SIZE_def ring_self)

text \<open>Steps that only move the writer's program counter, or the reader's.\<close>

lemma pc_upd [simp]:
  "shared_ok B (s\<lparr>wpc := w\<rparr>) = shared_ok B s" "shared_ok B (s\<lparr>rpc := r\<rparr>) = shared_ok B s"
  "shared_ok B (s\<lparr>sent := b\<rparr>) = shared_ok B s"
  "snapshot_ok B (s\<lparr>wpc := w\<rparr>) = snapshot_ok B s" "snapshot_ok B (s\<lparr>rpc := r\<rparr>) = snapshot_ok B s"
  "snapshot_ok B (s\<lparr>sent := b\<rparr>) = snapshot_ok B s"
  "writing_ok B (s\<lparr>wpc := w\<rparr>) = writing_ok B s" "writing_ok B (s\<lparr>rpc := r\<rparr>) = writing_ok B s"
  "writing_ok B (s\<lparr>sent := b\<rparr>) = writing_ok B s"
  by (simp_all add: shared_ok_def snapshot_ok_def writing_ok_def fun_eq_iff)

lemma pc_upd2 [simp]:
  "reader_ok B (s\<lparr>wpc := w\<rparr>) = reader_ok B s" "writer_ok B (s\<lparr>rpc := r\<rparr>) = writer_ok B s"
  "connection_ok (s\<lparr>wpc := w\<rparr>) = connection_ok s"
  "writer_ok B (s\<lparr>sent := b\<rparr>) = writer_ok B s" "reader_ok B (s\<lparr>sent := b\<rparr>) = reader_ok B s"
  by (simp_all add: reader_ok_def writer_ok_def connection_ok_def cong: reader_pc.case_cong writer_pc.case_cong)

lemma clock_upd [simp]:
  "hose_inv B (s\<lparr>others := x\<rparr>) = hose_inv B s" "hose_inv B (s\<lparr>waited_nsec := n\<rparr>) = hose_inv B s"
  by (simp_all add: hose_inv_def shared_ok_def reader_ok_def snapshot_ok_def connection_ok_def writer_ok_def writing_ok_def
      cong: reader_pc.case_cong writer_pc.case_cong)

lemma time_inv: "hose_inv B s \<Longrightarrow> 0 \<le> d \<Longrightarrow> hose_inv B (s\<lparr>now := now s + d\<rparr>)"
  by (auto simp: hose_inv_def shared_ok_def reader_ok_def snapshot_ok_def connection_ok_def writer_ok_def writing_ok_def
      cong: reader_pc.case_cong split: writer_pc.splits)

lemma writer_pc_step:
  "hose_inv B s \<Longrightarrow> writer_ok B (s\<lparr>wpc := pc\<rparr>) \<Longrightarrow> hose_inv B (s\<lparr>wpc := pc\<rparr>)"
  by (simp add: hose_inv_def)

lemma reader_pc_step:
  "hose_inv B s \<Longrightarrow> reader_ok B (s\<lparr>rpc := pc\<rparr>) \<Longrightarrow> connection_ok (s\<lparr>rpc := pc\<rparr>) \<Longrightarrow> hose_inv B (s\<lparr>rpc := pc\<rparr>)"
  by (simp add: hose_inv_def)

text \<open>A write into the reserved region.\<close>

lemma region_write:
  assumes inv: "hose_inv B s" and reg: "region_ok B (R s) (W s) (WR s) st w' wrap'"
    and i: "st \<le> i" "i + length ys \<le> w'"
  defines "s' \<equiv> s\<lparr>hs := (hs s)\<lparr>buf := put_slice (BUF s) i ys\<rparr>\<rparr>"
  shows "shared_ok B s'" and "reader_ok B s'" and "connection_ok s'"
proof -
  have g: "geom B (R s) (W s) (WR s)" and len: "length (BUF s) = B" using inv by (auto simp: hose_inv_def shared_ok_def)
  have w': "w' \<le> length (BUF s)" using reg len by (auto simp: region_ok_def)
  note frame = ring_frame [OF _ i w']
  show "shared_ok B s'"
    using inv i w' frame [OF region_behind_reader [OF reg g]]
    by (simp add: hose_inv_def shared_ok_def s'_def length_put_slice)
  have snap: "snapshot_ok B s' wi wpos" if "snapshot_ok B s wi wpos" for wi wpos
  proof -
    have "snap_ok B (R s) (W s) (WR s) (write_offset wi) (wrap_offset wi)" using that by (simp add: snapshot_ok_def)
    from frame [OF region_behind_snap [OF reg g this]] that show ?thesis by (simp add: snapshot_ok_def s'_def)
  qed
  show "reader_ok B s'"
    using inv snap by (auto simp: hose_inv_def reader_ok_def s'_def split: reader_pc.splits)
  show "connection_ok s'" using inv by (simp add: hose_inv_def connection_ok_def s'_def)
qed

text \<open>The step that publishes a packet.\<close>

lemma publish_inv:
  assumes inv: "hose_inv B s" and pc: "wpc s = WWriting q wi st p cur []" and cur: "cur = p + calc_size (chunks_of q)"
  shows "hose_inv B (s\<lparr>hs := publish (hs s) wi (calc_size (chunks_of q)), wpc := after_publish q,
                   stream := stream s @ frame_of q, starts := insert (length (stream s @ frame_of q)) (starts s)\<rparr>)"
    (is "hose_inv B ?s")
proof -
  have sh: "shared_ok B s" and rd: "reader_ok B s" and co: "connection_ok s" and wr: "writing_ok B s q wi st p cur []"
    using inv pc by (auto simp: hose_inv_def writer_ok_def)
  let ?w = "write_offset wi" and ?wr = "wrap_offset wi"
  have g: "geom B (R s) (W s) (WR s)" using sh by (simp add: shared_ok_def)
  have reg: "region_ok B (R s) (W s) (WR s) st ?w ?wr" and jo: "just_wrote_overrun wi = for_overrun q"
    and room: "\<not> for_overrun q \<longrightarrow> region_room B (R s) (W s) st ?w"
    and w: "?w = cur" and sl: "slice (BUF s) st cur = frame_of q"
    using wr cur by (auto simp: writing_ok_def frame_of_def)
  have lt: "st < ?w" using reg by (simp add: region_ok_def)
  have ext: "ring (BUF s) ?wr x ?w = ring (BUF s) (WR s) x (W s) @ frame_of q"
    if "behind (W s) (WR s) st ?w ?wr x" for x
    using ring_extend [OF that lt, of "BUF s"] sl w by simp
  have "shared_ok B ?s"
    using sh publish_geom [OF reg g] ext [OF region_behind_reader [OF reg g]] jo room publish_room [OF _ reg]
    by (auto simp: shared_ok_def publish_def)
  moreover have "snapshot_ok B ?s wi0 wpos" if "snapshot_ok B s wi0 wpos" for wi0 wpos
    using that ext [OF region_behind_snap [OF reg g]] publish_snap [OF reg g]
    by (auto simp: snapshot_ok_def publish_def)
  with rd publish_piece [OF reg g] have "reader_ok B ?s"
    by (auto simp: reader_ok_def publish_def split: reader_pc.splits)
  moreover have "connection_ok ?s"
  proof -
    have len: "pos s + in_flight (rpc s) \<le> length (stream s)"
    proof (cases "rpc s")
      case (RStore off n)
      with rd have pk: "piece_ok (R s) (W s) (WR s) off n" by (simp add: reader_ok_def)
      have "length (slice (BUF s) off (off + n)) = n"
        using pk g sh by (subst length_slice) (auto simp: piece_ok_def geom_def shared_ok_def)
      with ring_advance [OF pk g, of "BUF s"] sh have "n \<le> length (drop (pos s) (stream s))"
        by (simp add: shared_ok_def)
      then have "n \<le> length (stream s) - pos s" by (simp only: length_drop)
      moreover have "pos s \<le> length (stream s)" using sh by (simp add: shared_ok_def)
      ultimately show ?thesis using RStore by (simp add: in_flight_def)
    qed (use sh in \<open>simp_all add: in_flight_def shared_ok_def\<close>)
    have "slice (stream s @ x) a b = slice (stream s) a b" if "b \<le> length (stream s)" for x a b
      using that by (simp add: slice_def)
    with co len show ?thesis by (simp add: connection_ok_def publish_def)
  qed
  moreover have "writer_ok B ?s" by (cases q) (simp_all add: writer_ok_def)
  ultimately show ?thesis by (simp add: hose_inv_def)
qed

text \<open>The reader moves over a piece it has sent, or jumps to the end of its snapshot.\<close>

lemma reader_moves:
  assumes inv: "hose_inv B s" and mv: "reader_move B (R s) (W s) (WR s) r'"
  shows "geom B r' (W s) (WR s)" and "\<not> JO s \<longrightarrow> room B r' (W s)"
    and "writer_ok B (s\<lparr>hs := (hs s)\<lparr>read_offset := r', sent_event := e\<rparr>\<rparr>)"
proof -
  have g: "geom B (R s) (W s) (WR s)" and ro: "\<not> JO s \<longrightarrow> room B (R s) (W s)" and wr: "writer_ok B s"
    using inv by (auto simp: hose_inv_def shared_ok_def)
  show "geom B r' (W s) (WR s)" by (rule move_geom [OF mv g])
  show "\<not> JO s \<longrightarrow> room B r' (W s)" using ro move_room [OF mv g] by blast
  show "writer_ok B (s\<lparr>hs := (hs s)\<lparr>read_offset := r', sent_event := e\<rparr>\<rparr>)"
    using wr move_loaded [OF mv] move_region [OF mv g] move_region_room [OF mv g]
    by (auto simp: writer_ok_def writing_ok_def split: writer_pc.splits)
qed

lemma store_inv:
  assumes inv: "hose_inv B s" and pc: "rpc s = RStore off n"
  shows "\<exists>h'. finish_send (hs s) off n = Some h' \<and> hose_inv B (s\<lparr>hs := h', rpc := RIdle, pos := pos s + n\<rparr>)"
proof -
  have sh: "shared_ok B s" and pk: "piece_ok (R s) (W s) (WR s) off n" and co: "connection_ok s"
    using inv pc by (auto simp: hose_inv_def reader_ok_def)
  have g: "geom B (R s) (W s) (WR s)" using sh by (simp add: shared_ok_def)
  note mv = piece_move [OF pk g]
  have le: "off + n \<le> B" using pk g by (auto simp: piece_ok_def geom_def)
  have fin: "finish_send (hs s) off n = Some ((hs s)\<lparr>read_offset := off + n, sent_event := True\<rparr>)" (is "_ = Some ?h")
    using le sh by (simp add: finish_send_def shared_ok_def Let_def)
  let ?s = "s\<lparr>hs := ?h, rpc := RIdle, pos := pos s + n\<rparr>"
  have adv: "drop (pos s) (stream s) = slice (BUF s) off (off + n) @ ring (BUF s) (WR s) (off + n) (W s)"
    using sh ring_advance [OF pk g] by (simp add: shared_ok_def)
  have lsl: "length (slice (BUF s) off (off + n)) = n" using le sh by (simp add: length_slice shared_ok_def)
  have "drop (pos s + n) (stream s) = drop n (drop (pos s) (stream s))" by (simp add: add.commute)
  then have drop: "drop (pos s + n) (stream s) = ring (BUF s) (WR s) (off + n) (W s)" using adv lsl by simp
  have "n \<le> length (drop (pos s) (stream s))" using adv lsl by simp
  then have "pos s + n \<le> length (stream s)" using sh by (simp add: shared_ok_def le_diff_conv2)
  then have "shared_ok B ?s" using sh drop reader_moves(1,2) [OF inv mv] by (simp add: shared_ok_def)
  moreover have "reader_ok B ?s" by (simp add: reader_ok_def)
  moreover have "connection_ok ?s" using co pc by (simp add: connection_ok_def in_flight_def)
  moreover have "writer_ok B ?s"
  proof -
    have "writer_ok B (t\<lparr>rpc := y, pos := x\<rparr>) = writer_ok B t" for t x y
      by (simp add: writer_ok_def writing_ok_def cong: writer_pc.case_cong)
    from this [where t = "s\<lparr>hs := ?h\<rparr>"] reader_moves(3) [OF inv mv, of True] show ?thesis by simp
  qed
  ultimately show ?thesis using fin by (auto simp: hose_inv_def)
qed

lemma drop_inv:
  assumes inv: "hose_inv B s" and pc: "rpc s = RNewFd wi wpos"
  shows "hose_inv B (s\<lparr>hs := drop_buffer (hs s) wi, rpc := RIdle, pos := wpos, conn_start := wpos, sent := []\<rparr>)"
    (is "hose_inv B ?s")
proof -
  have sh: "shared_ok B s" and sn: "snapshot_ok B s wi wpos" using inv pc by (auto simp: hose_inv_def reader_ok_def)
  have g: "geom B (R s) (W s) (WR s)" using sh by (simp add: shared_ok_def)
  have "snap_ok B (R s) (W s) (WR s) (write_offset wi) (wrap_offset wi)" using sn by (simp add: snapshot_ok_def)
  note mv = snap_move [OF this g]
  have "shared_ok B ?s" using sh sn reader_moves(1,2) [OF inv mv]
    by (simp add: shared_ok_def snapshot_ok_def drop_buffer_def)
  moreover have "reader_ok B ?s" by (simp add: reader_ok_def)
  moreover have "connection_ok ?s" by (simp add: connection_ok_def in_flight_def)
  moreover have "writer_ok B ?s"
  proof -
    have "writer_ok B (t\<lparr>rpc := y, pos := x, conn_start := x, sent := z\<rparr>) = writer_ok B t" for t x y z
      by (simp add: writer_ok_def writing_ok_def cong: writer_pc.case_cong)
    from this [where t = "s\<lparr>hs := drop_buffer (hs s) wi\<rparr>"] reader_moves(3) [OF inv mv, of "sent_event (hs s)"]
    show ?thesis by (simp add: drop_buffer_def)
  qed
  ultimately show ?thesis by (simp add: hose_inv_def)
qed

text \<open>The reservation.\<close>

lemma reserve_inv:
  assumes inv: "hose_inv B s" and pc: "wpc s = WLoaded q ro"
    and res: "after_reserve q (hs s) (reserve_space_and_write_header (hs s) ro (calc_size (chunks_of q)) (for_overrun q)) = (h', pc')"
  shows "hose_inv B (s\<lparr>hs := h', wpc := pc'\<rparr>)"
proof -
  let ?n = "calc_size (chunks_of q)" and ?ov = "for_overrun q"
  let ?hdr = "fill_ws_header ?n" and ?full = "add_ws_header_size ?n"
  have sh: "shared_ok B s" and l: "loaded_ok B (R s) (W s) ro"
    and room: "\<not> JO s \<longrightarrow> room B ro (W s)" and ov: "?ov \<longrightarrow> \<not> JO s"
    using inv pc by (auto simp: hose_inv_def writer_ok_def)
  have g: "geom B (R s) (W s) (WR s)" and B: "B < 2 ^ 31" and len: "length (BUF s) = B"
    using sh by (auto simp: shared_ok_def)
  have wi: "wr_info (hs s) = \<lparr>write_offset = W s, wrap_offset = WR s, just_wrote_overrun = JO s\<rparr>" by simp
  obtain ok wi2 where f: "find_space B ro (wr_info (hs s)) (needed_size ?full ?ov) = (ok, wi2)" by fastforce
  show ?thesis
  proof (cases ok)
    case False
    have "\<not> ?ov"
    proof
      assume "?ov"
      then obtain m where "q = OverrunFor m" by (cases q) auto
      then have "?n = 8" "?ov" "room B ro (W s)" using room ov by (simp_all add: overrun_frame(1))
      with find_space_overrun [OF g B _ wi, of ro] have "fst (find_space B ro (wr_info (hs s)) (needed_size ?full ?ov))"
        by simp
      with f False show False by simp
    qed
    then have "h' = hs s \<and> (pc' = WBack q \<or> (\<exists>n. pc' = WLoad (OverrunFor n) \<and> \<not> JO s) \<or> (\<exists>n. pc' = WNote n))"
      using res f False by (auto simp: reserve_space_and_write_header_def after_reserve_def len Let_def split: if_splits)
    with \<open>\<not> ?ov\<close> writer_pc_step [OF inv, of pc'] show ?thesis by (auto simp: writer_ok_def)
  next
    case True
    then have f': "find_space B ro (wr_info (hs s)) (needed_size ?full ?ov) = (True, wi2)" using f by simp
    let ?wi = "advance wi2 ?full ?ov" and ?st = "write_offset wi2"
    note reg = find_space_region [OF g l B wi f']
    have w': "write_offset ?wi = ?st + length ?hdr + ?n" using reg(2) by simp
    have wB: "write_offset ?wi \<le> B" "?st < write_offset ?wi" using reg(1,2) by (auto simp: region_ok_def)
    have fits: "?st + length ?hdr \<le> length (BUF s)" using w' wB len by simp
    have "size_sub (write_offset ?wi) ?n = ?st + length ?hdr"
      using w' wB B by (subst size_sub_eq) (simp_all add: SIZE_MAX_def)
    then have st: "h' = (hs s)\<lparr>buf := put_slice (BUF s) ?st ?hdr\<rparr>"
      "pc' = WWriting q ?wi ?st (?st + length ?hdr) (?st + length ?hdr) (chunks_of q)"
      using res f' fits
      by (simp_all add: reserve_space_and_write_header_def after_reserve_def len memcpy_into_def Let_def)
    have reg1: "region_ok B (R s) (W s) (WR s) ?st (write_offset ?wi) (wrap_offset ?wi)" using reg(1,2) by simp
    note mem = region_write [OF inv reg1, of ?st ?hdr]
    have "?st + length ?hdr \<le> write_offset ?wi" using w' by simp
    note mem = mem [OF order_refl this]
    have nsz: "?n = length (concat (chunks_of q))"
      using wB w' B by (simp add: calc_size_sat SIZE_MAX_def min_def split: if_splits)
    have rr: "\<not> ?ov \<longrightarrow> region_room B (R s) (W s) ?st (write_offset ?wi)" using reg(2,3) by metis
    have "writing_ok B (s\<lparr>hs := h'\<rparr>) q ?wi ?st (?st + length ?hdr) (?st + length ?hdr) (chunks_of q)"
      unfolding writing_ok_def using rr reg(4) reg1 w' nsz slice_put_slice_same [OF fits]
      by (intro conjI exI [of _ "[]"]) (simp_all add: st add.assoc)
    with mem show ?thesis unfolding st(2)
      by (simp add: hose_inv_def st(1) writer_ok_def connection_ok_def)
  qed
qed

lemma chunk_inv:
  assumes inv: "hose_inv B s" and pc: "wpc s = WWriting q wi st p cur (c # cs)"
  shows "\<exists>b'. actual_writer_write_raw (BUF s, cur) c = Some (b', cur + length c) \<and>
     hose_inv B (s\<lparr>hs := (hs s)\<lparr>buf := b'\<rparr>, wpc := WWriting q wi st p (cur + length c) cs\<rparr>)"
proof -
  have w: "writing_ok B s q wi st p cur (c # cs)" using inv pc by (simp add: hose_inv_def writer_ok_def)
  then obtain dn where d: "chunks_of q = dn @ c # cs" "cur = p + length (concat dn)"
      "slice (BUF s) st cur = fill_ws_header (calc_size (chunks_of q)) @ concat dn"
    and reg: "region_ok B (R s) (W s) (WR s) st (write_offset wi) (wrap_offset wi)"
    and p: "p = st + length (fill_ws_header (calc_size (chunks_of q)))"
    and e: "write_offset wi = p + calc_size (chunks_of q)" "calc_size (chunks_of q) = length (concat (chunks_of q))"
    by (auto simp: writing_ok_def)
  have le: "st \<le> cur" "cur + length c \<le> write_offset wi" using d p e by simp_all
  have fits: "cur + length c \<le> length (BUF s)" using le reg inv by (auto simp: region_ok_def hose_inv_def shared_ok_def)
  let ?b = "put_slice (BUF s) cur c"
  have "slice ?b st (cur + length c) = slice ?b st cur @ slice ?b cur (cur + length c)"
    using le by (simp add: slice_append)
  also have "\<dots> = slice (BUF s) st cur @ c"
    using fits by (simp add: slice_put_slice_same slice_put_slice_other)
  finally have sl: "slice ?b st (cur + length c) = fill_ws_header (calc_size (chunks_of q)) @ concat (dn @ [c])"
    using d(3) by simp
  have "chunks_of q = (dn @ [c]) @ cs \<and> cur + length c = p + length (concat (dn @ [c])) \<and>
      slice ?b st (cur + length c) = fill_ws_header (calc_size (chunks_of q)) @ concat (dn @ [c])"
    using d sl by simp
  then have "writing_ok B (s\<lparr>hs := (hs s)\<lparr>buf := ?b\<rparr>\<rparr>) q wi st p (cur + length c) cs"
    using w unfolding writing_ok_def by (auto simp del: concat_append)
  with region_write [OF inv reg le] fits show ?thesis
    by (simp add: actual_writer_write_raw_def memcpy_into_def hose_inv_def writer_ok_def connection_ok_def)
qed

lemma plan_inv:
  assumes inv: "hose_inv B s" and pc: "rpc s = RLoaded wi r wpos"
  shows "hose_inv B (s\<lparr>rpc := (case iter_plan (length (BUF s)) wi r of
       IterPanic \<Rightarrow> RPanic | IterSleep \<Rightarrow> RIdle | IterSend off n \<Rightarrow> RSend off n)\<rparr>)"
proof -
  have r: "r = R s" and sn: "snap_ok B (R s) (W s) (WR s) (write_offset wi) (wrap_offset wi)"
    and g: "geom B (R s) (W s) (WR s)" and len: "length (BUF s) = B"
    using inv pc by (auto simp: hose_inv_def reader_ok_def snapshot_ok_def shared_ok_def)
  have co: "connection_ok s" using inv by (simp add: hose_inv_def)
  from iter_plan_ok [OF g sn] show ?thesis
    using co pc r len
    by (intro reader_pc_step [OF inv])
      (auto simp: reader_ok_def connection_ok_def in_flight_def split: iter_plan.splits)
qed

lemma send_inv:
  assumes inv: "hose_inv B s" and pc: "rpc s = RSend off n" and le: "m \<le> n"
  shows "hose_inv B (s\<lparr>rpc := RStore off m, sent := sent s @ slice (BUF s) off (off + m)\<rparr>)"
proof -
  have pk: "piece_ok (R s) (W s) (WR s) off n" and g: "geom B (R s) (W s) (WR s)" and sh: "shared_ok B s"
    and co: "connection_ok s"
    using inv pc by (auto simp: hose_inv_def reader_ok_def shared_ok_def)
  have pk': "piece_ok (R s) (W s) (WR s) off m" using pk le by (auto simp: piece_ok_def)
  have "off + m \<le> length (BUF s)" using pk' g sh by (auto simp: piece_ok_def geom_def shared_ok_def)
  then have "slice (BUF s) off (off + m) = take m (drop (pos s) (stream s))"
    using ring_advance [OF pk' g, of "BUF s"] sh by (simp add: shared_ok_def length_slice)
  also have "\<dots> = slice (stream s) (pos s) (pos s + m)" by (simp add: slice_def)
  finally have "slice (stream s) (conn_start s) (pos s) @ slice (BUF s) off (off + m) =
      slice (stream s) (conn_start s) (pos s + m)"
    using sh by (simp add: slice_append shared_ok_def)
  with co pc have "connection_ok (s\<lparr>rpc := RStore off m, sent := sent s @ slice (BUF s) off (off + m)\<rparr>)"
    by (auto simp: connection_ok_def in_flight_def)
  moreover have "reader_ok B (s\<lparr>rpc := RStore off m\<rparr>)" using pk' by (simp add: reader_ok_def)
  ultimately show ?thesis using inv by (simp add: hose_inv_def)
qed

text \<open>Changes of the fields no offset depends on.\<close>

definition same_offsets :: "hose \<Rightarrow> hose \<Rightarrow> bool" where
  "same_offsets h h' \<longleftrightarrow> wr_info h' = wr_info h \<and> read_offset h' = read_offset h \<and> buf h' = buf h"

lemma same_offsets_inv:
  assumes "same_offsets (hs s) h'"
  shows "shared_ok B (s\<lparr>hs := h'\<rparr>) = shared_ok B s" and "reader_ok B (s\<lparr>hs := h'\<rparr>) = reader_ok B s"
    and "writer_ok B (s\<lparr>hs := h'\<rparr>) = writer_ok B s"
  using assms
  by (simp_all add: same_offsets_def shared_ok_def reader_ok_def writer_ok_def writing_ok_def snapshot_ok_def
      cong: reader_pc.case_cong writer_pc.case_cong)

lemma inv_step:
  assumes inv: "hose_inv B s" and step: "hose_step s s'"
  shows "hose_inv B s'"
  using step
proof (cases rule: hose_step.cases)
  case (start_packet cs)
  then show ?thesis using writer_pc_step [OF inv] by (simp add: writer_ok_def)
next
  case (load_read_offset q)
  have g: "geom B (R s) (W s) (WR s)" and r: "\<not> JO s \<longrightarrow> room B (R s) (W s)" and "for_overrun q \<longrightarrow> \<not> JO s"
    using inv load_read_offset by (auto simp: hose_inv_def shared_ok_def writer_ok_def)
  with load_loaded [OF g] load_read_offset show ?thesis
    by (auto intro!: writer_pc_step [OF inv] simp: writer_ok_def)
next
  case (reserve q r h' pc')
  then show ?thesis using reserve_inv [OF inv] by simp
next
  case (write_chunk q wi st p cur c cs b' cur')
  with chunk_inv [OF inv write_chunk(2)] show ?thesis by auto
next
  case (write_chunk_fault q wi st p cur c cs)
  with chunk_inv [OF inv write_chunk_fault(2)] show ?thesis by auto
next
  case (size_assert_fails q wi st p cur)
  then have "writing_ok B s q wi st p cur []" using inv by (simp add: hose_inv_def writer_ok_def)
  then have "cur = p + calc_size (chunks_of q)" by (auto simp: writing_ok_def)
  with size_assert_fails show ?thesis by simp
next
  case (review_rejects cs wi st p cur)
  then show ?thesis using writer_pc_step [OF inv] by (simp add: writer_ok_def)
next
  case (publish_packet q wi st p cur)
  then show ?thesis using publish_inv [OF inv] by simp
next
  case (count_overrun n)
  have "same_offsets (hs s) (note_overrun (hs s) n)" by (simp add: same_offsets_def note_overrun_def)
  from same_offsets_inv [OF this] inv count_overrun show ?thesis
    by (simp add: hose_inv_def writer_ok_def connection_ok_def note_overrun_def)
next
  case (write_elsewhere self)
  then show ?thesis using inv by simp
next
  case (wait_starts q)
  then show ?thesis using writer_pc_step [OF inv] inv by (simp add: hose_inv_def writer_ok_def)
next
  case (wait_ends q before ns)
  have "same_offsets (hs s) ((hs s)\<lparr>sent_event := False\<rparr>)" by (simp add: same_offsets_def)
  from same_offsets_inv [OF this, of B] have "hose_inv B (s\<lparr>hs := (hs s)\<lparr>sent_event := False\<rparr>\<rparr>)"
    using inv by (simp add: hose_inv_def connection_ok_def)
  then have "hose_inv B (s\<lparr>hs := (hs s)\<lparr>sent_event := False\<rparr>\<rparr>\<lparr>waited_nsec := waited_nsec s + word_of_int ns\<rparr>)"
    by (simp only: clock_upd)
  from writer_pc_step [OF this, of "WLoad q"] show ?thesis
    unfolding wait_ends(1) using inv wait_ends(2) by (simp add: hose_inv_def writer_ok_def)
next
  case (clock_assert_fails q before)
  then have "before \<le> now s" using inv by (simp add: hose_inv_def writer_ok_def)
  with clock_assert_fails show ?thesis by (simp add: backpressure_ns_def Let_def)
next
  case (time_passes d)
  then show ?thesis using time_inv [OF inv] by simp
next
  case load_info
  have g: "geom B (R s) (W s) (WR s)" using inv by (simp add: hose_inv_def shared_ok_def)
  have "snapshot_ok B s (wr_info (hs s)) (length (stream s))"
    using inv load_snap [OF g] by (simp add: snapshot_ok_def hose_inv_def shared_ok_def ring_self)
  moreover have "connection_ok s" using inv by (simp add: hose_inv_def)
  ultimately show ?thesis using load_info
    by (auto intro!: reader_pc_step [OF inv] simp: reader_ok_def connection_ok_def in_flight_def)
next
  case (new_connection wi r wpos)
  have "same_offsets (hs s) (take_new_fd (hs s))" by (simp add: same_offsets_def take_new_fd_def)
  from same_offsets_inv [OF this] inv new_connection show ?thesis
    by (simp add: hose_inv_def reader_ok_def snapshot_ok_def connection_ok_def take_new_fd_def)
next
  case (store_dropped wi wpos)
  then show ?thesis using drop_inv [OF inv] by simp
next
  case (plan wi r wpos)
  then show ?thesis using plan_inv [OF inv] by simp
next
  case (discard off n)
  then show ?thesis using inv
    by (auto intro!: reader_pc_step [OF inv] simp: hose_inv_def reader_ok_def connection_ok_def)
next
  case (send_ok off n actual)
  then show ?thesis using send_inv [OF inv] by simp
next
  case (send_fails off n)
  have "same_offsets (hs s) ((hs s)\<lparr>cur_fd := -1\<rparr>)" by (simp add: same_offsets_def)
  from same_offsets_inv [OF this] inv send_fails show ?thesis
    by (simp add: hose_inv_def reader_ok_def connection_ok_def)
next
  case (store_read_offset off n h')
  with store_inv [OF inv store_read_offset(2)] show ?thesis by auto
next
  case (store_assert_fails off n)
  with store_inv [OF inv store_assert_fails(2)] show ?thesis by auto
next
  case (connection_arrives fd fl ret h' old)
  then have "h' = push_fd (hs s) fd" by (simp add: hose_push_fd_def Let_def split: if_splits)
  moreover have "same_offsets (hs s) (push_fd (hs s) fd)" by (simp add: same_offsets_def push_fd_def)
  from same_offsets_inv [OF this] inv have "hose_inv B (s\<lparr>hs := push_fd (hs s) fd\<rparr>)"
    by (simp add: hose_inv_def connection_ok_def push_fd_def)
  ultimately show ?thesis using connection_arrives by simp
next
  case (fcntl_assert_fails fl ret fd)
  then show ?thesis using inv by simp
next
  case (backpressure_set e)
  have "same_offsets (hs s) (set_enable_backpressure (hs s) e)" by (simp add: same_offsets_def set_enable_backpressure_def)
  from same_offsets_inv [OF this] inv backpressure_set show ?thesis
    by (simp add: hose_inv_def connection_ok_def set_enable_backpressure_def)
qed

lemma reachable_inv: "reachable B s \<Longrightarrow> 10 \<le> B \<Longrightarrow> B < 2 ^ 31 \<Longrightarrow> hose_inv B s"
  by (induction rule: reachable.induct) (auto intro: inv_init inv_step)

section \<open>The stream is a sequence of packets\<close>

definition packets_inv :: "sys \<Rightarrow> bool" where
  "packets_inv s \<longleftrightarrow> (\<forall>x \<in> starts s. \<exists>qs rs. stream s = concat (map frame_of (qs @ rs)) \<and>
     x = length (concat (map frame_of qs)))"

lemma packets_inv_step: "hose_step s s' \<Longrightarrow> packets_inv s \<Longrightarrow> length (stream s) \<in> starts s \<Longrightarrow> packets_inv s'"
proof (induction rule: hose_step.induct)
  case (publish_packet s q wi st p cur)
  obtain qs where qs: "stream s = concat (map frame_of qs)"
    using bspec [OF publish_packet(3) [unfolded packets_inv_def] publish_packet(4)] by (elim exE conjE) (rule that)
  have "\<exists>ps rs. stream s @ frame_of q = concat (map frame_of (ps @ rs)) \<and> x = length (concat (map frame_of ps))"
    if x: "x \<in> starts s" for x
  proof -
    obtain ps rs where p: "stream s = concat (map frame_of (ps @ rs))" "x = length (concat (map frame_of ps))"
      using bspec [OF publish_packet(3) [unfolded packets_inv_def] x] by (elim exE conjE) (rule that)
    have "stream s @ frame_of q = concat (map frame_of (ps @ (rs @ [q])))"
      unfolding p(1) by (simp only: map_append concat_append append_assoc) simp
    with p(2) show ?thesis by blast
  qed
  moreover have "\<exists>ps rs. stream s @ frame_of q = concat (map frame_of (ps @ rs)) \<and>
      length (stream s @ frame_of q) = length (concat (map frame_of ps))"
    unfolding qs by (intro exI [of _ "qs @ [q]"] exI [of _ "[]"] conjI) simp_all
  ultimately show ?case by (simp add: packets_inv_def)
qed (simp_all add: packets_inv_def)

lemma reachable_packets:
  assumes "reachable B s" and "10 \<le> B" and "B < 2 ^ 31"
  shows "packets_inv s"
  using assms(1)
proof induction
  case init
  have "([] :: bytes) = concat (map frame_of ([] @ []))" by simp
  then show ?case unfolding packets_inv_def sys_init_def by (auto intro!: exI [of _ "[] :: request list"])
next
  case (step s s')
  then have "length (stream s) \<in> starts s"
    using reachable_inv [OF step.hyps(1) assms(2,3)] by (simp add: hose_inv_def shared_ok_def)
  with step show ?case by (blast intro: packets_inv_step)
qed

text \<open>A packet is given up only after an overrun packet, with nothing published in between.\<close>

definition overrun_inv :: "sys \<Rightarrow> bool" where
  "overrun_inv s \<longleftrightarrow> (JO s \<longrightarrow> suffix (frame_of (OverrunFor 0)) (stream s)) \<and>
     (case wpc s of WNote n \<Rightarrow> JO s | WWriting q wi st p cur cs \<Rightarrow> just_wrote_overrun wi = for_overrun q | _ \<Rightarrow> True)"

lemma after_reserve_cases:
  assumes "after_reserve q h (reserve_space_and_write_header h ro n (for_overrun q)) = (h', pc')"
  shows "wr_info h' = wr_info h" and "pc' = WNote m \<Longrightarrow> just_wrote_overrun (wr_info h)"
    and "pc' = WWriting q' wi st p cur cs \<Longrightarrow> just_wrote_overrun wi = for_overrun q'"
  using assms
  by (auto simp: after_reserve_def reserve_space_and_write_header_def advance_def Let_def
      split: reserve_result.splits prod.splits option.splits if_splits)

lemma overrun_inv_step: "hose_step s s' \<Longrightarrow> overrun_inv s \<Longrightarrow> overrun_inv s'"
proof (induction rule: hose_step.induct)
  case (reserve s q r h' pc')
  from after_reserve_cases [OF reserve(2)] reserve(1,3) show ?case
    by (auto simp: overrun_inv_def split: writer_pc.splits)
next
  case (publish_packet s q wi st p cur)
  then have jo: "just_wrote_overrun wi = for_overrun q" by (simp add: overrun_inv_def)
  show ?case
  proof (cases q)
    case (Packet cs)
    with jo show ?thesis by (simp add: overrun_inv_def publish_def)
  next
    case (OverrunFor n)
    then have "frame_of q = frame_of (OverrunFor 0)" by (simp add: frame_of_def)
    with jo OverrunFor show ?thesis by (simp add: overrun_inv_def publish_def suffix_def)
  qed
qed (auto simp: overrun_inv_def note_overrun_def take_new_fd_def drop_buffer_def finish_send_def push_fd_def hose_push_fd_def
      set_enable_backpressure_def Let_def cong: writer_pc.case_cong split: if_splits)

lemma reachable_overrun: "reachable B s \<Longrightarrow> overrun_inv s"
proof (induction rule: reachable.induct)
  case init
  show ?case by (simp add: overrun_inv_def sys_init_def hose_init_def)
qed (blast intro: overrun_inv_step)

section \<open>Running the system on a schedule\<close>

text \<open>An executable scheduler: each event lets one thread take its next step.\<close>

datatype event = StartPacket "bytes list" | Writer | Reader "nat option" | Connection nat

fun exec_writer :: "sys \<Rightarrow> sys option" where
  "exec_writer s =
     (case wpc s of
        WLoad q \<Rightarrow> Some (s\<lparr>wpc := WLoaded q (read_offset (hs s))\<rparr>)
      | WLoaded q r \<Rightarrow>
          (case after_reserve q (hs s) (reserve_space_and_write_header (hs s) r (calc_size (chunks_of q)) (for_overrun q)) of
             (h', pc') \<Rightarrow> Some (s\<lparr>hs := h', wpc := pc'\<rparr>))
      | WWriting q wi st p cur (c # cs) \<Rightarrow>
          map_option (\<lambda>(b', cur'). s\<lparr>hs := (hs s)\<lparr>buf := b'\<rparr>, wpc := WWriting q wi st p cur' cs\<rparr>)
            (actual_writer_write_raw (buf (hs s), cur) c)
      | WWriting q wi st p cur [] \<Rightarrow>
          if cur = p + calc_size (chunks_of q) then
            Some (s\<lparr>hs := publish (hs s) wi (calc_size (chunks_of q)), wpc := after_publish q,
                   stream := stream s @ frame_of q, starts := insert (length (stream s @ frame_of q)) (starts s)\<rparr>)
          else None
      | WNote n \<Rightarrow> Some (s\<lparr>hs := note_overrun (hs s) n, wpc := WIdle\<rparr>)
      | WBack q \<Rightarrow> Some (s\<lparr>wpc := WWait q (now s)\<rparr>)
      | WWait q before \<Rightarrow>
          map_option (\<lambda>ns. s\<lparr>hs := (hs s)\<lparr>sent_event := False\<rparr>, waited_nsec := waited_nsec s + word_of_int ns, wpc := WLoad q\<rparr>)
            (backpressure_ns before (now s))
      | _ \<Rightarrow> None)"

fun exec_reader :: "nat option \<Rightarrow> sys \<Rightarrow> sys option" where
  "exec_reader res s =
     (case rpc s of
        RIdle \<Rightarrow> Some (s\<lparr>rpc := RLoaded (wr_info (hs s)) (read_offset (hs s)) (length (stream s))\<rparr>)
      | RLoaded wi r wpos \<Rightarrow>
          if new_fd (hs s) \<noteq> -1 then Some (s\<lparr>hs := take_new_fd (hs s), rpc := RNewFd wi wpos\<rparr>)
          else Some (s\<lparr>rpc := (case iter_plan (length (buf (hs s))) wi r of
                 IterPanic \<Rightarrow> RPanic | IterSleep \<Rightarrow> RIdle | IterSend off n \<Rightarrow> RSend off n)\<rparr>)
      | RNewFd wi wpos \<Rightarrow>
          Some (s\<lparr>hs := drop_buffer (hs s) wi, rpc := RIdle, pos := wpos, conn_start := wpos, sent := []\<rparr>)
      | RSend off n \<Rightarrow>
          (if cur_fd (hs s) = -1 then Some (s\<lparr>rpc := RStore off n\<rparr>)
           else (case res of
              None \<Rightarrow> Some (s\<lparr>hs := (hs s)\<lparr>cur_fd := -1\<rparr>, rpc := RIdle\<rparr>)
            | Some m \<Rightarrow>
                if m \<le> min n SEND_LIMIT
                then Some (s\<lparr>rpc := RStore off m, sent := sent s @ slice (buf (hs s)) off (off + m)\<rparr>)
                else None))
      | RStore off n \<Rightarrow> map_option (\<lambda>h'. s\<lparr>hs := h', rpc := RIdle, pos := pos s + n\<rparr>) (finish_send (hs s) off n)
      | RPanic \<Rightarrow> None)"

fun exec :: "event \<Rightarrow> sys \<Rightarrow> sys option" where
  "exec (StartPacket cs) s = (if wpc s = WIdle then Some (s\<lparr>wpc := WLoad (Packet cs)\<rparr>) else None)"
| "exec Writer s = exec_writer s"
| "exec (Reader res) s = exec_reader res s"
| "exec (Connection fd) s = map_option (\<lambda>(h', old). s\<lparr>hs := h'\<rparr>) (hose_push_fd 0 0 (hs s) (int fd))"

fun exec_run :: "event list \<Rightarrow> sys \<Rightarrow> sys option" where
  "exec_run [] s = Some s"
| "exec_run (e # es) s = (case exec e s of None \<Rightarrow> None | Some s' \<Rightarrow> exec_run es s')"

lemma exec_writer_sound: "exec_writer s = Some s' \<Longrightarrow> hose_step s s'"
  by (auto simp del: length_append intro: hose_step.intros split: writer_pc.splits prod.splits list.splits if_splits)

lemma exec_reader_sound: "exec_reader res s = Some s' \<Longrightarrow> hose_step s s'"
  by (auto intro: hose_step.intros split: reader_pc.splits option.splits if_splits)

lemma exec_sound: "exec e s = Some s' \<Longrightarrow> hose_step s s'"
proof (cases e)
  case (Connection fd)
  moreover assume "exec e s = Some s'"
  ultimately obtain h' old where "hose_push_fd 0 0 (hs s) (int fd) = Some (h', old)" "s' = s\<lparr>hs := h'\<rparr>" by auto
  then show ?thesis using connection_arrives [of "int fd" 0 0] by simp
next
  case (StartPacket cs)
  moreover assume "exec e s = Some s'"
  ultimately show ?thesis
    using start_packet [of s s_main_thread cs] by (auto simp: assert_on_write_thread_def split: if_splits)
qed (simp_all add: exec_writer_sound exec_reader_sound del: exec_writer.simps exec_reader.simps)

lemma exec_run_reachable: "exec_run es s = Some s' \<Longrightarrow> reachable B s \<Longrightarrow> reachable B s'"
  by (induction es arbitrary: s) (auto split: option.splits dest!: exec_sound intro: reachable.step)

section \<open>Properties\<close>

lemma reachable_others:
  "reachable B s \<Longrightarrow> (case others s of Running \<Rightarrow> True | OffThread t \<Rightarrow> t \<noteq> s_main_thread | PushFailed fl ret \<Rightarrow> fl = -1 \<or> ret = -1)"
proof (induction rule: reachable.induct)
  case (step s s')
  from step(2,3) show ?case
    by (cases rule: hose_step.cases) (auto simp: assert_on_write_thread_def hose_push_fd_def Let_def cong: other_pc.case_cong split: if_splits)
qed (simp add: sys_init_def)

text \<open>
  C8. In no interleaving of the writer, the reader, arriving connections, backpressure settings and
  passing time do the writer or the reader panic: the reserved region always lies inside the
  buffer, the end pointer of the second pass of a callback is the one that was measured, an overrun
  packet always finds room (\<open>assert(!for_overrun)\<close>), the time waited is not negative (\<open>assert(ns >= 0)\<close>),
  and the offsets \<open>do_iter\<close> checks are in order; for every buffer size from 10 bytes to what 31-bit offsets can
  address. The panics the hose has left are those of other threads: a call of \<open>write_packet\<close> on
  a thread that is not the main one, and \<open>push_fd\<close> of a descriptor for which \<open>fcntl\<close> fails. (Time
  does not run backwards, and both passes of a callback produce the same chunks.)
\<close>

theorem hose_never_panics:
  assumes "reachable B s" and "10 \<le> B" and "B < 2 ^ 31"
  shows "wpc s \<noteq> WPanic \<and> rpc s \<noteq> RPanic \<and>
    (case others s of Running \<Rightarrow> True | OffThread t \<Rightarrow> t \<noteq> s_main_thread | PushFailed fl ret \<Rightarrow> fl = -1 \<or> ret = -1)"
  using reachable_inv [OF assms] reachable_others [OF assms(1)] by (auto simp: hose_inv_def reader_ok_def writer_ok_def)

text \<open>
  A run in a 32-byte buffer: a connection is accepted, a packet of three bytes is published, the
  reader sends two bytes of its frame and is about to send the rest while the next packet is
  being filled; in \<open>lossy_run\<close> the second packet no longer fits.
\<close>

definition busy_run :: "event list" where
  "busy_run = [Connection 5, Reader None, Reader None, Reader None,
     StartPacket [[1, 2, 3]], Writer, Writer, Writer, Writer,
     Reader None, Reader None, Reader (Some 2), Reader None, Reader None, Reader None,
     StartPacket [[4], [5]], Writer, Writer]"

definition lossy_run :: "event list" where
  "lossy_run = [StartPacket [replicate 20 7], Writer, Writer, Writer, Writer, Writer, Writer]"

theorem hose_never_panics_witness:
  "\<exists>s. exec_run busy_run (sys_init 32) = Some s \<and> wpc s \<noteq> WPanic \<and> rpc s \<noteq> RPanic"
proof -
  have "exec_run busy_run (sys_init 32) \<noteq> None" by code_simp
  then obtain s where s: "exec_run busy_run (sys_init 32) = Some s" by blast
  then have "reachable 32 s" by (rule exec_run_reachable) (rule reachable.init)
  with s hose_never_panics [of 32 s] show ?thesis by simp
qed

text \<open>
  C9. What a connection is sent is an initial part of the packets published from some packet
  boundary on, byte for byte and in order: wrap-around, partial sends, dropped connections and
  packets overtaking the reader neither lose, repeat, reorder nor corrupt a byte in between.
\<close>

theorem hose_connection_stream:
  assumes "reachable B s" and "10 \<le> B" and "B < 2 ^ 31"
    and "cur_fd (hs s) \<noteq> -1" and "\<And>wi wpos. rpc s \<noteq> RNewFd wi wpos"
  shows "\<exists>qs rs. stream s = concat (map frame_of (qs @ rs)) \<and>
           conn_start s = length (concat (map frame_of qs)) \<and> prefix (sent s) (concat (map frame_of rs))"
proof -
  have inv: "hose_inv B s" by (rule reachable_inv [OF assms(1-3)])
  then have "conn_start s \<in> starts s" and "sent s = slice (stream s) (conn_start s) (pos s + in_flight (rpc s))"
    using assms(4,5) by (auto simp: hose_inv_def shared_ok_def connection_ok_def)
  moreover from this(1) obtain qs rs where "stream s = concat (map frame_of (qs @ rs))"
    "conn_start s = length (concat (map frame_of qs))"
    using reachable_packets [OF assms(1-3)] unfolding packets_inv_def by blast
  moreover from calculation have "prefix (sent s) (concat (map frame_of rs))"
    by (simp add: slice_def take_is_prefix)
  ultimately show ?thesis by blast
qed

theorem hose_connection_stream_witness:
  "\<exists>s qs rs. exec_run busy_run (sys_init 32) = Some s \<and> sent s = [130, 3] \<and>
     stream s = concat (map frame_of (qs @ rs)) \<and> prefix [130, 3] (concat (map frame_of rs))"
proof -
  have run: "map_option (\<lambda>s. (cur_fd (hs s), rpc s, sent s)) (exec_run busy_run (sys_init 32)) = Some (5, RSend 2 3, [130, 3])"
    by code_simp
  then obtain s where s: "exec_run busy_run (sys_init 32) = Some s" "cur_fd (hs s) = 5" "rpc s = RSend 2 3" "sent s = [130, 3]"
    by auto
  have "reachable 32 s" by (rule exec_run_reachable [OF s(1) reachable.init])
  from hose_connection_stream [OF this] s show ?thesis by auto
qed

text \<open>
  C10. The reader never sends bytes that the writer is filling: the piece given to \<open>send\<close> and
  the region reserved for a packet are disjoint whenever both are pending.
\<close>

theorem hose_race_free:
  assumes "reachable B s" and "10 \<le> B" and "B < 2 ^ 31"
    and "wpc s = WWriting q wi st p cur cs" and "rpc s = RSend off n"
  shows "{st..<write_offset wi} \<inter> {off..<off + n} = {} \<and> write_offset wi \<le> B \<and> off + n \<le> B"
proof -
  have inv: "hose_inv B s" by (rule reachable_inv [OF assms(1-3)])
  then have "region_ok B (R s) (W s) (WR s) st (write_offset wi) (wrap_offset wi)" "geom B (R s) (W s) (WR s)"
    "piece_ok (R s) (W s) (WR s) off n"
    using assms(4,5) by (auto simp: hose_inv_def writer_ok_def writing_ok_def reader_ok_def shared_ok_def)
  moreover from this piece_disjoint have "off + n \<le> st \<or> write_offset wi \<le> off \<or> n = 0" by blast
  ultimately show ?thesis by (auto simp: region_ok_def piece_ok_def geom_def)
qed

theorem hose_race_free_witness:
  "\<exists>s q wi p cur cs. exec_run busy_run (sys_init 32) = Some s \<and> reachable 32 s \<and>
     wpc s = WWriting q wi 5 p cur cs \<and> rpc s = RSend 2 3 \<and> write_offset wi = 9 \<and>
     {5..<write_offset wi} \<inter> {2..<2 + 3} = {} \<and> write_offset wi \<le> 32 \<and> (2 + 3 :: nat) \<le> 32"
proof -
  let ?wi = "\<lparr>write_offset = 9, wrap_offset = 32, just_wrote_overrun = False\<rparr>"
  have run: "map_option (\<lambda>s. (wpc s, rpc s)) (exec_run busy_run (sys_init 32)) =
      Some (WWriting (Packet [[4], [5]]) ?wi 5 7 7 [[4], [5]], RSend 2 3)"
    by code_simp
  then obtain s where s: "exec_run busy_run (sys_init 32) = Some s"
    "wpc s = WWriting (Packet [[4], [5]]) ?wi 5 7 7 [[4], [5]]" "rpc s = RSend 2 3"
    by auto
  have r: "reachable 32 s" by (rule exec_run_reachable [OF s(1) reachable.init])
  from hose_race_free [OF r _ _ s(2,3)] show ?thesis
    using r s by (intro exI [of _ s] exI [of _ "Packet [[4], [5]]"] exI [of _ ?wi] exI [of _ "7 :: nat"] exI [of _ "[[4], [5]]"]) simp
qed

text \<open>
  C11. A packet is never dropped silently: when the writer gives one up, the last packet
  published is the overrun packet, so the client sees the gap at the place where it is.
\<close>

theorem hose_loss_is_announced:
  assumes "reachable B s" and "wpc s = WNote n"
  shows "suffix (fill_ws_header 8 @ overrun_tag) (stream s)"
proof -
  have "frame_of (OverrunFor 0) = fill_ws_header 8 @ overrun_tag"
    by (simp add: frame_of_def overrun_frame)
  with reachable_overrun [OF assms(1)] assms(2) show ?thesis by (simp add: overrun_inv_def)
qed

theorem hose_loss_is_announced_witness:
  "\<exists>s. exec_run lossy_run (sys_init 22) = Some s \<and> wpc s = WNote 22 \<and>
     suffix (fill_ws_header 8 @ overrun_tag) (stream s)"
proof -
  have run: "map_option wpc (exec_run lossy_run (sys_init 22)) = Some (WNote 22)" by code_simp
  then obtain s where s: "exec_run lossy_run (sys_init 22) = Some s" "wpc s = WNote 22" by auto
  have "reachable 22 s" by (rule exec_run_reachable [OF s(1) reachable.init])
  from hose_loss_is_announced [OF this s(2)] s show ?thesis by blast
qed

end
