(* ===== verification/MemRegions.thy ===== *)
theory MemRegions
  imports Prelude Kernel
begin

text \<open>
  The cache of memory regions of \<open>program/serve.cpp\<close> (\<open>struct mem_regions\<close>) and the guarded copy
  \<open>safe_memcpy\<close> that the RPC server and the memory monitor use. Addresses are naturals below
  \<open>2^64\<close>; sums and differences of addresses wrap as \<open>uintptr_t\<close> does. The kernel's answer to
  \<open>svcQueryMemory\<close> is the argument \<open>query\<close>, \<open>None\<close> when the call fails.
\<close>

section \<open>The cache\<close>

record region =
  start :: nat
  extent :: nat
  perm :: u32

definition region_end :: "region \<Rightarrow> nat" where
  "region_end r = size_add (start r) (extent r)"

definition cache_block :: "region list \<Rightarrow> MemoryInfo \<Rightarrow> region list" where
  "cache_block cached mi =
     (if mi_type mi = MemoryType_value MemType_Unmapped then cached
      else if cached \<noteq> [] \<and> perm (last cached) = mi_perm mi \<and> region_end (last cached) = mi_addr mi
      then butlast cached @ [(last cached)\<lparr>extent := size_add (extent (last cached)) (mi_size mi)\<rparr>]
      else cached @ [\<lparr>start = mi_addr mi, extent = mi_size mi, perm = mi_perm mi\<rparr>])"

text \<open>
  The \<open>do ... while\<close> loop, with the address of the next query as its state. \<open>None\<close> is the panic
  on a failed query, or running out of fuel; \<open>load_regions_total\<close> excludes the second.
\<close>

fun load_loop :: "nat \<Rightarrow> (nat \<Rightarrow> MemoryInfo option) \<Rightarrow> nat \<Rightarrow> region list \<Rightarrow> region list option" where
  "load_loop 0 query a cached = None"
| "load_loop (Suc fuel) query a cached = do {
     mi \<leftarrow> query a;
     let cached' = cache_block cached mi;
     let a' = size_add (mi_addr mi) (mi_size mi);
     if a' \<noteq> 0 then load_loop fuel query a' cached' else Some cached'
   }"

definition load_cached_regions :: "nat \<Rightarrow> (nat \<Rightarrow> MemoryInfo option) \<Rightarrow> region list option" where
  "load_cached_regions fuel query = load_loop fuel query 0 []"

definition find_cached_region :: "region list \<Rightarrow> nat \<Rightarrow> region option" where
  "find_cached_region cached addr =
     (let it = lower_bound (\<lambda>a. region_end a \<le> addr) cached in
      if it \<noteq> length cached \<and> size_sub addr (start (cached ! it)) < extent (cached ! it)
      then Some (cached ! it) else None)"

definition region_answer :: "region option \<Rightarrow> nat \<Rightarrow> bool \<Rightarrow> nat" where
  "region_answer found addr want_write =
     (case found of
        None \<Rightarrow> 0
      | Some r \<Rightarrow>
          (let needed = Permission_value (if want_write then Perm_Rw else Perm_R) in
           if perm r AND needed = needed then size_sub (extent r) (size_sub addr (start r)) else 0))"

text \<open>The result and the cache after the call, which is reloaded when the address is not found.\<close>

definition accessible_bytes_at :: "nat \<Rightarrow> (nat \<Rightarrow> MemoryInfo option) \<Rightarrow> region list \<Rightarrow> nat \<Rightarrow> bool
    \<Rightarrow> (nat \<times> region list) option" where
  "accessible_bytes_at fuel query cached addr want_write =
     (case find_cached_region cached addr of
        Some r \<Rightarrow> Some (region_answer (Some r) addr want_write, cached)
      | None \<Rightarrow> do {
          cached' \<leftarrow> load_cached_regions fuel query;
          Some (region_answer (find_cached_region cached' addr) addr want_write, cached')
        })"

section \<open>The guarded copy\<close>

text \<open>
  A byte-addressed memory; \<open>safe_memcpy\<close> copies in pieces as long as the checked side is
  accessible. As in the code, when both checks are on the second overrides the first; no
  caller turns both on. The result is the memory, the cache and the bytes left.
\<close>

definition memcpy :: "(nat \<Rightarrow> u8) \<Rightarrow> nat \<Rightarrow> nat \<Rightarrow> nat \<Rightarrow> (nat \<Rightarrow> u8)" where
  "memcpy mem dst src n = (\<lambda>a. if dst \<le> a \<and> a < dst + n then mem (src + (a - dst)) else mem a)"

definition cur_size :: "nat \<Rightarrow> (nat \<Rightarrow> MemoryInfo option) \<Rightarrow> region list \<Rightarrow> bool \<Rightarrow> bool \<Rightarrow> nat \<Rightarrow> nat \<Rightarrow> nat
    \<Rightarrow> (nat \<times> region list) option" where
  "cur_size fuel query cached check_dst check_src dst src n = do {
     (c1, cached1) \<leftarrow>
       (if check_dst then map_option (\<lambda>(k, c). (min n k, c)) (accessible_bytes_at fuel query cached dst True)
        else Some (n, cached));
     (if check_src then map_option (\<lambda>(k, c). (min n k, c)) (accessible_bytes_at fuel query cached1 src False)
      else Some (c1, cached1))
   }"

function safe_memcpy_loop :: "nat \<Rightarrow> (nat \<Rightarrow> MemoryInfo option) \<Rightarrow> bool \<Rightarrow> bool \<Rightarrow> region list
    \<Rightarrow> (nat \<Rightarrow> u8) \<Rightarrow> nat \<Rightarrow> nat \<Rightarrow> nat \<Rightarrow> ((nat \<Rightarrow> u8) \<times> region list \<times> nat) option" where
  "safe_memcpy_loop fuel query check_dst check_src cached mem dst src n =
     (if n = 0 then Some (mem, cached, 0)
      else (case cur_size fuel query cached check_dst check_src dst src n of
          None \<Rightarrow> None
        | Some (cur, cached') \<Rightarrow>
            if cur = 0 then Some (mem, cached', n)
            else safe_memcpy_loop fuel query check_dst check_src cached' (memcpy mem dst src cur)
                   (size_add dst cur) (size_add src cur) (n - cur)))"
  by pat_completeness auto
termination
  by (relation "measure (\<lambda>(fuel, query, cd, cs, c, mem, dst, src, n). n)") auto

declare safe_memcpy_loop.simps [simp del]

definition safe_memcpy :: "nat \<Rightarrow> (nat \<Rightarrow> MemoryInfo option) \<Rightarrow> region list \<Rightarrow> (nat \<Rightarrow> u8)
    \<Rightarrow> nat \<Rightarrow> bool \<Rightarrow> nat \<Rightarrow> bool \<Rightarrow> nat \<Rightarrow> ((nat \<Rightarrow> u8) \<times> region list \<times> nat) option" where
  "safe_memcpy fuel query cached mem dst check_dst src check_src n =
     map_option (\<lambda>(mem', cached', left). (mem', cached', n - left))
       (safe_memcpy_loop fuel query check_dst check_src cached mem dst src n)"

section \<open>The kernel's answers\<close>

text \<open>
  What the documentation of \<open>svcQueryMemory\<close> promises: every query succeeds and returns the block
  that contains the address; blocks lie inside the address space and any address of a block
  yields the same block.
\<close>

definition answers_blocks :: "(nat \<Rightarrow> MemoryInfo option) \<Rightarrow> bool" where
  "answers_blocks query \<longleftrightarrow>
     (\<forall>a < 2 ^ 64. \<exists>mi. query a = Some mi \<and> mi_addr mi \<le> a \<and> a < mi_addr mi + mi_size mi \<and>
        mi_addr mi + mi_size mi \<le> 2 ^ 64 \<and>
        (\<forall>b. mi_addr mi \<le> b \<and> b < mi_addr mi + mi_size mi \<longrightarrow> query b = Some mi))"

definition mapped_with :: "(nat \<Rightarrow> MemoryInfo option) \<Rightarrow> nat \<Rightarrow> u32 \<Rightarrow> bool" where
  "mapped_with query a p \<longleftrightarrow>
     (\<exists>mi. query a = Some mi \<and> mi_type mi \<noteq> MemoryType_value MemType_Unmapped \<and> mi_perm mi = p)"

definition in_region :: "region \<Rightarrow> nat \<Rightarrow> bool" where
  "in_region r a \<longleftrightarrow> start r \<le> a \<and> a < start r + extent r"

text \<open>A cache in order: nonempty regions inside the address space, ascending and disjoint.\<close>

definition cache_ok :: "region list \<Rightarrow> bool" where
  "cache_ok cached \<longleftrightarrow> (\<forall>r \<in> set cached. 0 < extent r \<and> start r + extent r \<le> 2 ^ 64) \<and>
     sorted_wrt (\<lambda>r r'. start r + extent r \<le> start r') cached"

text \<open>The cache describes the memory below \<open>a\<close>.\<close>

definition describes :: "(nat \<Rightarrow> MemoryInfo option) \<Rightarrow> region list \<Rightarrow> nat \<Rightarrow> bool" where
  "describes query cached a \<longleftrightarrow> cache_ok cached \<and> (\<forall>r \<in> set cached. start r + extent r \<le> a) \<and>
     (\<forall>b p. b < a \<longrightarrow> mapped_with query b p = (\<exists>r \<in> set cached. in_region r b \<and> perm r = p))"

lemma answers_blocksD:
  assumes "answers_blocks query" and "a < 2 ^ 64"
  obtains mi where "query a = Some mi" and "mi_addr mi \<le> a" and "a < mi_addr mi + mi_size mi"
    and "mi_addr mi + mi_size mi \<le> 2 ^ 64"
    and "\<And>b. mi_addr mi \<le> b \<Longrightarrow> b < mi_addr mi + mi_size mi \<Longrightarrow> query b = Some mi"
  using assms unfolding answers_blocks_def by blast

definition block_starts :: "(nat \<Rightarrow> MemoryInfo option) \<Rightarrow> nat \<Rightarrow> bool" where
  "block_starts query a \<longleftrightarrow> a = 0 \<or> (\<exists>mi. query (a - 1) = Some mi \<and> mi_addr mi + mi_size mi = a)"

lemma block_at_start:
  assumes "answers_blocks query" and "block_starts query a" and "query a = Some mi" and "a < 2 ^ 64"
  shows "mi_addr mi = a"
proof (rule ccontr)
  assume ne: "mi_addr mi \<noteq> a"
  from assms(1,4) obtain m where "query a = Some m" "mi_addr m \<le> a" "a < mi_addr m + mi_size m"
      "mi_addr m + mi_size m \<le> 2 ^ 64" "\<And>b. mi_addr m \<le> b \<Longrightarrow> b < mi_addr m + mi_size m \<Longrightarrow> query b = Some m"
    by (rule answers_blocksD) (rule that)
  with assms(3) have mi: "mi_addr mi \<le> a" "a < mi_addr mi + mi_size mi"
      "\<And>b. mi_addr mi \<le> b \<Longrightarrow> b < mi_addr mi + mi_size mi \<Longrightarrow> query b = Some mi" by auto
  with ne have "query (a - 1) = Some mi" "a \<noteq> 0" by simp_all
  with assms(2) mi(2) show False by (auto simp: block_starts_def)
qed

lemma sorted_snoc: "sorted_wrt P (xs @ [x]) \<longleftrightarrow> sorted_wrt P xs \<and> (\<forall>y \<in> set xs. P y x)"
  by (auto simp: sorted_wrt_append)

lemma cache_block_describes:
  assumes D: "describes query cached a" and mi: "query a = Some mi" "mi_addr mi = a" "0 < mi_size mi"
    "a + mi_size mi \<le> 2 ^ 64" "\<And>b. a \<le> b \<Longrightarrow> b < a + mi_size mi \<Longrightarrow> query b = Some mi"
    and null: "\<And>p. \<not> mapped_with query 0 p"
  shows "describes query (cache_block cached mi) (a + mi_size mi)"
proof -
  let ?n = "mi_size mi"
  have ok: "cache_ok cached" and below: "\<And>r. r \<in> set cached \<Longrightarrow> start r + extent r \<le> a"
    and cover: "\<And>b p. b < a \<Longrightarrow> mapped_with query b p = (\<exists>r \<in> set cached. in_region r b \<and> perm r = p)"
    using D unfolding describes_def by blast+
  have new: "mapped_with query b p \<longleftrightarrow> mi_type mi \<noteq> MemoryType_value MemType_Unmapped \<and> mi_perm mi = p"
    if "a \<le> b" "b < a + ?n" for b p
    using mi(5) [OF that] by (simp add: mapped_with_def)
  have old: "\<not> in_region r b" if "r \<in> set cached" "a \<le> b" for r b
    using below [OF that(1)] that(2) by (simp add: in_region_def)
  show ?thesis
  proof (cases "mi_type mi = MemoryType_value MemType_Unmapped")
    case True
    have "mapped_with query b p = (\<exists>r \<in> set cached. in_region r b \<and> perm r = p)" if "b < a + ?n" for b p
      using cover [of b p] new [of b p] old [of _ b] that True by (cases "b < a") auto
    with True ok below show ?thesis by (auto simp: describes_def cache_block_def intro: trans_le_add1)
  next
    case mapped: False
    have a0: "0 < a"
    proof (rule ccontr)
      assume "\<not> 0 < a"
      then have "mapped_with query 0 (mi_perm mi)" using new [of 0 "mi_perm mi"] mapped mi(3) by simp
      with null show False by blast
    qed
    show ?thesis
    proof (cases "cached \<noteq> [] \<and> perm (last cached) = mi_perm mi \<and> region_end (last cached) = mi_addr mi")
      case True
      then obtain bs l where c: "cached = bs @ [l]" by (metis append_butlast_last_id)
      have l: "start l + extent l \<le> a" "0 < extent l" using below c ok by (auto simp: cache_ok_def)
      have "a < 2 ^ 64" using mi(3,4) by linarith
      with l True c mi(2) have le: "start l + extent l = a" "perm l = mi_perm mi" by (simp_all add: region_end_def size_add_def)
      have s0: "start l \<noteq> 0"
      proof
        assume "start l = 0"
        then have "in_region l 0" using l(2) by (simp add: in_region_def)
        then have "mapped_with query 0 (perm l)" using cover [OF a0, of "perm l"] c by auto
        with null show False by blast
      qed
      then have ext: "size_add (extent l) ?n = extent l + ?n" using le mi(4) by (simp add: SIZE_MAX_def)
      let ?l = "l\<lparr>extent := extent l + ?n\<rparr>"
      have cb: "cache_block cached mi = bs @ [?l]" using True mapped c ext by (simp add: cache_block_def)
      have inl: "in_region ?l b \<longleftrightarrow> in_region l b \<or> a \<le> b \<and> b < a + ?n" for b
        using le by (auto simp: in_region_def)
      have "mapped_with query b p = (\<exists>r \<in> set (bs @ [?l]). in_region r b \<and> perm r = p)" if "b < a + ?n" for b p
      proof (cases "b < a")
        case True
        with cover [OF True, of p] c inl show ?thesis by auto
      next
        case False
        with new [of b p] that mapped old [of _ b] c inl [of b] le(2) show ?thesis by auto
      qed
      moreover have "cache_ok (bs @ [?l])"
        using ok c le mi(4) unfolding cache_ok_def sorted_snoc by (auto simp: sorted_snoc)
      moreover have "\<forall>r \<in> set (bs @ [?l]). start r + extent r \<le> a + ?n"
        using below c le by (auto intro: trans_le_add1)
      ultimately show ?thesis unfolding cb describes_def by blast
    next
      case False
      let ?r = "\<lparr>start = a, extent = ?n, perm = mi_perm mi\<rparr>"
      have cb: "cache_block cached mi = cached @ [?r]"
        using mapped False mi(2) by (auto simp: cache_block_def)
      have "mapped_with query b p = (\<exists>r \<in> set (cached @ [?r]). in_region r b \<and> perm r = p)" if "b < a + ?n" for b p
      proof (cases "b < a")
        case True
        then have "\<not> in_region ?r b" by (simp add: in_region_def)
        with cover [OF True, of p] show ?thesis by auto
      next
        case False
        then have "in_region ?r b" using that by (simp add: in_region_def)
        with new [of b p] that mapped old [of _ b] False show ?thesis by auto
      qed
      moreover have "cache_ok (cached @ [?r])"
        using ok mi(3,4) below unfolding cache_ok_def sorted_snoc by auto
      moreover have "\<forall>r \<in> set (cached @ [?r]). start r + extent r \<le> a + ?n"
        using below by (auto intro: trans_le_add1)
      ultimately show ?thesis unfolding cb describes_def by blast
    qed
  qed
qed

lemma load_loop_describes:
  assumes q: "answers_blocks query" and null: "\<And>p. \<not> mapped_with query 0 p"
    and D: "describes query cached a" and st: "block_starts query a" and a: "a < 2 ^ 64"
    and fuel: "2 ^ 64 - a \<le> fuel"
  shows "\<exists>cached'. load_loop fuel query a cached = Some cached' \<and> describes query cached' (2 ^ 64)"
  using D st a fuel
proof (induction fuel arbitrary: a cached)
  case (Suc fuel)
  from q Suc.prems(3) obtain mi where mi: "query a = Some mi" "mi_addr mi \<le> a" "a < mi_addr mi + mi_size mi"
    "mi_addr mi + mi_size mi \<le> 2 ^ 64"
    "\<And>b. mi_addr mi \<le> b \<Longrightarrow> b < mi_addr mi + mi_size mi \<Longrightarrow> query b = Some mi"
    by (rule answers_blocksD) (rule that)
  have addr: "mi_addr mi = a" by (rule block_at_start [OF q Suc.prems(2) mi(1) Suc.prems(3)])
  let ?a = "a + mi_size mi" and ?c = "cache_block cached mi"
  have D': "describes query ?c ?a"
    using mi addr by (intro cache_block_describes [OF Suc.prems(1) mi(1) addr _ _ _ null]) auto
  show ?case
  proof (cases "?a = 2 ^ 64")
    case True
    then have "load_loop (Suc fuel) query a cached = Some ?c" by (simp add: mi(1) addr size_add_def)
    with D' True show ?thesis by auto
  next
    case False
    then have lt: "?a < 2 ^ 64" using mi(4) addr by simp
    then have sz: "size_add a (mi_size mi) = ?a" by (simp add: SIZE_MAX_def)
    have "query (?a - 1) = Some mi" using mi(3) mi(5) [of "?a - 1"] addr by auto
    then have "block_starts query ?a" using addr by (auto simp: block_starts_def)
    moreover have "2 ^ 64 - ?a \<le> fuel" using Suc.prems(4) mi(3) addr by simp
    ultimately obtain c' where "load_loop fuel query ?a ?c = Some c'" "describes query c' (2 ^ 64)"
      using Suc.IH [OF D' _ lt] by blast
    moreover have "?a \<noteq> 0" using mi(3) addr by simp
    ultimately show ?thesis by (simp add: mi(1) addr sz)
  qed
qed simp

lemma load_regions_total:
  assumes "answers_blocks query" and "\<And>p. \<not> mapped_with query 0 p" and "2 ^ 64 \<le> fuel"
  shows "\<exists>cached. load_cached_regions fuel query = Some cached \<and> describes query cached (2 ^ 64)"
proof -
  have "describes query [] 0" by (simp add: describes_def cache_ok_def)
  moreover have "block_starts query 0" by (simp add: block_starts_def)
  ultimately show ?thesis
    unfolding load_cached_regions_def using assms by (intro load_loop_describes) simp_all
qed

section \<open>The search\<close>

lemma find_cached_region_sound:
  assumes "find_cached_region cached addr = Some r" and "cache_ok cached" and "addr < 2 ^ 64"
    and len: "lower_bound (\<lambda>a. region_end a \<le> addr) cached \<le> length cached"
  shows "r \<in> set cached \<and> in_region r addr"
proof -
  let ?i = "lower_bound (\<lambda>a. region_end a \<le> addr) cached"
  have r: "?i < length cached" "r = cached ! ?i" "size_sub addr (start r) < extent r"
    using assms(1) len by (auto simp: find_cached_region_def Let_def split: if_splits)
  then have mem: "r \<in> set cached" by simp
  with assms(2) have fit: "start r + extent r \<le> 2 ^ 64" by (simp add: cache_ok_def)
  have "in_region r addr"
  proof (cases "start r \<le> addr")
    case True
    with r(3) assms(3) show ?thesis by (simp add: in_region_def SIZE_MAX_def)
  next
    case False
    then have "size_sub addr (start r) = addr + 2 ^ 64 - start r"
      using fit assms(3) by (simp add: size_sub_def)
    with r(3) fit False show ?thesis by (simp add: in_region_def)
  qed
  with mem show ?thesis by simp
qed

text \<open>Completeness, as long as no cached region reaches the end of the address space.\<close>

lemma find_cached_region_complete:
  assumes ok: "cache_ok cached" and no_top: "\<And>r. r \<in> set cached \<Longrightarrow> start r + extent r < 2 ^ 64"
    and r: "r \<in> set cached" "in_region r addr"
  shows "find_cached_region cached addr = Some r"
proof -
  have ends: "region_end r' = start r' + extent r'" if "r' \<in> set cached" for r'
    using no_top [OF that] by (simp add: region_end_def SIZE_MAX_def)
  from r(1) obtain m where m: "m < length cached" "cached ! m = r" by (auto simp: in_set_conv_nth)
  have ord: "start (cached ! i) + extent (cached ! i) \<le> start (cached ! j)" if "i < j" "j < length cached" for i j
    using ok that by (auto simp: cache_ok_def sorted_wrt_iff_nth_less)
  have pos: "0 < extent (cached ! i)" if "i < length cached" for i using ok that by (simp add: cache_ok_def)
  have "lower_bound (\<lambda>a. region_end a \<le> addr) cached = m"
  proof (rule lower_bound_partition)
    show "m \<le> length cached" using m by simp
    fix i
    show "region_end (cached ! i) \<le> addr" if "i < m"
      using ord [OF that m(1)] m that r(2) ends [of "cached ! i"] by (simp add: in_region_def)
    show "\<not> region_end (cached ! i) \<le> addr" if "m \<le> i" "i < length cached"
    proof (cases "i = m")
      case True
      with m r(2) ends [of r] r(1) show ?thesis by (simp add: in_region_def)
    next
      case False
      then have "start r + extent r \<le> start (cached ! i)" using ord [of m i] that m by simp
      then show ?thesis using ends [of "cached ! i"] that r(2) by (simp add: in_region_def)
    qed
  qed
  moreover have "size_sub addr (start r) < extent r"
  proof -
    have "start r \<le> addr" "addr < start r + extent r" using r(2) by (simp_all add: in_region_def)
    with no_top [OF r(1)] show ?thesis by (simp add: SIZE_MAX_def less_diff_conv2)
  qed
  ultimately show ?thesis using m by (simp add: find_cached_region_def)
qed

section \<open>What the callers rely on\<close>

definition cache_good :: "(nat \<Rightarrow> MemoryInfo option) \<Rightarrow> region list \<Rightarrow> bool" where
  "cache_good query cached \<longleftrightarrow> cache_ok cached \<and>
     (\<forall>r \<in> set cached. \<forall>b. in_region r b \<longrightarrow> mapped_with query b (perm r))"

definition needed_perm :: "bool \<Rightarrow> u32" where
  "needed_perm want_write = Permission_value (if want_write then Perm_Rw else Perm_R)"

definition accessible :: "(nat \<Rightarrow> MemoryInfo option) \<Rightarrow> bool \<Rightarrow> nat \<Rightarrow> bool" where
  "accessible query want_write a \<longleftrightarrow> (\<exists>p. mapped_with query a p \<and> p AND needed_perm want_write = needed_perm want_write)"

lemma describes_good: "describes query cached (2 ^ 64) \<Longrightarrow> cache_good query cached"
  unfolding describes_def cache_good_def by (auto simp: in_region_def intro: order_less_le_trans)

lemma empty_cache_good: "cache_good query []"
  by (simp add: cache_good_def cache_ok_def)

lemma region_answer_sound:
  assumes good: "cache_good query cached" and "addr < 2 ^ 64"
    and i: "i < region_answer (find_cached_region cached addr) addr want_write"
  shows "accessible query want_write (addr + i)"
proof -
  obtain r where r: "find_cached_region cached addr = Some r" "perm r AND needed_perm want_write = needed_perm want_write"
    "i < size_sub (extent r) (size_sub addr (start r))"
    using i by (auto simp: region_answer_def needed_perm_def Let_def split: option.splits if_splits)
  have ok: "cache_ok cached" using good by (simp add: cache_good_def)
  from find_cached_region_sound [OF r(1) ok assms(2) lower_bound_le] have mem: "r \<in> set cached"
    and a: "start r \<le> addr" "addr < start r + extent r" by (auto simp: in_region_def)
  have s: "size_sub addr (start r) = addr - start r" using a(1) assms(2) by (simp add: SIZE_MAX_def)
  have "i < extent r - (addr - start r)"
    using r(3) size_sub_le [of "addr - start r" "extent r"] a unfolding s by linarith
  then have "in_region r (addr + i)" using a by (auto simp: in_region_def)
  with good mem r(2) show ?thesis by (auto simp: accessible_def cache_good_def)
qed

lemma accessible_bytes_at_sound:
  assumes q: "answers_blocks query" "\<And>p. \<not> mapped_with query 0 p" "2 ^ 64 \<le> fuel"
    and good: "cache_good query cached" and a: "addr < 2 ^ 64"
  shows "\<exists>n cached'. accessible_bytes_at fuel query cached addr want_write = Some (n, cached') \<and>
           cache_good query cached' \<and> (\<forall>i < n. accessible query want_write (addr + i))"
proof (cases "find_cached_region cached addr")
  case (Some r)
  with good a show ?thesis
    using region_answer_sound [OF good a, of _ want_write] by (auto simp: accessible_bytes_at_def)
next
  case None
  obtain c where c: "load_cached_regions fuel query = Some c" "describes query c (2 ^ 64)"
    using load_regions_total [OF q] by blast
  with None show ?thesis
    using region_answer_sound [OF describes_good [OF c(2)] a, of _ want_write] describes_good [OF c(2)]
    by (auto simp: accessible_bytes_at_def)
qed

lemma cur_size_one_check:
  "cd \<noteq> cs \<Longrightarrow> cur_size fuel query cached cd cs dst src n =
     map_option (\<lambda>(k, c). (min n k, c)) (accessible_bytes_at fuel query cached (if cs then src else dst) cd)"
  by (cases cs) (simp_all add: cur_size_def split: bind_split option.splits prod.splits)

lemma memcpy_0 [simp]: "memcpy mem dst src 0 = mem"
  by (auto simp: memcpy_def fun_eq_iff)

lemma memcpy_append:
  assumes "{dst..<dst + (m + n)} \<inter> {src..<src + (m + n)} = {}"
  shows "memcpy (memcpy mem dst src m) (dst + m) (src + m) n = memcpy mem dst src (m + n)"
proof
  fix a
  have "\<not> (dst \<le> src + m + (a - (dst + m)) \<and> src + m + (a - (dst + m)) < dst + m)" if "dst + m \<le> a" "a < dst + m + n"
  proof -
    have "src + m + (a - (dst + m)) \<in> {src..<src + (m + n)}" using that by auto
    with assms show ?thesis by fastforce
  qed
  then show "memcpy (memcpy mem dst src m) (dst + m) (src + m) n a = memcpy mem dst src (m + n) a"
    by (auto simp: memcpy_def)
qed

lemma safe_memcpy_loop_sound:
  assumes q: "answers_blocks query" "\<And>p. \<not> mapped_with query 0 p" "2 ^ 64 \<le> fuel"
    and chk: "cd \<noteq> cs" and "cache_good query cached"
    and "src + n \<le> 2 ^ 64" and "dst + n \<le> 2 ^ 64"
    and "{dst..<dst + n} \<inter> {src..<src + n} = {}"
  shows "\<exists>cached' left. safe_memcpy_loop fuel query cd cs cached mem dst src n =
           Some (memcpy mem dst src (n - left), cached', left) \<and> left \<le> n \<and> cache_good query cached' \<and>
           (\<forall>i < n - left. accessible query cd ((if cs then src else dst) + i)) \<and>
           (left \<noteq> 0 \<longrightarrow> (\<exists>c. cache_good query c \<and>
              accessible_bytes_at fuel query c ((if cs then src else dst) + (n - left)) cd = Some (0, cached')))"
  using assms(5-8)
proof (induction n arbitrary: cached mem dst src rule: less_induct)
  case (less n)
  let ?a = "if cs then src else dst"
  show ?case
  proof (cases "n = 0")
    case True
    then show ?thesis using less.prems(1) by (subst safe_memcpy_loop.simps) simp
  next
    case False
    then have "?a < 2 ^ 64" using less.prems(2,3) by simp
    then obtain k c1 where k: "accessible_bytes_at fuel query cached ?a cd = Some (k, c1)" "cache_good query c1"
      "\<forall>i < k. accessible query cd (?a + i)"
      using accessible_bytes_at_sound [OF q less.prems(1)] by blast
    let ?cur = "min n k"
    have cur: "cur_size fuel query cached cd cs dst src n = Some (?cur, c1)"
      using cur_size_one_check [OF chk] k(1) by simp
    consider (none) "?cur = 0" | (all) "?cur \<noteq> 0" "n - ?cur = 0" | (some) "?cur \<noteq> 0" "n - ?cur \<noteq> 0" by blast
    then show ?thesis
    proof cases
      case none
      with False have k0: "k = 0" by simp
      have "safe_memcpy_loop fuel query cd cs cached mem dst src n = Some (mem, c1, n)"
        using False k0 cur by (subst safe_memcpy_loop.simps) simp
      then show ?thesis using k less.prems(1) k0 by auto
    next
      case all
      have "safe_memcpy_loop fuel query cd cs cached mem dst src n = Some (memcpy mem dst src n, c1, 0)"
        using all False cur by (subst safe_memcpy_loop.simps) (simp add: safe_memcpy_loop.simps min_def split: if_splits)
      then show ?thesis using k all by (intro exI [of _ c1] exI [of _ 0]) auto
    next
      case some
      have less_n: "n - ?cur < n" using some False by simp
      have split: "n = ?cur + (n - ?cur)" by simp
      have sa: "size_add src ?cur = src + ?cur" "size_add dst ?cur = dst + ?cur"
        using some less.prems(2,3) by (simp_all add: SIZE_MAX_def)
      have b: "(if cs then src + ?cur else dst + ?cur) = ?a + ?cur" by simp
      have "{dst + ?cur..<dst + ?cur + (n - ?cur)} \<inter> {src + ?cur..<src + ?cur + (n - ?cur)} = {}"
        using less.prems(4) by fastforce
      moreover have "src + ?cur + (n - ?cur) \<le> 2 ^ 64" "dst + ?cur + (n - ?cur) \<le> 2 ^ 64"
        using less.prems(2,3) by simp_all
      ultimately obtain c2 left where IH:
        "safe_memcpy_loop fuel query cd cs c1 (memcpy mem dst src ?cur) (dst + ?cur) (src + ?cur) (n - ?cur) =
           Some (memcpy (memcpy mem dst src ?cur) (dst + ?cur) (src + ?cur) (n - ?cur - left), c2, left)"
        "left \<le> n - ?cur" "cache_good query c2"
        "\<forall>i < n - ?cur - left. accessible query cd (?a + ?cur + i)"
        "left \<noteq> 0 \<longrightarrow> (\<exists>c. cache_good query c \<and>
           accessible_bytes_at fuel query c (?a + ?cur + (n - ?cur - left)) cd = Some (0, c2))"
        using less.IH [OF less_n k(2), of "src + ?cur" "dst + ?cur"] unfolding b by blast
      have tot: "?cur + (n - ?cur - left) = n - left" using IH(2) split by linarith
      have "{dst..<dst + (?cur + (n - ?cur - left))} \<inter> {src..<src + (?cur + (n - ?cur - left))} = {}"
        unfolding tot using less.prems(4) by fastforce
      from memcpy_append [OF this, of mem] have m: "memcpy (memcpy mem dst src ?cur) (dst + ?cur) (src + ?cur) (n - ?cur - left) = memcpy mem dst src (n - left)"
        unfolding tot .
      have run: "safe_memcpy_loop fuel query cd cs cached mem dst src n = Some (memcpy mem dst src (n - left), c2, left)"
        using False some cur IH(1) by (subst safe_memcpy_loop.simps) (simp only: m sa if_False option.case prod.case)
      have acc: "accessible query cd (?a + i)" if "i < n - left" for i
      proof (cases "i < ?cur")
        case True
        with k(3) show ?thesis by simp
      next
        case False
        then have "i - ?cur < n - ?cur - left" "?a + ?cur + (i - ?cur) = ?a + i" using that by linarith+
        with IH(4) show ?thesis by metis
      qed
      have at: "?a + ?cur + (n - ?cur - left) = ?a + (n - left)" using tot by linarith
      have "left \<le> n" using IH(2) by linarith
      with run acc IH(3) IH(5) [unfolded at] show ?thesis by blast
    qed
  qed
qed

section \<open>Properties\<close>

text \<open>
  A memory of four blocks for the witnesses: an unmapped first page, a readable page, a hole,
  and the reserved range at the top of the address space.
\<close>

definition block :: "nat \<Rightarrow> nat \<Rightarrow> MemoryType \<Rightarrow> Permission \<Rightarrow> MemoryInfo" where
  "block a n t p = \<lparr>mi_addr = a, mi_size = n, mi_type = MemoryType_value t, mi_attr = 0,
     mi_perm = Permission_value p, mi_device_refcount = 0, mi_ipc_refcount = 0\<rparr>"

definition small_memory :: "nat \<Rightarrow> MemoryInfo option" where
  "small_memory a = Some
     (if a < 0x1000 then block 0 0x1000 MemType_Unmapped Perm_None
      else if a < 0x2000 then block 0x1000 0x1000 MemType_CodeStatic Perm_R
      else if a < 0x8000000000 then block 0x2000 (0x8000000000 - 0x2000) MemType_Unmapped Perm_None
      else block 0x8000000000 (2 ^ 64 - 0x8000000000) MemType_Reserved Perm_None)"

lemma small_memory_answers: "answers_blocks small_memory"
  unfolding answers_blocks_def small_memory_def by (auto simp: block_def)

lemma small_memory_null: "\<not> mapped_with small_memory 0 p"
  by (simp add: mapped_with_def small_memory_def block_def)

text \<open>
  C25. Loading the cache terminates and describes the address space exactly: an address lies in
  a cached region with permissions \<open>p\<close> if and only if the kernel reports it as mapped with
  \<open>p\<close>; the regions are ascending, disjoint and nonempty, neighbours with equal permissions
  merged.
\<close>

theorem load_describes_memory:
  assumes "answers_blocks query" and "\<And>p. \<not> mapped_with query 0 p" and "2 ^ 64 \<le> fuel"
  shows "\<exists>cached. load_cached_regions fuel query = Some cached \<and> cache_ok cached \<and>
           (\<forall>a < 2 ^ 64. \<forall>p. mapped_with query a p = (\<exists>r \<in> set cached. in_region r a \<and> perm r = p))"
  using load_regions_total [OF assms] unfolding describes_def by blast

theorem load_describes_memory_witness:
  "\<exists>cached. load_cached_regions (2 ^ 64) small_memory = Some cached \<and> (\<exists>r \<in> set cached. in_region r 0x1234 \<and> perm r = 1)"
proof -
  from load_describes_memory [OF small_memory_answers small_memory_null order_refl] obtain cached where
    "load_cached_regions (2 ^ 64) small_memory = Some cached"
    "\<forall>a < 2 ^ 64. \<forall>p. mapped_with small_memory a p = (\<exists>r \<in> set cached. in_region r a \<and> perm r = p)" by blast
  moreover have "mapped_with small_memory 0x1234 1" by (simp add: mapped_with_def small_memory_def block_def)
  ultimately show ?thesis by (intro exI [of _ cached]) simp
qed

text \<open>
  C26. \<open>safe_memcpy\<close> with one side checked (as both RPC requests use it) copies a prefix of the
  requested bytes and reports its exact length: every address it touched on the checked side
  is mapped with the needed permission, and it stops early only where \<open>accessible_bytes_at\<close>
  answered 0.
\<close>

theorem safe_memcpy_prefix:
  assumes "answers_blocks query" and "\<And>p. \<not> mapped_with query 0 p" and "2 ^ 64 \<le> fuel"
    and "check_dst \<noteq> check_src" and "cache_good query cached"
    and "src + n \<le> 2 ^ 64" and "dst + n \<le> 2 ^ 64" and "{dst..<dst + n} \<inter> {src..<src + n} = {}"
  shows "\<exists>cached' k. safe_memcpy fuel query cached mem dst check_dst src check_src n =
           Some (memcpy mem dst src k, cached', k) \<and> k \<le> n \<and> cache_good query cached' \<and>
           (\<forall>i < k. accessible query check_dst ((if check_src then src else dst) + i)) \<and>
           (k < n \<longrightarrow> (\<exists>c. cache_good query c \<and>
              accessible_bytes_at fuel query c ((if check_src then src else dst) + k) check_dst = Some (0, cached')))"
proof -
  obtain cached' left where l: "safe_memcpy_loop fuel query check_dst check_src cached mem dst src n =
      Some (memcpy mem dst src (n - left), cached', left)" "left \<le> n" "cache_good query cached'"
    "\<forall>i < n - left. accessible query check_dst ((if check_src then src else dst) + i)"
    "left \<noteq> 0 \<longrightarrow> (\<exists>c. cache_good query c \<and>
       accessible_bytes_at fuel query c ((if check_src then src else dst) + (n - left)) check_dst = Some (0, cached'))"
    using safe_memcpy_loop_sound [OF assms] by blast
  from l(1) have "safe_memcpy fuel query cached mem dst check_dst src check_src n =
      Some (memcpy mem dst src (n - left), cached', n - left)"
    by (simp add: safe_memcpy_def)
  with l(2-5) show ?thesis by (intro exI [of _ cached'] exI [of _ "n - left"]) auto
qed

theorem safe_memcpy_prefix_witness:
  "\<exists>cached' k. safe_memcpy (2 ^ 64) small_memory [] (\<lambda>a. word_of_nat a) 0x10000 False 0x1ff0 True 0x20 =
     Some (memcpy (\<lambda>a. word_of_nat a) 0x10000 0x1ff0 k, cached', k) \<and> k \<le> 0x20"
  using safe_memcpy_prefix [OF small_memory_answers small_memory_null order_refl, where check_dst = False and check_src = True
      and cached = "[]" and src = "0x1ff0" and dst = "0x10000" and n = "0x20" and mem = "\<lambda>a. word_of_nat a"]
    empty_cache_good by auto

text \<open>
  The binary search compares a region's wrapped end address, so a region that reaches the
  top of the address space (as the reserved range the kernel reports does) breaks its order:
  here the only readable page is in the cache that was just loaded and is still not found, so
  a readable address is reported as inaccessible.
\<close>

theorem top_region_hides_mapped_page:
  "accessible_bytes_at 4 small_memory [] 0x1000 False =
     Some (0, [\<lparr>start = 0x1000, extent = 0x1000, perm = 1\<rparr>,
               \<lparr>start = 0x8000000000, extent = 2 ^ 64 - 0x8000000000, perm = 0\<rparr>])
   \<and> accessible small_memory False 0x1000"
proof -
  have "accessible_bytes_at 4 small_memory [] 0x1000 False =
     Some (0, [\<lparr>start = 0x1000, extent = 0x1000, perm = 1\<rparr>,
               \<lparr>start = 0x8000000000, extent = 2 ^ 64 - 0x8000000000, perm = 0\<rparr>])" by code_simp
  moreover have "accessible small_memory False 0x1000"
    by (auto simp: accessible_def mapped_with_def small_memory_def block_def needed_perm_def intro!: exI [of _ 1])
  ultimately show ?thesis by blast
qed

end
