(* ===== verification/MemMonitor.thy ===== *)
theory MemMonitor
  imports Prelude MemRegions
begin

text \<open>
  The memory monitor of \<open>program/serve.cpp\<close>: a lock-free triple buffer
  (\<open>atomic_triple_buffer\<close>) through which the mongoose thread hands configurations to the main
  thread, the validation of a configuration received over RPC, and the packet that is written
  from it every frame. The buffer's two operations are modelled twice: as functions, and as
  a step relation in which the load, the check and the compare-and-swap of \<open>atomic_update\<close> are
  separate steps.
\<close>

section \<open>The triple buffer\<close>

record atomic_state =
  inuse_buf_idx :: nat
  next_buf_idx :: nat

text \<open>\<open>None\<close> is a failed assertion. The fields have two bits.\<close>

definition prep_write :: "atomic_state \<Rightarrow> nat option" where
  "prep_write st =
     (if inuse_buf_idx st < 3 \<and> next_buf_idx st < 3 then
        Some (if inuse_buf_idx st = next_buf_idx st then 2 - inuse_buf_idx st
              else (0 + 1 + 2) - inuse_buf_idx st - next_buf_idx st)
      else None)"

definition post_write :: "nat \<Rightarrow> atomic_state \<Rightarrow> atomic_state option" where
  "post_write new_buf_idx st =
     (if new_buf_idx \<noteq> inuse_buf_idx st \<and> new_buf_idx \<noteq> next_buf_idx st
      then Some (st\<lparr>next_buf_idx := new_buf_idx mod 4\<rparr>) else None)"

definition prep_read :: "atomic_state \<Rightarrow> nat \<times> atomic_state" where
  "prep_read st = (next_buf_idx st, st\<lparr>inuse_buf_idx := next_buf_idx st\<rparr>)"

text \<open>
  The two threads. Between \<open>prep_write\<close> and the successful exchange of \<open>post_write\<close> the writer
  fills buffer \<open>i\<close>; the expected value of \<open>compare_exchange_weak\<close> may be stale, and the
  assertion of the callback looks at that value. From one \<open>prep_read\<close> to the next the reader
  uses the buffer \<open>inuse_buf_idx\<close>.
\<close>

datatype tb_writer = TIdle | TFilling nat | TSwap nat atomic_state | TPanic

datatype tb_reader = RUsing | RSwap atomic_state

record triple_buffer =
  state :: atomic_state
  writer :: tb_writer
  reader :: tb_reader

inductive tb_step :: "triple_buffer \<Rightarrow> triple_buffer \<Rightarrow> bool" where
  do_prep_write: "writer t = TIdle \<Longrightarrow>
    tb_step t (t\<lparr>writer := (case prep_write (state t) of None \<Rightarrow> TPanic | Some i \<Rightarrow> TFilling i)\<rparr>)"
| abandon: "writer t = TFilling i \<Longrightarrow> tb_step t (t\<lparr>writer := TIdle\<rparr>)"
| load_expected: "writer t = TFilling i \<Longrightarrow> tb_step t (t\<lparr>writer := TSwap i (state t)\<rparr>)"
| check_fails: "writer t = TSwap i st \<Longrightarrow> post_write i st = None \<Longrightarrow> tb_step t (t\<lparr>writer := TPanic\<rparr>)"
| swap: "writer t = TSwap i st \<Longrightarrow> post_write i st = Some st' \<Longrightarrow> st = state t \<Longrightarrow>
    tb_step t (t\<lparr>state := st', writer := TIdle\<rparr>)"
| swap_retry: "writer t = TSwap i st \<Longrightarrow> post_write i st \<noteq> None \<Longrightarrow> tb_step t (t\<lparr>writer := TSwap i (state t)\<rparr>)"
| read_load: "reader t = RUsing \<Longrightarrow> tb_step t (t\<lparr>reader := RSwap (state t)\<rparr>)"
| read_swap: "reader t = RSwap st \<Longrightarrow> st = state t \<Longrightarrow>
    tb_step t (t\<lparr>state := snd (prep_read st), reader := RUsing\<rparr>)"
| read_retry: "reader t = RSwap st \<Longrightarrow> tb_step t (t\<lparr>reader := RSwap (state t)\<rparr>)"

definition tb_init :: triple_buffer where
  "tb_init = \<lparr>state = \<lparr>inuse_buf_idx = 0, next_buf_idx = 0\<rparr>, writer = TIdle, reader = RUsing\<rparr>"

inductive tb_reachable :: "triple_buffer \<Rightarrow> bool" where
  tb_start: "tb_reachable tb_init"
| tb_next: "tb_reachable t \<Longrightarrow> tb_step t t' \<Longrightarrow> tb_reachable t'"

text \<open>
  The invariant: indices stay below 3, only the writer changes \<open>next_buf_idx\<close>, and the buffer
  being filled is neither in use nor next, except after \<open>prep_write\<close> saw both fields at 1.
\<close>

definition distinct_or_one :: "nat \<Rightarrow> atomic_state \<Rightarrow> bool" where
  "distinct_or_one i st \<longleftrightarrow> i \<noteq> inuse_buf_idx st \<and> i \<noteq> next_buf_idx st \<or>
     i = 1 \<and> inuse_buf_idx st = 1 \<and> next_buf_idx st = 1"

definition tb_inv :: "triple_buffer \<Rightarrow> bool" where
  "tb_inv t \<longleftrightarrow> inuse_buf_idx (state t) < 3 \<and> next_buf_idx (state t) < 3 \<and>
     (case writer t of
        TIdle \<Rightarrow> True
      | TFilling i \<Rightarrow> i < 3 \<and> distinct_or_one i (state t)
      | TSwap i st \<Rightarrow> i < 3 \<and> distinct_or_one i (state t) \<and> distinct_or_one i st \<and>
          next_buf_idx st = next_buf_idx (state t)
      | TPanic \<Rightarrow> inuse_buf_idx (state t) = 1 \<and> next_buf_idx (state t) = 1)"

lemma prep_write_distinct:
  "inuse_buf_idx st < 3 \<Longrightarrow> next_buf_idx st < 3 \<Longrightarrow> \<exists>i. prep_write st = Some i \<and> i < 3 \<and> distinct_or_one i st"
  by (cases "inuse_buf_idx st = 1"; cases "inuse_buf_idx st = 2"; cases "next_buf_idx st = 1"; cases "next_buf_idx st = 2")
    (auto simp: prep_write_def distinct_or_one_def)

lemma distinct_or_one_read: "distinct_or_one i st \<Longrightarrow> distinct_or_one i (snd (prep_read st))"
  by (auto simp: distinct_or_one_def prep_read_def)

lemma tb_inv_step:
  assumes inv: "tb_inv t" and step: "tb_step t t'"
  shows "tb_inv t'"
  using step
proof (cases rule: tb_step.cases)
  case do_prep_write
  then show ?thesis using inv prep_write_distinct [of "state t"] by (auto simp: tb_inv_def)
next
  case (abandon i)
  then show ?thesis using inv by (simp add: tb_inv_def)
next
  case (load_expected i)
  then show ?thesis using inv by (simp add: tb_inv_def)
next
  case (check_fails i st)
  then have "distinct_or_one i st" "next_buf_idx st = next_buf_idx (state t)" "distinct_or_one i (state t)"
    "inuse_buf_idx (state t) < 3" "next_buf_idx (state t) < 3"
    using inv by (simp_all add: tb_inv_def)
  with check_fails show ?thesis by (auto simp: tb_inv_def distinct_or_one_def post_write_def split: if_splits)
next
  case (swap i st st')
  then have "i < 3" "st' = st\<lparr>next_buf_idx := i mod 4\<rparr>" using inv by (auto simp: tb_inv_def post_write_def split: if_splits)
  with swap inv show ?thesis by (simp add: tb_inv_def)
next
  case (swap_retry i st)
  then show ?thesis using inv by (simp add: tb_inv_def)
next
  case read_load
  then show ?thesis using inv by (simp add: tb_inv_def cong: tb_writer.case_cong)
next
  case (read_swap st)
  then show ?thesis using inv distinct_or_one_read
    by (cases "writer t") (simp_all add: tb_inv_def prep_read_def)
next
  case (read_retry st)
  then show ?thesis using inv by (simp add: tb_inv_def cong: tb_writer.case_cong)
qed

lemma tb_reachable_inv: "tb_reachable t \<Longrightarrow> tb_inv t"
proof (induction rule: tb_reachable.induct)
  case tb_start
  show ?case by (simp add: tb_inv_def tb_init_def)
qed (rule tb_inv_step)

section \<open>Configurations\<close>

record monitor_entry =
  addr :: nat
  len :: nat

record monitor_config =
  uniqid :: nat
  entry_count :: nat
  config_entries :: "monitor_entry list"

definition MAX_ENTRIES :: nat where "MAX_ENTRIES = 32"

text \<open>\<open>offsetof(monitor_config, entries)\<close>, \<open>sizeof(entry)\<close> and \<open>sizeof(monitor_config)\<close>.\<close>

definition ENTRIES_OFFSET :: nat where "ENTRIES_OFFSET = 16"
definition ENTRY_SIZE :: nat where "ENTRY_SIZE = 16"
definition CONFIG_SIZE :: nat where "CONFIG_SIZE = ENTRIES_OFFSET + MAX_ENTRIES * ENTRY_SIZE"

definition u64_at :: "bytes \<Rightarrow> nat \<Rightarrow> nat" where
  "u64_at b ofs = le_value (slice b ofs (ofs + 8))"

text \<open>The structure overlaid on its \<open>CONFIG_SIZE\<close> bytes.\<close>

definition config_of_bytes :: "bytes \<Rightarrow> monitor_config" where
  "config_of_bytes b =
     \<lparr>uniqid = u64_at b 0, entry_count = u64_at b 8,
      config_entries = map (\<lambda>i. \<lparr>addr = u64_at b (ENTRIES_OFFSET + i * ENTRY_SIZE),
                                 len = u64_at b (ENTRIES_OFFSET + i * ENTRY_SIZE + 8)\<rparr>) [0..<MAX_ENTRIES]\<rparr>"

definition zero_config :: monitor_config where
  "zero_config = config_of_bytes (replicate CONFIG_SIZE 0)"

record mem_monitor =
  configs :: "monitor_config list"
  tb :: atomic_state
  regions :: "region list"

text \<open>
  \<open>validate_config\<close>, with the cache of \<open>s_mem_regions\<close> threaded through; \<open>None\<close> is a panic of
  \<open>accessible_bytes_at\<close>, \<open>Some (None, _)\<close> a valid configuration.
\<close>

fun validate_entries :: "nat \<Rightarrow> (nat \<Rightarrow> MemoryInfo option) \<Rightarrow> region list \<Rightarrow> monitor_entry list
    \<Rightarrow> (string option \<times> region list) option" where
  "validate_entries fuel query cached [] = Some (None, cached)"
| "validate_entries fuel query cached (e # es) = do {
     (n, cached') \<leftarrow> accessible_bytes_at fuel query cached (addr e) False;
     if n < len e then Some (Some ''invalid address'', cached') else validate_entries fuel query cached' es
   }"

definition validate_config :: "nat \<Rightarrow> (nat \<Rightarrow> MemoryInfo option) \<Rightarrow> region list \<Rightarrow> monitor_config
    \<Rightarrow> (string option \<times> region list) option" where
  "validate_config fuel query cached cfg =
     (if uniqid cfg = 0 \<and> entry_count cfg \<noteq> 0 then Some (Some ''uniqid must be nonzero'', cached)
      else validate_entries fuel query cached (config_entries cfg))"

definition set_config :: "nat \<Rightarrow> (nat \<Rightarrow> MemoryInfo option) \<Rightarrow> mem_monitor \<Rightarrow> bytes
    \<Rightarrow> (string option \<times> mem_monitor) option" where
  "set_config fuel query m data =
     (if length data < ENTRIES_OFFSET \<or> (length data - ENTRIES_OFFSET) mod ENTRY_SIZE \<noteq> 0
      then Some (Some ''invalid size'', m)
      else
        (let count = (length data - ENTRIES_OFFSET) div ENTRY_SIZE in
         if count > MAX_ENTRIES then Some (Some ''too many entries'', m)
         else do {
           new_cfg_idx \<leftarrow> prep_write (tb m);
           let cfg = config_of_bytes (put_slice (replicate CONFIG_SIZE 0) 0 data);
           let m1 = m\<lparr>configs := (configs m)[new_cfg_idx := cfg]\<rparr>;
           if entry_count cfg \<noteq> count then Some (Some ''invalid size'', m1)
           else do {
             (err, cached') \<leftarrow> validate_config fuel query (regions m1) cfg;
             let m2 = m1\<lparr>regions := cached'\<rparr>;
             case err of
               Some e \<Rightarrow> Some (Some e, m2)
             | None \<Rightarrow> map_option (\<lambda>st. (None, m2\<lparr>tb := st\<rparr>)) (post_write new_cfg_idx (tb m2))
           }
         }))"

text \<open>
  \<open>do_reads\<close>: the chunks given to the hose, none when no configuration is set. A reserved chunk
  of an entry is filled from memory at once.
\<close>

definition read_mem :: "(nat \<Rightarrow> u8) \<Rightarrow> nat \<Rightarrow> nat \<Rightarrow> bytes" where
  "read_mem mem a n = map (\<lambda>i. mem (a + i)) [0..<n]"

definition memmon_tag :: bytes where
  "memmon_tag = ascii ''memmon'' @ [0, 0]"

definition do_reads :: "(nat \<Rightarrow> u8) \<Rightarrow> mem_monitor \<Rightarrow> bytes list option \<times> mem_monitor" where
  "do_reads mem m =
     (case prep_read (tb m) of (i, st) \<Rightarrow>
        (let m1 = m\<lparr>tb := st\<rparr>; cfg = configs m1 ! i in
         if uniqid cfg = 0 then (None, m1)
         else (Some (memmon_tag # le_bytes 8 (uniqid cfg) #
                 map (\<lambda>e. read_mem mem (addr e) (len e)) (take (entry_count cfg) (config_entries cfg))), m1)))"

definition mem_monitor_init :: mem_monitor where
  "mem_monitor_init = \<lparr>configs = replicate 3 zero_config,
     tb = \<lparr>inuse_buf_idx = 0, next_buf_idx = 0\<rparr>, regions = []\<rparr>"

section \<open>Lemmas\<close>

lemma validate_entries_sound:
  assumes q: "answers_blocks query" "\<And>p. \<not> mapped_with query 0 p" "2 ^ 64 \<le> fuel"
    and "cache_good query cached" and "\<And>e. e \<in> set es \<Longrightarrow> addr e < 2 ^ 64"
    and "validate_entries fuel query cached es = Some (None, cached')"
  shows "cache_good query cached' \<and> (\<forall>e \<in> set es. \<forall>i < len e. accessible query False (addr e + i))"
  using assms(4-6)
proof (induction es arbitrary: cached)
  case (Cons e es)
  obtain n c where n: "accessible_bytes_at fuel query cached (addr e) False = Some (n, c)" "cache_good query c"
    "\<forall>i < n. accessible query False (addr e + i)"
    using accessible_bytes_at_sound [OF q Cons.prems(1), of "addr e" False] Cons.prems(2) [of e] by auto
  with Cons.prems(3) have "\<not> n < len e" "validate_entries fuel query c es = Some (None, cached')"
    by (auto split: if_splits)
  with n Cons.IH [OF n(2)] Cons.prems(2) show ?case by auto
qed simp

lemma u64_at_append: "u64_at (xs @ le_bytes 8 v @ ys) (length xs) = v mod 2 ^ 64"
  by (simp add: u64_at_def slice_def le_value_le_bytes)

lemma u64_at_less: "u64_at b ofs < 2 ^ 64"
proof -
  have "length (slice b ofs (ofs + 8)) \<le> 8" by (simp add: slice_def)
  then have "(256 :: nat) ^ length (slice b ofs (ofs + 8)) \<le> 256 ^ 8" by (intro power_increasing) simp_all
  with le_value_less [of "slice b ofs (ofs + 8)"] show ?thesis by (simp add: u64_at_def)
qed

text \<open>The bytes a client sends for a configuration.\<close>

definition encode_entry :: "monitor_entry \<Rightarrow> bytes" where
  "encode_entry e = le_bytes 8 (addr e) @ le_bytes 8 (len e)"

definition encode_config :: "nat \<Rightarrow> monitor_entry list \<Rightarrow> bytes" where
  "encode_config u es = le_bytes 8 u @ le_bytes 8 (length es) @ concat (map encode_entry es)"

lemma length_encode_entries: "length (concat (map encode_entry es)) = 16 * length es"
  by (induction es) (simp_all add: encode_entry_def)

lemma config_of_encoded:
  assumes es: "length es \<le> MAX_ENTRIES" and u: "u < 2 ^ 64" and e: "\<And>e. e \<in> set es \<Longrightarrow> addr e < 2 ^ 64 \<and> len e < 2 ^ 64"
  defines "cfg \<equiv> config_of_bytes (put_slice (replicate CONFIG_SIZE 0) 0 (encode_config u es))"
  shows "uniqid cfg = u" and "entry_count cfg = length es" and "take (length es) (config_entries cfg) = es"
    and "length (config_entries cfg) = MAX_ENTRIES"
proof -
  have len: "length (encode_config u es) = 16 + 16 * length es"
    by (simp add: encode_config_def length_encode_entries)
  define pad where "pad = drop (length (encode_config u es)) (replicate CONFIG_SIZE 0 :: bytes)"
  have img: "put_slice (replicate CONFIG_SIZE 0) 0 (encode_config u es) = encode_config u es @ pad"
    by (simp add: put_slice_def pad_def)
  have "(2 :: nat) ^ 64 > 32" by simp
  then have es64: "length es < 2 ^ 64" using es by (simp add: MAX_ENTRIES_def)
  show "uniqid cfg = u"
    unfolding cfg_def img using u64_at_append [of "[]" u] u by (simp add: config_of_bytes_def encode_config_def)
  show "entry_count cfg = length es"
    unfolding cfg_def img using u64_at_append [of "le_bytes 8 u" "length es"] es64
    by (simp add: config_of_bytes_def encode_config_def)
  show "length (config_entries cfg) = MAX_ENTRIES" by (simp add: cfg_def config_of_bytes_def)
  show "take (length es) (config_entries cfg) = es"
  proof (rule nth_equalityI)
    show "length (take (length es) (config_entries cfg)) = length es"
      using es by (simp add: cfg_def config_of_bytes_def)
    fix i assume "i < length (take (length es) (config_entries cfg))"
    then have i: "i < length es" by simp
    let ?pre = "le_bytes 8 u @ le_bytes 8 (length es) @ concat (map encode_entry (take i es))"
    let ?post = "concat (map encode_entry (drop (Suc i) es)) @ pad"
    have "concat (map encode_entry es) = concat (map encode_entry (take i es)) @ encode_entry (es ! i) @ concat (map encode_entry (drop (Suc i) es))"
      using arg_cong [OF id_take_nth_drop [OF i], of "\<lambda>xs. concat (map encode_entry xs)"] by simp
    then have b: "encode_config u es @ pad = ?pre @ le_bytes 8 (addr (es ! i)) @ le_bytes 8 (len (es ! i)) @ ?post"
      by (simp add: encode_config_def encode_entry_def)
    have lp: "length ?pre = 16 + i * 16" using i by (simp add: length_encode_entries)
    have ei: "addr (es ! i) < 2 ^ 64" "len (es ! i) < 2 ^ 64" using e [of "es ! i"] i by simp_all
    have a: "u64_at (encode_config u es @ pad) (16 + i * 16) = addr (es ! i)"
      using u64_at_append [of ?pre "addr (es ! i)" "le_bytes 8 (len (es ! i)) @ ?post"] ei unfolding b lp by simp
    have l: "u64_at (encode_config u es @ pad) (16 + i * 16 + 8) = len (es ! i)"
      using u64_at_append [of "?pre @ le_bytes 8 (addr (es ! i))" "len (es ! i)" ?post] ei lp unfolding b by simp
    from i es a l show "take (length es) (config_entries cfg) ! i = es ! i"
      unfolding cfg_def img by (simp add: config_of_bytes_def ENTRIES_OFFSET_def ENTRY_SIZE_def)
  qed
qed

lemma le_value_zeros: "set bs \<subseteq> {0} \<Longrightarrow> le_value bs = 0"
  by (induction bs) auto

lemma config_padding:
  assumes "length es \<le> MAX_ENTRIES" and "length es \<le> i" and "i < MAX_ENTRIES"
  shows "config_entries (config_of_bytes (put_slice (replicate CONFIG_SIZE 0) 0 (encode_config u es))) ! i =
    \<lparr>addr = 0, len = 0\<rparr>"
proof -
  let ?b = "encode_config u es @ drop (length (encode_config u es)) (replicate CONFIG_SIZE 0)"
  have len: "length (encode_config u es) = 16 + 16 * length es"
    by (simp add: encode_config_def length_encode_entries)
  have "u64_at ?b ofs = 0" if "16 + 16 * length es \<le> ofs" for ofs
    unfolding u64_at_def using that len
    by (intro le_value_zeros) (auto simp: slice_def dest!: in_set_takeD in_set_dropD)
  with assms show ?thesis
    by (simp add: config_of_bytes_def put_slice_def ENTRIES_OFFSET_def ENTRY_SIZE_def)
qed

lemma config_entries_encoded:
  assumes "length es \<le> MAX_ENTRIES" and "u < 2 ^ 64" and "\<And>e. e \<in> set es \<Longrightarrow> addr e < 2 ^ 64 \<and> len e < 2 ^ 64"
  shows "config_entries (config_of_bytes (put_slice (replicate CONFIG_SIZE 0) 0 (encode_config u es))) =
    es @ replicate (MAX_ENTRIES - length es) \<lparr>addr = 0, len = 0\<rparr>" (is "?l = _")
proof -
  have "drop (length es) ?l = replicate (MAX_ENTRIES - length es) \<lparr>addr = 0, len = 0\<rparr>"
    using config_of_encoded(4) [OF assms] config_padding [OF assms(1)] assms(1)
    by (intro nth_equalityI) auto
  then show ?thesis using append_take_drop_id [of "length es" ?l] config_of_encoded(3) [OF assms] by simp
qed

lemma config_entries_bounded: "e \<in> set (config_entries (config_of_bytes b)) \<Longrightarrow> addr e < 2 ^ 64"
  using u64_at_less by (auto simp: config_of_bytes_def)

lemma set_config_accepted:
  assumes q: "answers_blocks query" "\<And>p. \<not> mapped_with query 0 p" "2 ^ 64 \<le> fuel"
    and good: "cache_good query (regions m)"
    and es: "length es \<le> MAX_ENTRIES" "u < 2 ^ 64" "\<And>e. e \<in> set es \<Longrightarrow> addr e < 2 ^ 64 \<and> len e < 2 ^ 64"
    and m: "length (configs m) = 3"
    and ok: "set_config fuel query m (encode_config u es) = Some (None, m')"
  shows "fst (do_reads mem m') =
      (if u = 0 then None else Some (memmon_tag # le_bytes 8 u # map (\<lambda>e. read_mem mem (addr e) (len e)) es))"
    and "\<forall>e \<in> set es. \<forall>i < len e. accessible query False (addr e + i)"
    and "cache_good query (regions m')" and "length (configs m') = 3"
proof -
  define cfg where "cfg = config_of_bytes (put_slice (replicate CONFIG_SIZE 0) 0 (encode_config u es))"
  note cfg = config_of_encoded [OF es, folded cfg_def]
  have len: "length (encode_config u es) = 16 + 16 * length es"
    by (simp add: encode_config_def length_encode_entries)
  have guards: "\<not> (length (encode_config u es) < ENTRIES_OFFSET \<or> (length (encode_config u es) - ENTRIES_OFFSET) mod ENTRY_SIZE \<noteq> 0)"
    "(length (encode_config u es) - ENTRIES_OFFSET) div ENTRY_SIZE = length es" "\<not> MAX_ENTRIES < length es"
    using len es(1) by (simp_all add: ENTRIES_OFFSET_def ENTRY_SIZE_def)
  obtain i where i: "prep_write (tb m) = Some i" using ok guards
    by (cases "prep_write (tb m)") (auto simp: set_config_def)
  let ?m1 = "m\<lparr>configs := (configs m)[i := cfg]\<rparr>"
  from ok i guards cfg(2) obtain err c where v: "validate_config fuel query (regions m) cfg = Some (err, c)"
    by (cases "validate_config fuel query (regions m) cfg") (auto simp: set_config_def cfg_def Let_def)
  with ok i guards cfg(2) obtain st where st: "err = None" "post_write i (tb m) = Some st" "m' = m\<lparr>configs := (configs m)[i := cfg], tb := st, regions := c\<rparr>"
    by (cases err; cases "post_write i (tb m)") (auto simp: set_config_def cfg_def Let_def)
  have i3: "i < 3" using i by (auto simp: prep_write_def split: if_splits)
  then have nxt: "next_buf_idx st = i" using st(2) by (auto simp: post_write_def split: if_splits)
  have valid: "\<not> (u = 0 \<and> es \<noteq> [])" "validate_entries fuel query (regions m) (config_entries cfg) = Some (None, c)"
    using v st(1) cfg(1,2) by (auto simp: validate_config_def split: if_splits)
  have "cache_good query c \<and> (\<forall>e \<in> set (config_entries cfg). \<forall>i < len e. accessible query False (addr e + i))"
    using valid(2) config_entries_bounded by (intro validate_entries_sound [OF q good]) (auto simp: cfg_def)
  then show "\<forall>e \<in> set es. \<forall>i < len e. accessible query False (addr e + i)" "cache_good query (regions m')"
    using cfg(3) in_set_takeD [of _ "length es" "config_entries cfg"] st(3) by auto
  show "length (configs m') = 3" using m st(3) by simp
  show "fst (do_reads mem m') =
      (if u = 0 then None else Some (memmon_tag # le_bytes 8 u # map (\<lambda>e. read_mem mem (addr e) (len e)) es))"
    using m i3 nxt cfg(1-3) by (simp add: do_reads_def prep_read_def st(3) Let_def)
qed

lemma validate_entries_total:
  assumes q: "answers_blocks query" "\<And>p. \<not> mapped_with query 0 p" "2 ^ 64 \<le> fuel"
    and "cache_good query cached" and "\<And>e. e \<in> set es \<Longrightarrow> addr e < 2 ^ 64"
  shows "\<exists>r cached'. validate_entries fuel query cached es = Some (r, cached') \<and> cache_good query cached' \<and>
    (r = None \<or> r = Some ''invalid address'')"
  using assms(4,5)
proof (induction es arbitrary: cached)
  case (Cons e es)
  obtain n c where n: "accessible_bytes_at fuel query cached (addr e) False = Some (n, c)" "cache_good query c"
    using accessible_bytes_at_sound [OF q Cons.prems(1), of "addr e" False] Cons.prems(2) [of e] by auto
  show ?case
  proof (cases "n < len e")
    case True
    with n show ?thesis by simp
  next
    case False
    with n Cons.IH [OF n(2)] Cons.prems(2) show ?thesis by simp
  qed
qed simp

text \<open>
  A configuration that passes all checks; \<open>set_config\<close> answers on any data, unless it is given such a
  configuration while both indices are 1.
\<close>

definition config_accepted :: "nat \<Rightarrow> (nat \<Rightarrow> MemoryInfo option) \<Rightarrow> mem_monitor \<Rightarrow> bytes \<Rightarrow> bool" where
  "config_accepted fuel query m data \<longleftrightarrow>
     ENTRIES_OFFSET \<le> length data \<and> (length data - ENTRIES_OFFSET) mod ENTRY_SIZE = 0 \<and>
     (length data - ENTRIES_OFFSET) div ENTRY_SIZE \<le> MAX_ENTRIES \<and>
     (let cfg = config_of_bytes (put_slice (replicate CONFIG_SIZE 0) 0 data) in
      entry_count cfg = (length data - ENTRIES_OFFSET) div ENTRY_SIZE \<and>
      map_option fst (validate_config fuel query (regions m) cfg) = Some None)"

definition both_one :: "atomic_state \<Rightarrow> bool" where
  "both_one st \<longleftrightarrow> inuse_buf_idx st = 1 \<and> next_buf_idx st = 1"

lemma set_config_total:
  assumes q: "answers_blocks query" "\<And>p. \<not> mapped_with query 0 p" "2 ^ 64 \<le> fuel"
    and good: "cache_good query (regions m)" and idx: "inuse_buf_idx (tb m) < 3" "next_buf_idx (tb m) < 3"
    and ok: "\<not> (both_one (tb m) \<and> config_accepted fuel query m data)"
  shows "\<exists>r m'. set_config fuel query m data = Some (r, m') \<and> cache_good query (regions m') \<and>
    length (configs m') = length (configs m) \<and>
    (\<forall>e. r = Some e \<longrightarrow> length e < 30)"
proof -
  obtain i where i: "prep_write (tb m) = Some i" "distinct_or_one i (tb m)"
    using prep_write_distinct [OF idx] by blast
  define cfg where "cfg = config_of_bytes (put_slice (replicate CONFIG_SIZE 0) 0 data)"
  have b: "e \<in> set (config_entries cfg) \<Longrightarrow> addr e < 2 ^ 64" for e unfolding cfg_def by (rule config_entries_bounded)
  obtain r c where v: "validate_entries fuel query (regions m) (config_entries cfg) = Some (r, c)" "cache_good query c"
    "r = None \<or> r = Some ''invalid address''"
    using validate_entries_total [OF q good, of "config_entries cfg"] b by blast
  obtain e c' where vc: "validate_config fuel query (regions m) cfg = Some (e, c')" "cache_good query c'"
    "\<forall>x. e = Some x \<longrightarrow> length x < 30"
    using v good by (cases "uniqid cfg = 0 \<and> entry_count cfg \<noteq> 0") (auto simp: validate_config_def)
  show ?thesis
  proof (cases "config_accepted fuel query m data")
    case True
    then have "i \<noteq> inuse_buf_idx (tb m)" "i \<noteq> next_buf_idx (tb m)" using i(2) ok by (auto simp: distinct_or_one_def both_one_def)
    then have pw: "\<exists>st. post_write i (tb m) = Some st" by (simp add: post_write_def)
    show ?thesis
      using i(1) vc pw good
      by (cases e) (auto simp: set_config_def Let_def simp flip: cfg_def)
  next
    case False
    then have "e \<noteq> None \<or> length data < ENTRIES_OFFSET \<or> (length data - ENTRIES_OFFSET) mod ENTRY_SIZE \<noteq> 0 \<or>
        MAX_ENTRIES < (length data - ENTRIES_OFFSET) div ENTRY_SIZE \<or> entry_count cfg \<noteq> (length data - ENTRIES_OFFSET) div ENTRY_SIZE"
      using vc(1) by (auto simp: config_accepted_def Let_def simp flip: cfg_def)
    then show ?thesis
      using i(1) vc good
      by (cases e) (auto simp: set_config_def Let_def simp flip: cfg_def)
  qed
qed

lemma set_config_panics:
  assumes "both_one (tb m)" and "config_accepted fuel query m data"
  shows "set_config fuel query m data = None"
proof -
  define cfg where "cfg = config_of_bytes (put_slice (replicate CONFIG_SIZE 0) 0 data)"
  obtain c where "validate_config fuel query (regions m) cfg = Some (None, c)"
    using assms(2) by (auto simp: config_accepted_def Let_def simp flip: cfg_def)
  moreover have "prep_write (tb m) = Some 1" "post_write 1 (tb m) = None"
    using assms(1) by (simp_all add: both_one_def prep_write_def post_write_def)
  ultimately show ?thesis
    using assms(2) by (auto simp: config_accepted_def set_config_def Let_def simp flip: cfg_def)
qed

section \<open>Properties\<close>

lemma tb_write:
  assumes "tb_reachable t" and "writer t = TIdle" and "prep_write (state t) = Some i" and "post_write i (state t) = Some st"
  shows "tb_reachable (t\<lparr>state := st\<rparr>)"
proof -
  have 1: "tb_reachable (t\<lparr>writer := TFilling i\<rparr>)"
    using tb_next [OF assms(1) do_prep_write [OF assms(2)]] assms(3) by simp
  have 2: "tb_reachable (t\<lparr>writer := TSwap i (state t)\<rparr>)"
    using tb_next [OF 1 load_expected [of _ i]] by simp
  have "tb_reachable (t\<lparr>state := st, writer := TIdle\<rparr>)"
    using tb_next [OF 2 swap [of _ i "state t" st]] assms(4) by simp
  moreover have "t\<lparr>state := st, writer := TIdle\<rparr> = t\<lparr>state := st\<rparr>" using assms(2) by (cases t) simp
  ultimately show ?thesis by simp
qed

lemma tb_read:
  assumes "tb_reachable t" and "reader t = RUsing"
  shows "tb_reachable (t\<lparr>state := snd (prep_read (state t))\<rparr>)"
proof -
  have 1: "tb_reachable (t\<lparr>reader := RSwap (state t)\<rparr>)"
    using tb_next [OF assms(1) read_load [OF assms(2)]] .
  have "tb_reachable (t\<lparr>state := snd (prep_read (state t)), reader := RUsing\<rparr>)"
    using tb_next [OF 1 read_swap [of _ "state t"]] by simp
  moreover have "t\<lparr>state := snd (prep_read (state t)), reader := RUsing\<rparr> = t\<lparr>state := snd (prep_read (state t))\<rparr>"
    using assms(2) by (cases t) simp
  ultimately show ?thesis by simp
qed

lemma reaches_one_one:
  "tb_reachable \<lparr>state = \<lparr>inuse_buf_idx = 1, next_buf_idx = 1\<rparr>, writer = TIdle, reader = RUsing\<rparr>"
proof -
  let ?t = "\<lambda>i n. \<lparr>state = \<lparr>inuse_buf_idx = i, next_buf_idx = n\<rparr>, writer = TIdle, reader = RUsing\<rparr>"
  have w: "tb_reachable (?t i n) \<Longrightarrow> prep_write \<lparr>inuse_buf_idx = i, next_buf_idx = n\<rparr> = Some k \<Longrightarrow>
      post_write k \<lparr>inuse_buf_idx = i, next_buf_idx = n\<rparr> = Some \<lparr>inuse_buf_idx = i, next_buf_idx = k\<rparr> \<Longrightarrow> tb_reachable (?t i k)" for i n k
    using tb_write [of "?t i n" k "\<lparr>inuse_buf_idx = i, next_buf_idx = k\<rparr>"] by simp
  have r: "tb_reachable (?t i n) \<Longrightarrow> tb_reachable (?t n n)" for i n
    using tb_read [of "?t i n"] by (simp add: prep_read_def)
  have "tb_reachable (?t 0 0)" using tb_start by (simp add: tb_init_def)
  then have "tb_reachable (?t 0 2)" by (rule w) (simp_all add: prep_write_def post_write_def)
  then have "tb_reachable (?t 2 2)" by (rule r)
  then have "tb_reachable (?t 2 0)" by (rule w) (simp_all add: prep_write_def post_write_def)
  then have "tb_reachable (?t 2 1)" by (rule w) (simp_all add: prep_write_def post_write_def)
  then show ?thesis by (rule r)
qed

lemma filling_one_reached:
  "tb_reachable \<lparr>state = \<lparr>inuse_buf_idx = 1, next_buf_idx = 1\<rparr>, writer = TFilling 1, reader = RUsing\<rparr>"
  using tb_next [OF reaches_one_one do_prep_write] by (simp add: prep_write_def)

text \<open>
  C27. Over every interleaving of the two threads, stale expected values included: the indices stay those
  of the three buffers; the buffer the writer fills is one the reader uses, or will use next, in exactly one
  situation, buffer 1 with both indices of the shared state at 1, and only then does an assertion fail. In
  every other state the buffers are apart. The situation does come up (\<open>prep_write\<close> computes \<open>2 - inuse_buf_idx\<close>,
  serve.cpp:234). The assertions on the calling threads hold: requests run on the server's thread and
  \<open>do_reads\<close> on the main one.
\<close>

theorem triple_buffer_exclusion:
  assumes "tb_reachable t"
  shows "inuse_buf_idx (state t) < 3 \<and> next_buf_idx (state t) < 3 \<and>
    (writer t = TPanic \<longrightarrow> both_one (state t)) \<and>
    (\<forall>i st. writer t = TFilling i \<or> writer t = TSwap i st \<longrightarrow> i < 3 \<and>
       (i = inuse_buf_idx (state t) \<or> i = next_buf_idx (state t) \<longleftrightarrow> i = 1 \<and> both_one (state t))) \<and>
    (\<exists>t'. tb_reachable t' \<and> writer t' = TFilling 1 \<and> both_one (state t'))"
proof -
  have "tb_inv t" by (rule tb_reachable_inv [OF assms])
  then have "inuse_buf_idx (state t) < 3 \<and> next_buf_idx (state t) < 3 \<and> (writer t = TPanic \<longrightarrow> both_one (state t)) \<and>
    (\<forall>i st. writer t = TFilling i \<or> writer t = TSwap i st \<longrightarrow> i < 3 \<and>
       (i = inuse_buf_idx (state t) \<or> i = next_buf_idx (state t) \<longleftrightarrow> i = 1 \<and> both_one (state t)))"
    by (cases "writer t") (auto simp: tb_inv_def distinct_or_one_def both_one_def)
  moreover have "\<exists>t'. tb_reachable t' \<and> writer t' = TFilling 1 \<and> both_one (state t')"
    using filling_one_reached by (intro exI [of _ "\<lparr>state = \<lparr>inuse_buf_idx = 1, next_buf_idx = 1\<rparr>, writer = TFilling 1, reader = RUsing\<rparr>"])
      (simp add: both_one_def)
  ultimately show ?thesis by blast
qed

theorem triple_buffer_exclusion_witness:
  "prep_write (state tb_init) = Some 2 \<and> tb_reachable (tb_init\<lparr>writer := TFilling 2\<rparr>) \<and>
    \<not> both_one (state (tb_init\<lparr>writer := TFilling 2\<rparr>)) \<and> inuse_buf_idx (state (tb_init\<lparr>writer := TFilling 2\<rparr>)) < 3"
proof -
  have "tb_reachable (tb_init\<lparr>writer := TFilling 2\<rparr>)"
    using tb_next [OF tb_start do_prep_write] by (simp add: tb_init_def prep_write_def)
  with triple_buffer_exclusion [OF this] show ?thesis by (simp add: tb_init_def prep_write_def both_one_def)
qed

text \<open>
  The exception is real: a configuration is set, read, set twice before the next frame, read
  and set again, and then \<open>prep_write\<close> returns buffer 1 while the reader is using buffer 1; the
  writer overwrites it and the assertion of \<open>post_write\<close> fails.
\<close>

theorem triple_buffer_panic_reachable:
  "\<exists>t t'. tb_reachable t \<and> writer t = TFilling 1 \<and> inuse_buf_idx (state t) = 1 \<and> tb_reachable t' \<and> writer t' = TPanic"
proof -
  let ?s = "\<lparr>inuse_buf_idx = 1, next_buf_idx = 1\<rparr>"
  let ?t = "\<lambda>w. \<lparr>state = ?s, writer = w, reader = RUsing\<rparr>"
  have 1: "tb_reachable (?t (TFilling 1))" by (rule filling_one_reached)
  have 2: "tb_reachable (?t (TSwap 1 ?s))" using tb_next [OF 1 load_expected [of _ 1]] by simp
  have "tb_reachable (?t TPanic)" using tb_next [OF 2 check_fails [of _ 1 ?s]] by (simp add: post_write_def)
  with 1 show ?thesis by (intro exI [of _ "?t (TFilling 1)"] exI [of _ "?t TPanic"]) simp
qed

text \<open>
  A configuration sent by a client and accepted is the one the next frame reports: the
  packet of \<open>do_reads\<close> carries its id and then the bytes of exactly its ranges, in order, and
  every byte read was checked to be readable. (An id of 0 switches the monitor off.)
\<close>

theorem set_config_then_read:
  assumes "answers_blocks query" and "\<And>p. \<not> mapped_with query 0 p" and "2 ^ 64 \<le> fuel"
    and "cache_good query (regions m)" and "length (configs m) = 3"
    and "length es \<le> MAX_ENTRIES" and "u < 2 ^ 64" and "\<And>e. e \<in> set es \<Longrightarrow> addr e < 2 ^ 64 \<and> len e < 2 ^ 64"
    and "set_config fuel query m (encode_config u es) = Some (None, m')"
  shows "fst (do_reads mem m') =
      (if u = 0 then None else Some (memmon_tag # le_bytes 8 u # map (\<lambda>e. read_mem mem (addr e) (len e)) es))
    \<and> (\<forall>e \<in> set es. \<forall>i < len e. accessible query False (addr e + i))"
  using set_config_accepted [OF assms(1-4,6-8,5,9)] by blast

definition first_cache :: "region list" where
  "first_cache = [\<lparr>start = 0x1000, extent = 0x1000, perm = 1\<rparr>]"

definition full_cache :: "region list" where
  "full_cache = [\<lparr>start = 0x1000, extent = 0x1000, perm = 1\<rparr>,
     \<lparr>start = 0x8000000000, extent = 2 ^ 64 - 0x8000000000, perm = 0\<rparr>]"

definition witness_monitor :: mem_monitor where
  "witness_monitor = mem_monitor_init\<lparr>regions := first_cache\<rparr>"

definition kernel_fuel :: nat where
  "kernel_fuel = 2 ^ 64"

lemma witness_queries:
  "accessible_bytes_at kernel_fuel small_memory first_cache 0x1000 False = Some (0x1000, first_cache)"
  "accessible_bytes_at kernel_fuel small_memory first_cache 0 False = Some (0, full_cache)"
  "accessible_bytes_at kernel_fuel small_memory full_cache 0 False = Some (0, full_cache)"
  by code_simp+

lemma witness_zero_entries:
  "validate_entries kernel_fuel small_memory full_cache (replicate k \<lparr>addr = 0, len = 0\<rparr>) = Some (None, full_cache)"
  by (induction k) (simp_all add: witness_queries)

lemma witness_accepts:
  "\<exists>m'. set_config kernel_fuel small_memory witness_monitor (encode_config 9 [\<lparr>addr = 0x1000, len = 2\<rparr>]) = Some (None, m')"
proof -
  let ?es = "[\<lparr>addr = 0x1000, len = 2\<rparr>]"
  have len: "length (encode_config 9 ?es) = 32" by (simp add: encode_config_def length_encode_entries del: list.map concat.simps)
  define cfg where "cfg = config_of_bytes (put_slice (replicate CONFIG_SIZE 0) 0 (encode_config 9 ?es))"
  have cfg: "uniqid cfg = 9" "entry_count cfg = 1" "config_entries cfg = ?es @ replicate 31 \<lparr>addr = 0, len = 0\<rparr>"
    using config_of_encoded [of ?es 9] config_entries_encoded [of ?es 9] by (simp_all add: cfg_def MAX_ENTRIES_def)
  have "replicate 31 \<lparr>addr = 0, len = 0\<rparr> = \<lparr>addr = 0, len = 0\<rparr> # replicate 30 \<lparr>addr = 0, len = 0\<rparr>"
    by (simp flip: replicate_Suc)
  then have "validate_config kernel_fuel small_memory first_cache cfg = Some (None, full_cache)"
    using cfg by (simp add: validate_config_def witness_queries witness_zero_entries)
  then show ?thesis
    using len cfg(2) by (simp add: set_config_def ENTRIES_OFFSET_def ENTRY_SIZE_def MAX_ENTRIES_def witness_monitor_def
        mem_monitor_init_def prep_write_def post_write_def cfg_def [symmetric] Let_def)
qed

theorem set_config_then_read_witness:
  "\<exists>m'. set_config kernel_fuel small_memory witness_monitor (encode_config 9 [\<lparr>addr = 0x1000, len = 2\<rparr>]) = Some (None, m') \<and>
     fst (do_reads (\<lambda>a. 7) m') = Some [memmon_tag, [9, 0, 0, 0, 0, 0, 0, 0], [7, 7]]"
proof -
  obtain m' where m': "set_config kernel_fuel small_memory witness_monitor (encode_config 9 [\<lparr>addr = 0x1000, len = 2\<rparr>]) = Some (None, m')"
    using witness_accepts by blast
  have good: "cache_good small_memory (regions witness_monitor)" and three: "length (configs witness_monitor) = 3"
    by (auto simp: witness_monitor_def first_cache_def mem_monitor_init_def cache_good_def cache_ok_def in_region_def
        mapped_with_def small_memory_def block_def)
  have "fst (do_reads (\<lambda>a. 7) m') = Some [memmon_tag, le_bytes 8 9, read_mem (\<lambda>a. 7) 0x1000 2]"
    using set_config_then_read [OF small_memory_answers small_memory_null _ good three _ _ _ m', of "\<lambda>a. 7"]
    by (simp add: MAX_ENTRIES_def kernel_fuel_def)
  moreover have "le_bytes 8 9 = [9, 0, 0, 0, 0, 0, 0, 0]" "read_mem (\<lambda>a. 7) 0x1000 2 = [7, 7]" by code_simp+
  ultimately show ?thesis using m' by simp
qed

end
