(* ===== verification/Iobuf.thy ===== *)
theory Iobuf
  imports Prelude
begin

text \<open>
  The growable buffers of the bundled mongoose (\<open>iobuf.c\<close>), which hold what every connection
  receives and has still to send. The allocated area is a byte list (empty for a null pointer),
  \<open>size\<close> its length. \<open>calloc\<close> may fail: whether it grants a size is the argument \<open>calloc\<close>. A copy
  that would leave the allocated area is \<open>None\<close>.
\<close>

section \<open>State and operations\<close>

record mg_iobuf =
  iobuf :: bytes
  iolen :: nat
  ioalign :: nat

definition iosize :: "mg_iobuf \<Rightarrow> nat" where
  "iosize io = length (iobuf io)"

definition roundup :: "nat \<Rightarrow> nat \<Rightarrow> nat" where
  "roundup n align =
     (if align = 0 then n else (size_sub (size_add n align) 1 div align * align) mod 2 ^ 64)"

definition mg_iobuf_resize :: "(nat \<Rightarrow> bool) \<Rightarrow> mg_iobuf \<Rightarrow> nat \<Rightarrow> (bool \<times> mg_iobuf) option" where
  "mg_iobuf_resize calloc io requested =
     (let new_size = roundup requested (ioalign io) in
      if new_size = 0 then Some (True, io\<lparr>iobuf := [], iolen := 0\<rparr>)
      else if new_size \<noteq> iosize io then
        (if calloc new_size then
           (let n = min new_size (iolen io) in
            if n \<le> iosize io
            then Some (True, io\<lparr>iobuf := take n (iobuf io) @ replicate (new_size - n) 0\<rparr>)
            else None)
         else Some (False, io))
      else Some (True, io))"

definition mg_iobuf_init :: "(nat \<Rightarrow> bool) \<Rightarrow> nat \<Rightarrow> nat \<Rightarrow> (bool \<times> mg_iobuf) option" where
  "mg_iobuf_init calloc n align = mg_iobuf_resize calloc \<lparr>iobuf = [], iolen = 0, ioalign = align\<rparr> n"

text \<open>The data is \<open>None\<close> for a null pointer, which only makes room.\<close>

definition mg_iobuf_add :: "(nat \<Rightarrow> bool) \<Rightarrow> mg_iobuf \<Rightarrow> nat \<Rightarrow> bytes option \<Rightarrow> nat \<Rightarrow> (nat \<times> mg_iobuf) option" where
  "mg_iobuf_add calloc io ofs data n = do {
     let new_size = roundup (size_add (iolen io) n) (ioalign io);
     (ok, io1) \<leftarrow> mg_iobuf_resize calloc io new_size;
     let n1 = (if new_size \<noteq> iosize io1 then 0 else n);
     b1 \<leftarrow> (if ofs < iolen io1 then memcpy_into (iobuf io1) (ofs + n1) (slice (iobuf io1) ofs (iolen io1))
            else Some (iobuf io1));
     b2 \<leftarrow> (case data of None \<Rightarrow> Some b1 | Some d \<Rightarrow> memcpy_into b1 ofs (take n1 d));
     Some (n1, io1\<lparr>iobuf := b2, iolen := (if ofs > iolen io1 then ofs else iolen io1) + n1\<rparr>)
   }"

definition mg_iobuf_del :: "mg_iobuf \<Rightarrow> nat \<Rightarrow> nat \<Rightarrow> (nat \<times> mg_iobuf) option" where
  "mg_iobuf_del io ofs0 n0 = do {
     let ofs = (if ofs0 > iolen io then iolen io else ofs0);
     let n = (if size_add ofs n0 > iolen io then iolen io - ofs else n0);
     b1 \<leftarrow> (if iobuf io = [] then Some []
            else memcpy_into (iobuf io) ofs (slice (iobuf io) (ofs + n) (iolen io)));
     b2 \<leftarrow> (if iobuf io = [] then Some [] else memcpy_into b1 (iolen io - n) (replicate n 0));
     Some (n, io\<lparr>iobuf := b2, iolen := iolen io - n\<rparr>)
   }"

definition mg_iobuf_free :: "(nat \<Rightarrow> bool) \<Rightarrow> mg_iobuf \<Rightarrow> (bool \<times> mg_iobuf) option" where
  "mg_iobuf_free calloc io = mg_iobuf_resize calloc io 0"

text \<open>\<open>mg_send\<close> of \<open>sock.c\<close> for a TCP connection: the bytes wait in the send buffer.\<close>

definition mg_send :: "(nat \<Rightarrow> bool) \<Rightarrow> mg_iobuf \<Rightarrow> bytes \<Rightarrow> mg_iobuf option" where
  "mg_send calloc io d = map_option snd (mg_iobuf_add calloc io (iolen io) (Some d) (length d))"

section \<open>The buffer as a byte string\<close>

definition content :: "mg_iobuf \<Rightarrow> bytes" where
  "content io = take (iolen io) (iobuf io)"

definition iobuf_ok :: "mg_iobuf \<Rightarrow> bool" where
  "iobuf_ok io \<longleftrightarrow> iolen io \<le> iosize io \<and> iosize io < 2 ^ 62 \<and> ioalign io < 2 ^ 62"

lemma length_content: "iobuf_ok io \<Longrightarrow> length (content io) = iolen io"
  by (simp add: content_def iobuf_ok_def iosize_def)

lemma roundup_bounds:
  assumes "n < 2 ^ 62" and "align < 2 ^ 62"
  shows "n \<le> roundup n align" and "roundup n align < n + align + (if align = 0 then 1 else 0)"
    and "roundup (roundup n align) align = roundup n align"
    and "roundup n align = 0 \<longleftrightarrow> n = 0"
proof -
  have sub: "size_sub (size_add m align) 1 = m + align - 1" if "m < 2 ^ 63" "align \<noteq> 0" for m
    using that assms by (simp add: SIZE_MAX_def)
  have core: "(m + align - 1) div align * align mod 2 ^ 64 = (m + align - 1) div align * align" if "m < 2 ^ 63" for m
  proof -
    have "(m + align - 1) div align * align \<le> m + align - 1" by simp
    also have "\<dots> < 2 ^ 64" using that assms(2) by simp
    finally show ?thesis by simp
  qed
  have r: "roundup m align = (m + align - 1) div align * align" if "align \<noteq> 0" "m < 2 ^ 63" for m
    using that sub core by (simp add: roundup_def)
  show le: "n \<le> roundup n align"
  proof (cases "align = 0")
    case False
    have "n + align - 1 < (n + align - 1) div align * align + align"
      using False by (metis div_mult_mod_eq mod_less_divisor nat_add_left_cancel_less neq0_conv)
    with False assms show ?thesis by (simp add: r)
  qed (simp add: roundup_def)
  show ub: "roundup n align < n + align + (if align = 0 then 1 else 0)"
  proof (cases "align = 0")
    case False
    have "(n + align - 1) div align * align \<le> n + align - 1" by simp
    then have "(n + align - 1) div align * align < n + align" using False by linarith
    with False assms show ?thesis by (simp add: r)
  qed (simp add: roundup_def)
  show "roundup (roundup n align) align = roundup n align"
  proof (cases "align = 0")
    case False
    have lt: "roundup n align < 2 ^ 63" using ub False assms by simp
    obtain k where k: "roundup n align = k * align" using r [OF False] assms(1) by auto
    have "k * align + align - 1 = (align - 1) + k * align" using False by linarith
    then have "(k * align + align - 1) div align = ((align - 1) + k * align) div align" by (simp only:)
    also have "\<dots> = k + (align - 1) div align" using False by (rule div_mult_self1)
    also have "\<dots> = k" using False by simp
    finally have "(k * align + align - 1) div align = k" .
    with False lt k show ?thesis by (simp add: r)
  qed (simp add: roundup_def)
  show "roundup n align = 0 \<longleftrightarrow> n = 0"
  proof
    assume "roundup n align = 0" then show "n = 0" using le by simp
  next
    assume "n = 0"
    then show "roundup n align = 0" using r [of 0] by (cases "align = 0") (simp_all add: roundup_def)
  qed
qed

lemma resize_grow:
  assumes ok: "iobuf_ok io" and n: "iolen io \<le> n" "roundup n (ioalign io) < 2 ^ 62"
    and rn: "n < 2 ^ 62" and nz: "n \<noteq> 0"
  shows "\<exists>b io'. mg_iobuf_resize calloc io n = Some (b, io') \<and> content io' = content io \<and> iobuf_ok io' \<and>
    ioalign io' = ioalign io \<and> iolen io' = iolen io \<and> (b \<longleftrightarrow> iosize io' = roundup n (ioalign io)) \<and>
    (calloc (roundup n (ioalign io)) \<longrightarrow> b) \<and> (\<not> b \<longrightarrow> io' = io)"
proof -
  let ?r = "roundup n (ioalign io)"
  have le: "n \<le> ?r" "?r \<noteq> 0" using roundup_bounds(1,4) [OF rn, of "ioalign io"] ok nz by (auto simp: iobuf_ok_def)
  show ?thesis
  proof (cases "?r = iosize io")
    case True
    then show ?thesis using ok le by (auto simp: mg_iobuf_resize_def Let_def)
  next
    case False
    have m: "min ?r (iolen io) = iolen io" using le n by simp
    show ?thesis
    proof (cases "calloc ?r")
      case True
      then show ?thesis using False ok le m n
        by (auto simp: mg_iobuf_resize_def Let_def content_def iobuf_ok_def iosize_def)
    next
      case no: False
      then show ?thesis using False ok le by (auto simp: mg_iobuf_resize_def Let_def)
    qed
  qed
qed

lemma content_nth: "content io = take (iolen io) (iobuf io)"
  by (simp add: content_def)

text \<open>Inserting at an offset inside the buffer; a failed allocation appends nothing.\<close>

lemma iobuf_add:
  assumes ok: "iobuf_ok io" and ofs: "ofs \<le> iolen io" and d: "0 < length d"
    and r: "iolen io + length d + ioalign io < 2 ^ 62"
  shows "\<exists>n io'. mg_iobuf_add calloc io ofs (Some d) (length d) = Some (n, io') \<and> iobuf_ok io' \<and>
    ioalign io' = ioalign io \<and>
    (n = length d \<and> content io' = take ofs (content io) @ d @ drop ofs (content io) \<or>
     n = 0 \<and> content io' = content io \<and> \<not> calloc (roundup (iolen io + length d) (ioalign io)))"
proof -
  let ?t = "iolen io + length d" and ?r = "roundup (iolen io + length d) (ioalign io)"
  have t: "size_add (iolen io) (length d) = ?t" using r by (simp add: SIZE_MAX_def)
  have t62: "?t < 2 ^ 62" using r by simp
  have al: "ioalign io < 2 ^ 62" using ok by (simp add: iobuf_ok_def)
  have r62: "?r < 2 ^ 62" and rr: "roundup ?r (ioalign io) = ?r" and le: "?t \<le> ?r"
    using roundup_bounds(1-3) [OF t62 al] r by (auto split: if_splits)
  obtain b io1 where io1: "mg_iobuf_resize calloc io ?r = Some (b, io1)" "content io1 = content io" "iobuf_ok io1"
    "ioalign io1 = ioalign io" "iolen io1 = iolen io" "b \<longleftrightarrow> iosize io1 = ?r" "calloc ?r \<longrightarrow> b" "\<not> b \<longrightarrow> io1 = io"
    using resize_grow [OF ok, of ?r calloc] le r62 rr d by auto
  have b1: "take (iolen io) (iobuf io1) = content io" using io1(2,5) by (simp add: content_def)
  show ?thesis
  proof (cases b)
    case False
    let ?s = "slice (iobuf io) ofs (iolen io)"
    have len: "length ?s = iolen io - ofs" using ok by (simp add: length_slice iobuf_ok_def iosize_def)
    have "memcpy_into (iobuf io) ofs ?s = Some (put_slice (iobuf io) ofs ?s)"
      using len ofs ok by (simp add: memcpy_into_def iobuf_ok_def iosize_def)
    moreover have "put_slice (iobuf io) ofs ?s = iobuf io"
      using len ofs ok by (simp add: put_slice_def slice_def iobuf_ok_def iosize_def)
        (metis append_take_drop_id drop_drop le_add_diff_inverse2)
    moreover have "memcpy_into (iobuf io) ofs [] = Some (iobuf io)"
      using ofs ok by (simp add: memcpy_into_def put_slice_def iobuf_ok_def iosize_def)
    ultimately have "mg_iobuf_add calloc io ofs (Some d) (length d) = Some (0, io)"
      using False io1 t ofs by (auto simp: mg_iobuf_add_def Let_def)
    with False io1(7) ok show ?thesis by auto
  next
    case True
    then have sz: "iosize io1 = ?r" using io1(6) by simp
    let ?B = "iobuf io1" and ?n = "length d"
    let ?s = "slice ?B ofs (iolen io)"
    have lB: "length ?B = ?r" using sz by (simp add: iosize_def)
    have ls: "length ?s = iolen io - ofs" using lB le by (simp add: length_slice)
    define b1 where "b1 = (if ofs < iolen io then put_slice ?B (ofs + ?n) ?s else ?B)"
    have s1: "(if ofs < iolen io then memcpy_into ?B (ofs + ?n) ?s else Some ?B) = Some b1"
      using ls lB le ofs by (simp add: memcpy_into_def b1_def)
    have lb1: "length b1 = ?r" using ls lB le ofs by (simp add: length_put_slice b1_def)
    have s2: "memcpy_into b1 ofs d = Some (put_slice b1 ofs d)"
      using lb1 le ofs by (simp add: memcpy_into_def)
    let ?io = "io1\<lparr>iobuf := put_slice b1 ofs d, iolen := iolen io + ?n\<rparr>"
    have add: "mg_iobuf_add calloc io ofs (Some d) ?n = Some (?n, ?io)"
      unfolding mg_iobuf_add_def Let_def t io1(1) using io1(5) sz s1 s2 ofs
      by (cases "ofs < iolen io") simp_all
    have "take ofs b1 = take ofs (content io)"
      using lB le ofs by (auto simp: put_slice_def b1_def simp flip: b1)
    moreover have "take (iolen io - ofs) (drop (ofs + ?n) b1) = drop ofs (content io)"
      using lB le ofs ls by (auto simp: put_slice_def slice_def drop_take b1_def simp flip: b1)
    ultimately have "content ?io = take ofs (content io) @ d @ drop ofs (content io)"
      using lb1 le ofs ok by (simp add: content_def put_slice_def iobuf_ok_def iosize_def)
    moreover have "iobuf_ok ?io"
      using io1(3,4) lb1 le ofs r62 by (simp add: iobuf_ok_def iosize_def length_put_slice)
    ultimately show ?thesis using add io1(4) by auto
  qed
qed

lemma iobuf_append:
  assumes "iobuf_ok io" and "iolen io + length d + ioalign io < 2 ^ 62" and "\<And>n. calloc n"
  shows "\<exists>io'. mg_iobuf_add calloc io (iolen io) (Some d) (length d) = Some (length d, io') \<and> iobuf_ok io' \<and>
    ioalign io' = ioalign io \<and> content io' = content io @ d \<and> iolen io' = iolen io + length d"
proof (cases "d = []")
  case True
  have t: "size_add (iolen io) 0 = iolen io" using assms(2) by (simp add: SIZE_MAX_def)
  have al: "ioalign io < 2 ^ 62" "iolen io < 2 ^ 62" using assms(1,2) by (auto simp: iobuf_ok_def)
  show ?thesis
  proof (cases "iolen io = 0")
    case True
    have "mg_iobuf_resize calloc io (roundup 0 (ioalign io)) = Some (True, io\<lparr>iobuf := [], iolen := 0\<rparr>)"
      using roundup_bounds(4) [of 0 "ioalign io"] al by (simp add: mg_iobuf_resize_def)
    then show ?thesis using \<open>d = []\<close> True t assms(1) al roundup_bounds(4) [of 0 "ioalign io"]
      by (auto simp: mg_iobuf_add_def Let_def memcpy_into_def put_slice_def iosize_def content_def iobuf_ok_def)
  next
    case nz: False
    let ?r = "roundup (iolen io) (ioalign io)"
    have r: "?r < 2 ^ 62" "iolen io \<le> ?r" "roundup ?r (ioalign io) = ?r"
      using roundup_bounds(1-3) [OF al(2,1)] assms(2) True by (auto split: if_splits)
    obtain b io1 where io1: "mg_iobuf_resize calloc io ?r = Some (b, io1)" "content io1 = content io" "iobuf_ok io1"
      "ioalign io1 = ioalign io" "iolen io1 = iolen io" "b \<longleftrightarrow> iosize io1 = ?r" "calloc ?r \<longrightarrow> b"
      using resize_grow [OF assms(1), of ?r calloc] r nz by auto
    have "iolen io \<le> length (iobuf io1)" using io1(3,5) by (simp add: iobuf_ok_def iosize_def)
    moreover have "b" using io1(7) assms(3) by blast
    ultimately have "mg_iobuf_add calloc io (iolen io) (Some d) (length d) = Some (0, io1)"
      unfolding mg_iobuf_add_def Let_def using True io1(1,5,6) t
      by (cases io1) (simp add: memcpy_into_def put_slice_def)
    with True io1 show ?thesis by auto
  qed
next
  case False
  then obtain n io' where io': "mg_iobuf_add calloc io (iolen io) (Some d) (length d) = Some (n, io')" "iobuf_ok io'"
    "ioalign io' = ioalign io" "n = length d" "content io' = content io @ d"
    using iobuf_add [OF assms(1) order_refl _ assms(2), of calloc] assms(3) length_content [OF assms(1)] by auto
  have "length (content io') = iolen io'" by (rule length_content [OF io'(2)])
  with io' length_content [OF assms(1)] show ?thesis by auto
qed

text \<open>Deleting a range.\<close>

lemma iobuf_del:
  assumes ok: "iobuf_ok io" and n: "ofs < 2 ^ 62" "n < 2 ^ 62"
  shows "\<exists>k io'. mg_iobuf_del io ofs n = Some (k, io') \<and> iobuf_ok io' \<and> ioalign io' = ioalign io \<and>
    iosize io' = iosize io \<and> k = min n (iolen io - ofs) \<and>
    content io' = take ofs (content io) @ drop (ofs + n) (content io)"
proof -
  have add: "size_add ofs n = ofs + n" "size_add (iolen io) n = iolen io + n" if "iolen io < 2 ^ 62"
    using n that by (simp_all add: SIZE_MAX_def)
  have l62: "iolen io < 2 ^ 62" and le: "iolen io \<le> length (iobuf io)" using ok by (auto simp: iobuf_ok_def iosize_def)
  define o' where "o' = min ofs (iolen io)"
  define k where "k = min n (iolen io - o')"
  have ko: "o' + k \<le> iolen io" by (simp add: o'_def k_def)
  have o1: "(if ofs > iolen io then iolen io else ofs) = o'" by (simp add: o'_def)
  have "size_add o' n = o' + n" using n l62 by (simp add: o'_def SIZE_MAX_def)
  then have k1: "(if size_add o' n > iolen io then iolen io - o' else n) = k" by (auto simp: k_def)
  show ?thesis
  proof (cases "iobuf io = []")
    case True
    then have "iolen io = 0" using le by simp
    moreover from this have "o' = 0" "k = 0" by (simp_all add: o'_def k_def)
    ultimately have "mg_iobuf_del io ofs n = Some (0, io)"
      unfolding mg_iobuf_del_def Let_def o1 k1 using True by (cases io) simp
    with True ok \<open>iolen io = 0\<close> show ?thesis by (simp add: content_def)
  next
    case False
    let ?s = "slice (iobuf io) (o' + k) (iolen io)"
    have ls: "length ?s = iolen io - (o' + k)" using le by (simp add: length_slice)
    let ?b1 = "put_slice (iobuf io) o' ?s"
    have m1: "memcpy_into (iobuf io) o' ?s = Some ?b1" using ls le ko by (simp add: memcpy_into_def)
    have lb1: "length ?b1 = length (iobuf io)" using ls le ko by (simp add: length_put_slice)
    let ?b2 = "put_slice ?b1 (iolen io - k) (replicate k 0)"
    have m2: "memcpy_into ?b1 (iolen io - k) (replicate k 0) = Some ?b2" using lb1 le ko by (simp add: memcpy_into_def)
    have del: "mg_iobuf_del io ofs n = Some (k, io\<lparr>iobuf := ?b2, iolen := iolen io - k\<rparr>)"
      unfolding mg_iobuf_del_def Let_def o1 k1 using False m1 m2 by simp
    have "take (iolen io - k) ?b2 = take (iolen io - k) ?b1" using lb1 le by (intro take_put_slice) simp
    also have "\<dots> = take o' (iobuf io) @ ?s" using le ko ls by (simp add: put_slice_def)
    also have "\<dots> = take ofs (content io) @ drop (ofs + n) (content io)"
    proof (cases "ofs + n \<le> iolen io")
      case True
      then have "o' = ofs" "k = n" by (auto simp: o'_def k_def)
      with True show ?thesis by (simp add: content_def slice_def drop_take)
    next
      case False
      then have "o' + k = iolen io" "take ofs (content io) = take o' (iobuf io)"
        by (auto simp: o'_def k_def content_def min_def)
      with False le show ?thesis by (simp add: content_def)
    qed
    finally have c: "content (io\<lparr>iobuf := ?b2, iolen := iolen io - k\<rparr>) = take ofs (content io) @ drop (ofs + n) (content io)"
      by (simp add: content_def)
    have lb2: "length ?b2 = length (iobuf io)" using lb1 le ko by (subst length_put_slice) auto
    have k: "k = min n (iolen io - ofs)" by (auto simp: k_def o'_def)
    define io' where "io' = io\<lparr>iobuf := ?b2, iolen := iolen io - k\<rparr>"
    have "iobuf_ok io'" "iosize io' = iosize io" "ioalign io' = ioalign io"
      using ok lb2 le by (auto simp: io'_def iobuf_ok_def iosize_def)
    with del c k show ?thesis unfolding io'_def [symmetric] by blast
  qed
qed

section \<open>Properties\<close>

text \<open>
  C28. The buffer operations are the byte-string operations on what the buffer holds: adding
  inserts the bytes at the offset, or leaves the string alone when the allocation fails, and
  deleting removes exactly the part of the range that exists. No copy leaves the allocated
  area, whatever the alignment.
\<close>

theorem iobuf_is_string:
  assumes "iobuf_ok io" and "ofs \<le> iolen io" and "0 < length d" and "iolen io + length d + ioalign io < 2 ^ 62"
    and "n < 2 ^ 62"
  shows "(\<exists>k io'. mg_iobuf_add calloc io ofs (Some d) (length d) = Some (k, io') \<and> iobuf_ok io' \<and>
      (k = length d \<and> content io' = take ofs (content io) @ d @ drop ofs (content io) \<or>
       k = 0 \<and> content io' = content io \<and> \<not> calloc (roundup (iolen io + length d) (ioalign io))))
    \<and> (\<exists>k io'. mg_iobuf_del io ofs n = Some (k, io') \<and> iobuf_ok io' \<and> k = min n (iolen io - ofs) \<and>
      content io' = take ofs (content io) @ drop (ofs + n) (content io))"
proof
  show "\<exists>k io'. mg_iobuf_add calloc io ofs (Some d) (length d) = Some (k, io') \<and> iobuf_ok io' \<and>
      (k = length d \<and> content io' = take ofs (content io) @ d @ drop ofs (content io) \<or>
       k = 0 \<and> content io' = content io \<and> \<not> calloc (roundup (iolen io + length d) (ioalign io)))"
    using iobuf_add [OF assms(1-4), of calloc] by blast
  have "ofs < 2 ^ 62" using assms(1,2) by (simp add: iobuf_ok_def)
  from iobuf_del [OF assms(1) this assms(5)]
  show "\<exists>k io'. mg_iobuf_del io ofs n = Some (k, io') \<and> iobuf_ok io' \<and> k = min n (iolen io - ofs) \<and>
      content io' = take ofs (content io) @ drop (ofs + n) (content io)" by blast
qed

theorem iobuf_is_string_witness:
  "\<exists>k io'. mg_iobuf_add (\<lambda>n. True) \<lparr>iobuf = [1, 2, 3, 0], iolen = 3, ioalign = 4\<rparr> 1 (Some [7, 8]) (length [7, 8 :: u8]) =
     Some (k, io') \<and> content io' = [1, 7, 8, 2, 3]"
proof -
  let ?io = "\<lparr>iobuf = [1, 2, 3, 0], iolen = 3, ioalign = 4\<rparr>"
  have c: "iobuf_ok ?io" "take 1 (content ?io) @ [7, 8] @ drop 1 (content ?io) = [1, 7, 8, 2, 3]"
    by (simp_all add: iobuf_ok_def iosize_def content_def)
  have "1 \<le> iolen ?io" "0 < length [7, 8 :: u8]" "iolen ?io + length [7, 8 :: u8] + ioalign ?io < 2 ^ 62" "(1 :: nat) < 2 ^ 62"
    by simp_all
  from iobuf_is_string [OF c(1) this, of "\<lambda>n. True"] show ?thesis unfolding c(2) by blast
qed

text \<open>
  \<open>mg_iobuf_resize\<close> to a nonzero size below the number of bytes held does not reduce
  \<open>len\<close>: the buffer then claims more bytes than it has allocated, and a copy out of it (here a
  deletion) runs past the allocation.
\<close>

theorem resize_below_length_breaks_buffer:
  "let io = \<lparr>iobuf = [1, 2, 3, 4], iolen = 4, ioalign = 0\<rparr> in iobuf_ok io \<and>
    (case mg_iobuf_resize (\<lambda>n. True) io 2 of
       Some (ok, io') \<Rightarrow> ok \<and> iolen io' = 4 \<and> iosize io' = 2 \<and> mg_iobuf_del io' 0 1 = None
     | None \<Rightarrow> False)"
  by code_simp

end
