(* ===== verification/Rpc.thy ===== *)
theory Rpc
  imports Prelude WsFrame Iobuf Hose MemRegions MemMonitor
begin

text \<open>
  The RPC server of \<open>program/serve.cpp\<close> (\<open>mongoose_server::handle_rpc_packet\<close>): one binary
  WebSocket message is one request; the reply is appended to the send buffer of the connection,
  through \<open>mg_ws_send\<close>, or, for memory reads, built in place in the buffer. Every error is
  answered with a text message and closes the connection (\<open>is_draining\<close>).
\<close>

section \<open>Requests\<close>

definition RPC_REQ_READ :: u8 where "RPC_REQ_READ = 1"
definition RPC_REQ_WRITE :: u8 where "RPC_REQ_WRITE = 2"
definition RPC_REQ_GET_STATS :: u8 where "RPC_REQ_GET_STATS = 3"
definition RPC_REQ_SET_FLAGS :: u8 where "RPC_REQ_SET_FLAGS = 4"
definition RPC_REQ_SET_MONITOR_CONFIG :: u8 where "RPC_REQ_SET_MONITOR_CONFIG = 5"

lemmas req_defs = RPC_REQ_READ_def RPC_REQ_WRITE_def RPC_REQ_GET_STATS_def RPC_REQ_SET_FLAGS_def
  RPC_REQ_SET_MONITOR_CONFIG_def

text \<open>\<open>offsetof_end\<close> of the members of the packed \<open>struct rpc_req\<close>.\<close>

definition TYPE_END :: nat where "TYPE_END = 1"
definition READ_END :: nat where "READ_END = 17"
definition WRITE_END :: nat where "WRITE_END = 9"
definition GET_STATS_END :: nat where "GET_STATS_END = 1"
definition SET_FLAGS_END :: nat where "SET_FLAGS_END = 17"

lemmas end_defs = TYPE_END_def READ_END_def WRITE_END_def GET_STATS_END_def SET_FLAGS_END_def

definition RPC_FLAG_BACKPRESSURE :: u64 where "RPC_FLAG_BACKPRESSURE = 1"
definition RPC_FLAG_SEND_ALL_COLLS :: u64 where "RPC_FLAG_SEND_ALL_COLLS = 2"
definition RPC_FLAG_SEND_BG_EVENTS :: u64 where "RPC_FLAG_SEND_BG_EVENTS = 4"
definition RPC_FLAG_PAUSE :: u64 where "RPC_FLAG_PAUSE = 8"
definition RPC_FLAG_SEND_COLL_STUFF :: u64 where "RPC_FLAG_SEND_COLL_STUFF = 0x10"

text \<open>
  The request packet lies in memory at \<open>packet_at\<close>, the send buffer at \<open>send_at\<close>: the addresses
  that \<open>safe_memcpy\<close> is given for the side that is not checked.
\<close>

record rpc_env =
  alloc_ok :: "nat \<Rightarrow> bool"
  query_memory :: "nat \<Rightarrow> MemoryInfo option"
  loop_fuel :: nat
  packet_at :: nat
  send_at :: nat

record rpc_server =
  send :: mg_iobuf
  is_draining :: bool
  memory :: "nat \<Rightarrow> u8"
  monitor :: mem_monitor
  g_cur_rpc_flags :: u64
  s_hose :: hose
  backpressured_nsec :: u64

section \<open>Replies\<close>

definition mg_ws_send :: "(nat \<Rightarrow> bool) \<Rightarrow> mg_iobuf \<Rightarrow> bytes \<Rightarrow> nat \<Rightarrow> mg_iobuf option" where
  "mg_ws_send calloc io payload op = do {
     io1 \<leftarrow> mg_send calloc io (mkhdr (length payload) op False []);
     mg_send calloc io1 payload
   }"

definition reply :: "rpc_env \<Rightarrow> rpc_server \<Rightarrow> bytes \<Rightarrow> rpc_server option" where
  "reply env c payload =
     map_option (\<lambda>io. c\<lparr>send := io\<rparr>) (mg_ws_send (alloc_ok env) (send c) payload WEBSOCKET_OP_BINARY)"

text \<open>The code after the label \<open>err\<close>.\<close>

definition reply_error :: "rpc_env \<Rightarrow> rpc_server \<Rightarrow> string \<Rightarrow> rpc_server option" where
  "reply_error env c err =
     map_option (\<lambda>io. c\<lparr>send := io, is_draining := True\<rparr>)
       (mg_ws_send (alloc_ok env) (send c) (ascii err) WEBSOCKET_OP_TEXT)"

section \<open>The requests\<close>

definition read_limit :: nat where "read_limit = 65536"

text \<open>The reply to a read, built in place once the size is known to fit.\<close>

definition build_read_reply :: "rpc_env \<Rightarrow> rpc_server \<Rightarrow> mg_iobuf \<Rightarrow> nat \<Rightarrow> nat \<Rightarrow> rpc_server option" where
  "build_read_reply env c io at_addr read_len = do {
     let header = iolen io;
     let header_len = size_sub (add_ws_header_size read_len) read_len;
     let expected_body = header + header_len;
     let dst = send_at env + expected_body;
     (mem1, cached, actual) \<leftarrow>
       safe_memcpy (loop_fuel env) (query_memory env) (regions (monitor c)) (memory c) dst False at_addr True read_len;
     b1 \<leftarrow> memcpy_into (iobuf io) expected_body (read_mem mem1 dst actual);
     b2 \<leftarrow> memcpy_into b1 header (fill_ws_header actual);
     let actual_body = header + length (fill_ws_header actual);
     b3 \<leftarrow> (if actual_body \<noteq> expected_body then
              (if actual_body < expected_body
               then memcpy_into b2 actual_body (slice b2 expected_body (expected_body + actual)) else None)
            else Some b2);
     Some (c\<lparr>send := io\<lparr>iobuf := b3, iolen := actual_body + actual\<rparr>, monitor := (monitor c)\<lparr>regions := cached\<rparr>\<rparr>)
   }"

definition handle_read :: "rpc_env \<Rightarrow> rpc_server \<Rightarrow> bytes \<Rightarrow> rpc_server option" where
  "handle_read env c pkt =
     (if length pkt \<noteq> READ_END then reply_error env c ''wrong len for read''
      else do {
        let at_addr = u64_at pkt 1;
        let read_len = u64_at pkt 9;
        (ok, io) \<leftarrow> (if iosize (send c) < read_limit then mg_iobuf_resize (alloc_ok env) (send c) read_limit
                     else Some (True, send c));
        let c1 = c\<lparr>send := io\<rparr>;
        if \<not> ok then reply_error env c1 ''mg_iobuf_resize failed''
        else if add_ws_header_size read_len > size_sub (iosize io) (iolen io)
        then reply_error env c1 ''i'm overstuffed''
        else build_read_reply env c1 io at_addr read_len
      })"

definition overlay :: "(nat \<Rightarrow> u8) \<Rightarrow> nat \<Rightarrow> bytes \<Rightarrow> (nat \<Rightarrow> u8)" where
  "overlay mem a d = (\<lambda>x. if a \<le> x \<and> x < a + length d then d ! (x - a) else mem x)"

definition handle_write :: "rpc_env \<Rightarrow> rpc_server \<Rightarrow> bytes \<Rightarrow> rpc_server option" where
  "handle_write env c pkt =
     (if length pkt < WRITE_END then reply_error env c ''too short for write''
      else do {
        let at_addr = u64_at pkt 1;
        let write_len = length pkt - WRITE_END;
        (mem1, cached, actual) \<leftarrow>
          safe_memcpy (loop_fuel env) (query_memory env) (regions (monitor c)) (overlay (memory c) (packet_at env) pkt)
            at_addr True (packet_at env + WRITE_END) False write_len;
        reply env (c\<lparr>memory := mem1, monitor := (monitor c)\<lparr>regions := cached\<rparr>\<rparr>) (le_bytes 8 actual)
      })"

definition handle_get_stats :: "rpc_env \<Rightarrow> rpc_server \<Rightarrow> bytes \<Rightarrow> rpc_server option" where
  "handle_get_stats env c pkt =
     (if length pkt \<noteq> GET_STATS_END then reply_error env c ''wrong len for get_stats''
      else
        (let h = s_hose c in
         reply env (c\<lparr>s_hose := h\<lparr>total_overrun_bytes := 0, total_written_bytes := 0\<rparr>, backpressured_nsec := 0\<rparr>)
           (le_bytes 8 (unat (total_overrun_bytes h)) @ le_bytes 8 (unat (total_written_bytes h)) @
            le_bytes 8 (unat (backpressured_nsec c)))))"

definition handle_set_flags :: "rpc_env \<Rightarrow> rpc_server \<Rightarrow> bytes \<Rightarrow> rpc_server option" where
  "handle_set_flags env c pkt =
     (if length pkt \<noteq> SET_FLAGS_END then reply_error env c ''wrong len for set_flags''
      else
        (let clear = word_of_nat (u64_at pkt 1) :: u64;
             set = word_of_nat (u64_at pkt 9) :: u64;
             new_flags = (g_cur_rpc_flags c AND NOT clear) OR set in
         reply env (c\<lparr>g_cur_rpc_flags := new_flags,
             s_hose := set_enable_backpressure (s_hose c) (new_flags AND RPC_FLAG_BACKPRESSURE \<noteq> 0)\<rparr>)
           (le_bytes 8 (unat new_flags))))"

definition handle_set_monitor_config :: "rpc_env \<Rightarrow> rpc_server \<Rightarrow> bytes \<Rightarrow> rpc_server option" where
  "handle_set_monitor_config env c pkt = do {
     (err, m) \<leftarrow> set_config (loop_fuel env) (query_memory env) (monitor c) (drop TYPE_END pkt);
     (case err of
        Some e \<Rightarrow> reply_error env (c\<lparr>monitor := m\<rparr>) e
      | None \<Rightarrow> reply env (c\<lparr>monitor := m\<rparr>) [])
   }"

definition handle_rpc_packet :: "rpc_env \<Rightarrow> rpc_server \<Rightarrow> bytes \<Rightarrow> rpc_server option" where
  "handle_rpc_packet env c pkt =
     (if length pkt < TYPE_END then reply_error env c ''too short for type''
      else if pkt ! 0 = RPC_REQ_READ then handle_read env c pkt
      else if pkt ! 0 = RPC_REQ_WRITE then handle_write env c pkt
      else if pkt ! 0 = RPC_REQ_GET_STATS then handle_get_stats env c pkt
      else if pkt ! 0 = RPC_REQ_SET_FLAGS then handle_set_flags env c pkt
      else if pkt ! 0 = RPC_REQ_SET_MONITOR_CONFIG then handle_set_monitor_config env c pkt
      else reply_error env c ''unknown req type'')"

section \<open>Every reply is one frame\<close>

text \<open>
  What is assumed of the surroundings: allocations succeed, the kernel answers memory queries as
  documented, and the buffers do not overlap the memory that is read or written.
\<close>

definition env_ok :: "rpc_env \<Rightarrow> bool" where
  "env_ok env \<longleftrightarrow> (\<forall>n. alloc_ok env n) \<and> answers_blocks (query_memory env) \<and>
     (\<forall>p. \<not> mapped_with (query_memory env) 0 p) \<and> 2 ^ 64 \<le> loop_fuel env"

definition server_ok :: "rpc_env \<Rightarrow> rpc_server \<Rightarrow> bool" where
  "server_ok env c \<longleftrightarrow> iobuf_ok (send c) \<and> ioalign (send c) < 2 ^ 59 \<and>
     iosize (send c) < 2 ^ 60 \<and> cache_good (query_memory env) (regions (monitor c)) \<and>
     length (configs (monitor c)) = 3"

definition appends_frame :: "rpc_server \<Rightarrow> rpc_server \<Rightarrow> nat \<Rightarrow> bytes \<Rightarrow> bool" where
  "appends_frame c c' op payload \<longleftrightarrow>
     content (send c') = content (send c) @ mg_ws_frame False [] op payload \<and> iobuf_ok (send c')"

lemma mg_ws_send_ok:
  assumes "iobuf_ok io" and "iolen io + ioalign io < 2 ^ 61" and "length d < 2 ^ 32" and "\<And>n. calloc n"
  shows "\<exists>io'. mg_ws_send calloc io d op = Some io' \<and> iobuf_ok io' \<and>
     content io' = content io @ mg_ws_frame False [] op d"
proof -
  let ?h = "mkhdr (length d) op False []"
  have lh: "length ?h \<le> 10" by (simp add: length_mkhdr)
  obtain io1 where io1: "mg_send calloc io ?h = Some io1" "iobuf_ok io1" "ioalign io1 = ioalign io"
    "content io1 = content io @ ?h" "iolen io1 = iolen io + length ?h"
    using iobuf_append [OF assms(1), of ?h calloc] assms(2,4) lh by (auto simp: mg_send_def)
  obtain io2 where "mg_send calloc io1 d = Some io2" "iobuf_ok io2" "content io2 = content io1 @ d"
    using iobuf_append [OF io1(2), of d calloc] assms(2-4) lh io1(3,5) by (auto simp: mg_send_def)
  with io1 show ?thesis by (simp add: mg_ws_send_def mg_ws_frame_def)
qed

lemma reply_ok:
  assumes "env_ok env" and "iobuf_ok (send c)" and "iolen (send c) + ioalign (send c) < 2 ^ 61" and "length d < 2 ^ 32"
  shows "\<exists>c'. reply env c d = Some c' \<and> appends_frame c c' WEBSOCKET_OP_BINARY d \<and> is_draining c' = is_draining c \<and>
     memory c' = memory c \<and> monitor c' = monitor c \<and> g_cur_rpc_flags c' = g_cur_rpc_flags c"
  using mg_ws_send_ok [OF assms(2-4), of "alloc_ok env" WEBSOCKET_OP_BINARY] assms(1)
  by (auto simp: reply_def appends_frame_def env_ok_def)

lemma reply_error_ok:
  assumes "env_ok env" and "iobuf_ok (send c)" and "iolen (send c) + ioalign (send c) < 2 ^ 61" and "length err < 2 ^ 32"
  shows "\<exists>c'. reply_error env c err = Some c' \<and> appends_frame c c' WEBSOCKET_OP_TEXT (ascii err) \<and> is_draining c'"
  using mg_ws_send_ok [OF assms(2,3), of "ascii err" "alloc_ok env" WEBSOCKET_OP_TEXT] assms(1,4)
  by (auto simp: reply_error_def appends_frame_def env_ok_def)

lemma take_three_slices:
  "take (a + b + c) xs = take a xs @ slice xs a (a + b) @ slice xs (a + b) (a + b + c)"
  by (simp add: slice_def take_add)

lemma read_mem_memcpy: "read_mem (memcpy mem dst src k) dst k = read_mem mem src k"
  by (simp add: read_mem_def memcpy_def)

lemma length_read_mem [simp]: "length (read_mem mem a n) = n"
  by (simp add: read_mem_def)

lemma fill_ws_header_mono: "k \<le> n \<Longrightarrow> length (fill_ws_header k) \<le> length (fill_ws_header n)"
  by (simp add: length_fill_ws_header)

text \<open>A body written at its expected place, the header in front of it, and the move that closes the gap.\<close>

lemma place_frame:
  assumes len: "L + H + n \<le> length b" and h: "length hdr \<le> H" and k: "length body \<le> n"
  defines "b2 \<equiv> put_slice (put_slice b (L + H) body) L hdr"
  defines "b3 \<equiv> (if length hdr \<noteq> H then put_slice b2 (L + length hdr) (slice b2 (L + H) (L + H + length body)) else b2)"
  shows "take (L + length hdr + length body) b3 = take L b @ hdr @ body" and "length b3 = length b"
    and "memcpy_into b (L + H) body = Some (put_slice b (L + H) body)"
    and "memcpy_into (put_slice b (L + H) body) L hdr = Some b2"
    and "memcpy_into b2 (L + length hdr) (slice b2 (L + H) (L + H + length body)) =
           Some (put_slice b2 (L + length hdr) (slice b2 (L + H) (L + H + length body)))"
proof -
  let ?b1 = "put_slice b (L + H) body"
  have f1: "L + H + length body \<le> length b" using len k by simp
  have l1: "length ?b1 = length b" using f1 by (rule length_put_slice)
  have f2: "L + length hdr \<le> length ?b1" using l1 f1 h by simp
  have l2: "length b2 = length b" unfolding b2_def using length_put_slice [OF f2] l1 by simp
  have body: "slice b2 (L + H) (L + H + length body) = body"
    unfolding b2_def using h by (subst slice_put_slice_other [OF f2]) (auto simp: slice_put_slice_same [OF f1])
  have hdr2: "slice b2 L (L + length hdr) = hdr" unfolding b2_def by (rule slice_put_slice_same [OF f2])
  have pre2: "take L b2 = take L b"
    unfolding b2_def using f1 l1 by (simp add: take_put_slice) (simp add: put_slice_def min_def)
  have f3: "L + length hdr + length body \<le> length b2" using l2 f1 h by simp
  show "length b3 = length b" unfolding b3_def body using length_put_slice [OF f3] l2 by simp
  show "memcpy_into b (L + H) body = Some ?b1" using f1 by (simp add: memcpy_into_def)
  show "memcpy_into ?b1 L hdr = Some b2" using f2 by (simp add: memcpy_into_def b2_def)
  show "memcpy_into b2 (L + length hdr) (slice b2 (L + H) (L + H + length body)) =
      Some (put_slice b2 (L + length hdr) (slice b2 (L + H) (L + H + length body)))"
    unfolding body using f3 by (simp add: memcpy_into_def)
  show "take (L + length hdr + length body) b3 = take L b @ hdr @ body"
  proof (cases "length hdr = H")
    case True
    then show ?thesis unfolding take_three_slices b3_def using pre2 hdr2 body by simp
  next
    case False
    let ?b3 = "put_slice b2 (L + length hdr) body"
    have "take L ?b3 = take L b2" using f3 by (simp add: put_slice_def min_def)
    moreover have "slice ?b3 L (L + length hdr) = hdr" using slice_put_slice_other [OF f3] hdr2 by simp
    moreover have "slice ?b3 (L + length hdr) (L + length hdr + length body) = body" by (rule slice_put_slice_same [OF f3])
    ultimately show ?thesis unfolding take_three_slices b3_def body using False pre2 by simp
  qed
qed

text \<open>The range read does not meet the window the send buffer lies in.\<close>

definition read_disjoint :: "rpc_env \<Rightarrow> nat \<Rightarrow> nat \<Rightarrow> bool" where
  "read_disjoint env a n \<longleftrightarrow> a + n \<le> 2 ^ 64 \<and> send_at env + 2 ^ 61 \<le> 2 ^ 64 \<and>
     {a..<a + n} \<inter> {send_at env..<send_at env + 2 ^ 61} = {}"

lemma build_read_reply_ok:
  assumes env: "env_ok env" and io: "iobuf_ok io" "iosize io < 2 ^ 60"
    and good: "cache_good (query_memory env) (regions (monitor c))"
    and fits: "add_ws_header_size n \<le> iosize io - iolen io" and dis: "read_disjoint env a n"
  shows "\<exists>c' k. build_read_reply env c io a n = Some c' \<and> k \<le> n \<and> iobuf_ok (send c') \<and>
     content (send c') = content io @ mg_ws_frame False [] WEBSOCKET_OP_BINARY (read_mem (memory c) a k) \<and>
     (\<forall>i < k. accessible (query_memory env) False (a + i)) \<and> is_draining c' = is_draining c"
proof -
  let ?L = "iolen io" and ?H = "length (fill_ws_header n)"
  have s60: "iosize io < 2 ^ 60" and le: "?L \<le> iosize io" using io by (auto simp: iobuf_ok_def)
  have full: "add_ws_header_size n = ?H + n"
  proof -
    have "add_ws_header_size n < 2 ^ 60" using fits s60 by simp
    then show ?thesis
      by (auto simp: add_ws_header_size_def length_fill_ws_header SIZE_MAX_def split: if_splits)
  qed
  have len: "?L + ?H + n \<le> length (iobuf io)" using fits le full by (simp add: iosize_def)
  have hl: "size_sub (add_ws_header_size n) n = ?H" using full fits s60 by (simp add: SIZE_MAX_def)
  define dst where "dst = send_at env + (?L + ?H)"
  have dst: "dst + n \<le> send_at env + 2 ^ 61" "send_at env \<le> dst" using len s60 by (auto simp: dst_def iosize_def)
  have r: "a + n \<le> 2 ^ 64" "dst + n \<le> 2 ^ 64" "{dst..<dst + n} \<inter> {a..<a + n} = {}"
    using dis dst unfolding read_disjoint_def by (linarith, linarith, fastforce)
  have ok: "answers_blocks (query_memory env)" "\<And>p. \<not> mapped_with (query_memory env) 0 p" "2 ^ 64 \<le> loop_fuel env"
    using env by (auto simp: env_ok_def)
  obtain left cached where loop: "safe_memcpy_loop (loop_fuel env) (query_memory env) False True (regions (monitor c)) (memory c) dst a n =
      Some (memcpy (memory c) dst a (n - left), cached, left)" "left \<le> n"
      "\<forall>i < n - left. accessible (query_memory env) False (a + i)"
    using safe_memcpy_loop_sound [OF ok, of False True "regions (monitor c)" a n dst "memory c"] good r by auto
  define k where "k = n - left"
  have sm: "safe_memcpy (loop_fuel env) (query_memory env) (regions (monitor c)) (memory c) dst False a True n =
      Some (memcpy (memory c) dst a k, cached, k)"
    using loop(1) by (simp add: safe_memcpy_def k_def)
  have kn: "k \<le> n" by (simp add: k_def)
  let ?body = "read_mem (memory c) a k" and ?hdr = "fill_ws_header k"
  have lb: "length ?body = k" by simp
  note pf = place_frame [OF len fill_ws_header_mono [OF kn], of ?body, unfolded lb, OF kn]
  let ?b2 = "put_slice (put_slice (iobuf io) (?L + ?H) ?body) ?L ?hdr"
  let ?b3 = "if length ?hdr \<noteq> ?H then put_slice ?b2 (?L + length ?hdr) (slice ?b2 (?L + ?H) (?L + ?H + k)) else ?b2"
  let ?c = "c\<lparr>send := io\<lparr>iobuf := ?b3, iolen := ?L + length ?hdr + k\<rparr>, monitor := (monitor c)\<lparr>regions := cached\<rparr>\<rparr>"
  have lt: "length ?hdr \<noteq> ?H \<Longrightarrow> length ?hdr < ?H" using fill_ws_header_mono [OF kn] by simp
  have run: "build_read_reply env c io a n = Some ?c"
  proof (cases "length ?hdr = ?H")
    case True
    then show ?thesis using pf(3,4) sm
      by (simp add: build_read_reply_def Let_def hl read_mem_memcpy flip: dst_def)
  next
    case False
    then show ?thesis using pf(3-5) sm lt
      by (simp add: build_read_reply_def Let_def hl read_mem_memcpy flip: dst_def)
  qed
  have "content (send ?c) = content io @ ?hdr @ ?body"
    using pf(1) by (simp add: content_def)
  also have "?hdr @ ?body = mg_ws_frame False [] WEBSOCKET_OP_BINARY ?body"
    using fill_ws_header_mkhdr [of k "[]"] by (simp add: mg_ws_frame_def)
  finally have c: "content (send ?c) = content io @ mg_ws_frame False [] WEBSOCKET_OP_BINARY ?body" .
  have "iobuf_ok (send ?c)"
    using io len kn fill_ws_header_mono [OF kn] pf(2) by (simp add: iobuf_ok_def iosize_def)
  with run c kn loop(3) show ?thesis unfolding k_def [symmetric] by (intro exI [of _ ?c] exI [of _ k]) simp
qed


text \<open>
  The addresses a request names: a read does not wrap and does not meet the send buffer, unless
  it is too long to be tried at all; a write does not wrap and does not meet the packet.
\<close>

definition request_ok :: "rpc_env \<Rightarrow> bytes \<Rightarrow> bool" where
  "request_ok env pkt \<longleftrightarrow>
     (if pkt \<noteq> [] \<and> pkt ! 0 = RPC_REQ_READ \<and> u64_at pkt 9 < 2 ^ 60 then read_disjoint env (u64_at pkt 1) (u64_at pkt 9)
      else if pkt \<noteq> [] \<and> pkt ! 0 = RPC_REQ_WRITE
      then u64_at pkt 1 + (length pkt - WRITE_END) \<le> 2 ^ 64 \<and> packet_at env + length pkt \<le> 2 ^ 64 \<and>
        {u64_at pkt 1..<u64_at pkt 1 + (length pkt - WRITE_END)} \<inter> {packet_at env..<packet_at env + length pkt} = {}
      else True)"

lemma server_send:
  assumes "server_ok env c"
  shows "iobuf_ok (send c)" and "iolen (send c) + ioalign (send c) < 2 ^ 61"
  using assms by (auto simp: server_ok_def iobuf_ok_def)

lemma reply_any:
  assumes "env_ok env" and "server_ok env c0" and "send c = send c0" and "length d < 2 ^ 32"
  shows "\<exists>c'. reply env c d = Some c' \<and> appends_frame c0 c' WEBSOCKET_OP_BINARY d \<and> is_draining c' = is_draining c \<and>
     memory c' = memory c \<and> monitor c' = monitor c \<and> g_cur_rpc_flags c' = g_cur_rpc_flags c"
  using reply_ok [OF assms(1) _ _ assms(4), of c] server_send [OF assms(2)] assms(3) by (auto simp: appends_frame_def)

lemma reply_error_any:
  assumes "env_ok env" and "server_ok env c0" and "content (send c) = content (send c0)" and "iobuf_ok (send c)"
    and "iolen (send c) + ioalign (send c) < 2 ^ 61" and "length err < 2 ^ 32"
  shows "\<exists>c'. reply_error env c err = Some c' \<and> appends_frame c0 c' WEBSOCKET_OP_TEXT (ascii err) \<and> is_draining c'"
  using reply_error_ok [OF assms(1,4-6)] assms(3) by (auto simp: appends_frame_def)




text \<open>A read that fits: the frame that is appended carries the accessible prefix of the range.\<close>

lemma handle_read_ok:
  assumes env: "env_ok env" and c: "server_ok env c" and len: "length pkt = READ_END"
    and dis: "u64_at pkt 9 < 2 ^ 60 \<Longrightarrow> read_disjoint env (u64_at pkt 1) (u64_at pkt 9)"
  defines "a \<equiv> u64_at pkt 1" and "n \<equiv> u64_at pkt 9"
  shows "\<exists>c'. handle_read env c pkt = Some c' \<and>
     (appends_frame c c' WEBSOCKET_OP_TEXT (ascii ''i'm overstuffed'') \<and> is_draining c' \<or>
      (\<exists>k \<le> n. appends_frame c c' WEBSOCKET_OP_BINARY (read_mem (memory c) a k) \<and>
        (\<forall>i < k. accessible (query_memory env) False (a + i)) \<and> is_draining c' = is_draining c))"
proof -
  have s: "iobuf_ok (send c)" "ioalign (send c) < 2 ^ 59" "iosize (send c) < 2 ^ 60"
    and good: "cache_good (query_memory env) (regions (monitor c))"
    using c by (auto simp: server_ok_def)
  have "\<exists>io. (if iosize (send c) < read_limit then mg_iobuf_resize (alloc_ok env) (send c) read_limit
      else Some (True, send c)) = Some (True, io) \<and> iobuf_ok io \<and> iosize io < 2 ^ 60 \<and> content io = content (send c) \<and>
      iolen io + ioalign io < 2 ^ 61"
  proof (cases "iosize (send c) < read_limit")
    case True
    have r: "roundup read_limit (ioalign (send c)) < 2 ^ 60"
      using roundup_bounds(2) [of read_limit "ioalign (send c)"] s(2) by (simp add: read_limit_def split: if_splits)
    have le: "iolen (send c) \<le> read_limit" using True s(1) by (simp add: iobuf_ok_def)
    obtain b io where "mg_iobuf_resize (alloc_ok env) (send c) read_limit = Some (b, io)" "content io = content (send c)"
      "iobuf_ok io" "ioalign io = ioalign (send c)" "b \<longleftrightarrow> iosize io = roundup read_limit (ioalign (send c))" "b"
      using resize_grow [OF s(1) le, of "alloc_ok env"] r env by (auto simp: read_limit_def env_ok_def)
    then show ?thesis using True r s(2) by (auto simp: iobuf_ok_def)
  next
    case False
    then show ?thesis using s server_send [OF c] by simp
  qed
  then obtain io where io: "(if iosize (send c) < read_limit then mg_iobuf_resize (alloc_ok env) (send c) read_limit
      else Some (True, send c)) = Some (True, io)" "iobuf_ok io" "iosize io < 2 ^ 60" "content io = content (send c)"
      "iolen io + ioalign io < 2 ^ 61" by blast
  have sub: "size_sub (iosize io) (iolen io) = iosize io - iolen io"
    using io(2,3) by (intro size_sub_eq) (auto simp: iobuf_ok_def SIZE_MAX_def)
  show ?thesis
  proof (cases "add_ws_header_size n > iosize io - iolen io")
    case True
    then have "handle_read env c pkt = reply_error env (c\<lparr>send := io\<rparr>) ''i'm overstuffed''"
      using len io(1) sub by (simp add: handle_read_def Let_def a_def n_def)
    with reply_error_any [OF env c, of "c\<lparr>send := io\<rparr>" "''i'm overstuffed''"] io(2,4,5) show ?thesis by auto
  next
    case False
    have "n < 2 ^ 60"
    proof -
      have "add_ws_header_size n < 2 ^ 60" using False io(3) by simp
      moreover have "n \<le> add_ws_header_size n" if "n \<le> SIZE_MAX" using that by (auto simp: add_ws_header_size_def)
      moreover have "n \<le> SIZE_MAX" using u64_at_less [of pkt 9] by (simp add: n_def SIZE_MAX_def)
      ultimately show ?thesis by simp
    qed
    then have d: "read_disjoint env a n" using dis by (simp add: a_def n_def)
    have "handle_read env c pkt = build_read_reply env (c\<lparr>send := io\<rparr>) io a n"
      using len io(1) sub False by (simp add: handle_read_def Let_def a_def n_def)
    moreover have "add_ws_header_size n \<le> iosize io - iolen io" using False by simp
    ultimately show ?thesis
      using build_read_reply_ok [OF env io(2,3), of "c\<lparr>send := io\<rparr>" n a] good d io(4)
      by (fastforce simp: appends_frame_def)
  qed
qed


lemma overlay_slice: "b + k \<le> length d \<Longrightarrow> i < k \<Longrightarrow> overlay mem a d (a + b + i) = d ! (b + i)"
  by (simp add: overlay_def)

lemma handle_write_ok:
  assumes env: "env_ok env" and c: "server_ok env c" and len: "WRITE_END \<le> length pkt"
    and ty: "pkt ! 0 = RPC_REQ_WRITE" and req: "request_ok env pkt"
  defines "a \<equiv> u64_at pkt 1" and "n \<equiv> length pkt - WRITE_END"
  shows "\<exists>c' k. handle_write env c pkt = Some c' \<and> k \<le> n \<and>
     appends_frame c c' WEBSOCKET_OP_BINARY (le_bytes 8 k) \<and> is_draining c' = is_draining c \<and>
     read_mem (memory c') a k = take k (drop WRITE_END pkt) \<and>
     (\<forall>x. x \<notin> {a..<a + k} \<longrightarrow> memory c' x = overlay (memory c) (packet_at env) pkt x) \<and>
     (\<forall>i < k. accessible (query_memory env) True (a + i))"
proof -
  let ?p = "packet_at env" and ?ov = "overlay (memory c) (packet_at env) pkt"
  have ne: "pkt \<noteq> []" using len by (auto simp: WRITE_END_def)
  have r: "a + n \<le> 2 ^ 64" "?p + length pkt \<le> 2 ^ 64" "{a..<a + n} \<inter> {?p..<?p + length pkt} = {}"
    using req ne ty by (auto simp: request_ok_def req_defs a_def n_def)
  have pn: "?p + WRITE_END + n = ?p + length pkt" using len by (simp add: n_def)
  have ok: "answers_blocks (query_memory env)" "\<And>p. \<not> mapped_with (query_memory env) 0 p" "2 ^ 64 \<le> loop_fuel env"
    using env by (auto simp: env_ok_def)
  have good: "cache_good (query_memory env) (regions (monitor c))" using c by (simp add: server_ok_def)
  have src: "?p + WRITE_END + n \<le> 2 ^ 64" using r(2) pn by simp
  have dj: "{a..<a + n} \<inter> {?p + WRITE_END..<?p + WRITE_END + n} = {}"
    unfolding pn using r(3) by (auto simp: disjoint_iff)
  obtain left cached where loop: "safe_memcpy_loop (loop_fuel env) (query_memory env) True False (regions (monitor c)) ?ov a (?p + WRITE_END) n =
      Some (memcpy ?ov a (?p + WRITE_END) (n - left), cached, left)" "left \<le> n"
      "\<forall>i < n - left. accessible (query_memory env) True (a + i)"
    using safe_memcpy_loop_sound [OF ok, of True False "regions (monitor c)" "?p + WRITE_END" n a ?ov] good src r(1) dj by auto
  define k where "k = n - left"
  have kn: "k \<le> n" by (simp add: k_def)
  let ?c1 = "c\<lparr>memory := memcpy ?ov a (?p + WRITE_END) k, monitor := (monitor c)\<lparr>regions := cached\<rparr>\<rparr>"
  have "handle_write env c pkt = reply env ?c1 (le_bytes 8 k)"
    using len loop(1) by (simp add: handle_write_def safe_memcpy_def Let_def a_def n_def k_def)
  moreover obtain c' where c': "reply env ?c1 (le_bytes 8 k) = Some c'" "appends_frame c c' WEBSOCKET_OP_BINARY (le_bytes 8 k)"
      "is_draining c' = is_draining c" "memory c' = memcpy ?ov a (?p + WRITE_END) k"
    using reply_any [OF env c, of ?c1 "le_bytes 8 k"] by auto
  moreover have "read_mem (memory c') a k = take k (drop WRITE_END pkt)"
  proof (rule nth_equalityI)
    show "length (read_mem (memory c') a k) = length (take k (drop WRITE_END pkt))" using kn by (simp add: n_def)
    fix i assume "i < length (read_mem (memory c') a k)"
    then have i: "i < k" by simp
    have "WRITE_END + k \<le> length pkt" using kn len by (simp add: n_def)
    from overlay_slice [OF this i, of "memory c" ?p] i kn len
    show "read_mem (memory c') a k ! i = take k (drop WRITE_END pkt) ! i"
      by (simp add: c'(4) read_mem_def memcpy_def n_def)
  qed
  moreover have "memory c' x = ?ov x" if "x \<notin> {a..<a + k}" for x using that by (auto simp: c'(4) memcpy_def)
  ultimately show ?thesis using kn loop(3) unfolding k_def [symmetric] by (intro exI [of _ c'] exI [of _ k]) simp
qed







section \<open>Properties\<close>


text \<open>
  A write request stores a prefix of its data at the address it names, and nothing else,
  into memory the kernel reports as writable, and reports how many bytes that was.
\<close>

theorem rpc_write_request:
  assumes "env_ok env" and "server_ok env c" and "request_ok env pkt"
    and "pkt ! 0 = RPC_REQ_WRITE" and "WRITE_END \<le> length pkt"
  shows "\<exists>c' k. handle_rpc_packet env c pkt = Some c' \<and> k \<le> length pkt - WRITE_END \<and>
       content (send c') = content (send c) @ mg_ws_frame False [] WEBSOCKET_OP_BINARY (le_bytes 8 k) \<and>
       read_mem (memory c') (u64_at pkt 1) k = take k (drop WRITE_END pkt) \<and>
       (\<forall>x. x \<notin> {u64_at pkt 1..<u64_at pkt 1 + k} \<longrightarrow> memory c' x = overlay (memory c) (packet_at env) pkt x) \<and>
       (\<forall>i < k. accessible (query_memory env) True (u64_at pkt 1 + i))"
proof -
  have "handle_rpc_packet env c pkt = handle_write env c pkt"
    using assms(4,5) by (auto simp: handle_rpc_packet_def end_defs req_defs)
  with handle_write_ok [OF assms(1,2,5,4,3)] show ?thesis unfolding appends_frame_def by metis
qed

text \<open>
  A read request is answered with the bytes of a prefix of the range, all of which the kernel
  reports as readable, or refused because the reply would not fit the send buffer.
\<close>

theorem rpc_read_request:
  assumes "env_ok env" and "server_ok env c" and "request_ok env pkt"
    and "pkt ! 0 = RPC_REQ_READ" and "length pkt = READ_END"
  shows "\<exists>c'. handle_rpc_packet env c pkt = Some c' \<and>
       (content (send c') = content (send c) @ mg_ws_frame False [] WEBSOCKET_OP_TEXT (ascii ''i'm overstuffed'') \<and> is_draining c' \<or>
        (\<exists>k \<le> u64_at pkt 9. (\<forall>i < k. accessible (query_memory env) False (u64_at pkt 1 + i)) \<and>
           content (send c') = content (send c) @ mg_ws_frame False [] WEBSOCKET_OP_BINARY (read_mem (memory c) (u64_at pkt 1) k)))"
proof -
  have h: "handle_rpc_packet env c pkt = handle_read env c pkt"
    using assms(4,5) by (auto simp: handle_rpc_packet_def end_defs req_defs)
  have "pkt \<noteq> []" using assms(5) by (auto simp: READ_END_def)
  then have "u64_at pkt 9 < 2 ^ 60 \<Longrightarrow> read_disjoint env (u64_at pkt 1) (u64_at pkt 9)"
    using assms(3,4) by (simp add: request_ok_def)
  from handle_read_ok [OF assms(1,2,5) this] show ?thesis unfolding appends_frame_def h by blast
qed


definition witness_env :: rpc_env where
  "witness_env = \<lparr>alloc_ok = \<lambda>n. True, query_memory = small_memory, loop_fuel = kernel_fuel, packet_at = 2 ^ 61, send_at = 2 ^ 62\<rparr>"

definition witness_server :: rpc_server where
  "witness_server = \<lparr>send = \<lparr>iobuf = [], iolen = 0, ioalign = 2048\<rparr>, is_draining = False, memory = (\<lambda>a. 7),
     monitor = witness_monitor, g_cur_rpc_flags = 0, s_hose = hose_init 64, backpressured_nsec = 0\<rparr>"

definition witness_read :: bytes where
  "witness_read = [1] @ le_bytes 8 0x1ffe @ le_bytes 8 4"

definition witness_write :: bytes where
  "witness_write = [2] @ le_bytes 8 0x1000 @ [5, 6]"

lemma witness_env_ok: "env_ok witness_env"
  using small_memory_answers small_memory_null by (simp add: env_ok_def witness_env_def kernel_fuel_def)

lemma witness_server_ok: "server_ok witness_env witness_server"
  by (auto simp: server_ok_def witness_server_def witness_env_def iobuf_ok_def iosize_def witness_monitor_def first_cache_def
      mem_monitor_init_def cache_good_def cache_ok_def in_region_def mapped_with_def small_memory_def block_def)

lemma witness_packets:
  "u64_at witness_read (Suc 0) = 0x1ffe" "u64_at witness_read 9 = 4" "u64_at witness_write (Suc 0) = 0x1000"
  "length witness_read = 17" "length witness_write = 11" "witness_read ! 0 = 1" "witness_write ! 0 = 2"
  "witness_read \<noteq> []" "witness_write \<noteq> []" "take 0 (drop WRITE_END witness_write) = []"
  by code_simp+

lemma witness_requests_ok: "request_ok witness_env witness_read" "request_ok witness_env witness_write"
  by (auto simp: request_ok_def witness_packets req_defs witness_env_def WRITE_END_def read_disjoint_def)


theorem rpc_write_request_witness:
  "\<exists>c'. handle_rpc_packet witness_env witness_server witness_write = Some c' \<and>
     content (send c') = mg_ws_frame False [] WEBSOCKET_OP_BINARY (le_bytes 8 0)"
proof -
  have "\<not> accessible small_memory True 0x1000"
    by (auto simp: accessible_def mapped_with_def small_memory_def block_def needed_perm_def)
  then have "\<not> (\<forall>i < k. accessible (query_memory witness_env) True (u64_at witness_write 1 + i))" if "k \<noteq> 0" for k :: nat
    using that by (auto simp: witness_env_def witness_packets intro!: exI [of _ 0])
  moreover have "content (send witness_server) = []" by (simp add: witness_server_def content_def)
  ultimately show ?thesis
    using rpc_write_request [OF witness_env_ok witness_server_ok witness_requests_ok(2)]
    by (fastforce simp: witness_packets RPC_REQ_WRITE_def WRITE_END_def)
qed

theorem rpc_read_request_witness:
  "\<exists>c'. handle_rpc_packet witness_env witness_server witness_read = Some c' \<and>
       (content (send c') = mg_ws_frame False [] WEBSOCKET_OP_TEXT (ascii ''i'm overstuffed'') \<and> is_draining c' \<or>
        (\<exists>k \<le> 4. content (send c') = mg_ws_frame False [] WEBSOCKET_OP_BINARY (read_mem (\<lambda>a. 7) 0x1ffe k)))"
proof -
  have "content (send witness_server) = []" "memory witness_server = (\<lambda>a. 7)" by (simp_all add: witness_server_def content_def)
  then show ?thesis
    using rpc_read_request [OF witness_env_ok witness_server_ok witness_requests_ok(1)]
    unfolding One_nat_def witness_packets RPC_REQ_READ_def READ_END_def by auto
qed

end
