(* ===== verification/Virtmem.thy ===== *)
theory Virtmem
  imports Prelude Links Kernel MemRegions
begin

text \<open>
  The address-space manager of \<open>lib/nx/kernel/virtmem.c\<close>: regions read from the kernel, the
  search for a random free range, and the list of reservations, a doubly linked list of heap
  nodes. Addresses and sizes are natural numbers below \<open>2 ^ 64\<close> with the wrap-around of
  \<open>uintptr_t\<close> written out by \<open>size_add\<close> and \<open>size_sub\<close>. The kernel calls (\<open>svcQueryMemory\<close>,
  \<open>svcGetInfo\<close>, \<open>svcUnmapMemory\<close>), \<open>malloc\<close> and the random numbers are arguments.
\<close>

section \<open>State\<close>

definition RANDOM_MAX_ATTEMPTS :: nat where "RANDOM_MAX_ATTEMPTS = 0x200"

record MemRegion =
  r_start :: nat
  r_end :: nat

record VirtmemReservation =
  rv_next :: nat
  rv_prev :: nat
  rv_region :: MemRegion

text \<open>The heap maps the address of a live node to the node; 0 is the null pointer.\<close>

record virtmem =
  g_AliasRegion :: MemRegion
  g_HeapRegion :: MemRegion
  g_AslrRegion :: MemRegion
  g_StackRegion :: MemRegion
  g_Reservations :: nat
  g_IsLegacyKernel :: bool
  nodes :: "nat \<Rightarrow> VirtmemReservation option"

definition virtmem_init :: virtmem where
  "virtmem_init = \<lparr>g_AliasRegion = \<lparr>r_start = 0, r_end = 0\<rparr>, g_HeapRegion = \<lparr>r_start = 0, r_end = 0\<rparr>,
     g_AslrRegion = \<lparr>r_start = 0, r_end = 0\<rparr>, g_StackRegion = \<lparr>r_start = 0, r_end = 0\<rparr>,
     g_Reservations = 0, g_IsLegacyKernel = False, nodes = Map.empty\<rparr>"

section \<open>Regions\<close>

definition memregionInitWithInfo :: "(InfoType \<Rightarrow> Result \<times> nat) \<Rightarrow> MemRegion \<Rightarrow> InfoType \<Rightarrow> InfoType \<Rightarrow> Result \<times> MemRegion" where
  "memregionInitWithInfo get_info r id0_addr id0_sz =
     (let (rc, base) = get_info id0_addr in
      if R_SUCCEEDED rc then
        (let (rc', sz) = get_info id0_sz in
         (rc', if R_SUCCEEDED rc' then \<lparr>r_start = base, r_end = size_add base sz\<rparr> else r))
      else (rc, r))"

definition memregionInitHardcoded :: "nat \<Rightarrow> nat \<Rightarrow> MemRegion" where
  "memregionInitHardcoded s e = \<lparr>r_start = s, r_end = e\<rparr>"

definition memregionIsInside :: "MemRegion \<Rightarrow> nat \<Rightarrow> nat \<Rightarrow> bool" where
  "memregionIsInside r s e \<longleftrightarrow> s \<ge> r_start r \<and> e \<le> r_end r"

definition memregionOverlaps :: "MemRegion \<Rightarrow> nat \<Rightarrow> nat \<Rightarrow> bool" where
  "memregionOverlaps r s e \<longleftrightarrow> s < r_end r \<and> r_start r < e"

text \<open>
  \<open>None\<close> when the query fails (\<open>exl_abort\<close>); otherwise \<open>Some None\<close> for false and
  \<open>Some (Some e)\<close> for true with \<open>*out_end = e\<close>.
\<close>

definition memregionIsMapped :: "(nat \<Rightarrow> MemoryInfo option) \<Rightarrow> nat \<Rightarrow> nat \<Rightarrow> nat \<Rightarrow> nat option option" where
  "memregionIsMapped query s e guard = do {
     meminfo \<leftarrow> query (size_sub s guard);
     let memend = size_add (mi_addr meminfo) (mi_size meminfo);
     Some (if mi_type meminfo \<noteq> MemoryType_value MemType_Unmapped \<or> size_add e guard > memend
           then Some (size_add memend guard) else None)
   }"

text \<open>
  The walk over the reservations: \<open>None\<close> when it does not end or follows a dangling pointer.
\<close>

partial_function (option) reserved_scan :: "(nat \<Rightarrow> VirtmemReservation option) \<Rightarrow> nat \<Rightarrow> nat \<Rightarrow> nat \<Rightarrow> nat \<Rightarrow> nat option option" where
  "reserved_scan hp rv s e guard =
     (if rv = 0 then Some None
      else do {
        n \<leftarrow> hp rv;
        if memregionOverlaps (rv_region n) s e then Some (Some (size_add (r_end (rv_region n)) guard))
        else reserved_scan hp (rv_next n) s e guard
      })"

definition memregionIsReserved :: "virtmem \<Rightarrow> nat \<Rightarrow> nat \<Rightarrow> nat \<Rightarrow> nat option option" where
  "memregionIsReserved vm s e guard =
     reserved_scan (nodes vm) (g_Reservations vm) (size_sub s guard) (size_add e guard) guard"

section \<open>The random search\<close>

definition page_align :: "nat \<Rightarrow> nat" where
  "page_align n = size_add n 0xFFF div 0x1000 * 0x1000"

text \<open>
  The inner loop draws until the range is outside the alias and heap regions. \<open>rng\<close> is the
  sequence of random numbers and the last component of the result the number drawn so far;
  \<open>None\<close> means that the loop never ends.
\<close>

definition candidate :: "MemRegion \<Rightarrow> nat \<Rightarrow> nat \<Rightarrow> nat" where
  "candidate r max_off n = size_add (r_start r) (n mod (max_off + 1) * 0x1000)"

partial_function (option) pick_addr :: "virtmem \<Rightarrow> MemRegion \<Rightarrow> nat \<Rightarrow> nat \<Rightarrow> (nat \<Rightarrow> nat) \<Rightarrow> nat \<Rightarrow> (nat \<times> nat) option" where
  "pick_addr vm r sz max_off rng i =
     (let cur_addr = candidate r max_off (rng i) in
      if memregionOverlaps (g_AliasRegion vm) cur_addr (size_add cur_addr sz) then pick_addr vm r sz max_off rng (i + 1)
      else if memregionOverlaps (g_HeapRegion vm) cur_addr (size_add cur_addr sz) then pick_addr vm r sz max_off rng (i + 1)
      else Some (cur_addr, i + 1))"

primrec find_attempts :: "(nat \<Rightarrow> MemoryInfo option) \<Rightarrow> virtmem \<Rightarrow> MemRegion \<Rightarrow> nat \<Rightarrow> nat \<Rightarrow> nat \<Rightarrow> (nat \<Rightarrow> nat)
    \<Rightarrow> nat \<Rightarrow> nat \<Rightarrow> (nat \<times> nat) option" where
  "find_attempts query vm r sz guard max_off rng 0 i = Some (0, i)"
| "find_attempts query vm r sz guard max_off rng (Suc n) i = do {
     (cur_addr, j) \<leftarrow> pick_addr vm r sz max_off rng i;
     mapped \<leftarrow> memregionIsMapped query cur_addr (size_add cur_addr sz) guard;
     if mapped \<noteq> None then find_attempts query vm r sz guard max_off rng n j
     else do {
       reserved \<leftarrow> memregionIsReserved vm cur_addr (size_add cur_addr sz) guard;
       if reserved \<noteq> None then find_attempts query vm r sz guard max_off rng n j
       else Some (cur_addr, j)
     }
   }"

definition memregionFindRandom :: "(nat \<Rightarrow> MemoryInfo option) \<Rightarrow> virtmem \<Rightarrow> MemRegion \<Rightarrow> nat \<Rightarrow> nat \<Rightarrow> (nat \<Rightarrow> nat)
    \<Rightarrow> nat \<Rightarrow> (nat \<times> nat) option" where
  "memregionFindRandom query vm r sz guard rng i =
     (let sz = page_align sz; guard = page_align guard; region_size = size_sub (r_end r) (r_start r) in
      if sz > region_size then Some (0, i)
      else find_attempts query vm r sz guard ((region_size - sz) div 0x1000) rng RANDOM_MAX_ATTEMPTS i)"

definition virtmemFindAslr :: "(nat \<Rightarrow> MemoryInfo option) \<Rightarrow> virtmem \<Rightarrow> nat \<Rightarrow> nat \<Rightarrow> (nat \<Rightarrow> nat) \<Rightarrow> nat \<Rightarrow> (nat \<times> nat) option" where
  "virtmemFindAslr query vm = memregionFindRandom query vm (g_AslrRegion vm)"

definition virtmemFindStack :: "(nat \<Rightarrow> MemoryInfo option) \<Rightarrow> virtmem \<Rightarrow> nat \<Rightarrow> nat \<Rightarrow> (nat \<Rightarrow> nat) \<Rightarrow> nat \<Rightarrow> (nat \<times> nat) option" where
  "virtmemFindStack query vm = memregionFindRandom query vm (g_StackRegion vm)"

definition virtmemFindCodeMemory :: "(nat \<Rightarrow> MemoryInfo option) \<Rightarrow> virtmem \<Rightarrow> nat \<Rightarrow> nat \<Rightarrow> (nat \<Rightarrow> nat) \<Rightarrow> nat \<Rightarrow> (nat \<times> nat) option" where
  "virtmemFindCodeMemory query vm =
     memregionFindRandom query vm (if g_IsLegacyKernel vm then g_StackRegion vm else g_AslrRegion vm)"

section \<open>Set-up\<close>

text \<open>The left summand is the result code passed to \<open>exl_abort\<close>.\<close>

definition virtmemSetup :: "(InfoType \<Rightarrow> Result \<times> nat) \<Rightarrow> Result \<Rightarrow> virtmem \<Rightarrow> Result + virtmem" where
  "virtmemSetup get_info unmap_rc vm =
     (let (rc, alias) = memregionInitWithInfo get_info (g_AliasRegion vm) InfoType_AliasRegionAddress InfoType_AliasRegionSize;
          vm = vm\<lparr>g_AliasRegion := alias\<rparr> in
      if R_FAILED rc then Inl (LIBNXRESULT LibnxError_WeirdKernel)
      else
     (let (rc, heap) = memregionInitWithInfo get_info (g_HeapRegion vm) InfoType_HeapRegionAddress InfoType_HeapRegionSize;
          vm = vm\<lparr>g_HeapRegion := heap\<rparr> in
      if R_FAILED rc then Inl (LIBNXRESULT LibnxError_BadGetInfo_Heap)
      else
     (let (rc, aslr) = memregionInitWithInfo get_info (g_AslrRegion vm) InfoType_AslrRegionAddress InfoType_AslrRegionSize;
          vm = vm\<lparr>g_AslrRegion := aslr\<rparr> in
      if R_SUCCEEDED rc then
        (let (rc, stack) = memregionInitWithInfo get_info (g_StackRegion vm) InfoType_StackRegionAddress InfoType_StackRegionSize;
             vm = vm\<lparr>g_StackRegion := stack\<rparr> in
         if R_FAILED rc then Inl (LIBNXRESULT LibnxError_BadGetInfo_Stack) else Inr vm)
      else
        (let vm = vm\<lparr>g_IsLegacyKernel := True\<rparr> in
         if R_VALUE unmap_rc = KERNELRESULT KernelError_InvalidMemoryState then
           Inr (vm\<lparr>g_AslrRegion := memregionInitHardcoded 0x200000 0x100000000,
                   g_StackRegion := memregionInitHardcoded 0x200000 0x40000000\<rparr>)
         else if R_VALUE unmap_rc = KERNELRESULT KernelError_InvalidMemoryRange then
           Inr (vm\<lparr>g_AslrRegion := memregionInitHardcoded 0x8000000 0x1000000000,
                   g_StackRegion := memregionInitHardcoded 0x8000000 0x80000000\<rparr>)
         else Inl (LIBNXRESULT LibnxError_WeirdKernel)))))"

section \<open>Reservations\<close>

text \<open>\<open>fresh\<close> is the address \<open>malloc\<close> returns (0 when it fails).\<close>

definition virtmemAddReservation :: "nat \<Rightarrow> virtmem \<Rightarrow> nat \<Rightarrow> nat \<Rightarrow> (nat \<times> virtmem) option" where
  "virtmemAddReservation fresh vm mem sz =
     (if fresh = 0 then Some (0, vm)
      else
       (let node = \<lparr>rv_next = g_Reservations vm, rv_prev = 0, rv_region = \<lparr>r_start = mem, r_end = size_add mem sz\<rparr>\<rparr>;
            hp = (nodes vm)(fresh \<mapsto> node) in
        if g_Reservations vm = 0 then Some (fresh, vm\<lparr>nodes := hp, g_Reservations := fresh\<rparr>)
        else do {
          n \<leftarrow> hp (g_Reservations vm);
          Some (fresh, vm\<lparr>nodes := hp(g_Reservations vm \<mapsto> n\<lparr>rv_prev := fresh\<rparr>), g_Reservations := fresh\<rparr>)
        }))"

definition virtmemRemoveReservation :: "virtmem \<Rightarrow> nat \<Rightarrow> virtmem option" where
  "virtmemRemoveReservation vm rv = do {
     node \<leftarrow> nodes vm rv;
     hp1 \<leftarrow> (if rv_next node = 0 then Some (nodes vm)
             else do { n \<leftarrow> nodes vm (rv_next node); Some ((nodes vm)(rv_next node \<mapsto> n\<lparr>rv_prev := rv_prev node\<rparr>)) });
     if rv_prev node = 0 then Some (vm\<lparr>nodes := hp1(rv := None), g_Reservations := rv_next node\<rparr>)
     else do {
       p \<leftarrow> hp1 (rv_prev node);
       Some (vm\<lparr>nodes := hp1(rv_prev node \<mapsto> p\<lparr>rv_next := rv_next node\<rparr>, rv := None)\<rparr>)
     }
   }"

section \<open>The reservation list is a list\<close>

definition prev_of :: "virtmem \<Rightarrow> nat \<Rightarrow> nat" where
  "prev_of vm x = (case nodes vm x of Some n \<Rightarrow> rv_prev n | None \<Rightarrow> 0)"

definition next_of :: "virtmem \<Rightarrow> nat \<Rightarrow> nat" where
  "next_of vm x = (case nodes vm x of Some n \<Rightarrow> rv_next n | None \<Rightarrow> 0)"

text \<open>\<open>holds vm rs\<close>: the list starting at \<open>g_Reservations\<close> consists of the nodes and regions \<open>rs\<close>.\<close>

definition holds :: "virtmem \<Rightarrow> (nat \<times> MemRegion) list \<Rightarrow> bool" where
  "holds vm rs \<longleftrightarrow> seg (prev_of vm) (next_of vm) 0 (g_Reservations vm) (map fst rs) 0 \<and> distinct (map fst rs) \<and>
     dom (nodes vm) = set (map fst rs) \<and> (\<forall>(x, r) \<in> set rs. \<exists>n. nodes vm x = Some n \<and> rv_region n = r)"

lemma holds_regions: "holds vm rs \<Longrightarrow> (x, r) \<in> set rs \<Longrightarrow> \<exists>n. nodes vm x = Some n \<and> rv_region n = r"
  unfolding holds_def by fast

lemma holds_init: "holds virtmem_init []"
  by (simp add: holds_def virtmem_init_def)

lemma add_reservation:
  assumes h: "holds vm rs" and f: "f \<noteq> 0" "nodes vm f = None"
  shows "\<exists>vm'. virtmemAddReservation f vm mem sz = Some (f, vm') \<and>
     holds vm' ((f, \<lparr>r_start = mem, r_end = size_add mem sz\<rparr>) # rs)"
proof -
  let ?r = "\<lparr>r_start = mem, r_end = size_add mem sz\<rparr>" and ?g = "g_Reservations vm"
  let ?node = "\<lparr>rv_next = ?g, rv_prev = 0, rv_region = ?r\<rparr>"
  have sg: "seg (prev_of vm) (next_of vm) 0 ?g (map fst rs) 0" and d: "distinct (map fst rs)"
    and dm: "dom (nodes vm) = set (map fst rs)"
    using h by (simp_all add: holds_def)
  note rg = holds_regions [OF h]
  have fn: "f \<notin> set (map fst rs)" using dm f(2) by (metis domIff)
  show ?thesis
  proof (cases rs)
    case Nil
    let ?vm = "vm\<lparr>nodes := (nodes vm)(f \<mapsto> ?node), g_Reservations := f\<rparr>"
    have "?g = 0" using sg Nil by simp
    then have "virtmemAddReservation f vm mem sz = Some (f, ?vm)" using f by (simp add: virtmemAddReservation_def Let_def)
    moreover have "holds ?vm [(f, ?r)]"
      using dm f Nil \<open>?g = 0\<close> by (simp add: holds_def prev_of_def next_of_def dom_def)
    ultimately show ?thesis using Nil by auto
  next
    case (Cons q qs)
    then obtain x r where q: "q = (x, r)" and rs: "rs = (x, r) # qs" by (cases q) auto
    have g: "?g = x" "x \<noteq> f" "0 < x" using sg fn rs by auto
    obtain n where n: "nodes vm x = Some n" "rv_region n = r" using rg [of x r] rs by auto
    let ?vm = "vm\<lparr>nodes := (nodes vm)(f \<mapsto> ?node, x \<mapsto> n\<lparr>rv_prev := f\<rparr>), g_Reservations := f\<rparr>"
    have "virtmemAddReservation f vm mem sz = Some (f, ?vm)"
      using f g n by (simp add: virtmemAddReservation_def Let_def)
    moreover have "holds ?vm ((f, ?r) # rs)"
      unfolding holds_def
    proof (intro conjI)
      have "seg ((prev_of vm)(x := f)) (next_of vm) f x (map fst rs) 0"
        using seg_rehead [of "prev_of vm" "next_of vm" 0 x x "map fst qs" 0 f] sg d rs g(1) by simp
      also have "seg ((prev_of vm)(x := f)) (next_of vm) f x (map fst rs) 0 = seg (prev_of ?vm) (next_of ?vm) f x (map fst rs) 0"
        using n fn by (intro seg_cong) (auto simp: prev_of_def next_of_def)
      finally have "seg (prev_of ?vm) (next_of ?vm) f x (map fst rs) 0" .
      moreover have "prev_of ?vm f = 0" "next_of ?vm f = x" using g by (simp_all add: prev_of_def next_of_def)
      ultimately show "seg (prev_of ?vm) (next_of ?vm) 0 (g_Reservations ?vm) (map fst ((f, ?r) # rs)) 0" using f by simp
      show "distinct (map fst ((f, ?r) # rs))" using d fn by simp
      show "dom (nodes ?vm) = set (map fst ((f, ?r) # rs))" using dm rs by auto
      show "\<forall>(y, r) \<in> set ((f, ?r) # rs). \<exists>m. nodes ?vm y = Some m \<and> rv_region m = r"
      proof clarify
        fix y s assume "(y, s) \<in> set ((f, ?r) # rs)"
        then consider "y = f" "s = ?r" | "(y, s) \<in> set rs" by auto
        then show "\<exists>m. nodes ?vm y = Some m \<and> rv_region m = s"
        proof cases
          case 2
          then obtain m where "nodes vm y = Some m" "rv_region m = s" using rg by blast
          moreover have "y \<noteq> f" using 2 fn by (metis image_eqI fst_conv set_map)
          ultimately show ?thesis using n by auto
        qed (use g in auto)
      qed
    qed
    ultimately show ?thesis by blast
  qed
qed

lemma remove_reservation:
  assumes h: "holds vm (ys @ (rv, r) # zs)"
  shows "\<exists>vm'. virtmemRemoveReservation vm rv = Some vm' \<and> holds vm' (ys @ zs)"
proof -
  let ?ys = "map fst ys" and ?zs = "map fst zs"
  have sg: "seg (prev_of vm) (next_of vm) 0 (g_Reservations vm) (?ys @ rv # ?zs) 0" and d: "distinct (?ys @ rv # ?zs)"
    and dm: "dom (nodes vm) = set (?ys @ rv # ?zs)"
    using h by (simp_all add: holds_def)
  note rg = holds_regions [OF h]
  obtain n where n: "nodes vm rv = Some n" using rg [of rv r] by auto
  have pos: "0 < x" if "x \<in> set (?ys @ rv # ?zs)" for x using seg_pos [OF sg that] .
  have pv: "rv_prev n = (if ?ys = [] then 0 else last ?ys)"
    using sg n by (auto simp: seg_append prev_of_def)
  have nx: "rv_next n = (if ?zs = [] then 0 else hd ?zs)"
  proof -
    have "seg (prev_of vm) (next_of vm) rv (next_of vm rv) ?zs 0" using sg by (auto simp: seg_append)
    from seg_head [OF this] show ?thesis using n by (simp add: next_of_def)
  qed
  define hp1 where "hp1 = (if ?zs = [] then nodes vm else (nodes vm)(hd ?zs \<mapsto> (the (nodes vm (hd ?zs)))\<lparr>rv_prev := rv_prev n\<rparr>))"
  define hp2 where "hp2 = (if ?ys = [] then hp1 else hp1(last ?ys \<mapsto> (the (nodes vm (last ?ys)))\<lparr>rv_next := rv_next n\<rparr>))"
  let ?vm = "vm\<lparr>nodes := hp2(rv := None), g_Reservations := (if ?ys = [] then rv_next n else g_Reservations vm)\<rparr>"
  have hz: "hd ?zs \<in> set ?zs" if "?zs \<noteq> []" using that by (rule hd_in_set)
  have ly: "last ?ys \<in> set ?ys" if "?ys \<noteq> []" using that by (rule last_in_set)
  have some: "\<exists>m. nodes vm x = Some m" if "x \<in> set (?ys @ rv # ?zs)" for x using dm that by auto
  have ne: "hd ?zs \<noteq> rv" if "?zs \<noteq> []" using hz [OF that] d by auto
  have ne': "last ?ys \<noteq> rv" "last ?ys \<noteq> hd ?zs \<or> ?zs = []" if "?ys \<noteq> []" using ly [OF that] hz d by auto
  have step1: "(if rv_next n = 0 then Some (nodes vm)
      else do { m \<leftarrow> nodes vm (rv_next n); Some ((nodes vm)(rv_next n \<mapsto> m\<lparr>rv_prev := rv_prev n\<rparr>)) }) = Some hp1"
  proof (cases "?zs = []")
    case False
    then obtain m where "nodes vm (hd ?zs) = Some m" using some [of "hd ?zs"] hz by auto
    moreover have "0 < hd ?zs" using pos [of "hd ?zs"] hz False by simp
    ultimately show ?thesis using False nx by (simp add: hp1_def)
  qed (use nx in \<open>simp add: hp1_def\<close>)
  have step2: "hp1 (last ?ys) = nodes vm (last ?ys)" if "?ys \<noteq> []"
    using ne' [OF that] by (auto simp: hp1_def)
  have run: "virtmemRemoveReservation vm rv = Some ?vm"
  proof (cases "?ys = []")
    case True
    then show ?thesis using n step1 pv by (simp add: virtmemRemoveReservation_def hp2_def)
  next
    case False
    then obtain m where "nodes vm (last ?ys) = Some m" using some [of "last ?ys"] ly by auto
    moreover have "0 < last ?ys" using pos [of "last ?ys"] ly False by simp
    ultimately show ?thesis using n step1 step2 [OF False] pv False
      by (simp add: virtmemRemoveReservation_def hp2_def)
  qed
  have "holds ?vm (ys @ zs)"
    unfolding holds_def
  proof (intro conjI)
    have pr: "prev_of vm rv = rv_prev n" "next_of vm rv = rv_next n" using n by (simp_all add: prev_of_def next_of_def)
    let ?pf = "if ?zs = [] then prev_of vm else (prev_of vm)(hd ?zs := prev_of vm rv)"
    let ?nf = "if ?ys = [] then next_of vm else (next_of vm)(last ?ys := next_of vm rv)"
    have u: "seg ?pf ?nf 0 (if ?ys = [] then next_of vm rv else g_Reservations vm) (?ys @ ?zs) 0"
      by (rule seg_unlink [OF sg d])
    have at: "prev_of ?vm x = ?pf x \<and> next_of ?vm x = ?nf x" if x: "x \<in> set (?ys @ ?zs)" for x
    proof -
      have xr: "x \<noteq> rv" using x d by auto
      obtain m where m: "nodes vm x = Some m" using some [of x] x by auto
      show ?thesis
        using m xr pr ne' by (cases "?ys = []"; cases "?zs = []"; auto simp: prev_of_def next_of_def hp2_def hp1_def)
    qed
    have "seg (prev_of ?vm) (next_of ?vm) 0 (if ?ys = [] then next_of vm rv else g_Reservations vm) (?ys @ ?zs) 0"
      using u seg_cong [of "?ys @ ?zs" "prev_of ?vm" ?pf "next_of ?vm" ?nf] at by blast
    then show "seg (prev_of ?vm) (next_of ?vm) 0 (g_Reservations ?vm) (map fst (ys @ zs)) 0"
      using pr by (auto split: if_splits)
    show "distinct (map fst (ys @ zs))" using d by auto
    have "dom hp2 = dom (nodes vm)"
      using hz ly dm by (auto simp: hp2_def hp1_def)
    then show "dom (nodes ?vm) = set (map fst (ys @ zs))" using dm d by auto
    have keep1: "\<exists>m'. hp1 x = Some m' \<and> rv_region m' = rv_region m" if m: "nodes vm x = Some m" for x m
    proof (cases "x = hd ?zs")
      case True
      with m have "nodes vm (hd ?zs) = Some m" by simp
      with True show ?thesis by (cases "?zs = []") (simp_all add: hp1_def)
    qed (use m in \<open>simp add: hp1_def\<close>)
    have keep: "\<exists>m'. hp2 x = Some m' \<and> rv_region m' = rv_region m" if m: "nodes vm x = Some m" for x m
    proof (cases "x = last ?ys")
      case True
      with m have "nodes vm (last ?ys) = Some m" by simp
      with True keep1 [OF m] show ?thesis by (cases "?ys = []") (simp_all add: hp2_def)
    qed (use keep1 [OF m] in \<open>simp add: hp2_def\<close>)
    show "\<forall>(x, s) \<in> set (ys @ zs). \<exists>m. nodes ?vm x = Some m \<and> rv_region m = s"
    proof clarify
      fix x s assume x: "(x, s) \<in> set (ys @ zs)"
      then have "x \<in> set (?ys @ ?zs)" by force
      then have xr: "x \<noteq> rv" using d by auto
      from rg [of x s] x obtain m where "nodes vm x = Some m" "rv_region m = s" by auto
      with keep [of x m] xr show "\<exists>m. nodes ?vm x = Some m \<and> rv_region m = s" by auto
    qed
  qed
  with run show ?thesis by blast
qed

text \<open>Histories of reservations and releases, and the list they leave.\<close>

datatype resv_op = Reserve nat nat nat | Release nat

primrec exec_op :: "resv_op \<Rightarrow> virtmem \<Rightarrow> virtmem option" where
  "exec_op (Reserve fresh mem sz) vm = map_option snd (virtmemAddReservation fresh vm mem sz)"
| "exec_op (Release rv) vm = virtmemRemoveReservation vm rv"

primrec spec_op :: "resv_op \<Rightarrow> (nat \<times> MemRegion) list \<Rightarrow> (nat \<times> MemRegion) list" where
  "spec_op (Reserve fresh mem sz) rs =
     (if fresh = 0 then rs else (fresh, \<lparr>r_start = mem, r_end = size_add mem sz\<rparr>) # rs)"
| "spec_op (Release rv) rs = filter (\<lambda>(x, r). x \<noteq> rv) rs"

text \<open>\<open>malloc\<close> returns an address that is not in use; only live reservations are released.\<close>

primrec op_ok :: "resv_op \<Rightarrow> (nat \<times> MemRegion) list \<Rightarrow> bool" where
  "op_ok (Reserve fresh mem sz) rs \<longleftrightarrow> fresh \<notin> fst ` set rs"
| "op_ok (Release rv) rs \<longleftrightarrow> rv \<in> fst ` set rs"

fun exec_ops :: "resv_op list \<Rightarrow> virtmem \<Rightarrow> virtmem option" where
  "exec_ops [] vm = Some vm"
| "exec_ops (x # xs) vm = do { vm' \<leftarrow> exec_op x vm; exec_ops xs vm' }"

fun ops_ok :: "resv_op list \<Rightarrow> (nat \<times> MemRegion) list \<Rightarrow> bool" where
  "ops_ok [] rs \<longleftrightarrow> True"
| "ops_ok (x # xs) rs \<longleftrightarrow> op_ok x rs \<and> ops_ok xs (spec_op x rs)"

lemma exec_op_refines:
  assumes h: "holds vm rs" and ok: "op_ok x rs"
  shows "\<exists>vm'. exec_op x vm = Some vm' \<and> holds vm' (spec_op x rs)"
proof (cases x)
  case (Reserve f mem sz)
  show ?thesis
  proof (cases "f = 0")
    case True
    with h Reserve show ?thesis by (simp add: virtmemAddReservation_def)
  next
    case False
    have "dom (nodes vm) = fst ` set rs" using h by (simp add: holds_def)
    then have "nodes vm f = None" using ok Reserve by (metis domIff op_ok.simps(1))
    from add_reservation [OF h False this, of mem sz] Reserve False show ?thesis by auto
  qed
next
  case (Release rv)
  then obtain r where "(rv, r) \<in> set rs" using ok by auto
  then obtain ys zs where rs: "rs = ys @ (rv, r) # zs" by (meson split_list)
  have "rv \<notin> fst ` set ys" "rv \<notin> fst ` set zs" using h rs by (auto simp: holds_def)
  then have "filter (\<lambda>(x, r). x \<noteq> rv) ys = ys" "filter (\<lambda>(x, r). x \<noteq> rv) zs = zs"
    by (force simp: filter_id_conv)+
  with remove_reservation [OF h [unfolded rs]] Release rs show ?thesis by simp
qed

lemma exec_ops_refines:
  "holds vm rs \<Longrightarrow> ops_ok xs rs \<Longrightarrow> \<exists>vm'. exec_ops xs vm = Some vm' \<and> holds vm' (fold spec_op xs rs)"
proof (induction xs arbitrary: vm rs)
  case (Cons x xs)
  then have ok: "op_ok x rs" "ops_ok xs (spec_op x rs)" by auto
  from exec_op_refines [OF Cons.prems(1) ok(1)] obtain vm' where "exec_op x vm = Some vm'" "holds vm' (spec_op x rs)" by blast
  with Cons.IH [OF _ ok(2), of vm'] show ?case by simp
qed simp

lemma reserved_scan_seg:
  assumes "seg (prev_of vm) (next_of vm) p i (map fst rs) 0"
    and "\<And>x r. (x, r) \<in> set rs \<Longrightarrow> \<exists>n. nodes vm x = Some n \<and> rv_region n = r"
  shows "reserved_scan (nodes vm) i s e g =
     Some (map_option (\<lambda>(x, r). size_add (r_end r) g) (find (\<lambda>(x, r). memregionOverlaps r s e) rs))"
  using assms
proof (induction rs arbitrary: p i)
  case Nil
  then show ?case by (simp add: reserved_scan.simps)
next
  case (Cons q rs)
  obtain x r where q: "q = (x, r)" by (cases q)
  have i: "i = x" "0 < x" and sg: "seg (prev_of vm) (next_of vm) x (next_of vm x) (map fst rs) 0" using Cons.prems(1) q by auto
  obtain n where n: "nodes vm x = Some n" "rv_region n = r" using Cons.prems(2) [of x r] q by auto
  have nx: "next_of vm x = rv_next n" using n by (simp add: next_of_def)
  have "reserved_scan (nodes vm) (rv_next n) s e g =
     Some (map_option (\<lambda>(x, r). size_add (r_end r) g) (find (\<lambda>(x, r). memregionOverlaps r s e) rs))"
    using Cons.IH [OF sg] Cons.prems(2) nx by simp
  then show ?case using i n q by (subst reserved_scan.simps) simp
qed

lemma reserved_holds:
  assumes "holds vm rs"
  shows "memregionIsReserved vm s e g =
     Some (map_option (\<lambda>(x, r). size_add (r_end r) g) (find (\<lambda>(x, r). memregionOverlaps r (size_sub s g) (size_add e g)) rs))"
  using reserved_scan_seg [of vm 0 "g_Reservations vm" rs] holds_regions [OF assms] assms
  by (simp add: memregionIsReserved_def holds_def)

section \<open>The random search\<close>

definition avoids :: "virtmem \<Rightarrow> nat \<Rightarrow> nat \<Rightarrow> bool" where
  "avoids vm a sz \<longleftrightarrow> \<not> memregionOverlaps (g_AliasRegion vm) a (size_add a sz) \<and>
     \<not> memregionOverlaps (g_HeapRegion vm) a (size_add a sz)"

lemma pick_addr_step:
  "pick_addr vm r sz m rng i =
     (if avoids vm (candidate r m (rng i)) sz then Some (candidate r m (rng i), i + 1) else pick_addr vm r sz m rng (i + 1))"
  by (subst pick_addr.simps) (auto simp: Let_def avoids_def)

lemma pick_addr_sound:
  assumes ret: "pick_addr vm r sz m rng i = Some (a, j)"
  shows "\<exists>n \<ge> i. a = candidate r m (rng n) \<and> avoids vm a sz"
proof -
  have "\<exists>n \<ge> i. fst (a, j) = candidate r m (rng n) \<and> avoids vm (fst (a, j)) sz"
  proof (rule pick_addr.raw_induct [where P = "\<lambda>vm r sz m rng i y. \<exists>n \<ge> i. fst y = candidate r m (rng n) \<and> avoids vm (fst y) sz",
        OF _ ret])
    fix f :: "virtmem \<Rightarrow> MemRegion \<Rightarrow> nat \<Rightarrow> nat \<Rightarrow> (nat \<Rightarrow> nat) \<Rightarrow> nat \<Rightarrow> (nat \<times> nat) option" and vm r sz m rng i y
    assume IH: "\<And>vm r sz m rng i y. f vm r sz m rng i = Some y \<Longrightarrow> \<exists>n \<ge> i. fst y = candidate r m (rng n) \<and> avoids vm (fst y) sz"
      and eq: "(let cur_addr = candidate r m (rng i) in
        if memregionOverlaps (g_AliasRegion vm) cur_addr (size_add cur_addr sz) then f vm r sz m rng (i + 1)
        else if memregionOverlaps (g_HeapRegion vm) cur_addr (size_add cur_addr sz) then f vm r sz m rng (i + 1)
        else Some (cur_addr, i + 1)) = Some y"
    show "\<exists>n \<ge> i. fst y = candidate r m (rng n) \<and> avoids vm (fst y) sz"
    proof (cases "avoids vm (candidate r m (rng i)) sz")
      case True
      with eq show ?thesis by (auto simp: Let_def avoids_def)
    next
      case False
      with eq have "f vm r sz m rng (i + 1) = Some y" by (auto simp: Let_def avoids_def split: if_splits)
      from IH [OF this] show ?thesis by (meson Suc_leD Suc_eq_plus1 add_leD1)
    qed
  qed
  then show ?thesis by simp
qed

lemma pick_addr_finds:
  assumes "i \<le> n" and "avoids vm (candidate r m (rng n)) sz"
  shows "\<exists>a j. pick_addr vm r sz m rng i = Some (a, j) \<and> i < j \<and> j \<le> n + 1"
  using assms(1)
proof (induction "n - i" arbitrary: i)
  case 0
  then show ?case using assms by (subst pick_addr_step) simp
next
  case (Suc d)
  then have "d = n - (i + 1)" "i + 1 \<le> n" by auto
  from Suc.hyps(1) [OF this] show ?case using Suc.prems by (subst pick_addr_step) (auto intro: Suc_lessD)
qed

lemma page_align_bounds:
  assumes "n + 0xFFF < 2 ^ 64"
  shows "n \<le> page_align n" and "page_align n < n + 0x1000" and "page_align n mod 0x1000 = 0"
proof -
  have "size_add n 0xFFF = n + 0xFFF" using assms by (simp add: SIZE_MAX_def)
  then have p: "page_align n = (n + 0xFFF) div 0x1000 * 0x1000" by (simp add: page_align_def)
  have "(n + 0xFFF) div 0x1000 * 0x1000 + (n + 0xFFF) mod 0x1000 = n + 0xFFF" by (rule div_mult_mod_eq)
  moreover have "(n + 0xFFF) mod 0x1000 < 0x1000" by simp
  ultimately show "n \<le> page_align n" "page_align n < n + 0x1000" unfolding p by linarith+
  show "page_align n mod 0x1000 = 0" unfolding p by simp
qed

definition region_good :: "MemRegion \<Rightarrow> nat \<Rightarrow> bool" where
  "region_good r guard \<longleftrightarrow> guard \<le> r_start r \<and> r_start r \<le> r_end r \<and> r_end r + guard < 2 ^ 64"

lemma candidate_inside:
  assumes r: "region_good r g" and sz: "sz \<le> r_end r - r_start r"
  defines "m \<equiv> (size_sub (r_end r) (r_start r) - sz) div 0x1000"
  shows "candidate r m n = r_start r + n mod (m + 1) * 0x1000" and "candidate r m n + sz \<le> r_end r"
    and "r_start r \<le> candidate r m n"
proof -
  have sub: "size_sub (r_end r) (r_start r) = r_end r - r_start r"
    using r by (intro size_sub_eq) (auto simp: region_good_def SIZE_MAX_def)
  have "n mod (m + 1) \<le> m" by (simp add: mod_Suc_le_divisor)
  then have "n mod (m + 1) * 0x1000 \<le> m * 0x1000" by simp
  also have "\<dots> \<le> r_end r - r_start r - sz" unfolding m_def sub by simp
  finally have off: "n mod (m + 1) * 0x1000 + sz \<le> r_end r - r_start r" using sz by simp
  moreover have "r_start r \<le> r_end r" "r_end r < 2 ^ 64" using r by (auto simp: region_good_def)
  ultimately show c: "candidate r m n = r_start r + n mod (m + 1) * 0x1000"
    unfolding candidate_def by (intro size_add_eq) (simp add: SIZE_MAX_def)
  show "candidate r m n + sz \<le> r_end r" "r_start r \<le> candidate r m n"
    unfolding c using off \<open>r_start r \<le> r_end r\<close> by simp_all
qed

lemma not_mapped:
  assumes q: "answers_blocks query" and g: "g \<le> s" and e: "s \<le> e" "e + g < 2 ^ 64"
    and nm: "memregionIsMapped query s e g = Some None" and x: "s - g \<le> x" "x < e + g"
  shows "\<exists>mi. query x = Some mi \<and> mi_type mi = MemoryType_value MemType_Unmapped"
proof -
  have sub: "size_sub s g = s - g" "size_add e g = e + g"
    using g e by (auto simp: SIZE_MAX_def intro!: size_sub_eq size_add_eq)
  have "s - g < 2 ^ 64" using e by simp
  then obtain mi where mi: "query (s - g) = Some mi" "mi_addr mi \<le> s - g" "s - g < mi_addr mi + mi_size mi"
    "mi_addr mi + mi_size mi \<le> 2 ^ 64" "\<And>b. mi_addr mi \<le> b \<Longrightarrow> b < mi_addr mi + mi_size mi \<Longrightarrow> query b = Some mi"
    using q unfolding answers_blocks_def by metis
  have t: "mi_type mi = MemoryType_value MemType_Unmapped" and le: "e + g \<le> size_add (mi_addr mi) (mi_size mi)"
    using nm mi(1) sub by (simp_all add: memregionIsMapped_def Let_def split: if_splits)
  have "size_add (mi_addr mi) (mi_size mi) \<le> mi_addr mi + mi_size mi" by (simp add: size_add_def)
  with le x mi(2,5) t show ?thesis by force
qed

lemma attempts_Suc: "RANDOM_MAX_ATTEMPTS = Suc 0x1FF"
  by (simp add: RANDOM_MAX_ATTEMPTS_def)

lemmas first_attempt = find_attempts.simps(2) [where n = "0x1FF", folded attempts_Suc]

lemma find_attempts_sound:
  assumes "find_attempts query vm r sz g m rng n i = Some (a, j)" and "a \<noteq> 0"
  shows "\<exists>k. a = candidate r m k \<and> avoids vm a sz \<and> memregionIsMapped query a (size_add a sz) g = Some None \<and>
     memregionIsReserved vm a (size_add a sz) g = Some None"
  using assms
proof (induction n arbitrary: i)
  case (Suc n)
  from Suc.prems(1) obtain b j' mp where p: "pick_addr vm r sz m rng i = Some (b, j')"
    "memregionIsMapped query b (size_add b sz) g = Some mp"
    "(if mp \<noteq> None then find_attempts query vm r sz g m rng n j'
      else do { reserved \<leftarrow> memregionIsReserved vm b (size_add b sz) g;
                if reserved \<noteq> None then find_attempts query vm r sz g m rng n j' else Some (b, j') }) = Some (a, j)"
    by (auto simp: bind_eq_Some_conv)
  show ?case
  proof (cases "find_attempts query vm r sz g m rng n j' = Some (a, j)")
    case True
    from Suc.IH [OF True Suc.prems(2)] show ?thesis .
  next
    case False
    with p(3) have "mp = None" "memregionIsReserved vm b (size_add b sz) g = Some None" "b = a"
      by (auto simp: bind_eq_Some_conv split: if_splits)
    with p(2) pick_addr_sound [OF p(1)] show ?thesis by blast
  qed
qed simp

lemma find_attempts_total:
  assumes q: "answers_blocks query" and h: "holds vm rs" and g: "g < 2 ^ 64"
    and often: "\<And>i. \<exists>n \<ge> i. avoids vm (candidate r m (rng n)) sz"
  shows "\<exists>a j. find_attempts query vm r sz g m rng n i = Some (a, j)"
proof (induction n arbitrary: i)
  case (Suc n)
  obtain a j where p: "pick_addr vm r sz m rng i = Some (a, j)"
    using often [of i] pick_addr_finds [of i _ vm r m rng sz] by blast
  have "size_sub a g < 2 ^ 64" by (simp add: size_sub_def)
  then obtain mi where "query (size_sub a g) = Some mi" using q unfolding answers_blocks_def by blast
  then obtain mp where mp: "memregionIsMapped query a (size_add a sz) g = Some mp"
    by (simp add: memregionIsMapped_def Let_def)
  show ?case using p mp reserved_holds [OF h, of a "size_add a sz" g] Suc.IH by simp
qed simp

lemma page_align_wraps: "n < 2 ^ 64 \<Longrightarrow> \<not> n + 0xFFF < 2 ^ 64 \<Longrightarrow> page_align n = 0"
proof -
  assume n: "n < 2 ^ 64" "\<not> n + 0xFFF < 2 ^ 64"
  then have "size_add n 0xFFF = n + 0xFFF - 2 ^ 64" by (simp add: size_add_def mod_if)
  then show ?thesis using n(1) by (simp add: page_align_def)
qed

section \<open>Properties\<close>

text \<open>
  C30. A range that the search returns lies inside the region, starts a number of pages after the region's start
  (so at a page when the region does), and has the size asked for rounded up to pages, which is at least the size
  asked for unless the rounding wraps (then it is 0, \<open>huge_request_is_granted\<close>). It overlaps neither the alias
  region nor the heap region; with a guard area on each side it is unmapped according to the kernel and
  overlaps no reservation. The region has room for the guard area before and behind it in the address space.
\<close>

theorem virtmem_find_safe:
  assumes "answers_blocks query" and "holds vm rs" and "sz < 2 ^ 64" and "region_good r (page_align guard)"
    and "memregionFindRandom query vm r sz guard rng i = Some (a, j)" and "a \<noteq> 0"
  shows "(sz \<le> page_align sz \<longleftrightarrow> sz + 0xFFF < 2 ^ 64) \<and> page_align sz mod 0x1000 = 0 \<and>
     r_start r \<le> a \<and> a mod 0x1000 = r_start r mod 0x1000 \<and> a + page_align sz \<le> r_end r \<and>
     \<not> memregionOverlaps (g_AliasRegion vm) a (a + page_align sz) \<and>
     \<not> memregionOverlaps (g_HeapRegion vm) a (a + page_align sz) \<and>
     (\<forall>x. a - page_align guard \<le> x \<and> x < a + page_align sz + page_align guard \<longrightarrow>
        (\<exists>mi. query x = Some mi \<and> mi_type mi = MemoryType_value MemType_Unmapped)) \<and>
     (\<forall>(p, rg) \<in> set rs. \<not> memregionOverlaps rg (a - page_align guard) (a + page_align sz + page_align guard))"
proof -
  let ?S = "page_align sz" and ?G = "page_align guard"
  let ?m = "(size_sub (r_end r) (r_start r) - ?S) div 0x1000"
  have rb: "?G \<le> r_start r" "r_start r \<le> r_end r" "r_end r + ?G < 2 ^ 64" using assms(4) by (auto simp: region_good_def)
  have sub: "size_sub (r_end r) (r_start r) = r_end r - r_start r"
    using rb by (intro size_sub_eq) (auto simp: SIZE_MAX_def)
  have S: "?S \<le> r_end r - r_start r" and fa: "find_attempts query vm r ?S ?G ?m rng RANDOM_MAX_ATTEMPTS i = Some (a, j)"
    using assms(5,6) sub by (auto simp: memregionFindRandom_def Let_def split: if_splits)
  from find_attempts_sound [OF fa assms(6)] obtain k where k: "a = candidate r ?m k" "avoids vm a ?S"
    "memregionIsMapped query a (size_add a ?S) ?G = Some None" "memregionIsReserved vm a (size_add a ?S) ?G = Some None" by blast
  note c = candidate_inside [OF assms(4) S, of k, folded k(1)]
  have e: "size_add a ?S = a + ?S" using c(2) rb(3) by (intro size_add_eq) (simp add: SIZE_MAX_def)
  have e2: "size_sub a ?G = a - ?G" "size_add (a + ?S) ?G = a + ?S + ?G"
    using c(2,3) rb by (auto intro!: size_sub_eq size_add_eq simp: SIZE_MAX_def)
  have "find (\<lambda>(x, rg). memregionOverlaps rg (a - ?G) (a + ?S + ?G)) rs = None"
    using k(4) unfolding reserved_holds [OF assms(2)] e e2 by simp
  then have "\<forall>(p, rg) \<in> set rs. \<not> memregionOverlaps rg (a - ?G) (a + ?S + ?G)" by (auto simp: find_None_iff)
  moreover have "\<forall>x. a - ?G \<le> x \<and> x < a + ?S + ?G \<longrightarrow>
      (\<exists>mi. query x = Some mi \<and> mi_type mi = MemoryType_value MemType_Unmapped)"
    using not_mapped [OF assms(1) _ _ _ k(3) [unfolded e]] c(2,3) rb by auto
  moreover have "a mod 0x1000 = r_start r mod 0x1000" unfolding c(1) by simp
  moreover have "sz \<le> ?S \<longleftrightarrow> sz + 0xFFF < 2 ^ 64"
  proof (cases "sz + 0xFFF < 2 ^ 64")
    case False
    then show ?thesis using page_align_wraps [OF assms(3) False] by simp
  qed (use page_align_bounds(1) in blast)
  moreover have "?S mod 0x1000 = 0" by (simp add: page_align_def)
  ultimately show ?thesis
    using c(2,3) k(2) by (simp add: avoids_def e)
qed

text \<open>
  C31. The search ends when the random numbers keep offering a range outside the alias and heap
  regions, and then uses at most \<open>RANDOM_MAX_ATTEMPTS\<close> such ranges; when the alias and heap
  regions leave no room it never returns, although it is meant to fail after a bounded number of
  attempts.
\<close>

theorem virtmem_find_terminates:
  assumes "answers_blocks query" and "holds vm rs" and "page_align sz \<le> size_sub (r_end r) (r_start r)"
  defines "good \<equiv> \<lambda>n. avoids vm (candidate r ((size_sub (r_end r) (r_start r) - page_align sz) div 0x1000) n) (page_align sz)"
  shows "((\<forall>i. \<exists>n \<ge> i. good (rng n)) \<longrightarrow> (\<exists>a j. memregionFindRandom query vm r sz guard rng i = Some (a, j))) \<and>
     ((\<forall>n. \<not> good (rng n)) \<longrightarrow> memregionFindRandom query vm r sz guard rng i = None)"
proof -
  let ?S = "page_align sz" and ?G = "page_align guard" and ?m = "(size_sub (r_end r) (r_start r) - page_align sz) div 0x1000"
  have run: "memregionFindRandom query vm r sz guard rng i = find_attempts query vm r ?S ?G ?m rng RANDOM_MAX_ATTEMPTS i"
    using assms(3) by (simp add: memregionFindRandom_def Let_def)
  have G: "?G < 2 ^ 64"
    using div_times_less_eq_dividend [of "size_add guard 0xFFF" "0x1000"] size_add_less [of guard "0xFFF"]
    unfolding page_align_def by (rule le_less_trans)
  have "find_attempts query vm r ?S ?G ?m rng RANDOM_MAX_ATTEMPTS i = None" if "\<forall>n. \<not> good (rng n)"
  proof -
    have "pick_addr vm r ?S ?m rng i = None"
      using pick_addr_sound [of vm r ?S ?m rng i] that unfolding good_def by (cases "pick_addr vm r ?S ?m rng i") auto
    then show ?thesis by (simp add: first_attempt)
  qed
  then show ?thesis unfolding run using find_attempts_total [OF assms(1,2) G] unfolding good_def by blast
qed

text \<open>
  C32. The reservations refine a list of ranges: after any sequence of reservations (some of
  which may fail for lack of memory) and releases, the doubly linked list holds exactly the live
  ones, the latest first, and the test for a reserved range answers by the first of them that
  overlaps, guard areas included.
\<close>

theorem reservations_refine_list:
  assumes "ops_ok xs []"
  shows "\<exists>vm'. exec_ops xs virtmem_init = Some vm' \<and> holds vm' (fold spec_op xs []) \<and>
     memregionIsReserved vm' s e g =
       Some (map_option (\<lambda>(x, r). size_add (r_end r) g)
         (find (\<lambda>(x, r). memregionOverlaps r (size_sub s g) (size_add e g)) (fold spec_op xs [])))"
  using exec_ops_refines [OF holds_init assms] reserved_holds by blast

theorem reservations_refine_list_witness:
  "\<exists>vm'. exec_ops [Reserve 16 0x1000 0x1000, Reserve 0 0 0, Reserve 32 0x4000 0x1000, Release 16] virtmem_init = Some vm' \<and>
     memregionIsReserved vm' 0x5000 0x6000 0x1000 = Some (Some 0x6000) \<and> memregionIsReserved vm' 0x1000 0x2000 0 = Some None"
proof -
  let ?ops = "[Reserve 16 0x1000 0x1000, Reserve 0 0 0, Reserve 32 0x4000 0x1000, Release 16]"
  have ok: "ops_ok ?ops []" by simp
  have "fold spec_op ?ops [] = [(32, \<lparr>r_start = 0x4000, r_end = 0x5000\<rparr>)]" by (simp add: SIZE_MAX_def)
  then show ?thesis
    using reservations_refine_list [OF ok, of "0x5000" "0x6000" "0x1000"] reservations_refine_list [OF ok, of "0x1000" "0x2000" 0]
    by (auto simp: memregionOverlaps_def SIZE_MAX_def)
qed

definition witness_vm :: virtmem where
  "witness_vm = virtmem_init\<lparr>g_AliasRegion := \<lparr>r_start = 0x4000, r_end = 0x6000\<rparr>, g_HeapRegion := \<lparr>r_start = 0x8000, r_end = 0x9000\<rparr>\<rparr>"

definition witness_region :: MemRegion where
  "witness_region = \<lparr>r_start = 0x3000, r_end = 0x10000\<rparr>"

lemma witness_vm_holds: "holds witness_vm []"
  by (simp add: holds_def witness_vm_def virtmem_init_def)

lemma witness_finds:
  "memregionFindRandom small_memory witness_vm witness_region 0x800 1 (\<lambda>n. 3 * n + 1) 0 = Some (0x7000, 2)"
proof -
  have S: "page_align 0x800 = 0x1000" "page_align (Suc 0) = 0x1000" by (simp_all add: page_align_def SIZE_MAX_def)
  have "pick_addr witness_vm witness_region 0x1000 12 (\<lambda>n. 3 * n + 1) 0 = Some (0x7000, 2)"
    by (simp add: pick_addr_step avoids_def candidate_def witness_region_def witness_vm_def memregionOverlaps_def SIZE_MAX_def)
  moreover have "memregionIsMapped small_memory 0x7000 (size_add 0x7000 0x1000) 0x1000 = Some None"
    by (simp add: memregionIsMapped_def small_memory_def block_def SIZE_MAX_def)
  ultimately show ?thesis
    using reserved_holds [OF witness_vm_holds, of "0x7000" "size_add 0x7000 0x1000" "0x1000"]
    unfolding memregionFindRandom_def first_attempt by (simp add: S first_attempt witness_region_def SIZE_MAX_def)
qed

theorem virtmem_find_safe_witness:
  "memregionFindRandom small_memory witness_vm witness_region 0x800 1 (\<lambda>n. 3 * n + 1) 0 = Some (0x7000, 2) \<and>
   0x800 \<le> page_align 0x800 \<and> \<not> memregionOverlaps (g_AliasRegion witness_vm) 0x7000 0x8000 \<and>
   (\<exists>mi. small_memory 0x8fff = Some mi \<and> mi_type mi = MemoryType_value MemType_Unmapped)"
proof -
  have S: "page_align 0x800 = 0x1000" "page_align (Suc 0) = 0x1000" by (simp_all add: page_align_def SIZE_MAX_def)
  have "region_good witness_region (page_align 1)" by (simp add: region_good_def witness_region_def S)
  from virtmem_find_safe [OF small_memory_answers witness_vm_holds _ this witness_finds]
  have "\<not> memregionOverlaps (g_AliasRegion witness_vm) 0x7000 0x8000 \<and>
     (\<forall>x. 0x6000 \<le> x \<and> x < 0x9000 \<longrightarrow> (\<exists>mi. small_memory x = Some mi \<and> mi_type mi = MemoryType_value MemType_Unmapped))"
    unfolding One_nat_def S by simp
  then show ?thesis using witness_finds S(1) by simp
qed

theorem virtmem_find_terminates_witness:
  "\<exists>a j. memregionFindRandom small_memory witness_vm witness_region 0x800 1 (\<lambda>n. 0) 0 = Some (a, j)"
proof -
  have S: "page_align 0x800 = 0x1000" by (simp add: page_align_def SIZE_MAX_def)
  have le: "page_align 0x800 \<le> size_sub (r_end witness_region) (r_start witness_region)"
    by (simp add: S witness_region_def SIZE_MAX_def)
  have "avoids witness_vm (candidate witness_region m 0) 0x1000" for m
    by (simp add: avoids_def candidate_def witness_region_def witness_vm_def memregionOverlaps_def SIZE_MAX_def)
  then show ?thesis
    using virtmem_find_terminates [OF small_memory_answers witness_vm_holds le, of "\<lambda>n. 0" 1 0] unfolding S by blast
qed

text \<open>
  A request within a page of \<open>SIZE_MAX\<close> wraps to a size of zero when it is rounded up, passes
  the test against the region size, and is answered with an address instead of \<open>NULL\<close>.
\<close>

theorem huge_request_is_granted:
  "page_align (2 ^ 64 - 1) = 0 \<and>
   memregionFindRandom small_memory witness_vm witness_region (2 ^ 64 - 1) 0 (\<lambda>n. 0) 0 = Some (0x3000, 1)"
proof -
  have S: "page_align (2 ^ 64 - 1) = 0" "page_align 0 = 0" by (simp_all add: page_align_def size_add_def)
  have "pick_addr witness_vm witness_region 0 13 (\<lambda>n. 0) 0 = Some (0x3000, 1)"
    by (simp add: pick_addr_step avoids_def candidate_def witness_region_def witness_vm_def memregionOverlaps_def SIZE_MAX_def)
  moreover have "memregionIsMapped small_memory 0x3000 (size_add 0x3000 0) 0 = Some None"
    by (simp add: memregionIsMapped_def small_memory_def block_def SIZE_MAX_def)
  moreover have "memregionIsReserved witness_vm 0x3000 (size_add 0x3000 0) 0 = Some None"
    using reserved_holds [OF witness_vm_holds, of "0x3000" "size_add 0x3000 0" 0] by simp
  ultimately show ?thesis
    unfolding memregionFindRandom_def S by (simp add: first_attempt witness_region_def SIZE_MAX_def Let_def S)
qed

definition kernel_region :: "(InfoType \<Rightarrow> Result \<times> nat) \<Rightarrow> InfoType \<Rightarrow> InfoType \<Rightarrow> MemRegion" where
  "kernel_region get_info a n = \<lparr>r_start = snd (get_info a), r_end = size_add (snd (get_info a)) (snd (get_info n))\<rparr>"

lemma init_with_info:
  "memregionInitWithInfo get_info r a n =
     (if R_FAILED (fst (get_info a)) then (fst (get_info a), r)
      else (fst (get_info n), if R_FAILED (fst (get_info n)) then r else kernel_region get_info a n))"
  by (simp add: memregionInitWithInfo_def kernel_region_def R_SUCCEEDED_def R_FAILED_def split_beta)

text \<open>
  After set-up the alias and heap regions are the ones the kernel reports. On a kernel that
  also reports the address-space and stack regions those are used and code memory goes anywhere
  in the address space; on an older kernel the two are the built-in ranges for a 32-bit or 36-bit
  address space, the stack inside the address space, and code memory goes into the stack region.
\<close>

theorem virtmem_setup_regions:
  "(case virtmemSetup get_info rc virtmem_init of
      Inl e \<Rightarrow> e \<in> {LIBNXRESULT LibnxError_WeirdKernel, LIBNXRESULT LibnxError_BadGetInfo_Heap, LIBNXRESULT LibnxError_BadGetInfo_Stack}
    | Inr vm \<Rightarrow>
        g_AliasRegion vm = kernel_region get_info InfoType_AliasRegionAddress InfoType_AliasRegionSize \<and>
        g_HeapRegion vm = kernel_region get_info InfoType_HeapRegionAddress InfoType_HeapRegionSize \<and>
        (if g_IsLegacyKernel vm
         then (g_AslrRegion vm, g_StackRegion vm) \<in>
             {(memregionInitHardcoded 0x200000 0x100000000, memregionInitHardcoded 0x200000 0x40000000),
              (memregionInitHardcoded 0x8000000 0x1000000000, memregionInitHardcoded 0x8000000 0x80000000)} \<and>
           memregionIsInside (g_AslrRegion vm) (r_start (g_StackRegion vm)) (r_end (g_StackRegion vm)) \<and>
           virtmemFindCodeMemory query vm = virtmemFindStack query vm
         else g_AslrRegion vm = kernel_region get_info InfoType_AslrRegionAddress InfoType_AslrRegionSize \<and>
           g_StackRegion vm = kernel_region get_info InfoType_StackRegionAddress InfoType_StackRegionSize \<and>
           virtmemFindCodeMemory query vm = virtmemFindAslr query vm))"
  unfolding virtmemSetup_def init_with_info virtmem_init_def
  by (simp add: Let_def case_prod_beta R_SUCCEEDED_def R_FAILED_def memregionIsInside_def memregionInitHardcoded_def virtmemFindCodeMemory_def
      virtmemFindStack_def virtmemFindAslr_def fun_eq_iff)

end
