(* ===== verification/Armv8.thy ===== *)
theory Armv8
  imports Prelude
begin

text \<open>
  The instruction encoders of \<open>lib/armv8\<close>: the bit fields of \<open>util/math/bitset.hpp\<close>, the
  registers, and one constructor per instruction class, as 32-bit words. The reading of the
  encodings (branch offsets and fields) that the properties use is at the end.
\<close>

section \<open>Bit sets\<close>

definition mask_value :: "nat \<Rightarrow> nat \<Rightarrow> u32" where
  "mask_value low high = push_bit low (push_bit (high - low) 1 - 1)"

definition BitsOf :: "nat \<Rightarrow> nat \<Rightarrow> u32 \<Rightarrow> u32" where
  "BitsOf low high m_Data = drop_bit low (m_Data AND mask_value low high)"

definition SetBits :: "nat \<Rightarrow> nat \<Rightarrow> u32 \<Rightarrow> u32 \<Rightarrow> u32" where
  "SetBits low high v m_Data = (m_Data AND NOT (mask_value low high)) OR (push_bit low v AND mask_value low high)"

definition SetBit :: "nat \<Rightarrow> u32 \<Rightarrow> u32 \<Rightarrow> u32" where
  "SetBit low v = SetBits low (low + 1) v"

text \<open>\<open>util::SignExtend\<close>: the low bits of the value, as the bit field of the struct holds them.\<close>

definition SignExtend :: "nat \<Rightarrow> u32 \<Rightarrow> u32" where
  "SignExtend bits value = signed_take_bit (bits - 1) value AND (push_bit bits 1 - 1)"

section \<open>Registers\<close>

record Register =
  Is64 :: bool
  Index :: nat

definition WReg :: "nat \<Rightarrow> Register" where "WReg i = \<lparr>Is64 = False, Index = i mod 128\<rparr>"
definition XReg :: "nat \<Rightarrow> Register" where "XReg i = \<lparr>Is64 = True, Index = i mod 128\<rparr>"
definition LR :: Register where "LR = XReg 30"
definition SP :: Register where "SP = XReg 31"
definition None32 :: Register where "None32 = WReg 255"
definition None64 :: Register where "None64 = XReg 255"

definition reg_index :: "Register \<Rightarrow> u32" where "reg_index r = word_of_nat (Index r)"
definition is64 :: "Register \<Rightarrow> u32" where "is64 r = (if Is64 r then 1 else 0)"

definition SetRd :: "Register \<Rightarrow> u32 \<Rightarrow> u32" where "SetRd r = SetBits 0 5 (reg_index r)"
definition SetRn :: "Register \<Rightarrow> u32 \<Rightarrow> u32" where "SetRn r = SetBits 5 10 (reg_index r)"
definition SetRm :: "Register \<Rightarrow> u32 \<Rightarrow> u32" where "SetRm r = SetBits 16 21 (reg_index r)"

definition Instruction :: "u32 \<Rightarrow> u32" where
  "Instruction op0 = SetBits 25 29 op0 0"

datatype ShiftType = ShiftType_LSL | ShiftType_LSR | ShiftType_ASR | ShiftType_ROR

primrec ShiftType_value :: "ShiftType \<Rightarrow> u32" where
  "ShiftType_value ShiftType_LSL = 0"
| "ShiftType_value ShiftType_LSR = 1"
| "ShiftType_value ShiftType_ASR = 2"
| "ShiftType_value ShiftType_ROR = 3"

text \<open>\<open>ExtendType_LSL\<close> has the value of \<open>ExtendType_UXTX\<close>.\<close>

datatype ExtendType = ExtendType_UXTB | ExtendType_UXTH | ExtendType_UXTW | ExtendType_UXTX
  | ExtendType_SXTB | ExtendType_SXTH | ExtendType_SXTW | ExtendType_SXTX

abbreviation ExtendType_LSL :: ExtendType where "ExtendType_LSL \<equiv> ExtendType_UXTX"

datatype ShiftValue = ShiftValue_0 | ShiftValue_16 | ShiftValue_32 | ShiftValue_48

primrec ShiftValue_value :: "ShiftValue \<Rightarrow> u32" where
  "ShiftValue_value ShiftValue_0 = 0"
| "ShiftValue_value ShiftValue_16 = 1"
| "ShiftValue_value ShiftValue_32 = 2"
| "ShiftValue_value ShiftValue_48 = 3"

section \<open>Data processing, immediate\<close>

definition Op100xInstruction :: "u32 \<Rightarrow> u32" where
  "Op100xInstruction op0 = SetBits 23 26 op0 (Instruction 0b1000)"

definition AddSubtractImmediate :: "u32 \<Rightarrow> u32 \<Rightarrow> u32 \<Rightarrow> u32" where
  "AddSubtractImmediate sf op s = SetBit 29 s (SetBit 30 op (SetBit 31 sf (Op100xInstruction 0b010)))"

definition CalcSh :: "u32 \<Rightarrow> bool" where
  "CalcSh imm \<longleftrightarrow> imm \<noteq> 0 \<and> imm AND 0xFFF = 0"

definition CalcImm :: "u32 \<Rightarrow> u32" where
  "CalcImm imm = take_bit 16 (if CalcSh imm then drop_bit 12 imm else imm)"

definition SetImmSh :: "u32 \<Rightarrow> u32 \<Rightarrow> u32" where
  "SetImmSh imm w = SetBit 22 (if CalcSh imm then 1 else 0) (SetBits 10 22 (CalcImm imm) w)"

definition AddImmediate :: "Register \<Rightarrow> Register \<Rightarrow> u32 \<Rightarrow> u32" where
  "AddImmediate rd rn imm = SetImmSh imm (SetRn rn (SetRd rd (AddSubtractImmediate (is64 rd) 0 0)))"

definition AddsImmediate :: "Register \<Rightarrow> Register \<Rightarrow> u32 \<Rightarrow> u32" where
  "AddsImmediate rd rn imm = SetImmSh imm (SetRn rn (SetRd rd (AddSubtractImmediate (is64 rd) 0 1)))"

definition SubImmediate :: "Register \<Rightarrow> Register \<Rightarrow> u32 \<Rightarrow> u32" where
  "SubImmediate rd rn imm = SetImmSh imm (SetRn rn (SetRd rd (AddSubtractImmediate (is64 rd) 1 0)))"

definition SubsImmediate :: "Register \<Rightarrow> Register \<Rightarrow> u32 \<Rightarrow> u32" where
  "SubsImmediate rd rn imm = SetImmSh imm (SetRn rn (SetRd rd (AddSubtractImmediate (is64 rd) 1 1)))"

definition none_like :: "Register \<Rightarrow> Register" where
  "none_like r = (if Is64 r then None64 else None32)"

definition CmnImmediate :: "Register \<Rightarrow> u32 \<Rightarrow> u32" where
  "CmnImmediate r imm = AddsImmediate (none_like r) r imm"

definition CmpImmediate :: "Register \<Rightarrow> u32 \<Rightarrow> u32" where
  "CmpImmediate r imm = SubsImmediate (none_like r) r imm"

definition MoveWideImmediate :: "Register \<Rightarrow> u32 \<Rightarrow> u32 \<Rightarrow> u16 \<Rightarrow> u32" where
  "MoveWideImmediate r opc hw imm =
     SetRd r (SetBits 5 21 (ucast imm) (SetBits 21 23 hw (SetBits 29 31 opc (SetBit 31 (is64 r) (Op100xInstruction 0b101)))))"

definition Movk :: "Register \<Rightarrow> u16 \<Rightarrow> ShiftValue \<Rightarrow> u32" where
  "Movk r imm shift = MoveWideImmediate r 0b11 (ShiftValue_value shift) imm"

definition Movn :: "Register \<Rightarrow> u16 \<Rightarrow> ShiftValue \<Rightarrow> u32" where
  "Movn r imm shift = MoveWideImmediate r 0b00 (ShiftValue_value shift) imm"

definition Movz :: "Register \<Rightarrow> u16 \<Rightarrow> ShiftValue \<Rightarrow> u32" where
  "Movz r imm shift = MoveWideImmediate r 0b10 (ShiftValue_value shift) imm"

definition PcRelAddressing :: "Register \<Rightarrow> u32 \<Rightarrow> u32 \<Rightarrow> u32" where
  "PcRelAddressing r imm op =
     SetRd r (SetBits 5 24 (drop_bit 2 imm) (SetBits 29 31 imm (SetBit 31 op (Op100xInstruction 0b000))))"

definition Adr :: "Register \<Rightarrow> u32 \<Rightarrow> u32" where
  "Adr r imm = PcRelAddressing r imm 0"

definition Adrp :: "Register \<Rightarrow> u32 \<Rightarrow> u32" where
  "Adrp r imm = PcRelAddressing r (drop_bit 12 imm) 1"

section \<open>Branches and hints\<close>

definition Op101xInstruction :: "u32 \<Rightarrow> u32" where
  "Op101xInstruction op0 = SetBits 29 32 op0 (Instruction 0b1010)"

definition Hints :: u32 where
  "Hints = SetBits 0 5 0b11111 (SetBits 12 26 0b01000000110010 (Op101xInstruction 0b110))"

definition Nop :: u32 where
  "Nop = SetBits 5 8 0 (SetBits 8 12 0 Hints)"

definition UnconditionalBranchImmediate :: "u32 \<Rightarrow> u32 \<Rightarrow> u32" where
  "UnconditionalBranchImmediate op relative_address =
     SetBits 0 26 (relative_address div 4) (SetBit 31 op (Op101xInstruction 0b000))"

definition Branch :: "u32 \<Rightarrow> u32" where
  "Branch relative_address = UnconditionalBranchImmediate 0 relative_address"

definition BranchLink :: "u32 \<Rightarrow> u32" where
  "BranchLink relative_address = UnconditionalBranchImmediate 1 relative_address"

definition UnconditionalBranchRegister :: "u32 \<Rightarrow> u32 \<Rightarrow> u32" where
  "UnconditionalBranchRegister opc op2 =
     SetBits 16 21 op2 (SetBits 21 25 opc (SetBits 12 26 0b10000000000000 (Op101xInstruction 0b110)))"

definition BranchRegister :: "Register \<Rightarrow> u32" where
  "BranchRegister rn = SetBits 0 5 0 (SetRn rn (SetBits 10 16 0 (UnconditionalBranchRegister 0b0000 0b11111)))"

definition Ret :: "Register \<Rightarrow> u32" where
  "Ret rn = SetBits 0 5 0 (SetRn rn (SetBits 10 16 0 (UnconditionalBranchRegister 0b0010 0b11111)))"

section \<open>Data processing, register\<close>

definition Opx101Instruction :: "u32 \<Rightarrow> u32 \<Rightarrow> u32 \<Rightarrow> u32 \<Rightarrow> u32" where
  "Opx101Instruction op0 op1 op2 op3 =
     SetBits 10 15 op3 (SetBits 20 24 op2 (SetBit 28 op1 (SetBit 30 op0 (Instruction 0b0101))))"

definition LogicalShiftedRegister :: "u32 \<Rightarrow> u32 \<Rightarrow> u32" where
  "LogicalShiftedRegister sf opc = SetBits 29 31 opc (SetBit 31 sf (Opx101Instruction 0 0 0 0))"

definition OrrShiftedRegister :: "Register \<Rightarrow> Register \<Rightarrow> Register \<Rightarrow> ShiftType \<Rightarrow> u16 \<Rightarrow> u32" where
  "OrrShiftedRegister rd rn rm shift amount =
     SetRd rd (SetRn rn (SetBits 10 16 (ucast amount) (SetRm rm (SetBit 21 0 (SetBits 22 24 (ShiftType_value shift)
       (LogicalShiftedRegister (is64 rd) 0b01))))))"

definition MovRegister :: "Register \<Rightarrow> Register \<Rightarrow> u32" where
  "MovRegister rd rm = OrrShiftedRegister rd (none_like rd) rm ShiftType_LSL 0"

section \<open>Loads and stores\<close>

definition Opx1x0Instruction :: "u32 \<Rightarrow> u32" where
  "Opx1x0Instruction op0 = SetBits 28 32 op0 (Instruction 0b0100)"

definition GetSize :: "Register \<Rightarrow> u32" where
  "GetSize rt = 0b10 OR is64 rt"

definition LoadRegisterLiteral :: "Register \<Rightarrow> u32 \<Rightarrow> u32 \<Rightarrow> u32 \<Rightarrow> u32" where
  "LoadRegisterLiteral rt imm19 v opc =
     SetRd rt (SetBits 5 24 (SignExtend 19 imm19) (SetBit 26 v (SetBits 30 31 opc
       (SetBits 23 25 0b00 (SetBits 28 32 0b0001 (Opx1x0Instruction 0b0001))))))"

definition LdrLiteral :: "Register \<Rightarrow> u32 \<Rightarrow> u32" where
  "LdrLiteral rt relative_distance = LoadRegisterLiteral rt (relative_distance div 4) 0 (is64 rt)"

definition LoadStoreRegisterOffset :: "u32 \<Rightarrow> u32 \<Rightarrow> u32 \<Rightarrow> u32" where
  "LoadStoreRegisterOffset sz v opc =
     SetBit 26 v (SetBits 10 12 0b10 (SetBits 16 22 0b100000 (SetBits 23 25 0b00 (SetBit 26 0
       (SetBits 22 24 opc (SetBits 30 32 sz (Opx1x0Instruction 0b0011)))))))"

primrec CreateOption :: "ExtendType \<Rightarrow> u32" where
  "CreateOption ExtendType_UXTB = 0b000"
| "CreateOption ExtendType_UXTH = 0b000"
| "CreateOption ExtendType_UXTW = 0b010"
| "CreateOption ExtendType_UXTX = 0b011"
| "CreateOption ExtendType_SXTB = 0b000"
| "CreateOption ExtendType_SXTH = 0b000"
| "CreateOption ExtendType_SXTW = 0b110"
| "CreateOption ExtendType_SXTX = 0b111"

definition CreateS :: "Register \<Rightarrow> u8 \<Rightarrow> bool" where
  "CreateS rt amount =
     (if amount = 0 then False
      else if Is64 rt \<and> amount = 3 then True
      else if \<not> Is64 rt \<and> amount = 2 then True
      else False)"

definition register_offset :: "u32 \<Rightarrow> Register \<Rightarrow> Register \<Rightarrow> Register \<Rightarrow> ExtendType \<Rightarrow> u8 \<Rightarrow> u32" where
  "register_offset opc rt rn rm ext amount =
     SetRn rn (SetRd rt (SetBit 12 (if CreateS rt amount then 1 else 0) (SetBits 13 16 (CreateOption ext)
       (SetRm rm (SetBits 30 32 (GetSize rt) (LoadStoreRegisterOffset (GetSize rt) 0 opc))))))"

definition LdrRegisterOffset :: "Register \<Rightarrow> Register \<Rightarrow> Register \<Rightarrow> ExtendType \<Rightarrow> u8 \<Rightarrow> u32" where
  "LdrRegisterOffset rt rn rm ext amount = register_offset 0b01 rt rn rm ext amount"

definition StrRegisterOffset :: "Register \<Rightarrow> Register \<Rightarrow> Register \<Rightarrow> ExtendType \<Rightarrow> u8 \<Rightarrow> u32" where
  "StrRegisterOffset rt rn rm ext amount = register_offset 0b00 rt rn rm ext amount"

definition LoadStoreRegisterUnscaledImmediate :: "u32 \<Rightarrow> u32 \<Rightarrow> u32 \<Rightarrow> u16 \<Rightarrow> Register \<Rightarrow> Register \<Rightarrow> u32" where
  "LoadStoreRegisterUnscaledImmediate sz v opc imm9 rn rt =
     SetRd rt (SetRn rn (SetBits 12 21 (SignExtend 9 (ucast imm9)) (SetBits 22 24 opc (SetBit 26 v (SetBits 30 32 sz
       (SetBits 10 12 0b00 (SetBits 16 22 0b000000 (SetBits 23 25 0b00 (Opx1x0Instruction 0b0011)))))))))"

definition LdurUnscaledImmediate :: "Register \<Rightarrow> Register \<Rightarrow> u16 \<Rightarrow> u32" where
  "LdurUnscaledImmediate rt rn imm9 = LoadStoreRegisterUnscaledImmediate (GetSize rt) 0 0b01 imm9 rn rt"

definition SturUnscaledImmediate :: "Register \<Rightarrow> Register \<Rightarrow> u16 \<Rightarrow> u32" where
  "SturUnscaledImmediate rt rn imm12 = LoadStoreRegisterUnscaledImmediate (GetSize rt) 0 0b00 imm12 rn rt"

definition LoadStoreRegisterUnsignedImmediate :: "u32 \<Rightarrow> u32 \<Rightarrow> u32 \<Rightarrow> u16 \<Rightarrow> Register \<Rightarrow> Register \<Rightarrow> u32" where
  "LoadStoreRegisterUnsignedImmediate sz v opc imm12 rn rt =
     SetRd rt (SetRn rn (SetBits 10 22 (ucast imm12) (SetBits 22 24 opc (SetBit 26 v (SetBits 30 32 sz
       (SetBits 23 25 0b10 (Opx1x0Instruction 0b0011)))))))"

definition LdrRegisterImmediate :: "Register \<Rightarrow> Register \<Rightarrow> u16 \<Rightarrow> u32" where
  "LdrRegisterImmediate rt rn imm12 = LoadStoreRegisterUnsignedImmediate (GetSize rt) 0 0b01 imm12 rn rt"

definition StrRegisterImmediate :: "Register \<Rightarrow> Register \<Rightarrow> u16 \<Rightarrow> u32" where
  "StrRegisterImmediate rt rn imm12 = LoadStoreRegisterUnsignedImmediate (GetSize rt) 0 0b00 imm12 rn rt"

section \<open>Fields\<close>

lemma mask_value_mask: "mask_value low high = push_bit low (mask (high - low))"
  by (simp add: mask_value_def mask_eq_exp_minus_1 push_bit_eq_mult)

lemma bit_SetBits [bit_simps]:
  "bit (SetBits low high v w) n \<longleftrightarrow> n < 32 \<and> (if low \<le> n \<and> n < high then bit v (n - low) else bit w n)"
  by (auto simp: SetBits_def mask_value_mask bit_simps)

lemma bit_BitsOf [bit_simps]:
  "bit (BitsOf low high w) n \<longleftrightarrow> n + low < 32 \<and> n + low < high \<and> bit w (n + low)"
  by (auto simp: BitsOf_def mask_value_mask bit_simps add.commute)

text \<open>A field reads back what was put into it, and setting a field leaves disjoint fields alone.\<close>

lemma BitsOf_SetBits: "high \<le> 32 \<Longrightarrow> BitsOf low high (SetBits low high v w) = take_bit (high - low) v"
  by (rule bit_word_eqI) (auto simp: bit_simps)

lemma BitsOf_SetBits_other: "h \<le> low \<or> high \<le> l \<Longrightarrow> BitsOf l h (SetBits low high v w) = BitsOf l h w"
  by (rule bit_word_eqI) (auto simp: bit_simps)

section \<open>Reading branches\<close>

text \<open>The byte offset in the low 26 bits of an unconditional branch.\<close>

definition imm26 :: "u32 \<Rightarrow> int" where
  "imm26 w = 4 * signed_take_bit 25 (uint w)"

definition is_b :: "u32 \<Rightarrow> bool" where "is_b w \<longleftrightarrow> BitsOf 26 32 w = 0b000101"
definition is_bl :: "u32 \<Rightarrow> bool" where "is_bl w \<longleftrightarrow> BitsOf 26 32 w = 0b100101"

lemma imm26_cong:
  assumes "\<And>n. n < 26 \<Longrightarrow> bit w n = bit w' n"
  shows "imm26 w = imm26 w'"
proof -
  have "take_bit 26 (uint w) = take_bit 26 (uint w')"
    by (rule bit_eqI) (use assms in \<open>auto simp: bit_simps\<close>)
  then have "signed_take_bit 25 (take_bit 26 (uint w)) = signed_take_bit 25 (take_bit 26 (uint w'))" by simp
  then show ?thesis by (simp add: imm26_def signed_take_bit_take_bit)
qed

text \<open>A multiple of four within reach, divided by four as an unsigned number, is still its own signed field.\<close>

lemma imm26_of_offset:
  assumes k: "- (2 ^ 25) \<le> k" "k < 2 ^ 25"
  shows "imm26 (word_of_int (4 * k) div 4) = 4 * k"
proof -
  have u: "uint (word_of_int (4 * k) :: u32) = (4 * k) mod 2 ^ 32" unfolding uint_word_of_int by simp
  have "uint (word_of_int (4 * k) div 4 :: u32) = (4 * k) mod 2 ^ 32 div 4"
    unfolding uint_div_distrib u by simp
  also have "\<dots> = k mod 2 ^ 30" using mod_mult_mult1 [of 4 k "2 ^ 30"] by simp
  finally have "imm26 (word_of_int (4 * k) div 4) = 4 * signed_take_bit 25 (take_bit 30 k)"
    by (simp add: imm26_def take_bit_eq_mod)
  also have "signed_take_bit 25 (take_bit 30 k) = signed_take_bit 25 k" by (simp add: signed_take_bit_take_bit)
  also have "\<dots> = k" by (rule signed_take_bit_int_eq_self) (use k in simp_all)
  finally show ?thesis .
qed

lemma branch_fields:
  "imm26 (UnconditionalBranchImmediate op rel) = imm26 (rel div 4)"
  by (rule imm26_cong) (simp add: UnconditionalBranchImmediate_def bit_simps)

lemma branch_opcodes: "is_b (Branch rel)" "is_bl (BranchLink rel)"
  unfolding is_b_def is_bl_def Branch_def BranchLink_def UnconditionalBranchImmediate_def
  by (subst BitsOf_SetBits_other; simp add: BitsOf_def mask_value_def SetBit_def SetBits_def Op101xInstruction_def Instruction_def)+

text \<open>
  The two branch constructors encode any offset that is a multiple of four within 128 MiB,
  in either direction: the word they give is the branch (or the branch with link) whose
  displacement is that offset. Dividing the offset as an unsigned number does no harm.
\<close>

theorem branch_displacement:
  assumes "sint rel mod 4 = 0" and "- (2 ^ 27) \<le> sint rel" and "sint rel < 2 ^ 27"
  shows "is_b (Branch rel) \<and> imm26 (Branch rel) = sint rel \<and> is_bl (BranchLink rel) \<and> imm26 (BranchLink rel) = sint rel"
proof -
  obtain k where k: "sint rel = 4 * k" using assms(1) by (metis mod_0_imp_dvd dvdE)
  have "rel = word_of_int (sint rel)" by simp
  then have r: "rel = word_of_int (4 * k)" unfolding k .
  have "imm26 (rel div 4) = sint rel" unfolding k unfolding r by (rule imm26_of_offset) (use assms k in simp_all)
  then show ?thesis using branch_opcodes by (simp add: Branch_def BranchLink_def branch_fields)
qed

theorem branch_displacement_witness:
  "imm26 (Branch (- 8)) = - 8 \<and> imm26 (BranchLink 0x4440) = 0x4440"
proof -
  have "sint (- 8 :: u32) = - 8" "sint (0x4440 :: u32) = 0x4440" by simp_all
  then show ?thesis using branch_displacement [of "- 8"] branch_displacement [of "0x4440"] by simp
qed

section \<open>The static assertions\<close>

text \<open>
  The encodings that the source states next to each constructor, one list per file: what the
  constructor gives, and what it is asserted to give.
\<close>

definition AddImmediate_asserts :: "(u32 \<times> u32) list" where
  "AddImmediate_asserts =
     [(AddImmediate (XReg 0) (XReg 1) 12, 0x91003020), (AddImmediate (XReg 2) (XReg 3) 46, 0x9100B862),
      (AddImmediate (XReg 4) (XReg 5) 0x1000, 0x914004A4), (AddImmediate (WReg 6) (WReg 7) 0x57000, 0x11415CE6)]"

definition AddsImmediate_asserts :: "(u32 \<times> u32) list" where
  "AddsImmediate_asserts =
     [(AddsImmediate (XReg 0) (XReg 1) 12, 0xB1003020), (AddsImmediate (XReg 2) (XReg 3) 46, 0xB100B862),
      (AddsImmediate (XReg 4) (XReg 5) 0x1000, 0xB14004A4), (AddsImmediate (WReg 6) (WReg 7) 0x57000, 0x31415CE6)]"

definition CmnImmediate_asserts :: "(u32 \<times> u32) list" where
  "CmnImmediate_asserts =
     [(CmnImmediate (XReg 0) 45, 0xB100B41F), (CmnImmediate (WReg 1) 32, 0x3100803F),
      (CmnImmediate (XReg 2) 0x4000, 0xB140105F), (CmnImmediate (XReg 3) 0x54000, 0xB141507F)]"

definition CmpImmediate_asserts :: "(u32 \<times> u32) list" where
  "CmpImmediate_asserts =
     [(CmpImmediate (XReg 0) 45, 0xF100B41F), (CmpImmediate (WReg 1) 32, 0x7100803F),
      (CmpImmediate (XReg 2) 0x4000, 0xF140105F), (CmpImmediate (XReg 3) 0x54000, 0xF141507F)]"

definition SubImmediate_asserts :: "(u32 \<times> u32) list" where
  "SubImmediate_asserts =
     [(SubImmediate (XReg 0) (XReg 1) 12, 0xD1003020), (SubImmediate (XReg 2) (XReg 3) 46, 0xD100B862),
      (SubImmediate (XReg 4) (XReg 5) 0x1000, 0xD14004A4), (SubImmediate (WReg 6) (WReg 7) 0x57000, 0x51415CE6)]"

definition SubsImmediate_asserts :: "(u32 \<times> u32) list" where
  "SubsImmediate_asserts =
     [(SubsImmediate (XReg 0) (XReg 1) 12, 0xF1003020), (SubsImmediate (XReg 2) (XReg 3) 46, 0xF100B862),
      (SubsImmediate (XReg 4) (XReg 5) 0x1000, 0xF14004A4), (SubsImmediate (WReg 6) (WReg 7) 0x57000, 0x71415CE6)]"

definition Movk_asserts :: "(u32 \<times> u32) list" where
  "Movk_asserts =
     [(Movk (XReg 0) 0x10 ShiftValue_0, 0xF2800200), (Movk (WReg 1) 0x15 ShiftValue_0, 0x728002A1),
      (Movk (XReg 2) 0x12 ShiftValue_0, 0xF2800242), (Movk (XReg 3) 0x555 ShiftValue_0, 0xF280AAA3),
      (Movk (WReg 3) 0x555 ShiftValue_16, 0x72A0AAA3), (Movk (WReg 3) 0x235 ShiftValue_16, 0x72A046A3),
      (Movk (XReg 7) 0x653 ShiftValue_32, 0xF2C0CA67), (Movk (XReg 8) 0x652 ShiftValue_32, 0xF2C0CA48),
      (Movk (XReg 9) 0x542 ShiftValue_48, 0xF2E0A849), (Movk (XReg 6) 0x634 ShiftValue_48, 0xF2E0C686)]"

definition Movn_asserts :: "(u32 \<times> u32) list" where
  "Movn_asserts =
     [(Movn (XReg 0) 0x10 ShiftValue_0, 0x92800200), (Movn (WReg 1) 0x15 ShiftValue_0, 0x128002A1),
      (Movn (XReg 2) 0x12 ShiftValue_0, 0x92800242), (Movn (XReg 3) 0x555 ShiftValue_0, 0x9280AAA3),
      (Movn (WReg 3) 0x555 ShiftValue_16, 0x12A0AAA3), (Movn (WReg 3) 0x235 ShiftValue_16, 0x12A046A3),
      (Movn (XReg 7) 0x653 ShiftValue_32, 0x92C0CA67), (Movn (XReg 8) 0x652 ShiftValue_32, 0x92C0CA48),
      (Movn (XReg 9) 0x542 ShiftValue_48, 0x92E0A849), (Movn (XReg 6) 0x634 ShiftValue_48, 0x92E0C686)]"

definition Adr_asserts :: "(u32 \<times> u32) list" where
  "Adr_asserts =
     [(Adr (XReg 0) 0x1000, 0x10008000), (Adr (XReg 1) 0xfff0, 0x1007FF81),
      (Adr (XReg 2) 0x69669, 0x3034B342)]"

definition Adrp_asserts :: "(u32 \<times> u32) list" where
  "Adrp_asserts =
     [(Adrp (XReg 0) 0x1000, 0xB0000000), (Adrp (XReg 1) 0xfff000, 0xF0007FE1),
      (Adrp (XReg 2) 0x6969000, 0xB0034B42)]"

definition Nop_asserts :: "(u32 \<times> u32) list" where
  "Nop_asserts =
     [(Nop, 0xD503201F)]"

definition Branch_asserts :: "(u32 \<times> u32) list" where
  "Branch_asserts =
     [(Branch 0x4440, 0x14001110), (Branch 0x4200, 0x14001080),
      (Branch 0x6900, 0x14001A40), (Branch 0x0008, 0x14000002)]"

definition BranchLink_asserts :: "(u32 \<times> u32) list" where
  "BranchLink_asserts =
     [(BranchLink 0x4440, 0x94001110), (BranchLink 0x4200, 0x94001080),
      (BranchLink 0x6900, 0x94001A40), (BranchLink 0x0008, 0x94000002)]"

definition BranchRegister_asserts :: "(u32 \<times> u32) list" where
  "BranchRegister_asserts =
     [(BranchRegister (XReg 0), 0xD61F0000), (BranchRegister (XReg 1), 0xD61F0020),
      (BranchRegister (XReg 2), 0xD61F0040), (BranchRegister (XReg 3), 0xD61F0060)]"

definition Ret_asserts :: "(u32 \<times> u32) list" where
  "Ret_asserts =
     [(Ret (XReg 0), 0xD65F0000), (Ret (XReg 1), 0xD65F0020),
      (Ret (XReg 2), 0xD65F0040), (Ret (XReg 30), 0xD65F03C0),
      (Ret LR, 0xD65F03C0)]"

definition MovRegister_asserts :: "(u32 \<times> u32) list" where
  "MovRegister_asserts =
     [(MovRegister (XReg 0) (XReg 1), 0xAA0103E0), (MovRegister (XReg 2) (XReg 3), 0xAA0303E2),
      (MovRegister (XReg 4) (XReg 5), 0xAA0503E4), (MovRegister (XReg 6) (XReg 7), 0xAA0703E6)]"

definition OrrShiftedRegister_asserts :: "(u32 \<times> u32) list" where
  "OrrShiftedRegister_asserts =
     [(OrrShiftedRegister (XReg 0) (XReg 1) (XReg 2) ShiftType_LSL 0, 0xAA020020), (OrrShiftedRegister (XReg 3) (XReg 4) (XReg 5) ShiftType_LSL 0, 0xAA050083),
      (OrrShiftedRegister (XReg 6) (XReg 7) (XReg 8) ShiftType_LSL 0, 0xAA0800E6), (OrrShiftedRegister (XReg 9) (XReg 10) (XReg 11) ShiftType_LSL 0, 0xAA0B0149),
      (OrrShiftedRegister (XReg 0) (XReg 1) (XReg 2) ShiftType_LSR 8, 0xAA422020), (OrrShiftedRegister (XReg 3) (XReg 4) (XReg 5) ShiftType_LSR 8, 0xAA452083),
      (OrrShiftedRegister (XReg 6) (XReg 7) (XReg 8) ShiftType_LSR 8, 0xAA4820E6), (OrrShiftedRegister (XReg 9) (XReg 10) (XReg 11) ShiftType_LSR 8, 0xAA4B2149),
      (OrrShiftedRegister (XReg 0) (XReg 1) (XReg 2) ShiftType_ASR 8, 0xAA822020), (OrrShiftedRegister (XReg 3) (XReg 4) (XReg 5) ShiftType_ASR 8, 0xAA852083),
      (OrrShiftedRegister (XReg 6) (XReg 7) (XReg 8) ShiftType_ASR 8, 0xAA8820E6), (OrrShiftedRegister (XReg 9) (XReg 10) (XReg 11) ShiftType_ASR 8, 0xAA8B2149),
      (OrrShiftedRegister (XReg 0) (XReg 1) (XReg 2) ShiftType_ROR 8, 0xAAC22020), (OrrShiftedRegister (XReg 3) (XReg 4) (XReg 5) ShiftType_ROR 8, 0xAAC52083),
      (OrrShiftedRegister (XReg 6) (XReg 7) (XReg 8) ShiftType_ROR 8, 0xAAC820E6), (OrrShiftedRegister (XReg 9) (XReg 10) (XReg 11) ShiftType_ROR 8, 0xAACB2149)]"

definition LdrLiteral_asserts :: "(u32 \<times> u32) list" where
  "LdrLiteral_asserts =
     [(LdrLiteral (XReg 0) 0x08, 0x58000040), (LdrLiteral (WReg 1) 0x10, 0x18000081),
      (LdrLiteral (XReg 2) 0x18, 0x580000C2), (LdrLiteral (WReg 3) 0x20, 0x18000103),
      (LdrLiteral (XReg 4) 0x28, 0x58000144), (LdrLiteral (WReg 5) 0x30, 0x18000185),
      (LdrLiteral (XReg 6) 0x38, 0x580001C6), (LdrLiteral (WReg 7) 0x40, 0x18000207)]"

definition LdrRegisterOffset_asserts :: "(u32 \<times> u32) list" where
  "LdrRegisterOffset_asserts =
     [(LdrRegisterOffset (XReg 0) (XReg 1) (XReg 2) ExtendType_LSL 0, 0xF8626820), (LdrRegisterOffset (XReg 3) (XReg 4) (XReg 5) ExtendType_LSL 0, 0xF8656883),
      (LdrRegisterOffset (XReg 6) (XReg 7) (XReg 8) ExtendType_LSL 0, 0xF86868E6), (LdrRegisterOffset (XReg 0) (XReg 1) (WReg 2) ExtendType_UXTW 3, 0xF8625820),
      (LdrRegisterOffset (XReg 3) (XReg 4) (WReg 5) ExtendType_UXTW 3, 0xF8655883), (LdrRegisterOffset (XReg 6) (XReg 7) (WReg 8) ExtendType_UXTW 3, 0xF86858E6),
      (LdrRegisterOffset (XReg 0) (XReg 1) (XReg 2) ExtendType_SXTX 3, 0xF862F820), (LdrRegisterOffset (XReg 3) (XReg 4) (XReg 5) ExtendType_SXTX 3, 0xF865F883),
      (LdrRegisterOffset (XReg 6) (XReg 7) (XReg 8) ExtendType_SXTX 3, 0xF868F8E6)]"

definition StrRegisterOffset_asserts :: "(u32 \<times> u32) list" where
  "StrRegisterOffset_asserts =
     [(StrRegisterOffset (XReg 0) (XReg 1) (XReg 2) ExtendType_LSL 0, 0xF8226820), (StrRegisterOffset (XReg 3) (XReg 4) (XReg 5) ExtendType_LSL 0, 0xF8256883),
      (StrRegisterOffset (XReg 6) (XReg 7) (XReg 8) ExtendType_LSL 0, 0xF82868E6), (StrRegisterOffset (XReg 0) (XReg 1) (WReg 2) ExtendType_UXTW 3, 0xF8225820),
      (StrRegisterOffset (XReg 3) (XReg 4) (WReg 5) ExtendType_UXTW 3, 0xF8255883), (StrRegisterOffset (XReg 6) (XReg 7) (WReg 8) ExtendType_UXTW 3, 0xF82858E6),
      (StrRegisterOffset (XReg 0) (XReg 1) (XReg 2) ExtendType_SXTX 3, 0xF822F820), (StrRegisterOffset (XReg 3) (XReg 4) (XReg 5) ExtendType_SXTX 3, 0xF825F883),
      (StrRegisterOffset (XReg 6) (XReg 7) (XReg 8) ExtendType_SXTX 3, 0xF828F8E6)]"

definition LdurUnscaledImmediate_asserts :: "(u32 \<times> u32) list" where
  "LdurUnscaledImmediate_asserts =
     [(LdurUnscaledImmediate (XReg 0) (XReg 1) (- 1), 0xF85FF020), (LdurUnscaledImmediate (XReg 2) (XReg 3) 1, 0xF8401062),
      (LdurUnscaledImmediate (XReg 4) (XReg 5) (- 2), 0xF85FE0A4), (LdurUnscaledImmediate (XReg 6) (XReg 7) 2, 0xF84020E6),
      (LdurUnscaledImmediate (XReg 8) (XReg 9) (- 3), 0xF85FD128), (LdurUnscaledImmediate (XReg 10) (XReg 11) (- 4), 0xF85FC16A),
      (LdurUnscaledImmediate (XReg 12) (XReg 13) 2, 0xF84021AC), (LdurUnscaledImmediate (XReg 14) (XReg 15) (- 4), 0xF85FC1EE),
      (LdurUnscaledImmediate (WReg 16) (XReg 17) 20, 0xB8414230), (LdurUnscaledImmediate (WReg 18) (XReg 19) (- 52), 0xB85CC272),
      (LdurUnscaledImmediate (WReg 20) (XReg 21) 41, 0xB84292B4), (LdurUnscaledImmediate (WReg 22) (XReg 23) (- 75), 0xB85B52F6),
      (LdurUnscaledImmediate (WReg 24) (XReg 25) 95, 0xB845F338), (LdurUnscaledImmediate (WReg 26) (XReg 27) (- 69), 0xB85BB37A),
      (LdurUnscaledImmediate (WReg 28) (XReg 29) (- 1), 0xB85FF3BC), (LdurUnscaledImmediate (XReg 30) SP (- 5), 0xF85FB3FE),
      (LdurUnscaledImmediate LR SP (- 5), 0xF85FB3FE)]"

definition SturUnscaledImmediate_asserts :: "(u32 \<times> u32) list" where
  "SturUnscaledImmediate_asserts =
     [(SturUnscaledImmediate (XReg 0) (XReg 1) (- 1), 0xF81FF020), (SturUnscaledImmediate (XReg 2) (XReg 3) 1, 0xF8001062),
      (SturUnscaledImmediate (XReg 4) (XReg 5) (- 2), 0xF81FE0A4), (SturUnscaledImmediate (XReg 6) (XReg 7) 2, 0xF80020E6),
      (SturUnscaledImmediate (XReg 8) (XReg 9) (- 3), 0xF81FD128), (SturUnscaledImmediate (XReg 10) (XReg 11) (- 4), 0xF81FC16A),
      (SturUnscaledImmediate (XReg 12) (XReg 13) 2, 0xF80021AC), (SturUnscaledImmediate (XReg 14) (XReg 15) (- 4), 0xF81FC1EE),
      (SturUnscaledImmediate (WReg 16) (XReg 17) 20, 0xB8014230), (SturUnscaledImmediate (WReg 18) (XReg 19) (- 52), 0xB81CC272),
      (SturUnscaledImmediate (WReg 20) (XReg 21) 41, 0xB80292B4), (SturUnscaledImmediate (WReg 22) (XReg 23) (- 75), 0xB81B52F6),
      (SturUnscaledImmediate (WReg 24) (XReg 25) 95, 0xB805F338), (SturUnscaledImmediate (WReg 26) (XReg 27) (- 69), 0xB81BB37A),
      (SturUnscaledImmediate (WReg 28) (XReg 29) (- 1), 0xB81FF3BC), (SturUnscaledImmediate (XReg 30) SP (- 5), 0xF81FB3FE),
      (SturUnscaledImmediate LR SP (- 5), 0xF81FB3FE)]"

definition LdrRegisterImmediate_asserts :: "(u32 \<times> u32) list" where
  "LdrRegisterImmediate_asserts =
     [(LdrRegisterImmediate (XReg 0) (XReg 1) 0, 0xF9400020), (LdrRegisterImmediate (XReg 2) (XReg 3) 0, 0xF9400062),
      (LdrRegisterImmediate (XReg 4) (XReg 5) 0, 0xF94000A4), (LdrRegisterImmediate (XReg 6) (XReg 7) 0, 0xF94000E6),
      (LdrRegisterImmediate (XReg 8) (XReg 9) 0, 0xF9400128), (LdrRegisterImmediate (XReg 10) (XReg 11) 1, 0xF940056A),
      (LdrRegisterImmediate (XReg 12) (XReg 13) 2, 0xF94009AC), (LdrRegisterImmediate (XReg 14) (XReg 15) 4, 0xF94011EE),
      (LdrRegisterImmediate (WReg 16) (XReg 17) 20, 0xB9405230), (LdrRegisterImmediate (WReg 18) (XReg 19) 52, 0xB940D272),
      (LdrRegisterImmediate (WReg 20) (XReg 21) 41, 0xB940A6B4), (LdrRegisterImmediate (WReg 22) (XReg 23) 75, 0xB9412EF6),
      (LdrRegisterImmediate (WReg 24) (XReg 25) 95, 0xB9417F38), (LdrRegisterImmediate (WReg 26) (XReg 27) 69, 0xB941177A),
      (LdrRegisterImmediate (WReg 28) (XReg 29) 0, 0xB94003BC), (LdrRegisterImmediate (XReg 30) SP 0, 0xF94003FE),
      (LdrRegisterImmediate LR SP 0, 0xF94003FE)]"

definition StrRegisterImmediate_asserts :: "(u32 \<times> u32) list" where
  "StrRegisterImmediate_asserts =
     [(StrRegisterImmediate (XReg 0) (XReg 1) 0, 0xF9000020), (StrRegisterImmediate (XReg 2) (XReg 3) 0, 0xF9000062),
      (StrRegisterImmediate (XReg 4) (XReg 5) 0, 0xF90000A4), (StrRegisterImmediate (XReg 6) (XReg 7) 0, 0xF90000E6),
      (StrRegisterImmediate (XReg 8) (XReg 9) 0, 0xF9000128), (StrRegisterImmediate (XReg 10) (XReg 11) 1, 0xF900056A),
      (StrRegisterImmediate (XReg 12) (XReg 13) 2, 0xF90009AC), (StrRegisterImmediate (XReg 14) (XReg 15) 4, 0xF90011EE),
      (StrRegisterImmediate (WReg 16) (XReg 17) 20, 0xB9005230), (StrRegisterImmediate (WReg 18) (XReg 19) 52, 0xB900D272),
      (StrRegisterImmediate (WReg 20) (XReg 21) 41, 0xB900A6B4), (StrRegisterImmediate (WReg 22) (XReg 23) 75, 0xB9012EF6),
      (StrRegisterImmediate (WReg 24) (XReg 25) 95, 0xB9017F38), (StrRegisterImmediate (WReg 26) (XReg 27) 69, 0xB901177A),
      (StrRegisterImmediate (WReg 28) (XReg 29) 0, 0xB90003BC), (StrRegisterImmediate (XReg 30) SP 0, 0xF90003FE),
      (StrRegisterImmediate LR SP 0, 0xF90003FE)]"


definition static_asserts :: "(u32 \<times> u32) list" where
  "static_asserts =
     AddImmediate_asserts @ AddsImmediate_asserts @ CmnImmediate_asserts @ CmpImmediate_asserts @
     SubImmediate_asserts @ SubsImmediate_asserts @ Movk_asserts @ Movn_asserts @
     Adr_asserts @ Adrp_asserts @ Nop_asserts @ Branch_asserts @
     BranchLink_asserts @ BranchRegister_asserts @ Ret_asserts @ MovRegister_asserts @
     OrrShiftedRegister_asserts @ LdrLiteral_asserts @ LdrRegisterOffset_asserts @ StrRegisterOffset_asserts @
     LdurUnscaledImmediate_asserts @ SturUnscaledImmediate_asserts @ LdrRegisterImmediate_asserts @ StrRegisterImmediate_asserts"

lemmas encoder_defs =
  mask_value_def BitsOf_def SetBits_def SetBit_def SignExtend_def WReg_def XReg_def LR_def SP_def
  None32_def None64_def reg_index_def is64_def SetRd_def SetRn_def SetRm_def Instruction_def
  Op100xInstruction_def AddSubtractImmediate_def CalcSh_def CalcImm_def SetImmSh_def
  AddImmediate_def AddsImmediate_def SubImmediate_def SubsImmediate_def none_like_def
  CmnImmediate_def CmpImmediate_def MoveWideImmediate_def Movk_def Movn_def Movz_def
  PcRelAddressing_def Adr_def Adrp_def Op101xInstruction_def Hints_def Nop_def
  UnconditionalBranchImmediate_def Branch_def BranchLink_def UnconditionalBranchRegister_def
  BranchRegister_def Ret_def Opx101Instruction_def LogicalShiftedRegister_def
  OrrShiftedRegister_def MovRegister_def Opx1x0Instruction_def GetSize_def LoadRegisterLiteral_def
  LdrLiteral_def LoadStoreRegisterOffset_def CreateS_def register_offset_def LdrRegisterOffset_def
  StrRegisterOffset_def LoadStoreRegisterUnscaledImmediate_def LdurUnscaledImmediate_def
  SturUnscaledImmediate_def LoadStoreRegisterUnsignedImmediate_def LdrRegisterImmediate_def
  StrRegisterImmediate_def

definition all_agree :: "(u32 \<times> u32) list \<Rightarrow> bool" where
  "all_agree xs \<longleftrightarrow> list_all (\<lambda>(encoded, expected). encoded = expected) xs"

lemma minus_one_16: "(ucast (- 1 :: u16) :: u32) = 0xFFFF"
  by (simp add: unsigned_minus_1_eq_mask mask_eq_exp_minus_1)

lemma AddImmediate_asserts_hold: "all_agree AddImmediate_asserts \<and> length AddImmediate_asserts = 4"
  by (simp add: all_agree_def AddImmediate_asserts_def encoder_defs)

lemma AddsImmediate_asserts_hold: "all_agree AddsImmediate_asserts \<and> length AddsImmediate_asserts = 4"
  by (simp add: all_agree_def AddsImmediate_asserts_def encoder_defs)

lemma CmnImmediate_asserts_hold: "all_agree CmnImmediate_asserts \<and> length CmnImmediate_asserts = 4"
  by (simp add: all_agree_def CmnImmediate_asserts_def encoder_defs)

lemma CmpImmediate_asserts_hold: "all_agree CmpImmediate_asserts \<and> length CmpImmediate_asserts = 4"
  by (simp add: all_agree_def CmpImmediate_asserts_def encoder_defs)

lemma SubImmediate_asserts_hold: "all_agree SubImmediate_asserts \<and> length SubImmediate_asserts = 4"
  by (simp add: all_agree_def SubImmediate_asserts_def encoder_defs)

lemma SubsImmediate_asserts_hold: "all_agree SubsImmediate_asserts \<and> length SubsImmediate_asserts = 4"
  by (simp add: all_agree_def SubsImmediate_asserts_def encoder_defs)

lemma Movk_asserts_hold: "all_agree Movk_asserts \<and> length Movk_asserts = 10"
  by (simp add: all_agree_def Movk_asserts_def encoder_defs)

lemma Movn_asserts_hold: "all_agree Movn_asserts \<and> length Movn_asserts = 10"
  by (simp add: all_agree_def Movn_asserts_def encoder_defs)

lemma Adr_asserts_hold: "all_agree Adr_asserts \<and> length Adr_asserts = 3"
  by (simp add: all_agree_def Adr_asserts_def encoder_defs)

lemma Adrp_asserts_hold: "all_agree Adrp_asserts \<and> length Adrp_asserts = 3"
  by (simp add: all_agree_def Adrp_asserts_def encoder_defs)

lemma Nop_asserts_hold: "all_agree Nop_asserts \<and> length Nop_asserts = 1"
  by (simp add: all_agree_def Nop_asserts_def encoder_defs)

lemma Branch_asserts_hold: "all_agree Branch_asserts \<and> length Branch_asserts = 4"
  by (simp add: all_agree_def Branch_asserts_def encoder_defs)

lemma BranchLink_asserts_hold: "all_agree BranchLink_asserts \<and> length BranchLink_asserts = 4"
  by (simp add: all_agree_def BranchLink_asserts_def encoder_defs)

lemma BranchRegister_asserts_hold: "all_agree BranchRegister_asserts \<and> length BranchRegister_asserts = 4"
  by (simp add: all_agree_def BranchRegister_asserts_def encoder_defs)

lemma Ret_asserts_hold: "all_agree Ret_asserts \<and> length Ret_asserts = 5"
  by (simp add: all_agree_def Ret_asserts_def encoder_defs)

lemma MovRegister_asserts_hold: "all_agree MovRegister_asserts \<and> length MovRegister_asserts = 4"
  by (simp add: all_agree_def MovRegister_asserts_def encoder_defs)

lemma OrrShiftedRegister_asserts_hold: "all_agree OrrShiftedRegister_asserts \<and> length OrrShiftedRegister_asserts = 16"
  by (simp add: all_agree_def OrrShiftedRegister_asserts_def encoder_defs)

lemma LdrLiteral_asserts_hold: "all_agree LdrLiteral_asserts \<and> length LdrLiteral_asserts = 8"
  by (simp add: all_agree_def LdrLiteral_asserts_def encoder_defs)

lemma LdrRegisterOffset_asserts_hold: "all_agree LdrRegisterOffset_asserts \<and> length LdrRegisterOffset_asserts = 9"
  by (simp add: all_agree_def LdrRegisterOffset_asserts_def encoder_defs)

lemma StrRegisterOffset_asserts_hold: "all_agree StrRegisterOffset_asserts \<and> length StrRegisterOffset_asserts = 9"
  by (simp add: all_agree_def StrRegisterOffset_asserts_def encoder_defs)

lemma LdurUnscaledImmediate_asserts_hold: "all_agree LdurUnscaledImmediate_asserts \<and> length LdurUnscaledImmediate_asserts = 17"
  by (simp add: all_agree_def LdurUnscaledImmediate_asserts_def encoder_defs minus_one_16)

lemma SturUnscaledImmediate_asserts_hold: "all_agree SturUnscaledImmediate_asserts \<and> length SturUnscaledImmediate_asserts = 17"
  by (simp add: all_agree_def SturUnscaledImmediate_asserts_def encoder_defs minus_one_16)

lemma LdrRegisterImmediate_asserts_hold: "all_agree LdrRegisterImmediate_asserts \<and> length LdrRegisterImmediate_asserts = 17"
  by (simp add: all_agree_def LdrRegisterImmediate_asserts_def encoder_defs)

lemma StrRegisterImmediate_asserts_hold: "all_agree StrRegisterImmediate_asserts \<and> length StrRegisterImmediate_asserts = 17"
  by (simp add: all_agree_def StrRegisterImmediate_asserts_def encoder_defs)

text \<open>
  Every static assertion of the encoder library holds: on each of the sample instructions
  the constructor gives the machine word an assembler gives.
\<close>

theorem static_asserts_hold: "all_agree static_asserts \<and> length static_asserts = 182"
  using
    AddImmediate_asserts_hold AddsImmediate_asserts_hold CmnImmediate_asserts_hold
    CmpImmediate_asserts_hold SubImmediate_asserts_hold SubsImmediate_asserts_hold
    Movk_asserts_hold Movn_asserts_hold Adr_asserts_hold Adrp_asserts_hold Nop_asserts_hold
    Branch_asserts_hold BranchLink_asserts_hold BranchRegister_asserts_hold Ret_asserts_hold
    MovRegister_asserts_hold OrrShiftedRegister_asserts_hold LdrLiteral_asserts_hold
    LdrRegisterOffset_asserts_hold StrRegisterOffset_asserts_hold
    LdurUnscaledImmediate_asserts_hold SturUnscaledImmediate_asserts_hold
    LdrRegisterImmediate_asserts_hold StrRegisterImmediate_asserts_hold
  by (simp add: all_agree_def static_asserts_def)

end
