(* ===== verification/Hook.thy ===== *)
theory Hook
  imports Prelude Armv8
begin

text \<open>
  The hook engine of \<open>lib/hook/nx64/hook_impl.cpp\<close>: the first instructions of a function are
  moved into a trampoline, with every PC-relative instruction rewritten for its new address
  (\<open>__fix_instructions\<close>), and replaced by a jump to the hook. Addresses are 64-bit words. The
  trampoline is written through one mapping (\<open>out_rw\<close>) and executed through another (\<open>out_rx\<close>);
  a pair of pointers that move together is an index into the list of words written so far.
\<close>

section \<open>State\<close>

definition MaxInstructions :: nat where "MaxInstructions = 5"
definition TrampolineSize :: nat where "TrampolineSize = MaxInstructions * 10"
definition HookPoolSize :: nat where "HookPoolSize = 0x1000"
definition HookMax :: nat where "HookMax = HookPoolSize div (TrampolineSize * 4)"
definition MaxReferences :: nat where "MaxReferences = MaxInstructions * 2"
definition Aarch64Nop :: u32 where "Aarch64Nop = 0xd503201f"

record fix_info =
  bpr :: nat
  ls :: nat
  ad :: u32

record insns_info =
  ins :: u64
  fmap :: "fix_info list"

text \<open>The arguments of \<open>__fix_instructions\<close> and the memory that literal loads are copied from.\<close>

record fix_env =
  in_rx :: u64
  in_count :: nat
  code :: "u32 list"
  out_rx :: u64
  out_rw :: u64
  literals :: "u64 \<Rightarrow> u8"

record fixer =
  in_idx :: nat
  out_words :: "u32 list"
  dat :: "insns_info list"

definition fixer_init :: fixer where
  "fixer_init = \<lparr>in_idx = 0, out_words = [], dat = replicate MaxInstructions \<lparr>ins = 0, fmap = []\<rparr>\<rparr>"

definition inprx :: "fix_env \<Rightarrow> fixer \<Rightarrow> u64" where
  "inprx env s = in_rx env + word_of_nat (4 * in_idx s)"

definition outprx :: "fix_env \<Rightarrow> fixer \<Rightarrow> u64" where
  "outprx env s = out_rx env + word_of_nat (4 * length (out_words s))"

definition outprw :: "fix_env \<Rightarrow> fixer \<Rightarrow> u64" where
  "outprw env s = out_rw env + word_of_nat (4 * length (out_words s))"

definition emit :: "u32 list \<Rightarrow> fixer \<Rightarrow> fixer" where
  "emit ws s = s\<lparr>out_words := out_words s @ ws\<rparr>"

definition next_in :: "fixer \<Rightarrow> fixer" where
  "next_in s = s\<lparr>in_idx := in_idx s + 1\<rparr>"

section \<open>The fixing context\<close>

definition is_in_fixing_range :: "fix_env \<Rightarrow> u64 \<Rightarrow> bool" where
  "is_in_fixing_range env absolute_addr \<longleftrightarrow>
     sint absolute_addr \<ge> sint (in_rx env) \<and> sint absolute_addr < sint (in_rx env + word_of_nat (4 * in_count env))"

definition get_ref_ins_index :: "fix_env \<Rightarrow> u64 \<Rightarrow> nat" where
  "get_ref_ins_index env absolute_addr = unat (absolute_addr - in_rx env) div 4"

definition reset_current_ins :: "nat \<Rightarrow> u64 \<Rightarrow> fixer \<Rightarrow> fixer" where
  "reset_current_ins idx outp s = s\<lparr>dat := (dat s)[idx := (dat s ! idx)\<lparr>ins := outp\<rparr>]\<rparr>"

definition get_and_set_current_index :: "fix_env \<Rightarrow> u64 \<Rightarrow> fixer \<Rightarrow> nat \<times> fixer" where
  "get_and_set_current_index env outp s =
     (let current_idx = get_ref_ins_index env (inprx env s) in (current_idx, reset_current_ins current_idx outp s))"

definition insert_fix_map :: "nat \<Rightarrow> fix_info \<Rightarrow> fixer \<Rightarrow> fixer" where
  "insert_fix_map idx f s =
     (if length (fmap (dat s ! idx)) < MaxReferences
      then s\<lparr>dat := (dat s)[idx := (dat s ! idx)\<lparr>fmap := fmap (dat s ! idx) @ [f]\<rparr>]\<rparr> else s)"

definition fix_word :: "fix_env \<Rightarrow> u64 \<Rightarrow> fix_info \<Rightarrow> u32 list \<Rightarrow> u32 list" where
  "fix_word env target f ws =
     ws[bpr f := ws ! bpr f OR
        (push_bit (ls f) (signed_drop_bit 2 (ucast (target - (out_rx env + word_of_nat (4 * bpr f))) :: u32)) AND ad f)]"

definition process_fix_map :: "fix_env \<Rightarrow> nat \<Rightarrow> fixer \<Rightarrow> fixer" where
  "process_fix_map env idx s =
     s\<lparr>out_words := fold (fix_word env (ins (dat s ! idx))) (fmap (dat s ! idx)) (out_words s),
       dat := (dat s)[idx := (dat s ! idx)\<lparr>fmap := []\<rparr>]\<rparr>"

text \<open>The two words of an address, as \<open>memcpy\<close> stores it.\<close>

definition addr_words :: "u64 \<Rightarrow> u32 list" where
  "addr_words a = [ucast a, ucast (drop_bit 32 a)]"

text \<open>
  The padding loops; \<open>None\<close> when one does not end. Each fixer answers \<open>Some None\<close> when the
  instruction is not of its class (\<open>return false\<close>).
\<close>

partial_function (option) nop_while :: "(fixer \<Rightarrow> bool) \<Rightarrow> fixer \<Rightarrow> fixer option" where
  "nop_while p s = (if p s then nop_while p (emit [Aarch64Nop] s) else Some s)"

section \<open>The instruction classes\<close>

definition shifted_offset :: "u64 \<Rightarrow> u64 \<Rightarrow> u64" where
  "shifted_offset absolute_addr outp = signed_drop_bit 2 (absolute_addr - outp)"

definition pad :: "fix_env \<Rightarrow> bool \<Rightarrow> nat \<Rightarrow> fixer \<Rightarrow> fixer" where
  "pad env needed idx s =
     (if needed then (let s = emit [Aarch64Nop] s in reset_current_ins idx (outprx env s) s) else s)"

text \<open>
  The displacement to encode for a target: one among the moved instructions is taken at its new
  place, or, when that is not known yet, left at 0 and noted for later.
\<close>

definition resolve :: "(u64 \<Rightarrow> u64 \<Rightarrow> u64) \<Rightarrow> fix_env \<Rightarrow> nat \<Rightarrow> u64 \<Rightarrow> u64 \<Rightarrow> nat \<Rightarrow> u32 \<Rightarrow> fixer \<Rightarrow> fixer \<times> u64" where
  "resolve offset env current_idx absolute_addr ref_addr shift operand s =
     (if is_in_fixing_range env absolute_addr then
       (let ref_idx = get_ref_ins_index env ref_addr in
        if ref_idx \<le> current_idx then (s, offset (ins (dat s ! ref_idx)) (outprx env s))
        else (insert_fix_map ref_idx \<lparr>bpr = length (out_words s), ls = shift, ad = operand\<rparr> s, 0))
      else (s, offset absolute_addr (outprx env s)))"

definition done_with :: "fix_env \<Rightarrow> nat \<Rightarrow> fixer \<Rightarrow> fixer" where
  "done_with env current_idx s = process_fix_map env current_idx (next_in s)"

subsection \<open>Branches\<close>

definition far_b :: "u64 \<Rightarrow> u32 list" where
  "far_b absolute_addr = [0x58000051, 0xd61f0220] @ addr_words absolute_addr"

definition far_bl :: "u64 \<Rightarrow> u32 list" where
  "far_bl absolute_addr = [0x58000071, 0x1000009e, 0xd61f0220] @ addr_words absolute_addr"

definition b_target :: "fix_env \<Rightarrow> fixer \<Rightarrow> u32 \<Rightarrow> u64" where
  "b_target env s w = inprx env s + scast (signed_drop_bit 4 (push_bit 6 w))"

definition fix_branch_imm :: "fix_env \<Rightarrow> fixer \<Rightarrow> fixer option" where
  "fix_branch_imm env s =
     (let w = code env ! in_idx s; opc = w AND 0xfc000000 in
      if opc \<noteq> 0x14000000 \<and> opc \<noteq> 0x94000000 then None
      else
       (let (current_idx, s) = get_and_set_current_index env (outprx env s) s;
            absolute_addr = b_target env s w;
            new_pc_offset = shifted_offset absolute_addr (outprx env s);
            special_fix_type = is_in_fixing_range env absolute_addr;
            b_aligned = ((outprx env s + 8) AND 7 = 0) in
        if \<not> special_fix_type \<and> \<bar>sint new_pc_offset\<bar> \<ge> 0x1ffffff then
          Some (done_with env current_idx
            (if opc = 0x14000000 then emit (far_b absolute_addr) (pad env (\<not> b_aligned) current_idx s)
             else emit (far_bl absolute_addr) (pad env b_aligned current_idx s)))
        else
         (let (s, new_pc_offset) = resolve shifted_offset env current_idx absolute_addr absolute_addr 0 0x03ffffff s in
          Some (done_with env current_idx (emit [opc OR (ucast new_pc_offset AND 0x03ffffff)] s)))))"

text \<open>The mask that keeps everything but the displacement of a conditional branch, if it is one.\<close>

definition cond_mask :: "u32 \<Rightarrow> u32 option" where
  "cond_mask w =
     (if w AND 0xff000010 = 0x54000000 then Some 0xff00001f
      else if w AND 0x7f000000 = 0x34000000 \<or> w AND 0x7f000000 = 0x35000000 then Some 0xff00001f
      else if w AND 0x7f000000 = 0x36000000 \<or> w AND 0x7f000000 = 0x37000000 then Some 0xfff8001f
      else None)"

definition far_cond :: "u32 \<Rightarrow> u32 \<Rightarrow> u64 \<Rightarrow> u32 list" where
  "far_cond w lmask absolute_addr =
     [(push_bit 5 2 AND NOT lmask) OR (w AND lmask), 0x14000005, 0x58000051, 0xd61f0220] @ addr_words absolute_addr"

definition cond_target :: "fix_env \<Rightarrow> fixer \<Rightarrow> u32 \<Rightarrow> u32 \<Rightarrow> u64" where
  "cond_target env s w lmask = inprx env s + ucast (drop_bit 3 (w AND NOT lmask))"

definition fix_cond_comp_test_branch :: "fix_env \<Rightarrow> fixer \<Rightarrow> fixer option" where
  "fix_cond_comp_test_branch env s =
     (let w = code env ! in_idx s in
      case cond_mask w of None \<Rightarrow> None
      | Some lmask \<Rightarrow>
         (let (current_idx, s) = get_and_set_current_index env (outprx env s) s;
              absolute_addr = cond_target env s w lmask;
              new_pc_offset = shifted_offset absolute_addr (outprx env s);
              special_fix_type = is_in_fixing_range env absolute_addr in
          if \<not> special_fix_type \<and> \<bar>sint new_pc_offset\<bar> \<ge> uint (drop_bit 6 (NOT lmask)) then
           (let s = (if (outprx env s + 16) AND 7 \<noteq> 0
                     then emit [Aarch64Nop] (reset_current_ins current_idx (outprx env s) s) else s)
            in Some (done_with env current_idx (emit (far_cond w lmask absolute_addr) s)))
          else
           (let (s, new_pc_offset) = resolve shifted_offset env current_idx absolute_addr absolute_addr 5 (NOT lmask) s in
            Some (done_with env current_idx
              (emit [(ucast (push_bit 5 new_pc_offset) AND NOT lmask) OR (w AND lmask)] s)))))"

subsection \<open>Literal loads\<close>

text \<open>The opcode mask and \<open>faligned\<close>, one less than the size of the datum, of a literal load.\<close>

definition loadlit_class :: "u32 \<Rightarrow> (u32 \<times> u64) option" where
  "loadlit_class w =
     (let faligned = (if w AND 0x40000000 \<noteq> 0 then 7 else 3) in
      if w AND 0xbf000000 = 0x18000000 then Some (0xbf000000, faligned)
      else
       (let faligned = (if faligned \<noteq> 7 then (if w AND 0x80000000 \<noteq> 0 then 15 else 3) else faligned) in
        if w AND 0x3f000000 = 0x1c000000 then Some (0x3f000000, faligned)
        else if w AND 0xff000000 = 0x98000000 then Some (0xff000000, 7)
        else None))"

definition literal_words :: "fix_env \<Rightarrow> u64 \<Rightarrow> nat \<Rightarrow> u32 list" where
  "literal_words env a n =
     map (\<lambda>k. word_rcat [literals env (a + word_of_nat (4 * k + 3)), literals env (a + word_of_nat (4 * k + 2)),
                        literals env (a + word_of_nat (4 * k + 1)), literals env (a + word_of_nat (4 * k))]) [0..<n]"

definition literal_target :: "fix_env \<Rightarrow> fixer \<Rightarrow> u32 \<Rightarrow> u64" where
  "literal_target env s w = inprx env s + ucast (signed_drop_bit 11 (push_bit 8 w) AND NOT 3)"

definition fix_loadlit :: "fix_env \<Rightarrow> fixer \<Rightarrow> fixer option option" where
  "fix_loadlit env s =
     (let w = code env ! in_idx s in
      if w AND 0xff000000 = 0xd8000000 then
       (let (current_idx, s) = get_and_set_current_index env (outprx env s) s in
        Some (Some (next_in (process_fix_map env current_idx s))))
      else case loadlit_class w of None \<Rightarrow> Some None
      | Some (opmask, faligned) \<Rightarrow>
         (let (current_idx, s) = get_and_set_current_index env (outprx env s) s;
              absolute_addr = literal_target env s w;
              new_pc_offset = shifted_offset absolute_addr (outprx env s);
              special_fix_type = is_in_fixing_range env absolute_addr in
          if special_fix_type \<or> \<bar>sint new_pc_offset\<bar> + uint (faligned - 3) div 4 \<ge> 0x3ffff then do {
            s \<leftarrow> nop_while (\<lambda>s. (outprx env s + 8) AND faligned \<noteq> 0) s;
            let s = reset_current_ins current_idx (outprx env s) s;
            let ns = (unat faligned + 1) div 4;
            Some (Some (done_with env current_idx
              (emit ([(push_bit 5 2 AND NOT opmask) OR (w AND 0xff00001f), 0x14000001 + word_of_nat ns] @
                 literal_words env absolute_addr ns) s)))
          }
          else do {
            s \<leftarrow> nop_while (\<lambda>s. shifted_offset absolute_addr (outprx env s) AND drop_bit 2 faligned \<noteq> 0) s;
            let s = reset_current_ins current_idx (outprx env s) s;
            let new_pc_offset = shifted_offset absolute_addr (outprx env s);
            Some (Some (done_with env current_idx
              (emit [(ucast (push_bit 5 new_pc_offset) AND NOT opmask) OR (w AND 0xff00001f)] s)))
          }))"

subsection \<open>PC-relative addresses\<close>

definition far_adr :: "u32 \<Rightarrow> u64 \<Rightarrow> u32 list" where
  "far_adr w absolute_addr =
     [0x58000000 OR (push_bit 5 2 AND NOT 0x9f000000) OR (w AND 0x1f), 0x14000003] @ addr_words absolute_addr"

text \<open>
  The offset of \<open>adr\<close> and \<open>adrp\<close> as the code computes it, in 32 bits without a sign. For
  \<open>adrp\<close> the place of the instruction is taken from the writable mapping.
\<close>

definition adr_offset :: "u32 \<Rightarrow> u32" where
  "adr_offset w = (signed_drop_bit 11 (push_bit 8 w) AND NOT 3) OR drop_bit 30 (push_bit 1 w)"

definition adr_target :: "fix_env \<Rightarrow> fixer \<Rightarrow> u32 \<Rightarrow> u64" where
  "adr_target env s w = inprx env s + ucast (adr_offset w)"

definition fix_pcreladdr :: "fix_env \<Rightarrow> fixer \<Rightarrow> fixer option" where
  "fix_pcreladdr env s =
     (let w = code env ! in_idx s in
      if w AND 0x9f000000 = 0x10000000 then
       (let (current_idx, s) = get_and_set_current_index env (outprx env s) s;
            absolute_addr = adr_target env s w;
            new_pc_offset = absolute_addr - outprx env s;
            special_fix_type = is_in_fixing_range env absolute_addr in
        if \<not> special_fix_type \<and> \<bar>sint new_pc_offset\<bar> \<ge> 0xfffff then
          Some (done_with env current_idx
            (emit (far_adr w absolute_addr) (pad env ((outprx env s + 8) AND 7 \<noteq> 0) current_idx s)))
        else
         (let (s, new_pc_offset) = resolve (-) env current_idx absolute_addr (absolute_addr AND NOT 3) 5 0x00ffffff s in
          Some (done_with env current_idx
            (emit [(ucast (push_bit 3 new_pc_offset) AND 0x00ffffff) OR (w AND 0xff00001f)] s))))
      else if w AND 0x9f000000 = 0x90000000 then
       (let (current_idx, s) = get_and_set_current_index env (outprw env s) s;
            absolute_addr = (inprx env s AND NOT 0xfff) + ucast (push_bit 12 (adr_offset w)) in
        if is_in_fixing_range env absolute_addr then Some (done_with env current_idx (emit [w] s))
        else
          Some (done_with env current_idx
            (emit (far_adr w absolute_addr) (pad env ((outprx env s + 8) AND 7 \<noteq> 0) current_idx s))))
      else None)"

section \<open>The trampoline\<close>

definition fix_other :: "fix_env \<Rightarrow> fixer \<Rightarrow> fixer" where
  "fix_other env s =
     (let (current_idx, s) = get_and_set_current_index env (outprx env s) s in
      next_in (emit [code env ! in_idx s] (process_fix_map env current_idx s)))"

definition fix_one :: "fix_env \<Rightarrow> fixer \<Rightarrow> fixer option" where
  "fix_one env s =
     (case fix_branch_imm env s of Some s' \<Rightarrow> Some s'
      | None \<Rightarrow>
     (case fix_cond_comp_test_branch env s of Some s' \<Rightarrow> Some s'
      | None \<Rightarrow>
     (case fix_loadlit env s of None \<Rightarrow> None | Some (Some s') \<Rightarrow> Some s'
      | Some None \<Rightarrow>
     (case fix_pcreladdr env s of Some s' \<Rightarrow> Some s'
      | None \<Rightarrow> Some (fix_other env s)))))"

primrec fix_loop :: "fix_env \<Rightarrow> nat \<Rightarrow> fixer \<Rightarrow> fixer option" where
  "fix_loop env 0 s = Some s"
| "fix_loop env (Suc n) s = do { s' \<leftarrow> fix_one env s; fix_loop env n s' }"

text \<open>The jump back to the rest of the function.\<close>

definition jump_back :: "fix_env \<Rightarrow> fixer \<Rightarrow> fixer" where
  "jump_back env s =
     (let callback = inprx env s; pc_offset = shifted_offset callback (outprx env s) in
      if \<bar>sint pc_offset\<bar> \<ge> 0x1ffffff then
        emit (far_b callback) (if (outprx env s + 8) AND 7 \<noteq> 0 then emit [Aarch64Nop] s else s)
      else emit [0x14000000 OR (ucast pc_offset AND 0x03ffffff)] s)"

definition fix_instructions :: "fix_env \<Rightarrow> u32 list option" where
  "fix_instructions env = do {
     s \<leftarrow> fix_loop env (in_count env) fixer_init;
     Some (out_words (jump_back env s))
   }"

section \<open>Hooks\<close>

text \<open>
  \<open>index\<close> of \<open>AllocForTrampoline\<close> is the number of the last slot handed out (\<open>-1\<close> at first);
  the result is the slot, or \<open>None\<close> for \<open>HookTrampolineAllocFail\<close>, with the new index.
\<close>

definition AllocForTrampoline :: "int \<Rightarrow> nat option \<times> int" where
  "AllocForTrampoline index =
     (let i = unat (word_of_int (index + 1) :: u32) in (if i > HookMax then None else Some i, index + 1))"

definition slot_offset :: "nat \<Rightarrow> nat" where
  "slot_offset i = i * TrampolineSize * 4"

text \<open>
  \<open>HookFuncImpl\<close>: the words at the start of the function after the hook is in place, and the
  trampoline if one is asked for; \<open>None\<close> when the fixing does not end. \<open>symbol\<close> is the address of
  the function, \<open>orig\<close> its first five words. The code writes the words through a view of \<open>RwPages\<close>; here they are the
  words it means to write. A patch that crosses a page is beyond such a view (see \<open>Pages\<close>).
\<close>

definition HookFuncImpl :: "u64 \<Rightarrow> u64 \<Rightarrow> u32 list \<Rightarrow> (u64 \<times> u64) option \<Rightarrow> (u64 \<Rightarrow> u8) \<Rightarrow> (u32 list \<times> u32 list) option" where
  "HookFuncImpl symbol replace orig tramp mem =
     (let pc_offset = shifted_offset replace symbol;
          fix = (\<lambda>count. case tramp of None \<Rightarrow> Some []
             | Some (rx, rw) \<Rightarrow> fix_instructions \<lparr>in_rx = symbol, in_count = count, code = orig, out_rx = rx, out_rw = rw, literals = mem\<rparr>) in
      if \<bar>sint pc_offset\<bar> \<ge> 0x1ffffff then
       (let count = (if (symbol + 8) AND 7 \<noteq> 0 then 5 else 4) in do {
          t \<leftarrow> fix count;
          let jump = (if count = 5 then [Aarch64Nop] else []) @ far_b replace;
          Some (jump @ drop (length jump) orig, t)
        })
      else do {
        t \<leftarrow> fix 1;
        Some ((0x14000000 OR (ucast pc_offset AND 0x03ffffff)) # tl orig, t)
      })"

section \<open>Size of a trampoline\<close>

lemma emit_simps [simp]:
  "out_words (emit ws s) = out_words s @ ws" "in_idx (emit ws s) = in_idx s" "dat (emit ws s) = dat s"
  by (simp_all add: emit_def)

lemma reset_simps [simp]:
  "out_words (reset_current_ins idx a s) = out_words s" "in_idx (reset_current_ins idx a s) = in_idx s"
  by (simp_all add: reset_current_ins_def)

lemma insert_simps [simp]:
  "out_words (insert_fix_map idx f s) = out_words s" "in_idx (insert_fix_map idx f s) = in_idx s"
  by (simp_all add: insert_fix_map_def)

lemma index_simps:
  "get_and_set_current_index env a s = (i, s') \<Longrightarrow> out_words s' = out_words s \<and> in_idx s' = in_idx s"
  by (auto simp: get_and_set_current_index_def Let_def)

lemma length_fix_words: "length (fold (fix_word env a) fs ws) = length ws"
  by (induction fs arbitrary: ws) (simp_all add: fix_word_def)

lemma done_simps [simp]:
  "length (out_words (done_with env idx s)) = length (out_words s)" "in_idx (done_with env idx s) = in_idx s + 1"
  by (simp_all add: done_with_def process_fix_map_def next_in_def length_fix_words)

lemma process_simps [simp]:
  "length (out_words (process_fix_map env idx s)) = length (out_words s)" "in_idx (process_fix_map env idx s) = in_idx s"
  by (simp_all add: process_fix_map_def length_fix_words)

lemma resolve_simps:
  "resolve offset env idx a b sh op s = (s', off) \<Longrightarrow> out_words s' = out_words s \<and> in_idx s' = in_idx s"
  by (auto simp: resolve_def Let_def split: if_splits)

lemma pad_simps:
  "length (out_words (pad env b idx s)) \<le> length (out_words s) + 1" "in_idx (pad env b idx s) = in_idx s"
  by (auto simp: pad_def Let_def)

lemma length_addr_words [simp]: "length (addr_words a) = 2"
  by (simp add: addr_words_def)

text \<open>One step of the loop: it is done, the input advances and at most \<open>n\<close> words are added.\<close>

definition grows :: "nat \<Rightarrow> fixer \<Rightarrow> fixer \<Rightarrow> bool" where
  "grows n s s' \<longleftrightarrow> in_idx s' = in_idx s + 1 \<and> length (out_words s') \<le> length (out_words s) + n"

lemma grows_mono: "grows n s s' \<Longrightarrow> n \<le> m \<Longrightarrow> grows m s s'"
  by (auto simp: grows_def)

lemma grows_emit:
  assumes "in_idx t = in_idx s" and "length (out_words t) \<le> length (out_words s) + m" and "length ws + m \<le> n"
  shows "grows n s (done_with env idx (emit ws t))"
  using assms by (simp add: grows_def)

lemma branch_grows:
  assumes "fix_branch_imm env s = Some s'"
  shows "grows 6 s s'"
proof -
  obtain i t where g: "get_and_set_current_index env (outprx env s) s = (i, t)" by fastforce
  note t = index_simps [OF g]
  obtain u off where r: "resolve shifted_offset env i (b_target env t (code env ! in_idx s)) (b_target env t (code env ! in_idx s)) 0 0x03ffffff t = (u, off)"
    by fastforce
  note u = resolve_simps [OF r]
  have p: "in_idx (pad env b i t) = in_idx s" "length (out_words (pad env b i t)) \<le> length (out_words s) + 1" for b
    using pad_simps [of env b i t] t by simp_all
  show ?thesis
    using assms
    unfolding fix_branch_imm_def Let_def g r prod.case
    by (auto split: if_splits simp: far_b_def far_bl_def t u intro!: grows_emit [where m = 1] p)
qed

lemma cond_grows:
  assumes "fix_cond_comp_test_branch env s = Some s'"
  shows "grows 7 s s'"
proof -
  obtain i t where g: "get_and_set_current_index env (outprx env s) s = (i, t)" by fastforce
  note t = index_simps [OF g]
  obtain lm where lm: "cond_mask (code env ! in_idx s) = Some lm"
    using assms by (auto simp: fix_cond_comp_test_branch_def Let_def split: option.splits)
  let ?a = "cond_target env t (code env ! in_idx s) lm"
  obtain u off where r: "resolve shifted_offset env i ?a ?a 5 (NOT lm) t = (u, off)" by fastforce
  note u = resolve_simps [OF r]
  show ?thesis
    using assms
    unfolding fix_cond_comp_test_branch_def Let_def g r lm prod.case option.case
    by (auto split: if_splits simp: far_cond_def t u intro!: grows_emit [where m = 1])
qed

lemma pcreladdr_grows:
  assumes "fix_pcreladdr env s = Some s'"
  shows "grows 5 s s'"
proof -
  let ?w = "code env ! in_idx s"
  obtain i t where g: "get_and_set_current_index env (outprx env s) s = (i, t)" by fastforce
  note t = index_simps [OF g]
  obtain j v where h: "get_and_set_current_index env (outprw env s) s = (j, v)" by fastforce
  note v = index_simps [OF h]
  let ?a = "adr_target env t ?w"
  obtain u off where r: "resolve (-) env i ?a (?a AND NOT 3) 5 0x00ffffff t = (u, off)" by fastforce
  note u = resolve_simps [OF r]
  have p: "in_idx (pad env b i t) = in_idx s" "length (out_words (pad env b i t)) \<le> length (out_words s) + 1"
    "in_idx (pad env b j v) = in_idx s" "length (out_words (pad env b j v)) \<le> length (out_words s) + 1" for b
    using pad_simps [of env b i t] pad_simps [of env b j v] t v by simp_all
  show ?thesis
    using assms
    unfolding fix_pcreladdr_def Let_def g r h prod.case
    by (auto split: if_splits simp: far_adr_def t u v intro!: grows_emit [where m = 1] p)
qed

lemma other_grows: "grows 1 s (fix_other env s)"
proof -
  obtain i t where g: "get_and_set_current_index env (outprx env s) s = (i, t)" by fastforce
  from index_simps [OF g] show ?thesis by (simp add: fix_other_def Let_def g grows_def next_in_def)
qed

text \<open>The padding loops end: an aligned address is at most three words away.\<close>

definition nops :: "nat \<Rightarrow> fixer \<Rightarrow> fixer" where
  "nops k s = emit (replicate k Aarch64Nop) s"

lemma nop_while_ends:
  assumes "\<not> p (nops k s)"
  shows "\<exists>j \<le> k. nop_while p s = Some (nops j s) \<and> \<not> p (nops j s)"
  using assms
proof (induction k arbitrary: s)
  case 0
  then show ?case by (subst nop_while.simps) (simp add: nops_def emit_def)
next
  case (Suc k)
  show ?case
  proof (cases "p s")
    case False
    then show ?thesis by (subst nop_while.simps) (auto simp: nops_def emit_def intro: exI [of _ 0])
  next
    case True
    have eq: "nops j (emit [Aarch64Nop] s) = nops (Suc j) s" for j
      by (simp add: nops_def emit_def replicate_append_same)
    from Suc.IH [of "emit [Aarch64Nop] s"] Suc.prems obtain j where
      "j \<le> k" "nop_while p (emit [Aarch64Nop] s) = Some (nops (Suc j) s)" "\<not> p (nops (Suc j) s)"
      unfolding eq by blast
    with True show ?thesis by (subst nop_while.simps) auto
  qed
qed

lemma and_low_zero:
  "(x :: u64) AND 0 = 0" "x AND 1 = 0 \<longleftrightarrow> unat x mod 2 = 0" "x AND 3 = 0 \<longleftrightarrow> unat x mod 4 = 0" "x AND 7 = 0 \<longleftrightarrow> unat x mod 8 = 0"
  "x AND 15 = 0 \<longleftrightarrow> unat x mod 16 = 0"
proof -
  have m: "x AND mask n = 0 \<longleftrightarrow> unat x mod 2 ^ n = 0" for n
  proof -
    have "unat (take_bit n x) = unat x mod 2 ^ n" using unsigned_take_bit_eq [of n x] take_bit_eq_mod [of n "unat x"] by metis
    then show ?thesis by (metis take_bit_eq_mask unsigned_0 unsigned_eq_0_iff)
  qed
  show "x AND 0 = 0" by simp
  show "x AND 1 = 0 \<longleftrightarrow> unat x mod 2 = 0" using m [of 1] by (simp add: mask_eq_exp_minus_1)
  show "x AND 3 = 0 \<longleftrightarrow> unat x mod 4 = 0" using m [of 2] by (simp add: mask_eq_exp_minus_1)
  show "x AND 7 = 0 \<longleftrightarrow> unat x mod 8 = 0" using m [of 3] by (simp add: mask_eq_exp_minus_1)
  show "x AND 15 = 0 \<longleftrightarrow> unat x mod 16 = 0" using m [of 4] by (simp add: mask_eq_exp_minus_1)
qed

lemma unat_add_mod:
  assumes "d dvd (2 ^ 64 :: nat)"
  shows "unat ((x :: u64) + word_of_nat k) mod d = (unat x + k) mod d"
proof -
  have "unat (x + word_of_nat k) mod d = ((unat x + unat (word_of_nat k :: u64)) mod 2 ^ 64) mod d"
    by (simp add: unat_word_ariths)
  also have "\<dots> = (unat x + unat (word_of_nat k :: u64)) mod d" by (rule mod_mod_cancel [OF assms])
  also have "\<dots> = (unat x + k mod 2 ^ 64) mod d" by (simp add: unat_of_nat)
  also have "\<dots> = (unat x + k) mod d" using mod_mod_cancel [OF assms, of k] by (metis mod_add_right_eq)
  finally show ?thesis .
qed

lemma unat_sub_mod:
  assumes "d dvd (2 ^ 64 :: nat)" and "k \<le> d"
  shows "unat ((x :: u64) - word_of_nat k) mod d = (unat x + (d - k)) mod d"
proof -
  have "x = (x - word_of_nat k) + word_of_nat k" by simp
  then have "unat x mod d = (unat (x - word_of_nat k) + k) mod d" using unat_add_mod [OF assms(1)] by metis
  then have "(unat x + (d - k)) mod d = (unat (x - word_of_nat k) + k + (d - k)) mod d" by (metis mod_add_left_eq)
  then show ?thesis using assms(2) by simp
qed

lemma outprx_nops: "outprx env (nops k s) = outprx env s + word_of_nat (4 * k)"
  by (simp add: outprx_def nops_def algebra_simps)

lemma outprx_aligned: "out_rx env AND 3 = 0 \<Longrightarrow> outprx env s AND 3 = 0"
  using unat_add_mod [of 4 "out_rx env" "4 * length (out_words s)"]
  by (simp add: and_low_zero outprx_def)

lemma align_reachable:
  assumes "x AND 3 = (0 :: u64)" and "f \<in> {3, 7, 15}"
  shows "\<exists>k \<le> 3. (x + word_of_nat (4 * k) + 8) AND f = 0"
proof -
  have d: "(4 :: nat) dvd 2 ^ 64" "(8 :: nat) dvd 2 ^ 64" "(16 :: nat) dvd 2 ^ 64" by simp_all
  have m: "unat (x + word_of_nat (4 * k) + 8) mod d = (unat x + 4 * k + 8) mod d" if "d dvd 2 ^ 64" for k d
    using unat_add_mod [OF that, of x "4 * k + 8"] by (simp add: add.assoc)
  have "unat x mod 4 = 0" using assms(1) by (simp add: and_low_zero)
  then obtain q where q: "unat x = 4 * q" by (metis mod_0_imp_dvd dvdE)
  define k where "k = 3 - (q + 1) mod 4"
  have b: "(q + 1) mod 4 \<le> 3" by simp
  have k1: "k \<le> 3" by (simp add: k_def)
  have "4 * ((q + 1) div 4) + (q + 1) mod 4 = q + 1" by (rule mult_div_mod_eq)
  moreover have "4 * x + y = q + 1 \<Longrightarrow> y \<le> 3 \<Longrightarrow> q + (3 - y) + 2 = 4 * (x + 1)" for x y :: nat by arith
  ultimately have "q + k + 2 = 4 * ((q + 1) div 4 + 1)" using b unfolding k_def by blast
  then obtain j where j: "q + k + 2 = 4 * j" by blast
  have "4 * q + 4 * k + 8 = 4 * (q + k + 2)" by simp
  then have "4 * q + 4 * k + 8 = 16 * j" unfolding j by simp
  then have k: "k \<le> 3" "(4 * q + 4 * k + 8) mod 16 = 0" "(4 * q + 4 * k + 8) mod 4 = 0" "(4 * q + 4 * k + 8) mod 8 = 0"
    using k1 by simp_all
  then have "(x + word_of_nat (4 * k) + 8) AND f = 0"
    using assms(2) k m [OF d(1)] m [OF d(2)] m [OF d(3)] q by (auto simp: and_low_zero)
  with k(1) show ?thesis by blast
qed

lemma bit_signed_drop: "bit (signed_drop_bit 2 (x :: u64)) m \<longleftrightarrow> bit x (if 62 \<le> m \<and> m < 64 then 63 else 2 + m)"
  using bit_signed_drop_bit_iff [of 2 x m] by simp

lemma signed_drop_low: "signed_drop_bit 2 (x :: u64) AND mask j = drop_bit 2 x AND mask j" if "j \<le> 2"
  by (rule bit_word_eqI) (use that in \<open>auto simp: bit_simps bit_signed_drop add.commute\<close>)

lemma near_reachable:
  assumes "f \<in> {0, 1, 3}"
  shows "\<exists>k \<le> 3. signed_drop_bit 2 ((z :: u64) - word_of_nat (4 * k)) AND f = 0"
proof -
  define k where "k = unat z div 4 mod 4"
  have k3: "k \<le> 3" unfolding k_def by simp
  have d: "(16 :: nat) dvd 2 ^ 64" by simp
  let ?y = "z - word_of_nat (4 * k)"
  have "unat z mod 16 div 4 = k" unfolding k_def using mod_mult2_eq [of "unat z" 4 4] by simp
  then have zk: "unat z mod 16 = 4 * k + unat z mod 4"
    using mult_div_mod_eq [of 4 "unat z mod 16"] mod_mod_cancel [of 4 16 "unat z"] by simp
  have "unat ?y mod 16 = (unat z + (16 - 4 * k)) mod 16" by (rule unat_sub_mod [OF d]) (use k3 in simp)
  also have "\<dots> = (unat z mod 16 + (16 - 4 * k)) mod 16" by (simp add: mod_add_left_eq)
  also have "\<dots> = (16 + unat z mod 4) mod 16" unfolding zk using k3 by simp
  finally have y: "unat ?y mod 16 < 4" by simp
  have "unat ?y mod 16 = 4 * (unat ?y div 4 mod 4) + unat ?y mod 4" using mod_mult2_eq [of "unat ?y" 4 4] by simp
  then have y4: "unat ?y div 4 mod 4 = 0" using y by linarith
  have u: "unat (drop_bit 2 ?y) = unat ?y div 4"
    unfolding unat_drop_bit_eq by (simp add: drop_bit_eq_div)
  have "unat ?y div 4 mod 2 = unat ?y div 4 mod 4 mod 2" by (simp add: mod_mod_cancel)
  then have "unat (drop_bit 2 ?y) mod 4 = 0" "unat (drop_bit 2 ?y) mod 2 = 0" using y4 u by simp_all
  then have "drop_bit 2 ?y AND 3 = 0" "drop_bit 2 ?y AND 1 = 0" by (simp_all only: and_low_zero)
  then have "signed_drop_bit 2 ?y AND f = 0"
    using assms signed_drop_low [of 2 ?y] signed_drop_low [of 1 ?y] by (auto simp: mask_eq_exp_minus_1)
  with k3 show ?thesis by blast
qed

lemma class_alignments: "loadlit_class w = Some (m, f) \<Longrightarrow> f \<in> {3, 7, 15}"
  by (auto simp: loadlit_class_def Let_def split: if_splits)

lemma length_literal_words [simp]: "length (literal_words env a n) = n"
  by (simp add: literal_words_def)

lemma nops_simps [simp]: "length (out_words (nops k s)) = length (out_words s) + k" "in_idx (nops k s) = in_idx s"
  by (simp_all add: nops_def)

lemma loadlit_grows:
  assumes al: "out_rx env AND 3 = 0"
  shows "fix_loadlit env s = Some None \<or> (\<exists>s'. fix_loadlit env s = Some (Some s') \<and> grows 9 s s')"
proof -
  let ?w = "code env ! in_idx s"
  obtain i t where g: "get_and_set_current_index env (outprx env s) s = (i, t)" by fastforce
  note t = index_simps [OF g]
  consider "?w AND 0xff000000 = 0xd8000000" | "?w AND 0xff000000 \<noteq> 0xd8000000" "loadlit_class ?w = None"
    | m f where "?w AND 0xff000000 \<noteq> 0xd8000000" "loadlit_class ?w = Some (m, f)" by (cases "loadlit_class ?w") auto
  then show ?thesis
  proof cases
    case 1
    then show ?thesis by (simp add: fix_loadlit_def Let_def g grows_def next_in_def t)
  next
    case 2
    then show ?thesis by (simp add: fix_loadlit_def Let_def)
  next
    case 3
    have f: "f \<in> {3, 7, 15}" using class_alignments 3(2) .
    let ?a = "literal_target env t ?w"
    obtain k1 where k1: "k1 \<le> 3" "(outprx env (nops k1 t) + 8) AND f = 0"
      using align_reachable [OF outprx_aligned [OF al] f, of t] by (auto simp: outprx_nops)
    have shf: "drop_bit 2 f \<in> {0, 1, 3}" using f by auto
    have "?a - outprx env (nops k t) = (?a - outprx env t) - word_of_nat (4 * k)" for k by (simp add: outprx_nops)
    then obtain k2 where k2: "k2 \<le> 3" "shifted_offset ?a (outprx env (nops k2 t)) AND drop_bit 2 f = 0"
      using near_reachable [OF shf, of "?a - outprx env t"] unfolding shifted_offset_def by metis
    obtain j1 where j1: "j1 \<le> k1" "nop_while (\<lambda>s. (outprx env s + 8) AND f \<noteq> 0) t = Some (nops j1 t)"
      using nop_while_ends [of "\<lambda>s. (outprx env s + 8) AND f \<noteq> 0" k1 t] k1 by auto
    obtain j2 where j2: "j2 \<le> k2" "nop_while (\<lambda>s. shifted_offset ?a (outprx env s) AND drop_bit 2 f \<noteq> 0) t = Some (nops j2 t)"
      using nop_while_ends [of "\<lambda>s. shifted_offset ?a (outprx env s) AND drop_bit 2 f \<noteq> 0" k2 t] k2 by auto
    have ns: "(unat f + 1) div 4 \<le> 4" using f by auto
    show ?thesis
      using 3 j1 j2 k1(1) k2(1) ns
      by (auto simp: fix_loadlit_def Let_def g grows_def t)
  qed
qed

text \<open>The whole loop: every instruction is handled, with at most nine words each.\<close>

lemma fix_one_grows:
  assumes "out_rx env AND 3 = 0"
  shows "\<exists>s'. fix_one env s = Some s' \<and> grows 9 s s'"
proof (cases "fix_branch_imm env s")
  case b: None
  show ?thesis
  proof (cases "fix_cond_comp_test_branch env s")
    case c: None
    show ?thesis
    proof (cases "fix_pcreladdr env s")
      case None
      with b c loadlit_grows [OF assms, of s] grows_mono [OF other_grows, of 9 s env] show ?thesis
        by (auto simp: fix_one_def)
    next
      case (Some s')
      with b c loadlit_grows [OF assms, of s] grows_mono [OF pcreladdr_grows [OF Some], of 9] show ?thesis
        by (auto simp: fix_one_def)
    qed
  next
    case (Some s')
    with b grows_mono [OF cond_grows [OF Some], of 9] show ?thesis by (simp add: fix_one_def)
  qed
next
  case (Some s')
  with grows_mono [OF branch_grows [OF Some], of 9] show ?thesis by (simp add: fix_one_def)
qed

lemma fix_loop_grows:
  assumes "out_rx env AND 3 = 0"
  shows "\<exists>s'. fix_loop env n s = Some s' \<and> in_idx s' = in_idx s + n \<and> length (out_words s') \<le> length (out_words s) + 9 * n"
proof (induction n arbitrary: s)
  case (Suc n)
  obtain s' where s': "fix_one env s = Some s'" "grows 9 s s'" using fix_one_grows [OF assms] by blast
  from Suc.IH [of s'] s' show ?case by (auto simp: grows_def)
qed simp

lemma jump_back_length: "length (out_words (jump_back env s)) \<le> length (out_words s) + 5"
  by (simp add: jump_back_def Let_def far_b_def)

section \<open>Reading the code that is written\<close>

text \<open>
  The instructions the engine writes, as the architecture defines them: no operation, branch,
  branch with link, branch to a register, 64-bit literal load and address of a label. A state
  is the program counter and the registers; memory is the trampoline.
\<close>

record cpu =
  pc :: u64
  xreg :: "nat \<Rightarrow> u64"

definition fetch :: "u64 \<Rightarrow> u32 list \<Rightarrow> u64 \<Rightarrow> u32 option" where
  "fetch base ws a =
     (if (a - base) AND 3 = 0 \<and> unat (a - base) div 4 < length ws then Some (ws ! (unat (a - base) div 4)) else None)"

definition imm19 :: "u32 \<Rightarrow> int" where
  "imm19 w = 4 * signed_take_bit 18 (uint (BitsOf 5 24 w))"

definition imm21 :: "u32 \<Rightarrow> int" where
  "imm21 w = signed_take_bit 20 (4 * uint (BitsOf 5 24 w) + uint (BitsOf 29 31 w))"

definition rd :: "u32 \<Rightarrow> nat" where "rd w = unat (BitsOf 0 5 w)"
definition rn :: "u32 \<Rightarrow> nat" where "rn w = unat (BitsOf 5 10 w)"

definition cpu_step :: "u64 \<Rightarrow> u32 list \<Rightarrow> cpu \<Rightarrow> cpu option" where
  "cpu_step base ws c = do {
     w \<leftarrow> fetch base ws (pc c);
     if w = Aarch64Nop then Some (c\<lparr>pc := pc c + 4\<rparr>)
     else if is_b w then Some (c\<lparr>pc := pc c + word_of_int (imm26 w)\<rparr>)
     else if is_bl w then Some (c\<lparr>pc := pc c + word_of_int (imm26 w), xreg := (xreg c)(30 := pc c + 4)\<rparr>)
     else if w AND 0xff000000 = 0x58000000 then do {
       lo \<leftarrow> fetch base ws (pc c + word_of_int (imm19 w));
       hi \<leftarrow> fetch base ws (pc c + word_of_int (imm19 w) + 4);
       Some (c\<lparr>pc := pc c + 4, xreg := (xreg c)(rd w := ucast lo OR push_bit 32 (ucast hi))\<rparr>)
     }
     else if w AND 0xfffffc1f = 0xd61f0000 then Some (c\<lparr>pc := xreg c (rn w)\<rparr>)
     else if w AND 0x9f000000 = 0x10000000 then
       Some (c\<lparr>pc := pc c + 4, xreg := (xreg c)(rd w := pc c + word_of_int (imm21 w))\<rparr>)
     else None
   }"

primrec cpu_run :: "nat \<Rightarrow> u64 \<Rightarrow> u32 list \<Rightarrow> cpu \<Rightarrow> cpu option" where
  "cpu_run 0 base ws c = Some c"
| "cpu_run (Suc n) base ws c = do { c' \<leftarrow> cpu_step base ws c; cpu_run n base ws c' }"

definition at_index :: "u64 \<Rightarrow> nat \<Rightarrow> u64" where
  "at_index base k = base + word_of_nat (4 * k)"

lemma fetch_at: "k < length ws \<Longrightarrow> length ws < 2 ^ 60 \<Longrightarrow> fetch base ws (at_index base k) = Some (ws ! k)"
proof -
  assume k: "k < length ws" "length ws < 2 ^ 60"
  have u: "unat (word_of_nat (4 * k) :: u64) = 4 * k"
    using k by (simp only: unat_of_nat) simp
  have "(word_of_nat (4 * k) :: u64) AND 3 = 0" unfolding and_low_zero u by simp
  then show ?thesis using k u by (simp add: fetch_def at_index_def)
qed

lemma at_index_add: "at_index base k + 4 = at_index base (Suc k)"
  "at_index base k + 8 = at_index base (Suc (Suc k))" "at_index base k + 12 = at_index base (Suc (Suc (Suc k)))"
  "at_index base k + 16 = at_index base (Suc (Suc (Suc (Suc k))))"
  by (simp_all add: at_index_def algebra_simps)

lemma outprx_at: "outprx env s = at_index (out_rx env) (length (out_words s))"
  by (simp add: outprx_def at_index_def)

lemma addr_words_join: "ucast (ucast a :: u32) OR push_bit 32 (ucast (ucast (drop_bit 32 (a :: u64)) :: u32)) = a"
  by (rule bit_word_eqI) (auto simp: bit_simps)

lemma decoded:
  "is_b 0xd503201f = False" "is_bl 0xd503201f = False"
  "is_b 0x58000051 = False" "is_bl 0x58000051 = False" "imm19 0x58000051 = 8" "rd 0x58000051 = 17"
  "is_b 0x58000071 = False" "is_bl 0x58000071 = False" "imm19 0x58000071 = 12" "rd 0x58000071 = 17"
  "is_b 0xd61f0220 = False" "is_bl 0xd61f0220 = False" "rn 0xd61f0220 = 17"
  "is_b 0x1000009e = False" "is_bl 0x1000009e = False" "imm21 0x1000009e = 16" "rd 0x1000009e = 30"
  by (simp_all add: is_b_def is_bl_def imm19_def imm21_def rd_def rn_def BitsOf_def mask_value_def)

text \<open>The long forms: what they do from their first word on.\<close>

lemma run_far_b:
  assumes ws: "take (n + 4) (drop k ws) = replicate n Aarch64Nop @ far_b t" and len: "length ws < 2 ^ 60" and n: "n \<le> 1"
  shows "\<exists>m c'. cpu_run m base ws \<lparr>pc = at_index base k, xreg = x\<rparr> = Some c' \<and> pc c' = t \<and> (\<forall>r. r \<noteq> 17 \<longrightarrow> xreg c' r = x r)"
proof -
  let ?l = "replicate n Aarch64Nop @ far_b t"
  have lt: "k + n + 4 \<le> length ws"
  proof -
    have "length (take (n + 4) (drop k ws)) = n + 4" unfolding ws by (simp add: far_b_def)
    then show ?thesis by simp
  qed
  have nth: "ws ! (k + i) = ?l ! i" if "i < n + 4" for i
    using arg_cong [OF ws, of "\<lambda>l. l ! i"] that lt by simp
  have f: "fetch base ws (at_index base (k + i)) = Some (?l ! i)" if "i < n + 4" for i
    using fetch_at [of "k + i" ws base] nth [OF that] lt len that by simp
  have w: "fetch base ws (at_index base (k + n)) = Some 0x58000051" "fetch base ws (at_index base (Suc (k + n))) = Some 0xd61f0220"
    "fetch base ws (at_index base (Suc (Suc (k + n)))) = Some (ucast t)" "fetch base ws (at_index base (Suc (Suc (Suc (k + n))))) = Some (ucast (drop_bit 32 t))"
    using f [of n] f [of "Suc n"] f [of "Suc (Suc n)"] f [of "Suc (Suc (Suc n))"]
    by (simp_all add: far_b_def addr_words_def nth_append add.assoc)
  let ?c2 = "\<lparr>pc = t, xreg = x(17 := t)\<rparr>"
  have s: "cpu_step base ws \<lparr>pc = at_index base (k + n), xreg = x\<rparr> = Some \<lparr>pc = at_index base (Suc (k + n)), xreg = x(17 := t)\<rparr>"
    "cpu_step base ws \<lparr>pc = at_index base (Suc (k + n)), xreg = x(17 := t)\<rparr> = Some ?c2"
    using w by (simp_all add: cpu_step_def decoded Aarch64Nop_def at_index_add addr_words_join)
  have run2: "cpu_run (Suc (Suc 0)) base ws \<lparr>pc = at_index base (k + n), xreg = x\<rparr> = Some ?c2" by (simp add: s del: add_Suc_right)
  show ?thesis
  proof (cases "n = 0")
    case True
    with run2 show ?thesis by (intro exI [of _ "Suc (Suc 0)"] exI [of _ ?c2]) simp
  next
    case False
    then have n1: "n = 1" using n by simp
    have "cpu_step base ws \<lparr>pc = at_index base k, xreg = x\<rparr> = Some \<lparr>pc = at_index base (k + n), xreg = x\<rparr>"
      using f [of 0] n1 by (simp add: cpu_step_def at_index_add)
    with run2 have "cpu_run (Suc (Suc (Suc 0))) base ws \<lparr>pc = at_index base k, xreg = x\<rparr> = Some ?c2" by simp
    then show ?thesis by (intro exI [of _ "Suc (Suc (Suc 0))"] exI [of _ ?c2]) simp
  qed
qed

lemma run_far_bl:
  assumes ws: "take (n + 5) (drop k ws) = replicate n Aarch64Nop @ far_bl t" and len: "length ws < 2 ^ 60" and n: "n \<le> 1"
  shows "\<exists>m c'. cpu_run m base ws \<lparr>pc = at_index base k, xreg = x\<rparr> = Some c' \<and> pc c' = t \<and>
     xreg c' 30 = at_index base (Suc (Suc (Suc (Suc (Suc (k + n)))))) \<and> (\<forall>r. r \<noteq> 17 \<longrightarrow> r \<noteq> 30 \<longrightarrow> xreg c' r = x r)"
proof -
  let ?l = "replicate n Aarch64Nop @ far_bl t"
  have lt: "k + n + 5 \<le> length ws"
  proof -
    have "length (take (n + 5) (drop k ws)) = n + 5" unfolding ws by (simp add: far_bl_def)
    then show ?thesis by simp
  qed
  have nth: "ws ! (k + i) = ?l ! i" if "i < n + 5" for i
    using arg_cong [OF ws, of "\<lambda>l. l ! i"] that lt by simp
  have f: "fetch base ws (at_index base (k + i)) = Some (?l ! i)" if "i < n + 5" for i
    using fetch_at [of "k + i" ws base] nth [OF that] lt len that by simp
  have w: "fetch base ws (at_index base (k + n)) = Some 0x58000071" "fetch base ws (at_index base (Suc (k + n))) = Some 0x1000009e"
    "fetch base ws (at_index base (Suc (Suc (k + n)))) = Some 0xd61f0220"
    "fetch base ws (at_index base (Suc (Suc (Suc (k + n))))) = Some (ucast t)" "fetch base ws (at_index base (Suc (Suc (Suc (Suc (k + n)))))) = Some (ucast (drop_bit 32 t))"
    using f [of n] f [of "Suc n"] f [of "Suc (Suc n)"] f [of "Suc (Suc (Suc n))"] f [of "Suc (Suc (Suc (Suc n)))"]
    by (simp_all add: far_bl_def addr_words_def nth_append add.assoc)
  let ?c2 = "\<lparr>pc = t, xreg = x(17 := t, 30 := at_index base (Suc (Suc (Suc (Suc (Suc (k + n)))))))\<rparr>"
  have s: "cpu_step base ws \<lparr>pc = at_index base (k + n), xreg = x\<rparr> = Some \<lparr>pc = at_index base (Suc (k + n)), xreg = x(17 := t)\<rparr>"
    "cpu_step base ws \<lparr>pc = at_index base (Suc (k + n)), xreg = x(17 := t)\<rparr> =
       Some \<lparr>pc = at_index base (Suc (Suc (k + n))), xreg = x(17 := t, 30 := at_index base (Suc (Suc (Suc (Suc (Suc (k + n)))))))\<rparr>"
    "cpu_step base ws \<lparr>pc = at_index base (Suc (Suc (k + n))), xreg = x(17 := t, 30 := at_index base (Suc (Suc (Suc (Suc (Suc (k + n)))))))\<rparr> = Some ?c2"
    using w by (simp_all add: cpu_step_def decoded Aarch64Nop_def at_index_add addr_words_join)
  have run2: "cpu_run (Suc (Suc (Suc 0))) base ws \<lparr>pc = at_index base (k + n), xreg = x\<rparr> = Some ?c2"
    by (simp add: s del: add_Suc_right)
  show ?thesis
  proof (cases "n = 0")
    case True
    with run2 show ?thesis by (intro exI [of _ "Suc (Suc (Suc 0))"] exI [of _ ?c2]) simp
  next
    case False
    then have n1: "n = 1" using n by simp
    have "cpu_step base ws \<lparr>pc = at_index base k, xreg = x\<rparr> = Some \<lparr>pc = at_index base (k + n), xreg = x\<rparr>"
      using f [of 0] n1 by (simp add: cpu_step_def at_index_add)
    with run2 have "cpu_run (Suc (Suc (Suc (Suc 0)))) base ws \<lparr>pc = at_index base k, xreg = x\<rparr> = Some ?c2" by simp
    then show ?thesis by (intro exI [of _ "Suc (Suc (Suc (Suc 0)))"] exI [of _ ?c2]) simp
  qed
qed

section \<open>Branches keep their targets\<close>

lemma high_mask: "(0xfc000000 :: u32) = push_bit 26 (mask 6)" "(0x03ffffff :: u32) = mask 26"
  by (simp_all add: mask_eq_exp_minus_1)

lemma opcode_bits: "BitsOf 26 32 (w AND 0xfc000000) = BitsOf 26 32 w"
  unfolding high_mask by (rule bit_word_eqI) (auto simp: bit_simps)

lemma opcodes:
  "w AND 0xfc000000 = 0x14000000 \<Longrightarrow> is_b w \<and> \<not> is_bl w" "w AND 0xfc000000 = 0x94000000 \<Longrightarrow> is_bl w \<and> \<not> is_b w"
proof -
  assume "w AND 0xfc000000 = 0x14000000"
  then have "BitsOf 26 32 w = BitsOf 26 32 0x14000000" using opcode_bits [of w] by simp
  then show "is_b w \<and> \<not> is_bl w" by (simp add: is_b_def is_bl_def BitsOf_def mask_value_def)
next
  assume "w AND 0xfc000000 = 0x94000000"
  then have "BitsOf 26 32 w = BitsOf 26 32 0x94000000" using opcode_bits [of w] by simp
  then show "is_bl w \<and> \<not> is_b w" by (simp add: is_b_def is_bl_def BitsOf_def mask_value_def)
qed

lemma b_target_imm26: "b_target env s w = inprx env s + word_of_int (imm26 w)"
proof -
  have a: "sint (push_bit 6 w) = push_bit 6 (signed_take_bit 25 (uint w))"
    by (rule bit_eqI) (auto simp: bit_simps min_def not_le)
  have "sint (signed_drop_bit 4 (push_bit 6 w)) = drop_bit 4 (sint (push_bit 6 w))"
    by (rule sint_signed_drop_bit_eq)
  also have "\<dots> = push_bit 2 (signed_take_bit 25 (uint w))" unfolding a by (rule bit_eqI) (auto simp: bit_simps)
  also have "\<dots> = imm26 w" by (simp add: imm26_def push_bit_eq_mult)
  finally have "sint (signed_drop_bit 4 (push_bit 6 w)) = imm26 w" .
  then show ?thesis by (simp add: b_target_def scast_eq)
qed

lemma near_branch:
  assumes z: "(z :: u64) AND 3 = 0" and r: "\<bar>sint (signed_drop_bit 2 z)\<bar> < 0x1ffffff" and opc: "opc \<in> {0x14000000, 0x94000000}"
  defines "w \<equiv> opc OR (ucast (signed_drop_bit 2 z) AND 0x03ffffff)"
  shows "word_of_int (imm26 w) = z" and "w AND 0xfc000000 = opc"
proof -
  let ?o = "signed_drop_bit 2 z"
  have "opc = push_bit 26 5 \<or> opc = push_bit 26 0x25" using opc by simp
  then obtain q where q: "opc = push_bit 26 q" by blast
  have "imm26 w = imm26 (ucast ?o)"
    unfolding w_def high_mask(2) by (rule imm26_cong) (auto simp: q bit_simps)
  also have "\<dots> = 4 * signed_take_bit 25 (uint ?o)"
    by (simp add: imm26_def unsigned_ucast_eq signed_take_bit_take_bit)
  also have "signed_take_bit 25 (uint ?o) = signed_take_bit 25 (sint ?o)"
    by (simp add: sint_uint signed_take_bit_signed_take_bit)
  also have "\<dots> = sint ?o" by (rule signed_take_bit_int_eq_self) (use r in simp_all)
  finally have "word_of_int (imm26 w) = (4 :: u64) * ?o" by simp
  also have "\<dots> = push_bit 2 ?o" by (simp add: push_bit_eq_mult)
  also have "\<dots> = z"
  proof (rule bit_word_eqI)
    fix n assume "n < LENGTH(64)"
    have "\<not> bit z 0" "\<not> bit z 1"
    proof -
      have "bit (z AND mask 2) m = (m < 2 \<and> bit z m)" for m by (auto simp: bit_simps)
      moreover have "z AND mask 2 = 0" using z by (simp add: mask_eq_exp_minus_1)
      ultimately have "\<not> (m < 2 \<and> bit z m)" for m by (metis bit_0_eq bot_apply bot_bool_def)
      from this [of 0] this [of 1] show "\<not> bit z 0" "\<not> bit z 1" by simp_all
    qed
    moreover have "n = 0 \<or> n = 1 \<or> (\<exists>m. n = Suc (Suc m))" by (metis One_nat_def not0_implies_Suc)
    ultimately show "bit (push_bit 2 ?o) n = bit z n" using \<open>n < LENGTH(64)\<close> by (auto simp: bit_push_bit_iff bit_signed_drop)
  qed
  finally show "word_of_int (imm26 w) = z" .
  show "w AND 0xfc000000 = opc"
    unfolding w_def high_mask by (rule bit_word_eqI) (auto simp: q bit_simps)
qed

text \<open>What the notes of forward references may patch: words that are already written.\<close>

definition fixer_ok :: "fixer \<Rightarrow> bool" where
  "fixer_ok s \<longleftrightarrow> length (dat s) = MaxInstructions \<and> (\<forall>d \<in> set (dat s). \<forall>f \<in> set (fmap d). bpr f < length (out_words s))"

lemma fixer_init_ok: "fixer_ok fixer_init"
  by (simp add: fixer_ok_def fixer_init_def)

lemma drop_fix_words: "(\<And>f. f \<in> set fs \<Longrightarrow> bpr f < L) \<Longrightarrow> drop L (fold (fix_word env a) fs ws) = drop L ws"
  by (induction fs arbitrary: ws) (simp_all add: fix_word_def)

lemma current_index:
  assumes "in_idx s < MaxInstructions"
  shows "get_and_set_current_index env a s = (in_idx s, reset_current_ins (in_idx s) a s)"
proof -
  have "unat (word_of_nat (4 * in_idx s) :: u64) = 4 * in_idx s"
    using assms by (simp only: unat_of_nat) (simp add: MaxInstructions_def)
  then show ?thesis by (simp add: get_and_set_current_index_def get_ref_ins_index_def inprx_def Let_def)
qed

lemma done_drop:
  assumes ok: "fixer_ok s" and i: "in_idx s < MaxInstructions"
    and t: "map fmap (dat t) = map fmap (dat s)" and out: "out_words t = out_words s @ ws"
  shows "drop (length (out_words s)) (out_words (done_with env (in_idx s) t)) = ws"
proof -
  have len: "length (dat t) = length (dat s)" "length (dat s) = MaxInstructions"
    using arg_cong [OF t, of length] ok by (simp_all add: fixer_ok_def)
  have "fmap (dat t ! in_idx s) = fmap (dat s ! in_idx s)"
    using arg_cong [OF t, of "\<lambda>l. l ! in_idx s"] i len by simp
  moreover have "dat s ! in_idx s \<in> set (dat s)" using i len by simp
  ultimately have "f \<in> set (fmap (dat t ! in_idx s)) \<Longrightarrow> bpr f < length (out_words s)" for f
    using ok by (auto simp: fixer_ok_def)
  then show ?thesis by (simp add: done_with_def process_fix_map_def next_in_def drop_fix_words out)
qed

lemma fmaps_reset [simp]: "i < length (dat s) \<Longrightarrow> map fmap (dat (reset_current_ins i a s)) = map fmap (dat s)"
  by (simp add: reset_current_ins_def map_update list_update_same_conv)

lemma dat_reset_length [simp]: "length (dat (reset_current_ins i a s)) = length (dat s)"
  by (simp add: reset_current_ins_def)

lemma inprx_simps [simp]:
  "inprx env (reset_current_ins i a s) = inprx env s" "outprx env (reset_current_ins i a s) = outprx env s"
  "inprx env (emit ws s) = inprx env s"
  by (simp_all add: inprx_def outprx_def)

lemma b_target_reset [simp]: "b_target env (reset_current_ins i a s) w = b_target env s w"
  by (simp add: b_target_def)

text \<open>The code written for a branch to a place outside the moved instructions.\<close>

lemma branch_words:
  assumes ok: "fixer_ok s" and i: "in_idx s < MaxInstructions" and run: "fix_branch_imm env s = Some s'"
    and out: "\<not> is_in_fixing_range env (b_target env s w)" and w: "w = code env ! in_idx s"
  defines "t \<equiv> b_target env s w" and "L \<equiv> length (out_words s)"
  defines "off \<equiv> shifted_offset t (outprx env s)"
  shows "(\<bar>sint off\<bar> \<ge> 0x1ffffff \<and> is_b w \<and> (\<exists>n \<le> 1. drop L (out_words s') = replicate n Aarch64Nop @ far_b t))
    \<or> (\<bar>sint off\<bar> \<ge> 0x1ffffff \<and> is_bl w \<and> \<not> is_b w \<and> (\<exists>n \<le> 1. drop L (out_words s') = replicate n Aarch64Nop @ far_bl t))
    \<or> (\<bar>sint off\<bar> < 0x1ffffff \<and> (is_b w \<or> is_bl w \<and> \<not> is_b w) \<and> w AND 0xfc000000 \<in> {0x14000000, 0x94000000} \<and>
       drop L (out_words s') = [(w AND 0xfc000000) OR (ucast off AND 0x03ffffff)])"
proof -
  let ?r = "reset_current_ins (in_idx s) (outprx env s) s"
  have len: "in_idx s < length (dat s)" using i ok by (simp add: fixer_ok_def)
  have opc: "w AND 0xfc000000 \<in> {0x14000000, 0x94000000}"
    using run unfolding fix_branch_imm_def by (auto simp: Let_def simp flip: w split: if_splits)
  note ci = current_index [OF i, of env "outprx env s"]
  show ?thesis
  proof (cases "\<bar>sint off\<bar> \<ge> 0x1ffffff")
    case True
    have p: "\<exists>n \<le> 1. out_words (emit ws (pad env b (in_idx s) ?r)) = out_words s @ replicate n Aarch64Nop @ ws \<and>
        map fmap (dat (emit ws (pad env b (in_idx s) ?r))) = map fmap (dat s)" for b ws
      using len by (cases b) (auto simp: pad_def Let_def intro: exI [of _ 1] exI [of _ 0])
    have d: "\<exists>n \<le> 1. drop L (out_words (done_with env (in_idx s) (emit ws (pad env b (in_idx s) ?r)))) = replicate n Aarch64Nop @ ws" for b ws
      using p [of ws b] done_drop [OF ok i] unfolding L_def by metis
    from opc consider (b) "w AND 0xfc000000 = 0x14000000" | (bl) "w AND 0xfc000000 = 0x94000000" by blast
    then show ?thesis
    proof cases
      case b
      have "\<exists>c. s' = done_with env (in_idx s) (emit (far_b t) (pad env c (in_idx s) ?r))"
        using run True out unfolding fix_branch_imm_def by (auto simp: Let_def ci b off_def t_def simp flip: w)
      with d [of "far_b t"] True opcodes(1) [OF b] show ?thesis by blast
    next
      case bl
      have "\<exists>c. s' = done_with env (in_idx s) (emit (far_bl t) (pad env c (in_idx s) ?r))"
        using run True out unfolding fix_branch_imm_def by (auto simp: Let_def ci bl off_def t_def simp flip: w)
      with d [of "far_bl t"] True opcodes(2) [OF bl] show ?thesis by blast
    qed
  next
    case False
    have r: "resolve shifted_offset env (in_idx s) t t 0 0x03ffffff ?r = (?r, off)"
      using out by (simp add: resolve_def off_def t_def)
    have "s' = done_with env (in_idx s) (emit [(w AND 0xfc000000) OR (ucast off AND 0x03ffffff)] ?r)"
      using run False opc out r unfolding fix_branch_imm_def by (auto simp: Let_def ci off_def t_def simp flip: w)
    moreover have "drop L (out_words (done_with env (in_idx s) (emit [(w AND 0xfc000000) OR (ucast off AND 0x03ffffff)] ?r))) =
        [(w AND 0xfc000000) OR (ucast off AND 0x03ffffff)]"
      unfolding L_def using len by (intro done_drop [OF ok i]) simp_all
    ultimately show ?thesis using False opc opcodes [of w] by auto
  qed
qed

lemma aligned_iff: "(x :: u64) AND 3 = 0 \<longleftrightarrow> (\<exists>q. x = 4 * q)"
proof
  assume "x AND 3 = 0"
  then have "take_bit 2 x = 0" by (simp add: take_bit_eq_mask mask_eq_exp_minus_1)
  then have "x = push_bit 2 (drop_bit 2 x)" using bits_ident [of 2 x] by simp
  then show "\<exists>q. x = 4 * q" by (metis push_bit_eq_mult mult.commute power2_eq_square mult_2 numeral_Bit0)
next
  assume "\<exists>q. x = 4 * q"
  then obtain q where "x = push_bit 2 q" by (auto simp: push_bit_eq_mult mult.commute)
  moreover have "push_bit 2 q AND mask 2 = 0" by (rule bit_word_eqI) (auto simp: bit_simps)
  ultimately show "x AND 3 = 0" by (simp add: mask_eq_exp_minus_1)
qed

lemma aligned_add: "(x :: u64) AND 3 = 0 \<Longrightarrow> y AND 3 = 0 \<Longrightarrow> (x + y) AND 3 = 0"
  unfolding aligned_iff by (metis distrib_left)

lemma aligned_diff: "(x :: u64) AND 3 = 0 \<Longrightarrow> y AND 3 = 0 \<Longrightarrow> (x - y) AND 3 = 0"
  unfolding aligned_iff by (metis right_diff_distrib)

lemma aligned_words: "(word_of_nat (4 * k) :: u64) AND 3 = 0" "(word_of_int (4 * i) :: u64) AND 3 = 0"
  unfolding aligned_iff by (metis of_nat_mult of_nat_numeral) (metis of_int_mult of_int_numeral)

lemma aligned_mult: "(4 * x :: u64) AND 3 = 0"
  unfolding aligned_iff by blast

section \<open>Properties\<close>

text \<open>
  C33. A moved branch, with or without link, whose target is not one of the moved instructions still goes
  where it went: running the words written for it from their first address reaches the target of the original
  instruction, in its short form or the long one, with or without padding. Only the scratch register x17 is lost,
  and the link register of a call holds the address of the next moved instruction. (The code and its copy start
  at addresses divisible by 4. A branch to one of the moved instructions takes another path of \<open>fix_branch_imm\<close>, which
  this does not cover.)
\<close>

theorem relocated_branch:
  assumes "fixer_ok s" and "in_idx s < MaxInstructions" and "fix_branch_imm env s = Some s'"
    and "\<not> is_in_fixing_range env (b_target env s (code env ! in_idx s))"
    and "in_rx env AND 3 = 0" and "out_rx env AND 3 = 0" and "length (out_words s) < 2 ^ 50"
  shows "\<exists>n c. cpu_run n (out_rx env) (out_words s') \<lparr>pc = outprx env s, xreg = x\<rparr> = Some c \<and>
     pc c = inprx env s + word_of_int (imm26 (code env ! in_idx s)) \<and>
     (\<forall>r. r \<noteq> 17 \<longrightarrow> r \<noteq> 30 \<longrightarrow> xreg c r = x r) \<and>
     xreg c 30 = (if is_b (code env ! in_idx s) then x 30 else outprx env s')"
proof -
  define w where "w = code env ! in_idx s"
  let ?t = "b_target env s w" and ?L = "length (out_words s)" and ?ws = "out_words s'" and ?base = "out_rx env"
  let ?off = "shifted_offset ?t (outprx env s)"
  have out: "outprx env s = at_index ?base ?L" "outprx env s' = at_index ?base (length ?ws)" by (simp_all add: outprx_at)
  have tgt: "?t = inprx env s + word_of_int (imm26 w)" by (rule b_target_imm26)
  have "drop ?L ?ws \<noteq> []"
    using branch_words [OF assms(1-3) _ w_def] assms(4) unfolding w_def [symmetric] by (auto simp: far_b_def far_bl_def)
  then have L: "?L \<le> length ?ws" "length ?ws < 2 ^ 60"
    using branch_grows [OF assms(3)] assms(7) by (simp_all add: grows_def)
  have goal: "(\<exists>n c. cpu_run n ?base ?ws \<lparr>pc = at_index ?base ?L, xreg = x\<rparr> = Some c \<and> pc c = ?t \<and>
     (\<forall>r. r \<noteq> 17 \<longrightarrow> r \<noteq> 30 \<longrightarrow> xreg c r = x r) \<and> xreg c 30 = (if is_b w then x 30 else at_index ?base (length ?ws)))"
  proof -
    from branch_words [OF assms(1-3) _ w_def] assms(4)
    consider (b) n where "is_b w" "n \<le> 1" "drop ?L ?ws = replicate n Aarch64Nop @ far_b ?t"
      | (bl) n where "is_bl w" "\<not> is_b w" "n \<le> 1" "drop ?L ?ws = replicate n Aarch64Nop @ far_bl ?t"
      | (near) "\<bar>sint ?off\<bar> < 0x1ffffff" "is_b w \<or> is_bl w \<and> \<not> is_b w" "w AND 0xfc000000 \<in> {0x14000000, 0x94000000}"
          "drop ?L ?ws = [(w AND 0xfc000000) OR (ucast ?off AND 0x03ffffff)]"
      unfolding w_def [symmetric] by blast
    then show ?thesis
    proof cases
      case b
      have "take (n + 4) (drop ?L ?ws) = replicate n Aarch64Nop @ far_b ?t" unfolding b(3) by (simp add: far_b_def)
      from run_far_b [OF this L(2) b(2), of ?base x] b(1) show ?thesis by fastforce
    next
      case bl
      have "take (n + 5) (drop ?L ?ws) = replicate n Aarch64Nop @ far_bl ?t" unfolding bl(4) by (simp add: far_bl_def)
      from run_far_bl [OF this L(2) bl(3), of ?base x]
      obtain m c where c: "cpu_run m ?base ?ws \<lparr>pc = at_index ?base ?L, xreg = x\<rparr> = Some c" "pc c = ?t"
        "xreg c 30 = at_index ?base (Suc (Suc (Suc (Suc (Suc (?L + n))))))" "\<forall>r. r \<noteq> 17 \<longrightarrow> r \<noteq> 30 \<longrightarrow> xreg c r = x r" by blast
      moreover have "length ?ws = Suc (Suc (Suc (Suc (Suc (?L + n)))))"
        using arg_cong [OF bl(4), of length] L(1) by (simp add: far_bl_def)
      ultimately show ?thesis using bl(2) by auto
    next
      case near
      let ?w = "(w AND 0xfc000000) OR (ucast ?off AND 0x03ffffff)"
      have "inprx env s AND 3 = 0" "outprx env s AND 3 = 0"
        unfolding inprx_def outprx_def using assms(5,6) by (auto intro!: aligned_add aligned_mult)
      moreover have "(word_of_int (imm26 w) :: u64) AND 3 = 0" unfolding imm26_def by (rule aligned_words)
      ultimately have z: "(?t - outprx env s) AND 3 = 0" unfolding tgt by (intro aligned_diff aligned_add)
      note nb = near_branch [OF z near(1) [unfolded shifted_offset_def] near(3), folded shifted_offset_def]
      have len: "length ?ws = ?L + 1" using arg_cong [OF near(4), of length] L(1) by simp
      have nth: "?ws ! ?L = ?w" using arg_cong [OF near(4), of hd] len by (simp add: hd_drop_conv_nth)
      have f: "fetch ?base ?ws (at_index ?base ?L) = Some ?w" using fetch_at [of ?L ?ws ?base] len L(2) nth by simp
      have same: "is_b ?w = is_b w" "is_bl ?w = is_bl w"
        using opcode_bits [of ?w] opcode_bits [of w] unfolding nb(2) by (simp_all add: is_b_def is_bl_def)
      have nop: "?w \<noteq> Aarch64Nop" using near(2) same by (auto simp: Aarch64Nop_def decoded)
      have tt: "at_index ?base ?L + word_of_int (imm26 ?w) = ?t" unfolding nb(1) using out(1) by simp
      show ?thesis
      proof (cases "is_b w")
        case True
        then have "cpu_run (Suc 0) ?base ?ws \<lparr>pc = at_index ?base ?L, xreg = x\<rparr> = Some \<lparr>pc = ?t, xreg = x\<rparr>"
          using f nop same tt by (simp add: cpu_step_def)
        with True show ?thesis by (intro exI [of _ "Suc 0"] exI [of _ "\<lparr>pc = ?t, xreg = x\<rparr>"]) simp
      next
        case False
        let ?c = "\<lparr>pc = ?t, xreg = x(30 := at_index ?base (Suc ?L))\<rparr>"
        from False have "cpu_run (Suc 0) ?base ?ws \<lparr>pc = at_index ?base ?L, xreg = x\<rparr> = Some ?c"
          using f nop same tt near(2) by (simp add: cpu_step_def at_index_add)
        with False len show ?thesis by (intro exI [of _ "Suc 0"] exI [of _ ?c]) simp
      qed
    qed
  qed
  then show ?thesis unfolding w_def [symmetric] out tgt .
qed

text \<open>
  C34. Moving the instructions always ends, and the trampoline, with its jump back, fits its slot
  of the pool, whatever the instructions are and wherever the slot lies.
\<close>

theorem trampoline_fits:
  assumes "out_rx env AND 3 = 0" and "in_count env \<le> MaxInstructions"
  shows "\<exists>ws. fix_instructions env = Some ws \<and> length ws \<le> TrampolineSize"
proof -
  obtain s' where s': "fix_loop env (in_count env) fixer_init = Some s'"
    "length (out_words s') \<le> length (out_words fixer_init) + 9 * in_count env"
    using fix_loop_grows [OF assms(1)] by blast
  have "length (out_words (jump_back env s')) \<le> 50"
    using jump_back_length [of env s'] s'(2) assms(2) by (simp add: fixer_init_def MaxInstructions_def)
  with s'(1) show ?thesis by (simp add: fix_instructions_def TrampolineSize_def MaxInstructions_def)
qed

lemma run_near_b:
  assumes "k < length ws" and "length ws < 2 ^ 60" and "ws ! k = 0x14000000 OR (ucast (shifted_offset t (at_index base k)) AND 0x03ffffff)"
    and near: "\<bar>sint (shifted_offset t (at_index base k))\<bar> < 0x1ffffff" and "(t - at_index base k) AND 3 = 0"
  shows "cpu_run (Suc 0) base ws \<lparr>pc = at_index base k, xreg = x\<rparr> = Some \<lparr>pc = t, xreg = x\<rparr>"
proof -
  have opc: "(0x14000000 :: u32) \<in> {0x14000000, 0x94000000}" by simp
  note nb = near_branch [OF assms(5) near [unfolded shifted_offset_def] opc, folded shifted_offset_def, folded assms(3)]
  have f: "fetch base ws (at_index base k) = Some (ws ! k)" by (rule fetch_at [OF assms(1,2)])
  have b: "is_b (ws ! k)" using opcodes(1) [OF nb(2)] by simp
  then have "ws ! k \<noteq> Aarch64Nop" by (auto simp: Aarch64Nop_def decoded)
  with f b nb(1) show ?thesis by (simp add: cpu_step_def)
qed

lemma at_index_aligned: "base AND 3 = 0 \<Longrightarrow> at_index base k AND 3 = 0"
  unfolding at_index_def by (auto intro: aligned_add aligned_mult)

text \<open>
  C35. After the moved instructions the trampoline jumps, in one branch or through x17, to the
  first instruction of the function that was not moved.
\<close>

theorem trampoline_returns:
  assumes "fix_loop env (in_count env) fixer_init = Some s'" and "in_rx env AND 3 = 0" and "out_rx env AND 3 = 0"
    and "in_count env \<le> MaxInstructions"
  shows "\<exists>n c. cpu_run n (out_rx env) (out_words (jump_back env s')) \<lparr>pc = outprx env s', xreg = x\<rparr> = Some c \<and>
     pc c = in_rx env + word_of_nat (4 * in_count env) \<and> (\<forall>r. r \<noteq> 17 \<longrightarrow> xreg c r = x r)"
proof -
  let ?k = "length (out_words s')" and ?t = "inprx env s'" and ?ws = "out_words (jump_back env s')"
  have idx: "in_idx s' = in_count env" and k: "?k \<le> 45"
    using fix_loop_grows [OF assms(3), of "in_count env" fixer_init] assms(1,4)
    by (auto simp: fixer_init_def MaxInstructions_def)
  have t: "?t = in_rx env + word_of_nat (4 * in_count env)" by (simp add: inprx_def idx)
  have len: "length ?ws < 2 ^ 60" using jump_back_length [of env s'] k by simp
  have "\<exists>n c. cpu_run n (out_rx env) ?ws \<lparr>pc = at_index (out_rx env) ?k, xreg = x\<rparr> = Some c \<and>
     pc c = ?t \<and> (\<forall>r. r \<noteq> 17 \<longrightarrow> xreg c r = x r)"
  proof (cases "\<bar>sint (shifted_offset ?t (outprx env s'))\<bar> \<ge> 0x1ffffff")
    case True
    then have "\<exists>n \<le> 1. drop ?k ?ws = replicate n Aarch64Nop @ far_b ?t"
      by (auto simp: jump_back_def Let_def intro: exI [of _ 0] exI [of _ 1])
    then obtain n where n: "n \<le> 1" "drop ?k ?ws = replicate n Aarch64Nop @ far_b ?t" by blast
    have "take (n + 4) (drop ?k ?ws) = replicate n Aarch64Nop @ far_b ?t" unfolding n(2) by (simp add: far_b_def)
    from run_far_b [OF this len n(1)] show ?thesis by blast
  next
    case False
    have "(?t - at_index (out_rx env) ?k) AND 3 = 0"
      unfolding inprx_def using assms(2,3) by (auto intro!: aligned_diff aligned_add aligned_mult at_index_aligned)
    moreover have "?ws = out_words s' @ [0x14000000 OR (ucast (shifted_offset ?t (at_index (out_rx env) ?k)) AND 0x03ffffff)]"
      using False by (simp add: jump_back_def Let_def outprx_at)
    ultimately have "cpu_run (Suc 0) (out_rx env) ?ws \<lparr>pc = at_index (out_rx env) ?k, xreg = x\<rparr> = Some \<lparr>pc = ?t, xreg = x\<rparr>"
      using False len by (intro run_near_b) (simp_all add: outprx_at)
    then show ?thesis by (intro exI [of _ "Suc 0"] exI [of _ "\<lparr>pc = ?t, xreg = x\<rparr>"]) simp
  qed
  then show ?thesis unfolding t outprx_at .
qed

text \<open>
  C36. Whoever calls a hooked function runs the hook: from the first address of the function the
  patched words reach \<open>replace\<close> with every register but x17 as the caller left it.
\<close>

theorem hook_runs:
  assumes "HookFuncImpl symbol replace orig tramp mem = Some (ws, t)" and "length orig = 5"
    and "symbol AND 3 = 0" and "replace AND 3 = 0"
  shows "\<exists>n c. cpu_run n symbol ws \<lparr>pc = symbol, xreg = x\<rparr> = Some c \<and> pc c = replace \<and> (\<forall>r. r \<noteq> 17 \<longrightarrow> xreg c r = x r)"
proof -
  have at0: "symbol = at_index symbol 0" by (simp add: at_index_def)
  show ?thesis
  proof (cases "\<bar>sint (shifted_offset replace symbol)\<bar> \<ge> 0x1ffffff")
    case True
    then have "\<exists>n \<le> 1. ws = (replicate n Aarch64Nop @ far_b replace) @ drop (n + 4) orig"
      using assms(1) unfolding HookFuncImpl_def
      by (auto simp: Let_def far_b_def Option.bind_eq_Some_conv split: if_splits intro: exI [of _ 0] exI [of _ 1])
    then obtain n where n: "n \<le> 1" "ws = (replicate n Aarch64Nop @ far_b replace) @ drop (n + 4) orig" by blast
    have w: "take (n + 4) (drop 0 ws) = replicate n Aarch64Nop @ far_b replace" "length ws < 2 ^ 60"
      unfolding n(2) using n(1) assms(2) by (simp_all add: far_b_def)
    from run_far_b [OF this n(1), of symbol x] show ?thesis unfolding at0 [symmetric] by blast
  next
    case False
    then have ws: "ws = (0x14000000 OR (ucast (shifted_offset replace symbol) AND 0x03ffffff)) # tl orig"
      using assms(1) unfolding HookFuncImpl_def by (auto simp: Let_def Option.bind_eq_Some_conv)
    have "cpu_run (Suc 0) symbol ws \<lparr>pc = at_index symbol 0, xreg = x\<rparr> = Some \<lparr>pc = replace, xreg = x\<rparr>"
      using False assms(2) ws aligned_diff [OF assms(4,3)] by (intro run_near_b) (simp_all flip: at0)
    then show ?thesis unfolding at0 [symmetric] by (intro exI [of _ "Suc 0"] exI [of _ "\<lparr>pc = replace, xreg = x\<rparr>"]) simp
  qed
qed

text \<open>
  The slots handed out lie in the pool, except the last: the guard \<open>i > HookMax\<close> lets slot
  \<open>HookMax\<close> through, whose end is past the pool of \<open>0x1000\<close> bytes.
\<close>

theorem trampoline_slots:
  assumes "AllocForTrampoline index = (Some i, index')"
  shows "slot_offset i + TrampolineSize * 4 \<le> HookPoolSize \<longleftrightarrow> i < HookMax"
  using assms
  by (auto simp: AllocForTrampoline_def Let_def slot_offset_def HookMax_def HookPoolSize_def TrampolineSize_def
      MaxInstructions_def split: if_splits)

lemma trampoline_slots_witness:
  "AllocForTrampoline 19 = (Some 20, 20) \<and> \<not> slot_offset 20 + TrampolineSize * 4 \<le> HookPoolSize"
proof -
  have "AllocForTrampoline 19 = (Some 20, 20)"
    by (simp add: AllocForTrampoline_def HookMax_def HookPoolSize_def TrampolineSize_def MaxInstructions_def)
  with trampoline_slots [OF this] show ?thesis by (simp add: HookMax_def HookPoolSize_def TrampolineSize_def MaxInstructions_def)
qed

section \<open>Displacements read without their sign\<close>

lemma zero_extended:
  assumes "v = word_of_int i" and "- (2 ^ n) \<le> i" and "i < 2 ^ n" and "n < 32"
  shows "(ucast (take_bit (Suc n) (v :: u32)) :: u64) = word_of_int i + (if i < 0 then 2 ^ Suc n else 0)"
proof -
  have "uint (take_bit (Suc n) v) = take_bit (Suc n) (take_bit 32 i)"
    using assms(1) by (simp add: unsigned_take_bit_eq unsigned_of_int)
  also have "\<dots> = take_bit (Suc n) i" using assms(4) by (simp add: min_def)
  also have "\<dots> = (if i < 0 then i + 2 ^ Suc n else i)"
  proof (cases "i < 0")
    case True
    have "take_bit (Suc n) (i + 2 ^ Suc n) = i + 2 ^ Suc n"
      by (rule take_bit_int_eq_self) (use assms True in simp_all)
    with True show ?thesis by (simp add: take_bit_eq_mod)
  qed (use assms in \<open>simp add: take_bit_int_eq_self\<close>)
  finally have "uint (take_bit (Suc n) v) = (if i < 0 then i + 2 ^ Suc n else i)" .
  then show ?thesis by (simp add: unsigned_ucast_eq word_eq_iff_unsigned ucast_eq split: if_splits)
qed

lemma imm_words:
  "word_of_int (imm19 w) = (signed_drop_bit 11 (push_bit 8 w) AND NOT 3 :: u32)"
  "word_of_int (imm21 w) = adr_offset w"
  "drop_bit 3 (w AND NOT (0xff00001f :: u32)) = take_bit 21 (signed_drop_bit 11 (push_bit 8 w) AND NOT 3)"
proof -
  have m: "NOT (0xff00001f :: u32) = push_bit 5 (mask 19)" "(3 :: u32) = mask 2" by (simp_all add: mask_eq_exp_minus_1 push_bit_eq_mult)
  have i: "imm19 w = push_bit 2 (signed_take_bit 18 (uint (BitsOf 5 24 w)))" by (simp add: imm19_def push_bit_eq_mult)
  have j: "4 * uint (BitsOf 5 24 w) + uint (BitsOf 29 31 w) = push_bit 2 (uint (BitsOf 5 24 w)) OR uint (BitsOf 29 31 w)"
  proof -
    have "push_bit 2 (uint (BitsOf 5 24 w)) AND uint (BitsOf 29 31 w) = 0"
      by (rule bit_eqI) (auto simp: bit_simps)
    from disjunctive_add_eq_or [OF this] show ?thesis by (simp add: push_bit_eq_mult)
  qed
  show "word_of_int (imm19 w) = (signed_drop_bit 11 (push_bit 8 w) AND NOT 3 :: u32)"
  proof (rule bit_word_eqI)
    fix n assume "n < LENGTH(32)"
    then show "bit (word_of_int (imm19 w) :: u32) n \<longleftrightarrow> bit (signed_drop_bit 11 (push_bit 8 w) AND NOT 3 :: u32) n"
      unfolding i m by (cases "n = 20") (auto simp: bit_simps min_def not_le)
  qed
  show "word_of_int (imm21 w) = adr_offset w"
  proof (rule bit_word_eqI)
    fix n assume n: "n < LENGTH(32)"
    have p: "bit (drop_bit 30 (push_bit 1 w)) n \<longleftrightarrow> n < 2 \<and> bit w (n + 29)"
      by (auto simp: bit_simps bit_double_iff mult.commute [of w 2] add.commute)
    from n show "bit (word_of_int (imm21 w) :: u32) n \<longleftrightarrow> bit (adr_offset w) n"
      unfolding imm21_def j adr_offset_def m bit_or_iff p by (cases "n = 20") (auto simp: bit_simps min_def not_le)
  qed
  show "drop_bit 3 (w AND NOT (0xff00001f :: u32)) = take_bit 21 (signed_drop_bit 11 (push_bit 8 w) AND NOT 3)"
  proof (rule bit_word_eqI)
    fix n assume "n < LENGTH(32)"
    then show "bit (drop_bit 3 (w AND NOT (0xff00001f :: u32))) n \<longleftrightarrow>
        bit (take_bit 21 (signed_drop_bit 11 (push_bit 8 w) AND NOT 3 :: u32)) n"
      unfolding m by (cases "n = 20") (auto simp: bit_simps min_def not_le)
  qed
qed

lemma imm_bounds: "- (2 ^ 20) \<le> imm19 w" "imm19 w < 2 ^ 20" "- (2 ^ 20) \<le> imm21 w" "imm21 w < 2 ^ 20"
  using signed_take_bit_int_greater_eq_minus_exp [of 18 "uint (BitsOf 5 24 w)"] signed_take_bit_int_less_exp [of 18 "uint (BitsOf 5 24 w)"]
    signed_take_bit_int_greater_eq_minus_exp [of 20 "4 * uint (BitsOf 5 24 w) + uint (BitsOf 29 31 w)"]
    signed_take_bit_int_less_exp [of 20 "4 * uint (BitsOf 5 24 w) + uint (BitsOf 29 31 w)"]
  by (simp_all add: imm19_def imm21_def)

text \<open>
  The displacement of a conditional branch, of a compare-and-branch and of an address or
  literal is read without its sign: a backward one sends the branch 2 MB, and the address or
  literal 4 GB, past the place the original instruction names.
\<close>

theorem backward_targets:
  "cond_target env s w 0xff00001f = inprx env s + word_of_int (imm19 w) + (if imm19 w < 0 then 2 ^ 21 else 0) \<and>
   literal_target env s w = inprx env s + word_of_int (imm19 w) + (if imm19 w < 0 then 2 ^ 32 else 0) \<and>
   adr_target env s w = inprx env s + word_of_int (imm21 w) + (if imm21 w < 0 then 2 ^ 32 else 0)"
proof -
  have t: "take_bit (Suc 31) (v :: u32) = v" for v by (simp add: take_bit_word_eq_self)
  have b: "- (2 ^ 31) \<le> imm19 w" "imm19 w < 2 ^ 31" "- (2 ^ 31) \<le> imm21 w" "imm21 w < 2 ^ 31"
    using imm_bounds [of w] by simp_all
  have "cond_target env s w 0xff00001f = inprx env s + word_of_int (imm19 w) + (if imm19 w < 0 then 2 ^ 21 else 0)"
    unfolding cond_target_def imm_words(3) using zero_extended [OF imm_words(1) [symmetric] imm_bounds(1,2)] by simp
  moreover have "literal_target env s w = inprx env s + word_of_int (imm19 w) + (if imm19 w < 0 then 2 ^ 32 else 0)"
    unfolding literal_target_def using zero_extended [OF imm_words(1) [symmetric] b(1,2), unfolded t] by simp
  moreover have "adr_target env s w = inprx env s + word_of_int (imm21 w) + (if imm21 w < 0 then 2 ^ 32 else 0)"
    unfolding adr_target_def using zero_extended [OF imm_words(2) [symmetric] b(3,4), unfolded t] by simp
  ultimately show ?thesis by blast
qed

section \<open>The theorems at work\<close>

text \<open>A call of a function 64 bytes on, moved 4 GB away.\<close>

definition moved_call :: fix_env where
  "moved_call = \<lparr>in_rx = 0x1000, in_count = 1, code = [0x94000010], out_rx = 0x100002000, out_rw = 0, literals = \<lambda>_. 0\<rparr>"

lemma moved_call_target: "b_target moved_call fixer_init 0x94000010 = 0x1040"
  unfolding b_target_imm26 by (simp add: inprx_def moved_call_def fixer_init_def imm26_def)

lemma relocated_branch_witness:
  "\<exists>s' n c. fix_branch_imm moved_call fixer_init = Some s' \<and>
     cpu_run n 0x100002000 (out_words s') \<lparr>pc = 0x100002000, xreg = \<lambda>_. 0\<rparr> = Some c \<and> pc c = 0x1040"
proof -
  have c: "code moved_call ! in_idx fixer_init = 0x94000010" by (simp add: moved_call_def fixer_init_def)
  obtain s' where s': "fix_branch_imm moved_call fixer_init = Some s'"
    by (cases "fix_branch_imm moved_call fixer_init") (auto simp: fix_branch_imm_def c Let_def split: prod.splits if_splits)
  have "inprx moved_call fixer_init + word_of_int (imm26 0x94000010) = 0x1040"
    using moved_call_target by (simp add: b_target_imm26)
  with relocated_branch [OF fixer_init_ok _ s', of "\<lambda>_. 0", unfolded c moved_call_target]
  have "\<exists>n c. cpu_run n 0x100002000 (out_words s') \<lparr>pc = 0x100002000, xreg = \<lambda>_. 0\<rparr> = Some c \<and> pc c = 0x1040"
    by (simp add: fixer_init_def MaxInstructions_def is_in_fixing_range_def moved_call_def outprx_def) blast
  with s' show ?thesis by blast
qed

lemma trampoline_fits_witness: "\<exists>ws. fix_instructions moved_call = Some ws \<and> length ws \<le> TrampolineSize"
  by (rule trampoline_fits) (simp_all add: moved_call_def MaxInstructions_def)

lemma trampoline_returns_witness:
  "\<exists>s' n c. fix_loop moved_call 1 fixer_init = Some s' \<and>
     cpu_run n 0x100002000 (out_words (jump_back moved_call s')) \<lparr>pc = outprx moved_call s', xreg = \<lambda>_. 0\<rparr> = Some c \<and> pc c = 0x1004"
proof -
  have al: "out_rx moved_call AND 3 = 0" by (simp add: moved_call_def)
  obtain s' where s': "fix_loop moved_call 1 fixer_init = Some s'" using fix_loop_grows [OF al] by blast
  from trampoline_returns [of moved_call s' "\<lambda>_. 0"] s' show ?thesis
    by (simp add: moved_call_def MaxInstructions_def) blast
qed

lemma hook_runs_witness:
  "\<exists>ws n c. HookFuncImpl 0x1000 0x2000 [1, 2, 3, 4, 5] None (\<lambda>_. 0) = Some (ws, []) \<and>
     cpu_run n 0x1000 ws \<lparr>pc = 0x1000, xreg = \<lambda>_. 0\<rparr> = Some c \<and> pc c = 0x2000"
proof -
  obtain ws where ws: "HookFuncImpl 0x1000 0x2000 [1, 2, 3, 4, 5] None (\<lambda>_. 0) = Some (ws, [])"
    by (cases "\<bar>sint (shifted_offset 0x2000 0x1000)\<bar> \<ge> 0x1ffffff") (auto simp: HookFuncImpl_def Let_def)
  with hook_runs [OF ws, of "\<lambda>_. 0"] show ?thesis by auto
qed

end
