(* ===== verification/Rtld.thy ===== *)
theory Rtld
  imports Prelude
begin

text \<open>
  The run-time linker of exlaunch (\<open>source/rtld\<close>): reading a module's dynamic section
  (\<open>ModuleObject::Initialize\<close>), relocating it, looking up symbols through the ELF hash table and
  over the list of loaded modules, and binding the procedure linkage table at once or lazily.

  Memory is a typed heap, one map per type of object the code reads through a pointer; only the
  address-sized cells are written. The numbers of the ELF format (\<open>DT_\<close>, \<open>R_AARCH64_\<close>, \<open>STB_\<close>,
  \<open>SHN_\<close>) are those of the ELF specification for AArch64. \<open>None\<close> is a failed assertion, a loop
  that does not end, or a division by zero.
\<close>

section \<open>ELF objects\<close>

record Elf_Dyn =
  d_tag :: u64
  d_val :: u64

record Elf_Rel =
  r_offset :: u64
  r_info :: u64

record Elf_Rela = Elf_Rel +
  r_addend :: u64

record Elf_Sym =
  st_name :: u32
  st_info :: u8
  st_other :: u8
  st_shndx :: u16
  st_value :: u64

definition ELF_R_SYM :: "u64 \<Rightarrow> u32" where "ELF_R_SYM info = ucast (drop_bit 32 info)"
definition ELF_R_TYPE :: "u64 \<Rightarrow> u32" where "ELF_R_TYPE info = ucast info"
definition ELF_ST_BIND :: "u8 \<Rightarrow> u8" where "ELF_ST_BIND info = drop_bit 4 info"
definition ELF_ST_VISIBILITY :: "u8 \<Rightarrow> u8" where "ELF_ST_VISIBILITY oth = oth AND 3"

definition ARCH_RELATIVE :: u32 where "ARCH_RELATIVE = 1027"
definition ARCH_JUMP_SLOT :: u32 where "ARCH_JUMP_SLOT = 1026"
definition ARCH_GLOB_DAT :: u32 where "ARCH_GLOB_DAT = 1025"
definition ARCH_IS_REL_ABSOLUTE :: "u32 \<Rightarrow> bool" where "ARCH_IS_REL_ABSOLUTE t \<longleftrightarrow> t = 258 \<or> t = 257"
definition STB_WEAK :: u8 where "STB_WEAK = 2"
definition SHN_COMMON :: u16 where "SHN_COMMON = 0xfff2"

definition sizeof_Rel :: nat where "sizeof_Rel = 16"
definition sizeof_Rela :: nat where "sizeof_Rela = 24"
definition sizeof_Sym :: nat where "sizeof_Sym = 24"

section \<open>Modules\<close>

text \<open>
  \<open>rel\<close> and \<open>rela\<close> of the unions of the code are one address each: \<open>rela_or_rel_plt\<close> and
  \<open>rela_or_rel\<close>.
\<close>

record ModuleObject =
  mo_next :: u64
  mo_prev :: u64
  rela_or_rel_plt :: u64
  rela_or_rel :: u64
  module_base :: u64
  is_rela :: bool
  rela_or_rel_plt_size :: u64
  dt_init :: u64
  dt_fini :: u64
  hash_bucket :: u64
  hash_chain :: u64
  dynstr :: u64
  dynsym :: u64
  dynstr_size :: u64
  got :: u64
  rela_dyn_size :: u64
  rel_dyn_size :: u64
  rel_count :: u64
  rela_count :: u64
  hash_nchain_value :: u64
  hash_nbucket_value :: u64
  got_stub_ptr :: u64

text \<open>
  What is only read: the tables of the images, the modules of \<open>g_pAutoLoadList\<close> (the address of
  the list head, its \<open>back\<close>, and the modules by address) and the manual lookup function of the
  system linker, if it is set.
\<close>

record image =
  rels :: "u64 \<Rightarrow> Elf_Rel"
  relas :: "u64 \<Rightarrow> Elf_Rela"
  syms :: "u64 \<Rightarrow> Elf_Sym"
  u32s :: "u64 \<Rightarrow> u32"
  chars :: "u64 \<Rightarrow> u8"
  auto_list :: u64
  auto_back :: u64
  modules :: "u64 \<Rightarrow> ModuleObject"
  manual_lookup :: "(bytes \<Rightarrow> u64) option"

type_synonym cells = "u64 \<Rightarrow> u64"

definition rel_at :: "image \<Rightarrow> u64 \<Rightarrow> nat \<Rightarrow> Elf_Rel" where
  "rel_at im a i = rels im (a + word_of_nat (sizeof_Rel * i))"

definition rela_at :: "image \<Rightarrow> u64 \<Rightarrow> nat \<Rightarrow> Elf_Rela" where
  "rela_at im a i = relas im (a + word_of_nat (sizeof_Rela * i))"

definition sym_at :: "image \<Rightarrow> ModuleObject \<Rightarrow> u32 \<Rightarrow> Elf_Sym" where
  "sym_at im mo i = syms im (dynsym mo + word_of_nat (sizeof_Sym * unat i))"

definition u32_at :: "image \<Rightarrow> u64 \<Rightarrow> nat \<Rightarrow> u32" where
  "u32_at im a i = u32s im (a + word_of_nat (4 * i))"

section \<open>The dynamic section\<close>

text \<open>The section is the list of its entries up to \<open>DT_NULL\<close>; \<open>rel_plt\<close> is the local of the code.\<close>

definition init_entry :: "image \<Rightarrow> u64 \<Rightarrow> Elf_Dyn \<Rightarrow> ModuleObject \<times> u64 \<Rightarrow> (ModuleObject \<times> u64) option" where
  "init_entry im aslr_base d st =
     (let (mo, rel_plt) = st; t = d_tag d; v = d_val d in
      if t = 2 then Some (mo\<lparr>rela_or_rel_plt_size := v\<rparr>, rel_plt)
      else if t = 3 then Some (mo\<lparr>got := aslr_base + v\<rparr>, rel_plt)
      else if t = 4 then
       (let hash_table = aslr_base + v; nbucket = u32_at im hash_table 0; nchain = u32_at im hash_table 1 in
        Some (mo\<lparr>hash_nbucket_value := ucast nbucket, hash_nchain_value := ucast nchain, hash_bucket := hash_table + 8,
                 hash_chain := hash_table + word_of_nat (4 * unat (2 + nbucket))\<rparr>, rel_plt))
      else if t = 5 then Some (mo\<lparr>dynstr := aslr_base + v\<rparr>, rel_plt)
      else if t = 6 then Some (mo\<lparr>dynsym := aslr_base + v\<rparr>, rel_plt)
      else if t = 17 then Some (mo\<lparr>rela_or_rel := aslr_base + v\<rparr>, rel_plt)
      else if t = 7 then Some (mo\<lparr>rela_or_rel := aslr_base + v\<rparr>, rel_plt)
      else if t = 8 then Some (mo\<lparr>rela_dyn_size := v\<rparr>, rel_plt)
      else if t = 9 then (if v = word_of_nat sizeof_Rela then Some (mo, rel_plt) else None)
      else if t = 11 then (if v = word_of_nat sizeof_Sym then Some (mo, rel_plt) else None)
      else if t = 10 then Some (mo\<lparr>dynstr_size := v\<rparr>, rel_plt)
      else if t = 12 then Some (mo\<lparr>dt_init := aslr_base + v\<rparr>, rel_plt)
      else if t = 13 then Some (mo\<lparr>dt_fini := aslr_base + v\<rparr>, rel_plt)
      else if t = 18 then Some (mo\<lparr>rel_dyn_size := v\<rparr>, rel_plt)
      else if t = 19 then (if v = word_of_nat sizeof_Rel then Some (mo, rel_plt) else None)
      else if t = 20 then (if v = 17 \<or> v = 7 then Some (mo\<lparr>is_rela := (v = 7)\<rparr>, rel_plt) else None)
      else if t = 23 then Some (mo, aslr_base + v)
      else if t = 0x6ffffff9 then Some (mo\<lparr>rela_count := v\<rparr>, rel_plt)
      else if t = 0x6ffffffa then Some (mo\<lparr>rel_count := v\<rparr>, rel_plt)
      else Some (mo, rel_plt))"

fun init_entries :: "image \<Rightarrow> u64 \<Rightarrow> Elf_Dyn list \<Rightarrow> ModuleObject \<times> u64 \<Rightarrow> (ModuleObject \<times> u64) option" where
  "init_entries im aslr_base [] st = None"
| "init_entries im aslr_base (d # ds) st =
     (if d_tag d = 0 then Some st else do { st' \<leftarrow> init_entry im aslr_base d st; init_entries im aslr_base ds st' })"

definition Initialize :: "image \<Rightarrow> u64 \<Rightarrow> Elf_Dyn list \<Rightarrow> ModuleObject \<Rightarrow> ModuleObject option" where
  "Initialize im aslr_base dyn mo = do {
     (mo, rel_plt) \<leftarrow> init_entries im aslr_base dyn
       (mo\<lparr>is_rela := False, module_base := aslr_base, rela_or_rel_plt_size := 0, dt_init := 0, dt_fini := 0,
          hash_bucket := 0, hash_chain := 0, dynstr := 0, dynsym := 0, dynstr_size := 0, rela_or_rel := 0, got := 0,
          rela_dyn_size := 0, rel_dyn_size := 0, got_stub_ptr := 0\<rparr>, 0);
     Some (mo\<lparr>rela_or_rel_plt := rel_plt\<rparr>)
   }"

section \<open>Relative relocations\<close>

definition relative_rel :: "u64 \<Rightarrow> Elf_Rel \<Rightarrow> cells \<Rightarrow> cells" where
  "relative_rel base e c =
     (if ELF_R_TYPE (r_info e) = ARCH_RELATIVE
      then c(base + r_offset e := c (base + r_offset e) + base) else c)"

definition relative_rela :: "u64 \<Rightarrow> Elf_Rela \<Rightarrow> cells \<Rightarrow> cells" where
  "relative_rela base e c =
     (if ELF_R_TYPE (r_info e) = ARCH_RELATIVE then c(base + r_offset e := base + r_addend e) else c)"

text \<open>A loop \<open>for (auto i = 0u; i < n; i++)\<close> over a 64-bit \<open>n\<close>: its 32-bit counter never reaches a larger bound.\<close>

definition for_u32 :: "u64 \<Rightarrow> (nat \<Rightarrow> 's \<Rightarrow> 's) \<Rightarrow> 's \<Rightarrow> 's option" where
  "for_u32 n f s = (if unat n < 2 ^ 32 then Some (fold f [0..<unat n] s) else None)"

definition Relocate :: "image \<Rightarrow> ModuleObject \<Rightarrow> cells \<Rightarrow> cells option" where
  "Relocate im mo c = do {
     c \<leftarrow> for_u32 (rel_count mo) (\<lambda>i. relative_rel (module_base mo) (rel_at im (rela_or_rel mo) i)) c;
     for_u32 (rela_count mo) (\<lambda>i. relative_rela (module_base mo) (rela_at im (rela_or_rel mo) i)) c
   }"

text \<open>\<open>exl_relocate_self\<close>: what it reads of the dynamic section.\<close>

record self_dyn =
  sd_rela :: u64
  sd_rel :: u64
  rela_entry_size :: u64
  rel_entry_size :: u64
  rela_entry_count :: u64
  rel_entry_count :: u64
  rela_size :: u64
  rel_size :: u64

definition self_entry :: "u64 \<Rightarrow> Elf_Dyn \<Rightarrow> self_dyn \<Rightarrow> self_dyn" where
  "self_entry aslr_base d s =
     (let t = d_tag d; v = d_val d in
      if t = 7 then s\<lparr>sd_rela := aslr_base + v\<rparr>
      else if t = 9 then s\<lparr>rela_entry_size := v\<rparr>
      else if t = 8 then s\<lparr>rela_size := v\<rparr>
      else if t = 17 then s\<lparr>sd_rel := aslr_base + v\<rparr>
      else if t = 19 then s\<lparr>rel_entry_size := v\<rparr>
      else if t = 18 then s\<lparr>rel_size := v\<rparr>
      else if t = 0x6ffffff9 then s\<lparr>rela_entry_count := v\<rparr>
      else if t = 0x6ffffffa then s\<lparr>rel_entry_count := v\<rparr>
      else s)"

fun self_entries :: "u64 \<Rightarrow> Elf_Dyn list \<Rightarrow> self_dyn \<Rightarrow> self_dyn option" where
  "self_entries aslr_base [] s = None"
| "self_entries aslr_base (d # ds) s =
     (if d_tag d = 0 then Some s else self_entries aslr_base ds (self_entry aslr_base d s))"

definition entry_count :: "u64 \<Rightarrow> u64 \<Rightarrow> u64 \<Rightarrow> u64 option" where
  "entry_count n sz entry_size =
     (if n = 0 then (if entry_size = 0 then None else Some (sz div entry_size)) else Some n)"

definition exl_relocate_self :: "image \<Rightarrow> u64 \<Rightarrow> Elf_Dyn list \<Rightarrow> cells \<Rightarrow> cells option" where
  "exl_relocate_self im aslr_base dyn c = do {
     s \<leftarrow> self_entries aslr_base dyn
       \<lparr>sd_rela = 0, sd_rel = 0, rela_entry_size = word_of_nat sizeof_Rela, rel_entry_size = word_of_nat sizeof_Rel,
        rela_entry_count = 0, rel_entry_count = 0, rela_size = 0, rel_size = 0\<rparr>;
     n_rela \<leftarrow> entry_count (rela_entry_count s) (rela_size s) (rela_entry_size s);
     n_rel \<leftarrow> entry_count (rel_entry_count s) (rel_size s) (rel_entry_size s);
     let c = fold (\<lambda>i. relative_rel aslr_base (rels im (sd_rel s + word_of_nat i * rel_entry_size s))) [0..<unat n_rel] c;
     Some (fold (\<lambda>i. relative_rela aslr_base (relas im (sd_rela s + word_of_nat i * rela_entry_size s))) [0..<unat n_rela] c)
   }"

section \<open>Symbols\<close>

definition elf_hash_step :: "u64 \<Rightarrow> u8 \<Rightarrow> u64" where
  "elf_hash_step h ch =
     (let h = push_bit 4 h + ucast ch; g = h AND 0xf0000000;
          h = (if g \<noteq> 0 then h XOR drop_bit 24 g else h) in
      h AND NOT g)"

text \<open>\<open>__rtld_elf_hash\<close> on the characters before the terminating zero.\<close>

definition rtld_elf_hash :: "bytes \<Rightarrow> u64" where
  "rtld_elf_hash name = fold (\<lambda>ch h. elf_hash_step h ch) name 0"

text \<open>The string at an address, and \<open>strcmp\<close> of a name with it.\<close>

partial_function (option) c_string :: "image \<Rightarrow> u64 \<Rightarrow> bytes option" where
  "c_string im a = (if chars im a = 0 then Some [] else do { s \<leftarrow> c_string im (a + 1); Some (chars im a # s) })"

definition str_equal :: "image \<Rightarrow> bytes \<Rightarrow> u64 \<Rightarrow> bool" where
  "str_equal im name a \<longleftrightarrow>
     list_all (\<lambda>i. chars im (a + word_of_nat i) = name ! i) [0..<length name] \<and> chars im (a + word_of_nat (length name)) = 0"

definition is_common :: "Elf_Sym \<Rightarrow> bool" where
  "is_common sm = (if st_shndx sm \<noteq> 0 then st_shndx sm = SHN_COMMON else True)"

definition sym_matches :: "image \<Rightarrow> ModuleObject \<Rightarrow> bytes \<Rightarrow> u32 \<Rightarrow> bool" where
  "sym_matches im mo name i \<longleftrightarrow>
     \<not> is_common (sym_at im mo i) \<and> str_equal im name (dynstr mo + ucast (st_name (sym_at im mo i)))"

partial_function (option) chain_walk :: "image \<Rightarrow> ModuleObject \<Rightarrow> bytes \<Rightarrow> u32 \<Rightarrow> u32 option option" where
  "chain_walk im mo name i =
     (if i = 0 then Some None
      else if sym_matches im mo name i then Some (Some i)
      else chain_walk im mo name (u32_at im (hash_chain mo) (unat i)))"

definition GetSymbolByName :: "image \<Rightarrow> ModuleObject \<Rightarrow> bytes \<Rightarrow> u32 option option" where
  "GetSymbolByName im mo name =
     (if hash_nbucket_value mo = 0 then None
      else chain_walk im mo name (u32_at im (hash_bucket mo) (unat (rtld_elf_hash name mod hash_nbucket_value mo))))"

text \<open>\<open>lookup_global_auto\<close>: from the back of the list to its head.\<close>

partial_function (option) auto_walk :: "image \<Rightarrow> bytes \<Rightarrow> u64 \<Rightarrow> u64 option" where
  "auto_walk im name m =
     (if m = auto_list im then Some 0
      else do {
        s \<leftarrow> GetSymbolByName im (modules im m) name;
        case s of
          Some i \<Rightarrow>
            (if ELF_ST_BIND (st_info (sym_at im (modules im m) i)) \<noteq> 0
             then Some (module_base (modules im m) + st_value (sym_at im (modules im m) i))
             else auto_walk im name (if m = 0 then 0 else mo_prev (modules im m)))
        | None \<Rightarrow> auto_walk im name (if m = 0 then 0 else mo_prev (modules im m))
      })"

definition lookup_global_auto :: "image \<Rightarrow> bytes \<Rightarrow> u64 option" where
  "lookup_global_auto im name = (if auto_back im = auto_list im then Some 0 else auto_walk im name (auto_back im))"

text \<open>\<open>Some None\<close> is the answer \<open>false\<close>.\<close>

definition TryResolveSymbol :: "image \<Rightarrow> ModuleObject \<Rightarrow> Elf_Sym \<Rightarrow> u64 option option" where
  "TryResolveSymbol im mo symbol = do {
     name \<leftarrow> c_string im (dynstr mo + ucast (st_name symbol));
     if ELF_ST_VISIBILITY (st_other symbol) \<noteq> 0 then do {
       t \<leftarrow> GetSymbolByName im mo name;
       Some (case t of
           Some i \<Rightarrow> Some (module_base mo + st_value (sym_at im mo i))
         | None \<Rightarrow> (if ELF_ST_BIND (st_info symbol) AND STB_WEAK = STB_WEAK then Some 0 else None))
     }
     else do {
       address \<leftarrow> lookup_global_auto im name;
       let address = (if address = 0 then (case manual_lookup im of Some f \<Rightarrow> f name | None \<Rightarrow> 0) else address);
       Some (if address \<noteq> 0 then Some address else None)
     }
   }"

section \<open>Resolving\<close>

definition ResolveSymbolRelAbsolute :: "image \<Rightarrow> ModuleObject \<Rightarrow> Elf_Rel \<Rightarrow> cells \<Rightarrow> cells option" where
  "ResolveSymbolRelAbsolute im mo e c =
     (let r_type = ELF_R_TYPE (r_info e); target = module_base mo + r_offset e in
      if ARCH_IS_REL_ABSOLUTE r_type \<or> r_type = ARCH_GLOB_DAT then do {
        r \<leftarrow> TryResolveSymbol im mo (sym_at im mo (ELF_R_SYM (r_info e)));
        Some (case r of Some a \<Rightarrow> c(target := c target + a) | None \<Rightarrow> c)
      }
      else Some c)"

definition ResolveSymbolRelaAbsolute :: "image \<Rightarrow> ModuleObject \<Rightarrow> Elf_Rela \<Rightarrow> cells \<Rightarrow> cells option" where
  "ResolveSymbolRelaAbsolute im mo e c =
     (let r_type = ELF_R_TYPE (r_info e); target = module_base mo + r_offset e in
      if ARCH_IS_REL_ABSOLUTE r_type \<or> r_type = ARCH_GLOB_DAT then do {
        r \<leftarrow> TryResolveSymbol im mo (sym_at im mo (ELF_R_SYM (r_info e)));
        Some (case r of Some a \<Rightarrow> c(target := a + r_addend e) | None \<Rightarrow> c)
      }
      else Some c)"

text \<open>The stub every lazy slot first points to: all slots must agree on it.\<close>

definition note_stub :: "u64 \<Rightarrow> ModuleObject \<Rightarrow> ModuleObject option" where
  "note_stub target_address mo =
     (if got_stub_ptr mo \<noteq> 0 then (if got_stub_ptr mo = target_address then Some mo else None)
      else Some (mo\<lparr>got_stub_ptr := target_address\<rparr>))"

definition ResolveSymbolRelJumpSlot :: "image \<Rightarrow> bool \<Rightarrow> Elf_Rel \<Rightarrow> ModuleObject \<times> cells \<Rightarrow> (ModuleObject \<times> cells) option" where
  "ResolveSymbolRelJumpSlot im do_lazy_got_init e mc =
     (let (mo, c) = mc in
      if ELF_R_TYPE (r_info e) = ARCH_JUMP_SLOT then
       (let target = module_base mo + r_offset e; target_address = module_base mo + c target;
            c = (if do_lazy_got_init then c(target := target_address) else c) in do {
          mo \<leftarrow> note_stub target_address mo;
          if do_lazy_got_init then Some (mo, c)
          else do {
            r \<leftarrow> TryResolveSymbol im mo (sym_at im mo (ELF_R_SYM (r_info e)));
            Some (mo, case r of Some a \<Rightarrow> c(target := c target + a) | None \<Rightarrow> c(target := target_address))
          }
        })
      else Some (mo, c))"

definition ResolveSymbolRelaJumpSlot :: "image \<Rightarrow> bool \<Rightarrow> Elf_Rela \<Rightarrow> ModuleObject \<times> cells \<Rightarrow> (ModuleObject \<times> cells) option" where
  "ResolveSymbolRelaJumpSlot im do_lazy_got_init e mc =
     (let (mo, c) = mc in
      if ELF_R_TYPE (r_info e) = ARCH_JUMP_SLOT then
       (let target = module_base mo + r_offset e; target_address = module_base mo + c target;
            c = (if do_lazy_got_init then c(target := target_address) else c) in do {
          mo \<leftarrow> note_stub target_address mo;
          if do_lazy_got_init then Some (mo, c)
          else do {
            r \<leftarrow> TryResolveSymbol im mo (sym_at im mo (ELF_R_SYM (r_info e)));
            Some (mo, case r of Some a \<Rightarrow> c(target := a + r_addend e) | None \<Rightarrow> c(target := target_address))
          }
        })
      else Some (mo, c))"

fun for_each :: "('a \<Rightarrow> 's \<Rightarrow> 's option) \<Rightarrow> 'a list \<Rightarrow> 's \<Rightarrow> 's option" where
  "for_each f [] s = Some s"
| "for_each f (x # xs) s = do { s \<leftarrow> f x s; for_each f xs s }"

text \<open>
  \<open>ResolveSymbols\<close>; \<open>self\<close> is the address of the module object and \<open>resolver\<close> that of
  \<open>__rtld_runtime_resolve\<close>, which it stores into the table.
\<close>

definition ResolveSymbols :: "image \<Rightarrow> u64 \<Rightarrow> u64 \<Rightarrow> bool \<Rightarrow> ModuleObject \<times> cells \<Rightarrow> (ModuleObject \<times> cells) option" where
  "ResolveSymbols im self resolver do_lazy_got_init mc =
     (let (mo, c) = mc; plt = unat (rela_or_rel_plt_size mo) in do {
        c \<leftarrow> for_each (\<lambda>i. ResolveSymbolRelAbsolute im mo (rel_at im (rela_or_rel mo) i))
               [unat (rel_count mo)..<unat (rel_dyn_size mo) div sizeof_Rel] c;
        c \<leftarrow> for_each (\<lambda>i. ResolveSymbolRelaAbsolute im mo (rela_at im (rela_or_rel mo) i))
               [unat (rela_count mo)..<unat (rela_dyn_size mo) div sizeof_Rela] c;
        (mo, c) \<leftarrow>
          (if is_rela mo then
            (if plt div sizeof_Rela < 2 ^ 32
             then for_each (\<lambda>i. ResolveSymbolRelaJumpSlot im do_lazy_got_init (rela_at im (rela_or_rel_plt mo) i))
                    [0..<plt div sizeof_Rela] (mo, c)
             else None)
           else
            (if plt div sizeof_Rel < 2 ^ 32
             then for_each (\<lambda>i. ResolveSymbolRelJumpSlot im do_lazy_got_init (rel_at im (rela_or_rel_plt mo) i))
                    [0..<plt div sizeof_Rel] (mo, c)
             else None));
        Some (mo, if got mo \<noteq> 0 then c(got mo + 8 := self, got mo + 16 := resolver) else c)
      })"

definition rtld_lazy_bind_symbol :: "image \<Rightarrow> ModuleObject \<Rightarrow> nat \<Rightarrow> u64 option" where
  "rtld_lazy_bind_symbol im mo index =
     (if is_rela mo then
       (let entry = rela_at im (rela_or_rel_plt mo) index in do {
          r \<leftarrow> TryResolveSymbol im mo (sym_at im mo (ELF_R_SYM (r_info entry)));
          Some (case r of Some a \<Rightarrow> (if a = 0 then 0 else a + r_addend entry) | None \<Rightarrow> 0)
        })
      else
       (let entry = rel_at im (rela_or_rel_plt mo) index in do {
          r \<leftarrow> TryResolveSymbol im mo (sym_at im mo (ELF_R_SYM (r_info entry)));
          Some (case r of Some a \<Rightarrow> a | None \<Rightarrow> 0)
        }))"

section \<open>Folding updates over a table\<close>

lemma fold_update_other:
  assumes "\<And>i. i \<in> set js \<Longrightarrow> P i \<Longrightarrow> t i \<noteq> a"
  shows "fold (\<lambda>i c. if P i then c(t i := g i (c (t i))) else c) js c a = c a"
  using assms by (induction js arbitrary: c) auto

lemma fold_update_at:
  assumes "distinct js" and "inj_on t {i \<in> set js. P i}" and "k \<in> set js" and "P k"
  shows "fold (\<lambda>i c. if P i then c(t i := g i (c (t i))) else c) js c (t k) = g k (c (t k))"
  using assms
proof (induction js arbitrary: c)
  case (Cons j js)
  have inj: "inj_on t {i \<in> set js. P i}" using Cons.prems(2) by (rule inj_on_subset) auto
  show ?case
  proof (cases "k = j")
    case True
    have "t i \<noteq> t j" if "i \<in> set js" "P i" for i
    proof -
      have "i \<noteq> j" using that Cons.prems(1) by auto
      then show ?thesis using inj_onD [OF Cons.prems(2), of i j] that Cons.prems(4) True by auto
    qed
    then show ?thesis using True Cons.prems(4) by (simp add: fold_update_other [where P = P and t = t])
  next
    case False
    then have k: "k \<in> set js" using Cons.prems(3) by simp
    have "P j \<Longrightarrow> t k \<noteq> t j" using inj_onD [OF Cons.prems(2), of j k] False k Cons.prems(4) by auto
    then show ?thesis using Cons.IH [OF _ inj k Cons.prems(4)] Cons.prems(1) by simp
  qed
qed simp

text \<open>The cells that the relative entries of a table name.\<close>

definition rel_target :: "image \<Rightarrow> ModuleObject \<Rightarrow> nat \<Rightarrow> u64" where
  "rel_target im mo i = module_base mo + r_offset (rel_at im (rela_or_rel mo) i)"

definition rela_target :: "image \<Rightarrow> ModuleObject \<Rightarrow> nat \<Rightarrow> u64" where
  "rela_target im mo i = module_base mo + r_offset (rela_at im (rela_or_rel mo) i)"

definition rel_entries :: "image \<Rightarrow> ModuleObject \<Rightarrow> nat set" where
  "rel_entries im mo = {i \<in> {..<unat (rel_count mo)}. ELF_R_TYPE (r_info (rel_at im (rela_or_rel mo) i)) = ARCH_RELATIVE}"

definition rela_entries :: "image \<Rightarrow> ModuleObject \<Rightarrow> nat set" where
  "rela_entries im mo = {i \<in> {..<unat (rela_count mo)}. ELF_R_TYPE (r_info (rela_at im (rela_or_rel mo) i)) = ARCH_RELATIVE}"

text \<open>
  C37. Relocating a module adds the load address to the cells of its relative \<open>REL\<close> entries, sets
  those of its relative \<open>RELA\<close> entries to the load address plus the addend, and changes nothing else.
\<close>

theorem relocate_exact:
  assumes "Relocate im mo c = Some c'"
    and "inj_on (rel_target im mo) (rel_entries im mo)" and "inj_on (rela_target im mo) (rela_entries im mo)"
    and "rel_target im mo ` rel_entries im mo \<inter> rela_target im mo ` rela_entries im mo = {}"
  shows "(\<forall>i \<in> rel_entries im mo. c' (rel_target im mo i) = c (rel_target im mo i) + module_base mo) \<and>
    (\<forall>i \<in> rela_entries im mo. c' (rela_target im mo i) = module_base mo + r_addend (rela_at im (rela_or_rel mo) i)) \<and>
    (\<forall>a. a \<notin> rel_target im mo ` rel_entries im mo \<union> rela_target im mo ` rela_entries im mo \<longrightarrow> c' a = c a)"
proof -
  let ?P = "\<lambda>i. ELF_R_TYPE (r_info (rel_at im (rela_or_rel mo) i)) = ARCH_RELATIVE"
  let ?Q = "\<lambda>i. ELF_R_TYPE (r_info (rela_at im (rela_or_rel mo) i)) = ARCH_RELATIVE"
  let ?f = "\<lambda>i c. if ?P i then c(rel_target im mo i := c (rel_target im mo i) + module_base mo) else c"
  let ?g = "\<lambda>i c. if ?Q i then c(rela_target im mo i := module_base mo + r_addend (rela_at im (rela_or_rel mo) i)) else c"
  let ?is = "[0..<unat (rel_count mo)]" and ?js = "[0..<unat (rela_count mo)]"
  define d where "d = fold ?f ?is c"
  have "(\<lambda>i. relative_rel (module_base mo) (rel_at im (rela_or_rel mo) i)) = ?f"
    "(\<lambda>i. relative_rela (module_base mo) (rela_at im (rela_or_rel mo) i)) = ?g"
    by (simp_all add: fun_eq_iff relative_rel_def relative_rela_def rel_target_def rela_target_def)
  then have c': "c' = fold ?g ?js d"
    using assms(1) unfolding d_def Relocate_def for_u32_def by (auto split: if_splits)
  have f: "d (rel_target im mo i) = c (rel_target im mo i) + module_base mo" if "i \<in> rel_entries im mo" for i
    unfolding d_def using fold_update_at [of ?is "rel_target im mo" ?P i "\<lambda>_ v. v + module_base mo" c] that assms(2)
    by (simp add: rel_entries_def)
  have f': "d a = c a" if "a \<notin> rel_target im mo ` rel_entries im mo" for a
    unfolding d_def using fold_update_other [of ?is ?P "rel_target im mo" a "\<lambda>_ v. v + module_base mo" c] that
    by (auto simp: rel_entries_def)
  have g: "c' (rela_target im mo i) = module_base mo + r_addend (rela_at im (rela_or_rel mo) i)" if "i \<in> rela_entries im mo" for i
    unfolding c' using fold_update_at [of ?js "rela_target im mo" ?Q i "\<lambda>i _. module_base mo + r_addend (rela_at im (rela_or_rel mo) i)" d] that assms(3)
    by (simp add: rela_entries_def)
  have g': "c' a = d a" if "a \<notin> rela_target im mo ` rela_entries im mo" for a
    unfolding c' using fold_update_other [of ?js ?Q "rela_target im mo" a "\<lambda>i _. module_base mo + r_addend (rela_at im (rela_or_rel mo) i)" d] that
    by (auto simp: rela_entries_def)
  have "c' (rel_target im mo i) = c (rel_target im mo i) + module_base mo" if "i \<in> rel_entries im mo" for i
    using f [OF that] g' [of "rel_target im mo i"] assms(4) that by fastforce
  then show ?thesis using g f' g' by simp
qed

section \<open>Relocating oneself\<close>

text \<open>What the two readers of a dynamic section without \<open>REL\<close> tables agree on.\<close>

definition same_reading :: "u64 \<Rightarrow> self_dyn \<Rightarrow> ModuleObject \<Rightarrow> bool" where
  "same_reading base s mo \<longleftrightarrow>
     sd_rela s = rela_or_rel mo \<and> rela_entry_count s = rela_count mo \<and> rel_entry_count s = 0 \<and> rel_count mo = 0 \<and>
     rela_entry_size s = 24 \<and> rel_entry_size s = 16 \<and> rel_size s = 0 \<and> module_base mo = base"

lemma same_reading_step:
  assumes "init_entry im base d (mo, rp) = Some (mo', rp')" and "d_tag d \<notin> {17, 18, 0x6ffffffa}" and "same_reading base s mo"
  shows "same_reading base (self_entry base d s) mo'"
  using assms by (auto simp: init_entry_def self_entry_def same_reading_def sizeof_Rela_def sizeof_Rel_def Let_def split: if_splits)

lemma same_reading_entries:
  assumes "init_entries im base dyn (mo, rp) = Some (mo', rp')" and "\<forall>d \<in> set dyn. d_tag d \<notin> {17, 18, 0x6ffffffa}"
    and "same_reading base s mo"
  shows "\<exists>s'. self_entries base dyn s = Some s' \<and> same_reading base s' mo'"
  using assms
proof (induction dyn arbitrary: mo rp s)
  case (Cons d dyn)
  show ?case
  proof (cases "d_tag d = 0")
    case True
    then show ?thesis using Cons.prems by simp
  next
    case False
    then obtain mo1 rp1 where e: "init_entry im base d (mo, rp) = Some (mo1, rp1)" "init_entries im base dyn (mo1, rp1) = Some (mo', rp')"
      using Cons.prems(1) by (auto simp: Option.bind_eq_Some_conv)
    have "same_reading base (self_entry base d s) mo1" using same_reading_step [OF e(1)] Cons.prems(2,3) by simp
    from Cons.IH [OF e(2) _ this] Cons.prems(2) False show ?thesis by simp
  qed
qed simp

text \<open>
  The relocation the program runs on itself before anything else works is the one the linker
  does on a module: for a module with \<open>RELA\<close> tables only, and their number given, both leave the
  same memory.
\<close>

theorem relocate_self_is_relocate:
  assumes "Initialize im base dyn mo0 = Some mo" and "rel_count mo0 = 0" and "rela_count mo0 = 0"
    and "\<forall>d \<in> set dyn. d_tag d \<notin> {17, 18, 0x6ffffffa}" and "rela_count mo \<noteq> 0" and "unat (rela_count mo) < 2 ^ 32"
  shows "exl_relocate_self im base dyn c = Relocate im mo c"
proof -
  let ?mo = "mo0\<lparr>is_rela := False, module_base := base, rela_or_rel_plt_size := 0, dt_init := 0, dt_fini := 0,
          hash_bucket := 0, hash_chain := 0, dynstr := 0, dynsym := 0, dynstr_size := 0, rela_or_rel := 0, got := 0,
          rela_dyn_size := 0, rel_dyn_size := 0, got_stub_ptr := 0\<rparr>"
  let ?s = "\<lparr>sd_rela = 0, sd_rel = 0, rela_entry_size = 24, rel_entry_size = 16,
        rela_entry_count = 0, rel_entry_count = 0, rela_size = 0, rel_size = 0\<rparr>"
  obtain mo1 rp where i: "init_entries im base dyn (?mo, 0) = Some (mo1, rp)" and mo: "mo = mo1\<lparr>rela_or_rel_plt := rp\<rparr>"
    using assms(1) by (auto simp: Initialize_def Option.bind_eq_Some_conv)
  have "same_reading base ?s ?mo" using assms(2,3) by (simp add: same_reading_def)
  from same_reading_entries [OF i assms(4) this] obtain s where s: "self_entries base dyn ?s = Some s" "same_reading base s mo"
    by (auto simp: mo same_reading_def)
  have n: "rela_entry_count s \<noteq> 0" using s(2) assms(5) by (simp add: same_reading_def)
  have e: "relas im (rela_or_rel mo + word_of_nat k * 24) = rela_at im (rela_or_rel mo) k" for k
    by (simp add: rela_at_def sizeof_Rela_def mult.commute)
  have "exl_relocate_self im base dyn c =
      Some (fold (\<lambda>k. relative_rela base (rela_at im (rela_or_rel mo) k)) [0..<unat (rela_entry_count s)] c)"
    using s n unfolding exl_relocate_self_def by (simp add: entry_count_def same_reading_def sizeof_Rela_def sizeof_Rel_def e)
  also have "\<dots> = Relocate im mo c"
    using s(2) assms(6) by (simp add: Relocate_def for_u32_def same_reading_def)
  finally show ?thesis .
qed

section \<open>Finding symbols\<close>

text \<open>The indices a hash chain goes through.\<close>

fun chain :: "image \<Rightarrow> ModuleObject \<Rightarrow> u32 list \<Rightarrow> u32 \<Rightarrow> bool" where
  "chain im mo [] i \<longleftrightarrow> i = 0"
| "chain im mo (j # js) i \<longleftrightarrow> i = j \<and> j \<noteq> 0 \<and> chain im mo js (u32_at im (hash_chain mo) (unat j))"

lemma chain_walk_find: "chain im mo js i \<Longrightarrow> chain_walk im mo name i = Some (find (sym_matches im mo name) js)"
proof (induction js arbitrary: i)
  case Nil
  then show ?case by (simp add: chain_walk.simps)
next
  case (Cons j js)
  then show ?case by (subst chain_walk.simps) simp
qed

text \<open>
  The hash function of the ELF specification, in 32 bits, and a table built with it: every bucket
  is a finite chain of symbols of the module, and every defined symbol is in the chain of its name.
\<close>

definition sysv_step :: "u32 \<Rightarrow> u8 \<Rightarrow> u32" where
  "sysv_step h ch =
     (let h = push_bit 4 h + ucast ch; g = h AND 0xf0000000; h = (if g \<noteq> 0 then h XOR drop_bit 24 g else h) in h AND NOT g)"

definition sysv_hash :: "bytes \<Rightarrow> u32" where
  "sysv_hash name = fold (\<lambda>ch h. sysv_step h ch) name 0"

definition hash_table_ok :: "image \<Rightarrow> ModuleObject \<Rightarrow> (nat \<Rightarrow> u32 list) \<Rightarrow> u32 set \<Rightarrow> bool" where
  "hash_table_ok im mo js defd \<longleftrightarrow>
     hash_nbucket_value mo \<noteq> 0 \<and>
     (\<forall>b < unat (hash_nbucket_value mo). chain im mo (js b) (u32_at im (hash_bucket mo) b)) \<and>
     (\<forall>i name. i \<in> defd \<longrightarrow> sym_matches im mo name i \<longrightarrow>
        i \<in> set (js (unat ((ucast (sysv_hash name) :: u64) mod hash_nbucket_value mo))))"

text \<open>
  In a module whose hash table is built as the ELF specification says, looking up a name always
  ends. What it returns is a defined symbol of that name, and it returns one if the name is that of
  a defined symbol, as long as the 64-bit hash of the code is the 32-bit hash of the specification.
\<close>

theorem symbol_lookup:
  assumes "hash_table_ok im mo js defd"
  shows "\<exists>r. GetSymbolByName im mo name = Some r \<and> (\<forall>i. r = Some i \<longrightarrow> sym_matches im mo name i) \<and>
    (rtld_elf_hash name = ucast (sysv_hash name) \<longrightarrow> (\<exists>i \<in> defd. sym_matches im mo name i) \<longrightarrow> r \<noteq> None)"
proof -
  let ?b = "unat (rtld_elf_hash name mod hash_nbucket_value mo)"
  have n: "hash_nbucket_value mo \<noteq> 0" using assms by (simp add: hash_table_ok_def)
  then have "unat (hash_nbucket_value mo) \<noteq> 0" using unat_eq_zero by blast
  then have "?b < unat (hash_nbucket_value mo)" by (simp add: unat_mod_distrib)
  then have "chain im mo (js ?b) (u32_at im (hash_bucket mo) ?b)" using assms by (simp add: hash_table_ok_def)
  then have r: "GetSymbolByName im mo name = Some (find (sym_matches im mo name) (js ?b))"
    using n by (simp add: GetSymbolByName_def chain_walk_find)
  have "find (sym_matches im mo name) (js ?b) \<noteq> None"
    if "rtld_elf_hash name = ucast (sysv_hash name)" "i \<in> defd" "sym_matches im mo name i" for i
  proof -
    have "i \<in> set (js ?b)" using assms that by (simp add: hash_table_ok_def)
    with that(3) show ?thesis by (auto simp: find_None_iff)
  qed
  with r show ?thesis by (auto simp: find_Some_iff)
qed

text \<open>
  The code hashes in 64 bits and never clears what is carried past bit 31: on some names it
  disagrees with the hash of the ELF specification, with which the table was built.
\<close>

theorem elf_hash_overflows:
  "rtld_elf_hash (ascii ''aaihxrqqyp'') = 0x100000000 \<and> sysv_hash (ascii ''aaihxrqqyp'') = 0"
  by (simp add: ascii_def rtld_elf_hash_def elf_hash_step_def sysv_hash_def sysv_step_def)

section \<open>Binding now and binding later\<close>

lemma stub_irrelevant [simp]:
  "sym_at im (mo\<lparr>got_stub_ptr := x\<rparr>) = sym_at im mo" "sym_matches im (mo\<lparr>got_stub_ptr := x\<rparr>) = sym_matches im mo"
  by (simp_all add: fun_eq_iff sym_at_def sym_matches_def)

lemma chain_walk_stub_mono:
  "chain_walk im mo name i = Some r \<Longrightarrow> chain_walk im (mo\<lparr>got_stub_ptr := x\<rparr>) name i = Some r"
proof -
  have "\<forall>x. chain_walk im (mo\<lparr>got_stub_ptr := x\<rparr>) name i = Some r" if ret: "chain_walk im mo name i = Some r"
  proof (rule chain_walk.raw_induct [where P = "\<lambda>im mo name i r. \<forall>x. chain_walk im (mo\<lparr>got_stub_ptr := x\<rparr>) name i = Some r", OF _ ret])
    fix walk im mo name i r
    assume IH: "\<And>im mo name i r. walk im mo name i = Some r \<Longrightarrow> \<forall>x. chain_walk im (mo\<lparr>got_stub_ptr := x\<rparr>) name i = Some r"
      and step: "(if i = 0 then Some None else if sym_matches im mo name i then Some (Some i)
        else walk im mo name (u32_at im (hash_chain mo) (unat i))) = Some r"
    show "\<forall>x. chain_walk im (mo\<lparr>got_stub_ptr := x\<rparr>) name i = Some r"
    proof
      fix x
      show "chain_walk im (mo\<lparr>got_stub_ptr := x\<rparr>) name i = Some r"
        using step IH by (subst chain_walk.simps) (auto split: if_splits)
    qed
  qed
  then show "chain_walk im mo name i = Some r \<Longrightarrow> chain_walk im (mo\<lparr>got_stub_ptr := x\<rparr>) name i = Some r" by blast
qed

lemma chain_walk_stub [simp]: "chain_walk im (mo\<lparr>got_stub_ptr := x\<rparr>) name i = chain_walk im mo name i"
proof (cases "chain_walk im mo name i")
  case None
  show ?thesis
  proof (cases "chain_walk im (mo\<lparr>got_stub_ptr := x\<rparr>) name i")
    case (Some r)
    from chain_walk_stub_mono [OF this, of "got_stub_ptr mo"] None show ?thesis by simp
  qed (use None in simp)
qed (simp add: chain_walk_stub_mono)

lemma resolve_stub [simp]: "TryResolveSymbol im (mo\<lparr>got_stub_ptr := x\<rparr>) s = TryResolveSymbol im mo s"
  by (simp add: TryResolveSymbol_def GetSymbolByName_def cong: if_cong option.case_cong)

lemma note_stub_result: "note_stub t mo = Some mo' \<Longrightarrow> \<exists>x. mo' = mo\<lparr>got_stub_ptr := x\<rparr>"
proof -
  assume "note_stub t mo = Some mo'"
  then have "mo' = mo\<lparr>got_stub_ptr := got_stub_ptr mo\<rparr> \<or> mo' = mo\<lparr>got_stub_ptr := t\<rparr>" by (auto simp: note_stub_def split: if_splits)
  then show ?thesis by blast
qed

text \<open>An entry of the table of jump slots, of either kind, and its binding at load time.\<close>

definition plt_entry :: "image \<Rightarrow> ModuleObject \<Rightarrow> nat \<Rightarrow> Elf_Rel" where
  "plt_entry im mo index =
     (if is_rela mo then Elf_Rel.truncate (rela_at im (rela_or_rel_plt mo) index) else rel_at im (rela_or_rel_plt mo) index)"

definition bind_now :: "image \<Rightarrow> ModuleObject \<Rightarrow> nat \<Rightarrow> cells \<Rightarrow> (ModuleObject \<times> cells) option" where
  "bind_now im mo index c =
     (if is_rela mo then ResolveSymbolRelaJumpSlot im False (rela_at im (rela_or_rel_plt mo) index) (mo, c)
      else ResolveSymbolRelJumpSlot im False (rel_at im (rela_or_rel_plt mo) index) (mo, c))"

lemma plt_entry_simps:
  "is_rela mo \<Longrightarrow> r_info (rela_at im (rela_or_rel_plt mo) index) = r_info (plt_entry im mo index)"
  "is_rela mo \<Longrightarrow> r_offset (rela_at im (rela_or_rel_plt mo) index) = r_offset (plt_entry im mo index)"
  "\<not> is_rela mo \<Longrightarrow> rel_at im (rela_or_rel_plt mo) index = plt_entry im mo index"
  by (simp_all add: plt_entry_def Elf_Rel.truncate_def)

text \<open>
  C38. What a lazily bound call reaches and what binding at load time stores for it, for a module of either
  kind. With addends (\<open>RELA\<close>) the two agree for every symbol that is found at an address other than 0; at 0, which
  is what a missing weak symbol gives, they differ by the addend. Without addends (\<open>REL\<close>) the load-time binding
  adds the symbol to what the slot held, the offset of its stub, so the two agree only where that was 0. For a
  symbol that is not found lazy binding gives 0 and load-time binding the stub. The search for the symbol ends, and the
  slot passes the assertion that all slots agree on their stub.
\<close>

theorem lazy_binding_agrees:
  assumes "ELF_R_TYPE (r_info (plt_entry im mo index)) = ARCH_JUMP_SLOT"
    and "TryResolveSymbol im mo (sym_at im mo (ELF_R_SYM (r_info (plt_entry im mo index)))) = Some r"
    and "bind_now im mo index c = Some (mo', c')" and "slot = module_base mo + r_offset (plt_entry im mo index)"
  shows "\<exists>v. rtld_lazy_bind_symbol im mo index = Some v \<and>
    (case r of
       None \<Rightarrow> v = 0 \<and> c' slot = module_base mo + c slot
     | Some a \<Rightarrow>
         if is_rela mo
         then (v = c' slot \<longleftrightarrow> a \<noteq> 0 \<or> r_addend (rela_at im (rela_or_rel_plt mo) index) = 0) \<and> (a = 0 \<longrightarrow> v = 0)
         else v = a \<and> (v = c' slot \<longleftrightarrow> c slot = 0))"
proof (cases "is_rela mo")
  case True
  let ?e = "rela_at im (rela_or_rel_plt mo) index"
  have r: "ResolveSymbolRelaJumpSlot im False ?e (mo, c) = Some (mo', c')" using assms(3) True by (simp add: bind_now_def)
  then obtain mo1 where "note_stub (module_base mo + c slot) mo = Some mo1"
    using assms(1,4) True unfolding ResolveSymbolRelaJumpSlot_def by (auto simp: Option.bind_eq_Some_conv Let_def plt_entry_simps)
  with note_stub_result obtain x where "note_stub (module_base mo + c slot) mo = Some (mo\<lparr>got_stub_ptr := x\<rparr>)" by metis
  then have "c' slot = (case r of Some a \<Rightarrow> a + r_addend ?e | None \<Rightarrow> module_base mo + c slot)"
    using assms(1,2,4) r True unfolding ResolveSymbolRelaJumpSlot_def by (auto simp: Let_def plt_entry_simps split: option.splits)
  moreover have "rtld_lazy_bind_symbol im mo index = Some (case r of Some a \<Rightarrow> (if a = 0 then 0 else a + r_addend ?e) | None \<Rightarrow> 0)"
    using assms(2) True by (simp add: rtld_lazy_bind_symbol_def plt_entry_simps)
  ultimately show ?thesis using True by (auto split: option.splits)
next
  case False
  let ?e = "rel_at im (rela_or_rel_plt mo) index"
  have r: "ResolveSymbolRelJumpSlot im False ?e (mo, c) = Some (mo', c')" using assms(3) False by (simp add: bind_now_def)
  then obtain mo1 where "note_stub (module_base mo + c slot) mo = Some mo1"
    using assms(1,4) False unfolding ResolveSymbolRelJumpSlot_def by (auto simp: Option.bind_eq_Some_conv Let_def plt_entry_simps)
  with note_stub_result obtain x where "note_stub (module_base mo + c slot) mo = Some (mo\<lparr>got_stub_ptr := x\<rparr>)" by metis
  then have "c' slot = (case r of Some a \<Rightarrow> c slot + a | None \<Rightarrow> module_base mo + c slot)"
    using assms(1,2,4) r False unfolding ResolveSymbolRelJumpSlot_def by (auto simp: Let_def plt_entry_simps split: option.splits)
  moreover have "rtld_lazy_bind_symbol im mo index = Some (case r of Some a \<Rightarrow> a | None \<Rightarrow> 0)"
    using assms(2) False by (simp add: rtld_lazy_bind_symbol_def plt_entry_simps)
  ultimately show ?thesis using False by (auto split: option.splits)
qed

section \<open>The theorems at work\<close>

text \<open>A module at \<open>0x1000\<close> with two relative entries, one hidden symbol \<open>f\<close> and one lazily bound slot for it.\<close>

definition demo_dyn :: "Elf_Dyn list" where
  "demo_dyn = [\<lparr>d_tag = 7, d_val = 0x100\<rparr>, \<lparr>d_tag = 9, d_val = 24\<rparr>, \<lparr>d_tag = 0x6ffffff9, d_val = 2\<rparr>, \<lparr>d_tag = 5, d_val = 0x300\<rparr>,
     \<lparr>d_tag = 6, d_val = 0x400\<rparr>, \<lparr>d_tag = 4, d_val = 0x500\<rparr>, \<lparr>d_tag = 20, d_val = 7\<rparr>, \<lparr>d_tag = 23, d_val = 0x200\<rparr>,
     \<lparr>d_tag = 2, d_val = 24\<rparr>, \<lparr>d_tag = 0, d_val = 0\<rparr>]"

definition no_module :: ModuleObject where
  "no_module = \<lparr>mo_next = 0, mo_prev = 0, rela_or_rel_plt = 0, rela_or_rel = 0, module_base = 0, is_rela = False,
     rela_or_rel_plt_size = 0, dt_init = 0, dt_fini = 0, hash_bucket = 0, hash_chain = 0, dynstr = 0, dynsym = 0,
     dynstr_size = 0, got = 0, rela_dyn_size = 0, rel_dyn_size = 0, rel_count = 0, rela_count = 0,
     hash_nchain_value = 0, hash_nbucket_value = 0, got_stub_ptr = 0\<rparr>"

definition demo_image :: image where
  "demo_image = \<lparr>rels = \<lambda>_. \<lparr>r_offset = 0, r_info = 0\<rparr>,
     relas = (\<lambda>a. if a = 0x1100 then \<lparr>r_offset = 0x2000, r_info = 1027, r_addend = 0x10\<rparr>
       else if a = 0x1118 then \<lparr>r_offset = 0x2008, r_info = 1027, r_addend = 0x20\<rparr>
       else \<lparr>r_offset = 0x3000, r_info = 0x100000402, r_addend = 0\<rparr>),
     syms = (\<lambda>_. \<lparr>st_name = 1, st_info = 0x10, st_other = 2, st_shndx = 1, st_value = 0x50\<rparr>),
     u32s = (\<lambda>a. if a = 0x1500 \<or> a = 0x1508 then 1 else if a = 0x1504 then 2 else 0),
     chars = (\<lambda>a. if a = 0x1301 then 0x66 else 0), auto_list = 0, auto_back = 0, modules = \<lambda>_. no_module, manual_lookup = None\<rparr>"

definition demo_module :: ModuleObject where
  "demo_module = no_module\<lparr>rela_or_rel_plt := 0x1200, rela_or_rel := 0x1100, module_base := 0x1000, is_rela := True,
     rela_or_rel_plt_size := 24, hash_bucket := 0x1508, hash_chain := 0x150c, dynstr := 0x1300, dynsym := 0x1400,
     rela_count := 2, hash_nchain_value := 2, hash_nbucket_value := 1\<rparr>"

lemma demo_Initialize: "Initialize demo_image 0x1000 demo_dyn no_module = Some demo_module"
  by (simp add: Initialize_def demo_dyn_def init_entry_def Let_def demo_image_def demo_module_def no_module_def u32_at_def
      sizeof_Rela_def)

lemma demo_entries: "rel_entries demo_image demo_module = {}" "rela_entries demo_image demo_module = {0, 1}"
  "rela_target demo_image demo_module 0 = 0x3000" "rela_target demo_image demo_module (Suc 0) = 0x3008"
  by (auto simp: rel_entries_def rela_entries_def rela_target_def rela_at_def demo_module_def demo_image_def no_module_def
      ELF_R_TYPE_def ARCH_RELATIVE_def sizeof_Rela_def less_2_cases_iff)

lemma relocate_exact_witness:
  "\<exists>c'. Relocate demo_image demo_module (\<lambda>_. 0) = Some c' \<and> c' 0x3000 = 0x1010 \<and> c' 0x3008 = 0x1020 \<and> c' 0x3010 = 0"
proof -
  obtain c' where c': "Relocate demo_image demo_module (\<lambda>_. 0) = Some c'"
    by (simp add: Relocate_def for_u32_def demo_module_def no_module_def)
  have inj: "inj_on (rela_target demo_image demo_module) {0, 1}" by (simp add: demo_entries)
  have a: "rela_at demo_image (rela_or_rel demo_module) 0 = \<lparr>r_offset = 0x2000, r_info = 1027, r_addend = 0x10\<rparr>"
    "rela_at demo_image (rela_or_rel demo_module) (Suc 0) = \<lparr>r_offset = 0x2008, r_info = 1027, r_addend = 0x20\<rparr>"
    by (simp_all add: rela_at_def demo_image_def demo_module_def no_module_def sizeof_Rela_def)
  from relocate_exact [OF c'] inj show ?thesis
    using c' by (auto simp: demo_entries a) (simp_all add: demo_module_def no_module_def)
qed

lemma relocate_self_is_relocate_witness:
  "exl_relocate_self demo_image 0x1000 demo_dyn (\<lambda>_. 0) = Relocate demo_image demo_module (\<lambda>_. 0)"
  by (rule relocate_self_is_relocate [OF demo_Initialize]) (simp_all add: no_module_def demo_dyn_def demo_module_def)

lemma demo_hash_table: "hash_table_ok demo_image demo_module (\<lambda>_. [1]) {1}"
  by (simp add: hash_table_ok_def demo_module_def demo_image_def no_module_def u32_at_def)

lemma demo_matches: "sym_matches demo_image demo_module [0x66] 1"
  by (simp add: sym_matches_def str_equal_def is_common_def sym_at_def demo_image_def demo_module_def no_module_def SHN_COMMON_def)

lemma symbol_lookup_witness: "GetSymbolByName demo_image demo_module [0x66] = Some (Some 1)"
proof -
  have h: "rtld_elf_hash [0x66] = ucast (sysv_hash [0x66])"
    by (simp add: rtld_elf_hash_def elf_hash_step_def sysv_hash_def sysv_step_def)
  from symbol_lookup [OF demo_hash_table, of "[0x66]"] h demo_matches
  obtain i where i: "GetSymbolByName demo_image demo_module [0x66] = Some (Some i)" by auto
  have "GetSymbolByName demo_image demo_module [0x66] = chain_walk demo_image demo_module [0x66] 1"
    by (simp add: GetSymbolByName_def demo_module_def demo_image_def no_module_def u32_at_def)
  also have "\<dots> = Some (Some 1)" by (subst chain_walk.simps) (simp add: demo_matches)
  finally show ?thesis using i by simp
qed

lemma demo_resolve: "TryResolveSymbol demo_image demo_module (sym_at demo_image demo_module 1) = Some (Some 0x1050)"
proof -
  have s: "sym_at demo_image demo_module i = \<lparr>st_name = 1, st_info = 0x10, st_other = 2, st_shndx = 1, st_value = 0x50\<rparr>" for i
    by (simp add: sym_at_def demo_image_def)
  have "c_string demo_image 0x1301 = Some [0x66]"
    by (subst c_string.simps, simp add: demo_image_def) (subst c_string.simps, simp add: demo_image_def)
  moreover have "chain_walk demo_image demo_module [0x66] 1 = Some (Some 1)"
    by (subst chain_walk.simps) (simp add: demo_matches)
  then have "GetSymbolByName demo_image demo_module [0x66] = Some (Some 1)"
    by (simp add: GetSymbolByName_def demo_module_def demo_image_def no_module_def u32_at_def)
  moreover have "dynstr demo_module + 1 = 0x1301" "module_base demo_module = 0x1000" by (simp_all add: demo_module_def no_module_def)
  ultimately show ?thesis by (simp add: TryResolveSymbol_def s ELF_ST_VISIBILITY_def)
qed

lemma lazy_binding_agrees_witness: "rtld_lazy_bind_symbol demo_image demo_module 0 = Some 0x1050"
proof -
  let ?e = "rela_at demo_image (rela_or_rel_plt demo_module) 0"
  have e: "?e = \<lparr>r_offset = 0x3000, r_info = 0x100000402, r_addend = 0\<rparr>" "ELF_R_SYM (r_info ?e) = 1"
    "ELF_R_TYPE (r_info ?e) = ARCH_JUMP_SLOT" "is_rela demo_module" "module_base demo_module = 0x1000"
    by (simp_all add: rela_at_def demo_image_def demo_module_def no_module_def ELF_R_SYM_def ELF_R_TYPE_def ARCH_JUMP_SLOT_def)
  have t: "TryResolveSymbol demo_image demo_module (sym_at demo_image demo_module (ELF_R_SYM (r_info ?e))) = Some (Some 0x1050)"
    unfolding e(2) by (rule demo_resolve)
  have "note_stub 0x1000 demo_module = Some (demo_module\<lparr>got_stub_ptr := 0x1000\<rparr>)"
    by (simp add: note_stub_def demo_module_def no_module_def)
  then have r: "ResolveSymbolRelaJumpSlot demo_image False ?e (demo_module, \<lambda>_. 0) =
      Some (demo_module\<lparr>got_stub_ptr := 0x1000\<rparr>, (\<lambda>_. 0)(0x4000 := 0x1050))"
    using t e by (simp add: ResolveSymbolRelaJumpSlot_def Let_def)
  have p: "r_info (plt_entry demo_image demo_module 0) = r_info ?e" "r_offset (plt_entry demo_image demo_module 0) = 0x3000"
    using e(1,4) by (simp_all flip: plt_entry_simps)
  have b: "bind_now demo_image demo_module 0 (\<lambda>_. 0) = Some (demo_module\<lparr>got_stub_ptr := 0x1000\<rparr>, (\<lambda>_. 0)(0x4000 := 0x1050))"
    using r e(4) by (simp add: bind_now_def)
  have "\<exists>v. rtld_lazy_bind_symbol demo_image demo_module 0 = Some v \<and> v = ((\<lambda>_. 0)(0x4000 := 0x1050)) 0x4000"
    using lazy_binding_agrees [where r = "Some 0x1050" and slot = "0x4000", OF _ _ b] e t by (simp add: p)
  then show ?thesis by simp
qed

end
