(* ===== verification/MemLayout.thy ===== *)
theory MemLayout
  imports Prelude Kernel
begin

text \<open>
  \<open>lib/util/sys/mem_layout.cpp\<close> and what reads its tables: the search for the modules loaded into
  the process, a state machine over the blocks the kernel reports; the regions of the address
  space; the lookup of a module by address; the name of a module; and the frame-pointer walk of
  \<open>stack_trace.hpp\<close> and the pointer paths of \<open>ptr_path.hpp\<close>. Addresses are numbers below
  \<open>2^64\<close>; the build is that of a module (\<open>EXL_AS_MODULE\<close>). \<open>None\<close> is an abort or a failed
  assertion.
\<close>

section \<open>Ranges and modules\<close>

record Range =
  m_Start :: nat
  m_Size :: nat

definition GetEnd :: "Range \<Rightarrow> nat" where "GetEnd r = size_add (m_Start r) (m_Size r)"

definition InRange :: "Range \<Rightarrow> nat \<Rightarrow> bool" where "InRange r v \<longleftrightarrow> m_Start r \<le> v \<and> v < GetEnd r"

definition InRangeInclusive :: "Range \<Rightarrow> nat \<Rightarrow> bool" where "InRangeInclusive r v \<longleftrightarrow> m_Start r \<le> v \<and> v \<le> GetEnd r"

record ModuleInfo =
  m_Total :: Range
  m_Text :: Range
  m_Rodata :: Range
  m_Data :: Range
  m_Mod :: nat

definition no_range :: Range where "no_range = \<lparr>m_Start = 0, m_Size = 0\<rparr>"

definition no_info :: ModuleInfo where
  "no_info = \<lparr>m_Total = no_range, m_Text = no_range, m_Rodata = no_range, m_Data = no_range, m_Mod = 0\<rparr>"

datatype ModuleIndex = Rtld | Main | Subsdk0 | Subsdk1 | Subsdk2 | Subsdk3 | Subsdk4 | Subsdk5 | Subsdk6 | Subsdk7
  | Subsdk8 | Subsdk9 | Sdk | End

primrec ModuleIndex_value :: "ModuleIndex \<Rightarrow> nat" where
  "ModuleIndex_value Rtld = 0"
| "ModuleIndex_value Main = 1"
| "ModuleIndex_value Subsdk0 = 2"
| "ModuleIndex_value Subsdk1 = 3"
| "ModuleIndex_value Subsdk2 = 4"
| "ModuleIndex_value Subsdk3 = 5"
| "ModuleIndex_value Subsdk4 = 6"
| "ModuleIndex_value Subsdk5 = 7"
| "ModuleIndex_value Subsdk6 = 8"
| "ModuleIndex_value Subsdk7 = 9"
| "ModuleIndex_value Subsdk8 = 10"
| "ModuleIndex_value Subsdk9 = 11"
| "ModuleIndex_value Sdk = 12"
| "ModuleIndex_value End = 13"

text \<open>\<open>s_ModuleInfos\<close> and \<open>s_ModuleBitset\<close>: an entry is \<open>None\<close> when its bit is clear.\<close>

type_synonym modules = "ModuleInfo option list"

definition no_modules :: modules where "no_modules = replicate (ModuleIndex_value End) None"

definition HasModule :: "modules \<Rightarrow> nat \<Rightarrow> bool" where "HasModule ms i \<longleftrightarrow> ms ! i \<noteq> None"

definition GetModuleInfo :: "modules \<Rightarrow> nat \<Rightarrow> ModuleInfo option" where "GetModuleInfo ms i = ms ! i"

definition TryGetModule :: "modules \<Rightarrow> nat \<Rightarrow> ModuleInfo option" where
  "TryGetModule ms p =
     List.find (\<lambda>m. InRange (m_Total m) p) (map the (filter (\<lambda>m. m \<noteq> None) ms))"

definition IsInModule :: "modules \<Rightarrow> nat \<Rightarrow> nat \<Rightarrow> bool" where
  "IsInModule ms p i = (case ms ! i of None \<Rightarrow> False | Some m \<Rightarrow> InRange (m_Total m) p)"

section \<open>Finding the modules\<close>

datatype State = LookingForCodeStatic | ExpectingRodata | ExpectingData

record finder =
  f_state :: State
  cur :: ModuleInfo
  infos :: modules
  next_idx :: nat

definition mem_type :: "MemoryInfo \<Rightarrow> nat" where "mem_type mi = mi_type mi mod 256"

definition reset_finder :: "finder \<Rightarrow> finder" where
  "reset_finder f = f\<lparr>cur := no_info, f_state := LookingForCodeStatic\<rparr>"

definition block_range :: "MemoryInfo \<Rightarrow> Range" where
  "block_range mi = \<lparr>m_Start = mi_addr mi, m_Size = mi_size mi\<rparr>"

definition static_code :: "MemoryInfo \<Rightarrow> bool" where
  "static_code mi \<longleftrightarrow> mem_type mi = MemoryType_value MemType_CodeStatic \<and> mi_perm mi = Permission_value Perm_Rx"

definition static_rodata :: "MemoryInfo \<Rightarrow> bool" where
  "static_rodata mi \<longleftrightarrow> mem_type mi = MemoryType_value MemType_CodeStatic \<and> mi_perm mi = Permission_value Perm_R"

definition mutable_data :: "MemoryInfo \<Rightarrow> bool" where
  "mutable_data mi \<longleftrightarrow> mem_type mi = MemoryType_value MemType_CodeMutable \<and> mi_perm mi = Permission_value Perm_Rw"

text \<open>One round of the loop on a block; \<open>read32\<close> reads the word at an address, for the \<open>MOD0\<close> offset.\<close>

definition find_step :: "(nat \<Rightarrow> nat) \<Rightarrow> MemoryInfo \<Rightarrow> finder \<Rightarrow> finder" where
  "find_step read32 mi f =
     (case f_state f of
        LookingForCodeStatic \<Rightarrow>
          (if \<not> static_code mi then f
           else f\<lparr>cur := (cur f)\<lparr>m_Total := (m_Total (cur f))\<lparr>m_Start := mi_addr mi\<rparr>, m_Text := block_range mi\<rparr>,
                  f_state := ExpectingRodata\<rparr>)
      | ExpectingRodata \<Rightarrow>
          (if \<not> static_rodata mi then reset_finder f
           else f\<lparr>cur := (cur f)\<lparr>m_Rodata := block_range mi\<rparr>, f_state := ExpectingData\<rparr>)
      | ExpectingData \<Rightarrow>
          (if \<not> mutable_data mi then reset_finder f
           else
            (let tot = m_Total (cur f); text_start = m_Start (m_Text (cur f));
                 info = (cur f)\<lparr>m_Data := block_range mi,
                   m_Total := tot\<lparr>m_Size := size_sub (GetEnd (block_range mi)) (m_Start tot)\<rparr>,
                   m_Mod := size_add text_start (read32 (size_add text_start 4))\<rparr> in
             reset_finder (f\<lparr>infos := (infos f)[next_idx f := Some info], next_idx := next_idx f + 1\<rparr>))))"

text \<open>The loop: \<open>a\<close> is the address of the next query and \<open>offset\<close> that of the last block.\<close>

fun find_loop :: "nat \<Rightarrow> (nat \<Rightarrow> MemoryInfo option) \<Rightarrow> (nat \<Rightarrow> nat) \<Rightarrow> nat \<Rightarrow> nat \<Rightarrow> finder \<Rightarrow> finder option" where
  "find_loop 0 query read32 a offset f = None"
| "find_loop (Suc fuel) query read32 a offset f =
     (if ModuleIndex_value End \<le> next_idx f then None
      else do {
        mi \<leftarrow> query a;
        let f' = find_step read32 mi f;
        if mi_addr mi \<ge> offset then find_loop fuel query read32 (size_add (mi_addr mi) (mi_size mi)) (mi_addr mi) f'
        else Some f'
      })"

definition finder_init :: finder where
  "finder_init = \<lparr>f_state = LookingForCodeStatic, cur = no_info, infos = no_modules, next_idx = ModuleIndex_value Rtld\<rparr>"

text \<open>The last module found is the SDK.\<close>

definition move_sdk :: "finder \<Rightarrow> modules" where
  "move_sdk f =
     (if next_idx f \<noteq> ModuleIndex_value End
      then (infos f)[ModuleIndex_value Sdk := infos f ! (next_idx f - 1), next_idx f - 1 := None]
      else infos f)"

fun self_index :: "modules \<Rightarrow> nat \<Rightarrow> nat \<Rightarrow> nat option" where
  "self_index [] module_start i = None"
| "self_index (m # ms) module_start i =
     (case m of
        Some info \<Rightarrow> (if m_Start (m_Total info) = module_start then Some i else self_index ms module_start (i + 1))
      | None \<Rightarrow> self_index ms module_start (i + 1))"

definition FindModules :: "nat \<Rightarrow> (nat \<Rightarrow> MemoryInfo option) \<Rightarrow> (nat \<Rightarrow> nat) \<Rightarrow> nat \<Rightarrow> (modules \<times> nat) option" where
  "FindModules fuel query read32 module_start = do {
     f \<leftarrow> find_loop fuel query read32 0 0 finder_init;
     if infos f ! ModuleIndex_value Rtld = None \<or> infos f ! ModuleIndex_value Main = None then None
     else do {
       self \<leftarrow> self_index (move_sdk f) module_start 0;
       Some (move_sdk f, self)
     }
   }"

section \<open>Regions of the address space\<close>

record layout =
  s_Alias :: Range
  s_Heap :: Range
  s_Aslr :: Range
  s_Stack :: Range

definition InferAslrAndStack :: "Result \<Rightarrow> layout \<Rightarrow> layout option" where
  "InferAslrAndStack unmap_rc l =
     (if R_VALUE unmap_rc = KERNELRESULT KernelError_InvalidMemoryState
      then Some (l\<lparr>s_Aslr := \<lparr>m_Start = 0x200000, m_Size = 0x100000000\<rparr>, s_Stack := \<lparr>m_Start = 0x200000, m_Size = 0x40000000\<rparr>\<rparr>)
      else if R_VALUE unmap_rc = KERNELRESULT KernelError_InvalidMemoryRange
      then Some (l\<lparr>s_Aslr := \<lparr>m_Start = 0x8000000, m_Size = 0x1000000000\<rparr>, s_Stack := \<lparr>m_Start = 0x8000000, m_Size = 0x80000000\<rparr>\<rparr>)
      else None)"

text \<open>\<open>svcGetInfo\<close>; a failing call leaves the variable as it was.\<close>

definition get_into :: "(InfoType \<Rightarrow> Result \<times> nat) \<Rightarrow> InfoType \<Rightarrow> nat \<Rightarrow> bool \<times> nat" where
  "get_into get_info t old = (let (rc, v) = get_info t in (R_FAILED rc, if R_FAILED rc then old else v))"

definition GetAddressFromInfo :: "(InfoType \<Rightarrow> Result \<times> nat) \<Rightarrow> InfoType \<Rightarrow> nat option" where
  "GetAddressFromInfo get_info t = (let (rc, v) = get_info t in if R_FAILED rc then None else Some v)"

definition FindRegions :: "(InfoType \<Rightarrow> Result \<times> nat) \<Rightarrow> Result \<Rightarrow> layout \<Rightarrow> layout option" where
  "FindRegions get_info unmap_rc l = do {
     alias \<leftarrow> GetAddressFromInfo get_info InfoType_AliasRegionAddress;
     alias_size \<leftarrow> GetAddressFromInfo get_info InfoType_AliasRegionSize;
     heap \<leftarrow> GetAddressFromInfo get_info InfoType_HeapRegionAddress;
     heap_size \<leftarrow> GetAddressFromInfo get_info InfoType_HeapRegionSize;
     let l = l\<lparr>s_Alias := \<lparr>m_Start = alias, m_Size = alias_size\<rparr>, s_Heap := \<lparr>m_Start = heap, m_Size = heap_size\<rparr>\<rparr>;
     let (e1, v1) = get_into get_info InfoType_AslrRegionAddress (m_Start (s_Aslr l));
     let (e2, v2) = (if e1 then (True, m_Size (s_Aslr l)) else get_into get_info InfoType_AslrRegionSize (m_Size (s_Aslr l)));
     let (e3, v3) = (if e2 then (True, m_Start (s_Stack l)) else get_into get_info InfoType_StackRegionAddress (m_Start (s_Stack l)));
     let (e4, v4) = (if e3 then (True, m_Size (s_Stack l)) else get_into get_info InfoType_StackRegionSize (m_Size (s_Stack l)));
     let l = l\<lparr>s_Aslr := \<lparr>m_Start = v1, m_Size = v2\<rparr>, s_Stack := \<lparr>m_Start = v3, m_Size = v4\<rparr>\<rparr>;
     if e4 then InferAslrAndStack unmap_rc l else Some l
   }"

section \<open>Module names\<close>

text \<open>
  The path record at the start of the read-only data: its length word and its bytes, which
  \<open>read32\<close> and \<open>read8\<close> read.
\<close>

definition GetModulePath :: "(nat \<Rightarrow> nat) \<Rightarrow> (nat \<Rightarrow> u8) \<Rightarrow> ModuleInfo \<Rightarrow> bytes" where
  "GetModulePath read32 read8 m =
     (let p = m_Start (m_Rodata m) in map (\<lambda>i. read8 (p + 8 + i)) [0..<read32 (p + 4)])"

definition is_slash :: "u8 \<Rightarrow> bool" where "is_slash ch \<longleftrightarrow> ch = 0x2f \<or> ch = 0x5c"

definition find_last_slash :: "bytes \<Rightarrow> nat option" where
  "find_last_slash path = List.find (\<lambda>i. is_slash (path ! i)) (rev [0..<length path])"

definition path_base :: "bytes \<Rightarrow> bytes" where
  "path_base path =
     (if path = [] then path
      else
       (let pos = (case find_last_slash path of None \<Rightarrow> 0 | Some p \<Rightarrow> p + 1) in
        if length path < pos then path else drop pos path))"

definition GetModuleName :: "(nat \<Rightarrow> nat) \<Rightarrow> (nat \<Rightarrow> u8) \<Rightarrow> ModuleInfo \<Rightarrow> bytes" where
  "GetModuleName read32 read8 m = path_base (GetModulePath read32 read8 m)"

text \<open>\<open>CopyString\<close> into a buffer of \<open>n\<close> characters: what ends up in it up to its terminator.\<close>

definition CopyString :: "nat \<Rightarrow> bytes \<Rightarrow> bytes" where
  "CopyString n s = take (min (n - 1) (length s)) s @ [0]"

section \<open>Frame pointers\<close>

text \<open>
  \<open>stack_trace.hpp\<close>: the walk over saved frames. A frame is the pair of words at the frame pointer;
  \<open>valid_lr\<close> and \<open>valid_ptr\<close> are the two tests the derived iterator supplies. \<open>None\<close> when the walk
  does not end.
\<close>

record walker =
  m_Fp :: nat
  m_Lr :: nat
  m_PrevFp :: nat
  m_Stack :: Range

definition walker_init :: "nat \<Rightarrow> nat \<Rightarrow> Range \<Rightarrow> walker" where
  "walker_init fp lr st = \<lparr>m_Fp = fp, m_Lr = lr, m_PrevFp = 0, m_Stack = st\<rparr>"

definition IsValidLrImpl :: "(nat \<Rightarrow> bool) \<Rightarrow> nat \<Rightarrow> bool" where
  "IsValidLrImpl valid_lr lr \<longleftrightarrow> lr \<noteq> 0 \<and> lr mod 4 = 0 \<and> valid_lr lr"

definition GetStackPointer :: "walker \<Rightarrow> nat" where
  "GetStackPointer w = (if m_Fp w = 0 then size_sub (GetEnd (m_Stack w)) 8 else size_sub (m_Fp w) 8)"

definition IsValid :: "walker \<Rightarrow> bool" where
  "IsValid w \<longleftrightarrow> m_Fp w \<noteq> 0 \<and> m_Fp w mod 8 = 0 \<and> InRange (m_Stack w) (m_Fp w) \<and> m_PrevFp w < m_Fp w"

definition Step :: "(nat \<Rightarrow> nat) \<Rightarrow> (nat \<Rightarrow> bool) \<Rightarrow> (nat \<Rightarrow> bool) \<Rightarrow> walker \<Rightarrow> bool \<times> walker" where
  "Step read64 valid_lr valid_ptr w =
     (if \<not> IsValid w then (False, w)
      else if \<not> valid_ptr (m_Fp w) then (False, w)
      else
       (let w' = w\<lparr>m_PrevFp := m_Fp w, m_Lr := read64 (m_Fp w + 8), m_Fp := read64 (m_Fp w)\<rparr> in
        if \<not> IsValidLrImpl valid_lr (m_Lr w') then (False, w'\<lparr>m_Lr := 0\<rparr>) else (True, w')))"

fun StepN :: "(nat \<Rightarrow> nat) \<Rightarrow> (nat \<Rightarrow> bool) \<Rightarrow> (nat \<Rightarrow> bool) \<Rightarrow> nat \<Rightarrow> walker \<Rightarrow> bool \<times> walker" where
  "StepN read64 valid_lr valid_ptr 0 w = (True, w)"
| "StepN read64 valid_lr valid_ptr (Suc n) w =
     (let (ok, w') = Step read64 valid_lr valid_ptr w in if ok then StepN read64 valid_lr valid_ptr n w' else (False, w'))"

text \<open>\<open>Walk\<close>: the states the delegate is called in.\<close>

partial_function (option) Walk :: "(nat \<Rightarrow> nat) \<Rightarrow> (nat \<Rightarrow> bool) \<Rightarrow> (nat \<Rightarrow> bool) \<Rightarrow> walker \<Rightarrow> walker list option" where
  "Walk read64 valid_lr valid_ptr w =
     (if IsValid w then do { ws \<leftarrow> Walk read64 valid_lr valid_ptr (snd (Step read64 valid_lr valid_ptr w)); Some (w # ws) }
      else Some [])"

section \<open>Pointer paths\<close>

fun follow_rest_safe :: "(nat \<Rightarrow> nat) \<Rightarrow> nat list \<Rightarrow> nat \<Rightarrow> nat" where
  "follow_rest_safe read64 [] p = p"
| "follow_rest_safe read64 (off # offs) p =
     (let q = read64 p in if q = 0 then 0 else follow_rest_safe read64 offs (size_add q off))"

definition FollowSafe :: "(nat \<Rightarrow> nat) \<Rightarrow> nat list \<Rightarrow> nat \<Rightarrow> nat" where
  "FollowSafe read64 offsets ptr =
     (case offsets of
        [] \<Rightarrow> ptr
      | off # offs \<Rightarrow> (if ptr = 0 then 0 else follow_rest_safe read64 offs (size_add ptr off)))"

fun follow_rest :: "(nat \<Rightarrow> nat) \<Rightarrow> nat list \<Rightarrow> nat \<Rightarrow> nat" where
  "follow_rest read64 [] p = p"
| "follow_rest read64 (off # offs) p = follow_rest read64 offs (size_add (read64 p) off)"

definition Follow :: "(nat \<Rightarrow> nat) \<Rightarrow> nat list \<Rightarrow> nat \<Rightarrow> nat" where
  "Follow read64 offsets ptr =
     (case offsets of
        [] \<Rightarrow> ptr
      | off # offs \<Rightarrow> (if ptr = 0 then 0 else follow_rest read64 offs (size_add ptr off)))"

text \<open>Where no pointer on the way is null, the two agree.\<close>

lemma follow_rest_agree:
  "(\<forall>k < length offs. read64 (follow_rest_safe read64 (take k offs) p) \<noteq> 0) \<Longrightarrow> follow_rest_safe read64 offs p = follow_rest read64 offs p"
proof (induction offs arbitrary: p)
  case (Cons off offs)
  have q: "read64 p \<noteq> 0" using Cons.prems by (metis follow_rest_safe.simps(1) length_greater_0_conv list.distinct(1) take0)
  have "read64 (follow_rest_safe read64 (take k offs) (size_add (read64 p) off)) \<noteq> 0" if "k < length offs" for k
    using spec [OF Cons.prems, of "Suc k"] that q by simp
  with Cons.IH q show ?case by simp
qed simp

section \<open>What the search finds\<close>

text \<open>The blocks from an address to the end of the address space.\<close>

fun covers :: "(nat \<Rightarrow> MemoryInfo option) \<Rightarrow> nat \<Rightarrow> MemoryInfo list \<Rightarrow> bool" where
  "covers query a [] \<longleftrightarrow> a = 2 ^ 64"
| "covers query a (m # ms) \<longleftrightarrow>
     a < 2 ^ 64 \<and> query a = Some m \<and> mi_addr m = a \<and> 0 < mi_size m \<and> a + mi_size m \<le> 2 ^ 64 \<and> covers query (a + mi_size m) ms"

fun scan :: "(nat \<Rightarrow> nat) \<Rightarrow> MemoryInfo list \<Rightarrow> finder \<Rightarrow> finder option" where
  "scan read32 [] f = Some f"
| "scan read32 (m # ms) f = (if ModuleIndex_value End \<le> next_idx f then None else scan read32 ms (find_step read32 m f))"

lemma find_loop_scan:
  assumes "covers query a ms" and "query 0 = Some m0" and "mi_addr m0 = 0" and "offset \<le> a"
    and "length ms < fuel" and "ms = [] \<longrightarrow> 0 < offset" and "a = 0 \<longrightarrow> 2 \<le> length ms"
  shows "find_loop fuel query read32 (a mod 2 ^ 64) offset f = scan read32 (ms @ [m0]) f"
  using assms
proof (induction ms arbitrary: a offset fuel f)
  case Nil
  then obtain fuel' where "fuel = Suc fuel'" by (metis less_nat_zero_code not0_implies_Suc)
  with Nil show ?case by simp
next
  case (Cons m ms)
  then obtain fuel' where fuel: "fuel = Suc fuel'" "length ms < fuel'" by (metis Suc_less_eq length_Cons less_nat_zero_code not0_implies_Suc)
  have m: "query a = Some m" "mi_addr m = a" "a < 2 ^ 64" "0 < mi_size m" "a + mi_size m \<le> 2 ^ 64" "covers query (a + mi_size m) ms"
    using Cons.prems(1) by simp_all
  have "find_loop fuel' query read32 ((a + mi_size m) mod 2 ^ 64) a (find_step read32 m f) = scan read32 (ms @ [m0]) (find_step read32 m f)"
    using Cons.prems m fuel by (intro Cons.IH) auto
  then show ?case using m Cons.prems(4) fuel(1) by (simp add: size_add_def)
qed

text \<open>A layout as a sequence of loaded modules and of blocks that are not static code.\<close>

datatype segment = Gap MemoryInfo | Loaded MemoryInfo MemoryInfo MemoryInfo

fun seg_blocks :: "segment \<Rightarrow> MemoryInfo list" where
  "seg_blocks (Gap m) = [m]"
| "seg_blocks (Loaded t r d) = [t, r, d]"

fun seg_ok :: "segment \<Rightarrow> bool" where
  "seg_ok (Gap m) \<longleftrightarrow> \<not> static_code m"
| "seg_ok (Loaded t r d) \<longleftrightarrow> static_code t \<and> static_rodata r \<and> mutable_data d"

definition loaded_info :: "(nat \<Rightarrow> nat) \<Rightarrow> MemoryInfo \<Rightarrow> MemoryInfo \<Rightarrow> MemoryInfo \<Rightarrow> ModuleInfo" where
  "loaded_info read32 t r d =
     \<lparr>m_Total = \<lparr>m_Start = mi_addr t, m_Size = size_sub (size_add (mi_addr d) (mi_size d)) (mi_addr t)\<rparr>,
      m_Text = block_range t, m_Rodata = block_range r, m_Data = block_range d,
      m_Mod = size_add (mi_addr t) (read32 (size_add (mi_addr t) 4))\<rparr>"

fun seg_infos :: "(nat \<Rightarrow> nat) \<Rightarrow> segment list \<Rightarrow> ModuleInfo list" where
  "seg_infos read32 [] = []"
| "seg_infos read32 (Gap m # segs) = seg_infos read32 segs"
| "seg_infos read32 (Loaded t r d # segs) = loaded_info read32 t r d # seg_infos read32 segs"

definition ready :: "finder \<Rightarrow> bool" where
  "ready f \<longleftrightarrow> f_state f = LookingForCodeStatic \<and> cur f = no_info"

lemma find_step_gap: "ready f \<Longrightarrow> \<not> static_code m \<Longrightarrow> find_step read32 m f = f"
  by (simp add: ready_def find_step_def)

lemma find_steps_loaded:
  assumes "ready f" and "static_code t" and "static_rodata r" and "mutable_data d"
  shows "find_step read32 d (find_step read32 r (find_step read32 t f)) =
    f\<lparr>infos := (infos f)[next_idx f := Some (loaded_info read32 t r d)], next_idx := next_idx f + 1\<rparr>"
    and "next_idx (find_step read32 t f) = next_idx f" and "next_idx (find_step read32 r (find_step read32 t f)) = next_idx f"
  using assms
  by (simp_all add: ready_def find_step_def Let_def reset_finder_def loaded_info_def block_range_def GetEnd_def no_info_def no_range_def)

definition placed :: "modules \<Rightarrow> nat \<Rightarrow> ModuleInfo list \<Rightarrow> modules" where
  "placed ms n is = take n ms @ map Some is @ drop (n + length is) ms"

lemma placed_Cons:
  assumes "n < length ms"
  shows "placed (ms[n := Some i]) (Suc n) is = placed ms n (i # is)"
  using assms by (simp add: placed_def take_Suc_conv_app_nth)

lemma scan_segments:
  assumes "\<forall>s \<in> set segs. seg_ok s" and "ready f" and "length (infos f) = ModuleIndex_value End"
  shows "scan read32 (concat (map seg_blocks segs) @ [m0]) f =
    (let is = seg_infos read32 segs in
     if next_idx f + length is < ModuleIndex_value End
     then scan read32 [m0] (f\<lparr>infos := placed (infos f) (next_idx f) is, next_idx := next_idx f + length is\<rparr>)
     else None)"
  using assms
proof (induction segs arbitrary: f)
  case Nil
  then show ?case by (simp add: placed_def)
next
  case (Cons s segs)
  show ?case
  proof (cases s)
    case (Gap m)
    then have "find_step read32 m f = f" using Cons.prems by (simp add: find_step_gap)
    with Cons Gap show ?thesis by (simp add: Let_def)
  next
    case (Loaded t r d)
    let ?i = "loaded_info read32 t r d"
    let ?f = "f\<lparr>infos := (infos f)[next_idx f := Some ?i], next_idx := next_idx f + 1\<rparr>"
    have k: "static_code t" "static_rodata r" "mutable_data d" using Cons.prems(1) Loaded by simp_all
    note st = find_steps_loaded [OF Cons.prems(2) k, of read32]
    show ?thesis
    proof (cases "ModuleIndex_value End \<le> next_idx f")
      case True
      then show ?thesis using Loaded by simp
    next
      case False
      have "ready ?f" using Cons.prems(2) by (simp add: ready_def)
      moreover have "length (infos ?f) = ModuleIndex_value End" using Cons.prems(3) by simp
      ultimately have IH: "scan read32 (concat (map seg_blocks segs) @ [m0]) ?f =
        (let is = seg_infos read32 segs in
         if next_idx ?f + length is < ModuleIndex_value End
         then scan read32 [m0] (?f\<lparr>infos := placed (infos ?f) (next_idx ?f) is, next_idx := next_idx ?f + length is\<rparr>)
         else None)"
        using Cons.prems(1) by (intro Cons.IH) simp_all
      have p: "placed ((infos f)[next_idx f := Some ?i]) (Suc (next_idx f)) is = placed (infos f) (next_idx f) (?i # is)" for "is"
        using False Cons.prems(3) by (intro placed_Cons) simp
      have "scan read32 (concat (map seg_blocks (s # segs)) @ [m0]) f = scan read32 (concat (map seg_blocks segs) @ [m0]) ?f"
        using Loaded False by (simp add: st)
      with IH Loaded p [of "seg_infos read32 segs"] show ?thesis by (simp add: Let_def)
    qed
  qed
qed

text \<open>Where the modules go: the last one, the SDK, to the last place.\<close>

definition sdk_layout :: "ModuleInfo list \<Rightarrow> modules" where
  "sdk_layout is = map Some (butlast is) @ replicate (13 - length is) None @ [Some (last is)]"

lemma move_sdk_layout:
  assumes "2 \<le> length is" and "length is < 13" and "infos f = placed no_modules 0 is" and "next_idx f = length is"
  shows "move_sdk f = sdk_layout is"
proof (rule nth_equalityI)
  have inf: "infos f = map Some is @ replicate (13 - length is) None"
    using assms by (simp add: placed_def no_modules_def)
  then have len: "length (infos f) = 13" using assms(2) by simp
  show "length (move_sdk f) = length (sdk_layout is)" using assms(1,2,4) len by (simp add: move_sdk_def sdk_layout_def)
  fix i assume "i < length (move_sdk f)"
  then have i: "i < 13" using assms(4) len by (simp add: move_sdk_def split: if_splits)
  have last: "infos f ! (length is - 1) = Some (last is)"
    using assms(1) inf by (cases "is" rule: rev_cases) (simp_all add: nth_append)
  consider "i < length is - 1" | "i = length is - 1" | "length is \<le> i" "i < 12" | "i = 12" using i assms(1) by linarith
  then show "move_sdk f ! i = sdk_layout is ! i"
    using assms(1,2,4) inf len last
    by cases (auto simp: move_sdk_def sdk_layout_def nth_append nth_butlast nth_list_update nth_Cons')
qed

lemma self_index_finds:
  assumes "Some info \<in> set ms" and "m_Start (m_Total info) = a"
  shows "\<exists>j info'. self_index ms a n = Some (n + j) \<and> j < length ms \<and> ms ! j = Some info' \<and> m_Start (m_Total info') = a"
  using assms
proof (induction ms arbitrary: n)
  case (Cons m ms)
  show ?case
  proof (cases "\<exists>info'. m = Some info' \<and> m_Start (m_Total info') = a")
    case True
    then show ?thesis by (intro exI [of _ 0]) auto
  next
    case False
    then have "Some info \<in> set ms" using Cons.prems by auto
    from Cons.IH [OF this Cons.prems(2), of "Suc n"] obtain j info' where
      j: "self_index ms a (Suc n) = Some (Suc n + j)" "j < length ms" "ms ! j = Some info'" "m_Start (m_Total info') = a" by blast
    moreover have "self_index (m # ms) a n = self_index ms a (Suc n)" using False by (cases m) auto
    ultimately show ?thesis by (intro exI [of _ "Suc j"] exI [of _ info']) simp
  qed
qed simp

text \<open>
  Over a memory layout of loaded modules (code, read-only data, data, in this order) and other
  blocks, the search finds exactly the modules, in order of address, puts the last into the place
  of the SDK, and tells which one it runs in; it ends after one round through the address space.
  With thirteen modules or more, though there is room for thirteen, it aborts.
\<close>

theorem find_modules_spec:
  assumes "covers query 0 (concat (map seg_blocks (Gap m0 # segs)))" and "segs \<noteq> []" and "\<forall>s \<in> set (Gap m0 # segs). seg_ok s"
    and "length (concat (map seg_blocks (Gap m0 # segs))) < fuel"
    and "is = seg_infos read32 segs" and "2 \<le> length is" and "info \<in> set is" and "m_Start (m_Total info) = module_start"
  shows "if length is < 13
    then \<exists>self info'. FindModules fuel query read32 module_start = Some (sdk_layout is, self) \<and> self < 13 \<and>
       sdk_layout is ! self = Some info' \<and> m_Start (m_Total info') = module_start
    else FindModules fuel query read32 module_start = None"
proof -
  let ?bs = "concat (map seg_blocks (Gap m0 # segs))"
  have "seg_blocks s \<noteq> []" for s by (cases s) auto
  with assms(2) have two: "2 \<le> length ?bs" by (cases segs) (auto simp: Suc_le_eq)
  have q: "query 0 = Some m0" "mi_addr m0 = 0" using assms(1) by simp_all
  have rdy: "ready finder_init" "length (infos finder_init) = ModuleIndex_value End" "infos finder_init = no_modules" "next_idx finder_init = 0"
    by (simp_all add: ready_def finder_init_def no_modules_def)
  have "seg_infos read32 (Gap m0 # segs) = is" using assms(5) by simp
  then have loop: "find_loop fuel query read32 0 0 finder_init =
    (if length is < 13 then scan read32 [m0] (finder_init\<lparr>infos := placed no_modules 0 is, next_idx := length is\<rparr>) else None)"
    using find_loop_scan [OF assms(1) q, of 0 fuel read32 finder_init] two assms(4) scan_segments [OF assms(3) rdy(1,2), of read32 m0] rdy
    by (simp add: Let_def)
  show ?thesis
  proof (cases "length is < 13")
    case False
    with loop show ?thesis by (simp add: FindModules_def)
  next
    case True
    let ?f = "finder_init\<lparr>infos := placed no_modules 0 is, next_idx := length is\<rparr>"
    have "ready ?f" using rdy(1) by (simp add: ready_def)
    moreover have "\<not> static_code m0" using assms(3) by simp
    ultimately have "scan read32 [m0] ?f = Some ?f" using True by (simp add: find_step_gap)
    with loop True have loop': "find_loop fuel query read32 0 0 finder_init = Some ?f" by simp
    have mv: "move_sdk ?f = sdk_layout is" using assms(6) True by (intro move_sdk_layout) simp_all
    have slots: "infos ?f ! 0 \<noteq> None" "infos ?f ! 1 \<noteq> None"
      using assms(6) True by (auto simp: placed_def nth_append)
    have "Some info \<in> set (sdk_layout is)"
      using assms(7) by (cases "is" rule: rev_cases) (auto simp: sdk_layout_def)
    from self_index_finds [OF this assms(8), of 0] obtain j info' where
      j: "self_index (sdk_layout is) module_start 0 = Some j" "j < length (sdk_layout is)" "sdk_layout is ! j = Some info'"
        "m_Start (m_Total info') = module_start" by auto
    moreover have "length (sdk_layout is) = 13" using assms(6) True by (simp add: sdk_layout_def)
    ultimately show ?thesis using loop' mv slots True by (auto simp: FindModules_def)
  qed
qed

text \<open>A small layout: two modules, the second ours, and the blocks around them.\<close>

definition demo_block :: "nat \<Rightarrow> nat \<Rightarrow> nat \<Rightarrow> u32 \<Rightarrow> MemoryInfo" where
  "demo_block a n t p = \<lparr>mi_addr = a, mi_size = n, mi_type = t, mi_attr = 0, mi_perm = p, mi_device_refcount = 0, mi_ipc_refcount = 0\<rparr>"

definition demo_segments :: "segment list" where
  "demo_segments = [Loaded (demo_block 0x1000 0x1000 3 5) (demo_block 0x2000 0x1000 3 1) (demo_block 0x3000 0x1000 4 3),
     Loaded (demo_block 0x4000 0x1000 3 5) (demo_block 0x5000 0x1000 3 1) (demo_block 0x6000 0x1000 4 3),
     Gap (demo_block 0x7000 (2 ^ 64 - 0x7000) 0 0)]"

definition demo_query :: "nat \<Rightarrow> MemoryInfo option" where
  "demo_query a = List.find (\<lambda>m. mi_addr m = a) (concat (map seg_blocks (Gap (demo_block 0 0x1000 0 0) # demo_segments)))"

lemma find_modules_spec_witness:
  "\<exists>ms self info. FindModules 9 demo_query (\<lambda>_. 8) 0x4000 = Some (ms, self) \<and> ms ! self = Some info \<and> m_Start (m_Total info) = 0x4000"
proof -
  let ?is = "seg_infos (\<lambda>_. 8) demo_segments"
  let ?info = "loaded_info (\<lambda>_. 8) (demo_block 0x4000 0x1000 3 5) (demo_block 0x5000 0x1000 3 1) (demo_block 0x6000 0x1000 4 3)"
  have c: "covers demo_query 0 (concat (map seg_blocks (Gap (demo_block 0 0x1000 0 0) # demo_segments)))"
    by (simp add: demo_query_def demo_segments_def demo_block_def)
  have ok: "\<forall>s \<in> set (Gap (demo_block 0 0x1000 0 0) # demo_segments). seg_ok s"
    by (simp add: demo_segments_def demo_block_def static_code_def static_rodata_def mutable_data_def mem_type_def)
  have i: "?info \<in> set ?is" "length ?is = 2" "m_Start (m_Total ?info) = 0x4000"
    by (simp_all add: demo_segments_def) (simp add: loaded_info_def demo_block_def)
  from find_modules_spec [OF c _ ok _ refl _ i(1,3), of 9] i(2) show ?thesis
    by (auto simp: demo_segments_def)
qed

section \<open>The frame walk ends\<close>

lemma step_frame:
  assumes "IsValid w" and "valid_ptr (m_Fp w)"
  shows "m_PrevFp (snd (Step read64 valid_lr valid_ptr w)) = m_Fp w" and "m_Stack (snd (Step read64 valid_lr valid_ptr w)) = m_Stack w"
  using assms by (simp_all add: Step_def Let_def)

text \<open>
  The walk over the saved frame pointers ends on any stack contents, however corrupt, when every
  address of the stack can be read: it only goes up, and only visits aligned frames inside the stack.
\<close>

theorem frame_walk_terminates:
  assumes "\<forall>p. InRange (m_Stack w) p \<longrightarrow> valid_ptr p"
  shows "\<exists>ws. Walk read64 valid_lr valid_ptr w = Some ws \<and> sorted_wrt (<) (map m_Fp ws) \<and>
    (\<forall>v \<in> set ws. InRange (m_Stack w) (m_Fp v) \<and> m_Fp v mod 8 = 0 \<and> m_PrevFp w < m_Fp v)"
  using assms
proof (induction "2 ^ 64 - m_PrevFp w" arbitrary: w rule: less_induct)
  case less
  show ?case
  proof (cases "IsValid w")
    case False
    then show ?thesis by (subst Walk.simps) simp
  next
    case True
    let ?w = "snd (Step read64 valid_lr valid_ptr w)"
    have in_stack: "InRange (m_Stack w) (m_Fp w)" "m_PrevFp w < m_Fp w" "m_Fp w mod 8 = 0" using True by (simp_all add: IsValid_def)
    then have p: "valid_ptr (m_Fp w)" using less.prems by simp
    note st = step_frame [of w valid_ptr read64 valid_lr, OF True p]
    have "m_Fp w < 2 ^ 64" using in_stack(1) unfolding InRange_def GetEnd_def by (meson less_trans size_add_less)
    then have "2 ^ 64 - m_PrevFp ?w < 2 ^ 64 - m_PrevFp w" using in_stack(2) st(1) by simp
    from less.hyps [OF this] less.prems st(2) obtain ws where
      ws: "Walk read64 valid_lr valid_ptr ?w = Some ws" "sorted_wrt (<) (map m_Fp ws)"
        "\<forall>v \<in> set ws. InRange (m_Stack w) (m_Fp v) \<and> m_Fp v mod 8 = 0 \<and> m_Fp w < m_Fp v"
      by (auto simp: st(1))
    have "Walk read64 valid_lr valid_ptr w = Some (w # ws)" using True ws(1) by (subst Walk.simps) simp
    with ws in_stack show ?thesis by (auto intro: less_trans)
  qed
qed

lemma frame_walk_terminates_witness:
  "\<exists>ws. Walk (\<lambda>a. if a = 0x100 then 0x140 else 0x104) (\<lambda>_. True) (\<lambda>_. True) (walker_init 0x100 0 \<lparr>m_Start = 0x100, m_Size = 0x100\<rparr>) = Some ws \<and>
     sorted_wrt (<) (map m_Fp ws)"
  using frame_walk_terminates [of "walker_init 0x100 0 \<lparr>m_Start = 0x100, m_Size = 0x100\<rparr>" "\<lambda>_. True"] by blast

text \<open>
  A frame that cannot be read stops \<open>Step\<close> without a change of state, and \<open>Walk\<close>, which does not
  look at its answer, then never ends.
\<close>

lemma frame_walk_hangs:
  assumes "IsValid w" and "\<not> valid_ptr (m_Fp w)"
  shows "Walk read64 valid_lr valid_ptr w = None"
proof (rule ccontr)
  assume "Walk read64 valid_lr valid_ptr w \<noteq> None"
  then obtain ws where ret: "Walk read64 valid_lr valid_ptr w = Some ws" by blast
  have "\<not> (IsValid w \<and> \<not> valid_ptr (m_Fp w))"
  proof (rule Walk.raw_induct [where P = "\<lambda>read64 valid_lr valid_ptr w ws. \<not> (IsValid w \<and> \<not> valid_ptr (m_Fp w))", OF _ ret])
    fix walk read64 valid_lr valid_ptr w ws
    assume IH: "\<And>read64 valid_lr valid_ptr w ws. walk read64 valid_lr valid_ptr w = Some ws \<Longrightarrow> \<not> (IsValid w \<and> \<not> valid_ptr (m_Fp w))"
      and step: "(if IsValid w then do { ws \<leftarrow> walk read64 valid_lr valid_ptr (snd (Step read64 valid_lr valid_ptr w)); Some (w # ws) }
        else Some []) = Some ws"
    show "\<not> (IsValid w \<and> \<not> valid_ptr (m_Fp w))"
    proof
      assume stuck: "IsValid w \<and> \<not> valid_ptr (m_Fp w)"
      then have "snd (Step read64 valid_lr valid_ptr w) = w" by (simp add: Step_def)
      with step stuck obtain ws' where "walk read64 valid_lr valid_ptr w = Some ws'" by (auto simp: Option.bind_eq_Some_conv)
      from IH [OF this] stuck show False by blast
    qed
  qed
  with assms show False by blast
qed

end
