(* ===== verification/Hashes.thy ===== *)
theory Hashes
  imports Prelude
begin

text \<open>
  The two hash functions of \<open>lib/util\<close>: MurmurHash3 (\<open>murmur3.hpp\<close>), which names symbols in the
  relocation tables, and the table-driven CRC-32 (\<open>crc32.hpp\<close>), shown equal to the bitwise one.
  Characters are unsigned, as on AArch64.
\<close>

section \<open>Murmur3\<close>

text \<open>\<open>std::rotl\<close> on 32 bits.\<close>

definition rotl :: "nat \<Rightarrow> u32 \<Rightarrow> u32" where
  "rotl n w = push_bit n w OR drop_bit (32 - n) w"

record Murmur3 =
  m_Length :: u32
  m_H :: u32

definition Scramble :: "u32 \<Rightarrow> u32" where
  "Scramble k = rotl 15 (k * 0xcc9e2d51) * 0x1b873593"

definition Murmur3_Initialize :: "u32 \<Rightarrow> Murmur3" where
  "Murmur3_Initialize seed = \<lparr>m_Length = 0, m_H = seed\<rparr>"

definition Murmur3_Update :: "u32 \<Rightarrow> Murmur3 \<Rightarrow> Murmur3" where
  "Murmur3_Update block m = \<lparr>m_Length = m_Length m + 4, m_H = rotl 13 (m_H m XOR Scramble block) * 5 + 0xe6546b64\<rparr>"

definition tail_word :: "bytes \<Rightarrow> u32" where
  "tail_word bs =
     (if length bs = 3 then push_bit 16 (ucast (bs ! 2)) XOR push_bit 8 (ucast (bs ! 1)) XOR ucast (bs ! 0)
      else if length bs = 2 then push_bit 8 (ucast (bs ! 1)) XOR ucast (bs ! 0)
      else if length bs = 1 then ucast (bs ! 0) else 0)"

definition Murmur3_Finalize :: "bytes \<Rightarrow> Murmur3 \<Rightarrow> u32" where
  "Murmur3_Finalize bs m =
     (let h = (if length bs \<in> {1, 2, 3} then m_H m XOR Scramble (tail_word bs) else m_H m);
          h = h XOR (m_Length m + word_of_nat (length bs mod 4));
          h = (h XOR drop_bit 16 h) * 0x85ebca6b;
          h = (h XOR drop_bit 13 h) * 0xc2b2ae35 in
      h XOR drop_bit 16 h)"

definition le_word :: "bytes \<Rightarrow> u32" where
  "le_word bs = word_of_nat (le_value bs)"

fun Murmur3_blocks :: "bytes \<Rightarrow> Murmur3 \<Rightarrow> u32" where
  "Murmur3_blocks (a # b # c # d # bs) m = Murmur3_blocks bs (Murmur3_Update (le_word [a, b, c, d]) m)"
| "Murmur3_blocks bs m = Murmur3_Finalize bs m"

definition Murmur3_Compute :: "bytes \<Rightarrow> u32 \<Rightarrow> u32" where
  "Murmur3_Compute input seed = Murmur3_blocks input (Murmur3_Initialize seed)"

text \<open>Published values of the 32-bit MurmurHash3.\<close>

lemma Murmur3_vectors:
  "Murmur3_Compute [] 0 = 0" "Murmur3_Compute [] 1 = 0x514e28b7" "Murmur3_Compute [0x21, 0x43, 0x65, 0x87] 0 = 0xf55b516b"
  "Murmur3_Compute [0x21, 0x43, 0x65] 0 = 0x7e4a8634" "Murmur3_Compute [0x21] 0 = 0x72661cf4"
  by (simp_all add: Murmur3_Compute_def Murmur3_Finalize_def Murmur3_Initialize_def Murmur3_Update_def Scramble_def tail_word_def
      le_word_def Let_def rotl_def)

section \<open>CRC-32\<close>

definition default_polynomial :: u32 where "default_polynomial = 0xEDB88320"

definition crc_step :: "u32 \<Rightarrow> u32 \<Rightarrow> u32" where
  "crc_step polynomial item = (if item AND 1 \<noteq> 0 then polynomial XOR drop_bit 1 item else drop_bit 1 item)"

definition CreateTable :: "u32 \<Rightarrow> u32 list" where
  "CreateTable polynomial = map (\<lambda>i. (crc_step polynomial ^^ 8) (word_of_nat i)) [0..<0x100]"

definition crc_update :: "u32 list \<Rightarrow> u8 \<Rightarrow> u32 \<Rightarrow> u32" where
  "crc_update table e ctx = table ! unat (e XOR ucast (ctx AND 0xFF)) XOR drop_bit 8 ctx"

definition Crc32_Hash :: "bytes \<Rightarrow> u32 \<Rightarrow> u32" where
  "Crc32_Hash input init = NOT (fold (crc_update (CreateTable default_polynomial)) input init)"

text \<open>The definition of the check: one bit of the message at a time.\<close>

definition crc_bitwise :: "u32 \<Rightarrow> bytes \<Rightarrow> u32 \<Rightarrow> u32" where
  "crc_bitwise polynomial input init = fold (\<lambda>e ctx. (crc_step polynomial ^^ 8) (ctx XOR ucast e)) input init"

lemma crc_step_xor: "crc_step p (a XOR b) = crc_step p a XOR crc_step p b"
proof -
  have low: "(x AND 1 \<noteq> 0) = bit x 0" for x :: u32 by (simp add: and_one_eq odd_iff_mod_2_eq_one bit_0)
  have "bit (a XOR b) 0 = (bit a 0 \<noteq> bit b 0)" by (rule bit_xor_iff)
  then show ?thesis unfolding crc_step_def low by (cases "bit a 0"; cases "bit b 0") (simp_all add: ac_simps)
qed

lemma crc_steps_xor: "(crc_step p ^^ n) (a XOR b) = (crc_step p ^^ n) a XOR (crc_step p ^^ n) b"
  by (induction n) (simp_all add: crc_step_xor)

lemma crc_steps_low_zero: "take_bit n a = 0 \<Longrightarrow> (crc_step p ^^ n) a = drop_bit n a"
proof (induction n arbitrary: a)
  case (Suc n)
  have b: "\<not> bit a m" if "m < Suc n" for m
  proof -
    have "bit (take_bit (Suc n) a) m = bit a m" using that by (simp add: bit_take_bit_iff)
    with Suc.prems show ?thesis by simp
  qed
  from b [of 0] have "a AND 1 = 0" by (simp add: and_one_eq bit_0 even_iff_mod_2_eq_zero)
  then have s: "crc_step p a = drop_bit 1 a" by (simp add: crc_step_def)
  have "take_bit n (drop_bit 1 a) = 0" by (rule bit_word_eqI) (use b in \<open>auto simp: bit_simps\<close>)
  from Suc.IH [OF this] s show ?case by (simp add: funpow_swap1 drop_bit_drop_bit add.commute)
qed simp

lemma crc_update_bits: "crc_update (CreateTable p) e ctx = (crc_step p ^^ 8) (ctx XOR ucast e)"
proof -
  let ?low = "ucast (e XOR ucast (ctx AND 0xFF)) :: u32"
  have m: "(0xFF :: u32) = mask 8" by (simp add: mask_eq_exp_minus_1)
  have split: "ctx XOR ucast e = ?low XOR push_bit 8 (drop_bit 8 ctx)"
    unfolding m by (rule bit_word_eqI) (auto simp: bit_simps)
  have "table ! unat x = (crc_step p ^^ 8) (ucast x)" if "table = CreateTable p" for x :: u8 and table
    using unat_u8_less [of x] unfolding that CreateTable_def by (simp del: unat_u8_less)
  moreover have "(crc_step p ^^ 8) (push_bit 8 (drop_bit 8 ctx)) = drop_bit 8 (push_bit 8 (drop_bit 8 ctx))"
    by (rule crc_steps_low_zero) (rule bit_word_eqI, auto simp: bit_simps)
  moreover have "drop_bit 8 (push_bit 8 (drop_bit 8 ctx)) = drop_bit 8 ctx"
    by (rule bit_word_eqI) (auto simp: bit_simps dest: bit_imp_le_length)
  ultimately show ?thesis unfolding split crc_steps_xor by (simp add: crc_update_def)
qed

text \<open>
  Hashing with the table is the bitwise cyclic redundancy check with the reflected polynomial
  \<open>0xEDB88320\<close>, whatever the message and the initial value.
\<close>

theorem crc32_is_bitwise: "Crc32_Hash input init = NOT (crc_bitwise 0xEDB88320 input init)"
proof -
  have "crc_update (CreateTable 0xEDB88320) = (\<lambda>e ctx. (crc_step 0xEDB88320 ^^ 8) (ctx XOR ucast e))"
    by (intro ext) (rule crc_update_bits)
  then show ?thesis by (simp add: Crc32_Hash_def crc_bitwise_def default_polynomial_def)
qed

end
