(* ===== verification/Reloc.thy ===== *)
theory Reloc
  imports Rtld Hashes MemLayout
begin

text \<open>
  The symbol tables of a user of the library (\<open>lib/reloc\<close>): tables of entries keyed by the Murmur3
  hash of a symbol, sorted at compile time and searched at run time, one table per version of the
  target; and the relocation of the module against the table (\<open>Lookup::Apply\<close>). \<open>None\<close> is a failed
  assertion, static or at run time, or a read past the end of a table.
\<close>

section \<open>Tables\<close>

record LookupEntryBin =
  m_SymbolHash :: u32
  m_Offset :: nat
  m_ModuleIndex :: nat

record LookupEntry =
  le_ModuleIndex :: ModuleIndex
  le_Offset :: u32
  le_Symbol :: bytes

text \<open>The offset has 28 bits and the index 4.\<close>

definition Convert :: "LookupEntry \<Rightarrow> LookupEntryBin" where
  "Convert e = \<lparr>m_SymbolHash = Murmur3_Compute (le_Symbol e) 0, m_Offset = unat (le_Offset e) mod 2 ^ 28,
     m_ModuleIndex = ModuleIndex_value (le_ModuleIndex e) mod 2 ^ 4\<rparr>"

definition FindByHash :: "LookupEntryBin list \<Rightarrow> u32 \<Rightarrow> LookupEntryBin option option" where
  "FindByHash entries hash =
     (let low = lower_bound (\<lambda>e. m_SymbolHash e < hash) entries in
      if low = length entries then None
      else if m_SymbolHash (entries ! low) \<noteq> hash then Some None
      else Some (Some (entries ! low)))"

definition FindByName :: "LookupEntryBin list \<Rightarrow> bytes \<Rightarrow> LookupEntryBin option option" where
  "FindByName entries name = FindByHash entries (Murmur3_Compute name 0)"

text \<open>\<open>IsUnique\<close> compares neighbours (\<open>adjacent_find\<close>).\<close>

fun IsUnique :: "'a list \<Rightarrow> bool" where
  "IsUnique (x # y # zs) = (if x = y then False else IsUnique (y # zs))"
| "IsUnique xs = True"

definition TableType :: "LookupEntry list \<Rightarrow> LookupEntryBin list option" where
  "TableType es = (if IsUnique (map le_Symbol es) then Some (sort_key m_SymbolHash (map Convert es)) else None)"

type_synonym table_set = "(nat \<times> LookupEntryBin list) list"

fun find_index :: "nat list \<Rightarrow> nat \<Rightarrow> nat" where
  "find_index [] ver = 0"
| "find_index (v # vs) ver = (if v = ver then 0 else Suc (find_index vs ver))"

definition FindTableIndex :: "table_set \<Rightarrow> nat \<Rightarrow> nat" where
  "FindTableIndex ts ver =
     (let found = find_index (map fst ts) ver in if found = length ts then SIZE_MAX else found)"

definition GetTableByIndex :: "table_set \<Rightarrow> nat \<Rightarrow> LookupEntryBin list option" where
  "GetTableByIndex ts index =
     (if list_all (\<lambda>(v, t). IsUnique (map m_SymbolHash t)) ts \<and> index < length ts then Some (snd (ts ! index)) else None)"

definition DoesTableExist :: "table_set \<Rightarrow> nat \<Rightarrow> bool" where
  "DoesTableExist ts ver \<longleftrightarrow> FindTableIndex ts ver \<noteq> SIZE_MAX"

definition TableSet_Get :: "table_set \<Rightarrow> nat \<Rightarrow> LookupEntryBin list option" where
  "TableSet_Get ts ver =
     (let index = FindTableIndex ts ver in if index \<noteq> SIZE_MAX then GetTableByIndex ts index else None)"

section \<open>Applying a table\<close>

definition ApplyRel :: "modules \<Rightarrow> LookupEntryBin \<Rightarrow> u64 \<Rightarrow> u64 \<Rightarrow> cells \<Rightarrow> cells option" where
  "ApplyRel ms entry target addend c = do {
     referred \<leftarrow> GetModuleInfo ms (m_ModuleIndex entry);
     Some (c(target := word_of_nat (m_Start (m_Total referred)) + word_of_nat (m_Offset entry) + addend))
   }"

definition CheckAndApplyRel ::
  "modules \<Rightarrow> image \<Rightarrow> ModuleObject \<Rightarrow> LookupEntryBin list \<Rightarrow> Elf_Rel \<Rightarrow> u64 \<Rightarrow> cells \<Rightarrow> cells option" where
  "CheckAndApplyRel ms im mo table e addend c = do {
     name \<leftarrow> c_string im (dynstr mo + ucast (st_name (sym_at im mo (ELF_R_SYM (r_info e)))));
     search \<leftarrow> FindByName table name;
     case search of
       None \<Rightarrow> Some c
     | Some entry \<Rightarrow>
        (let t = ELF_R_TYPE (r_info e) in
         if t \<noteq> ARCH_JUMP_SLOT \<and> \<not> ARCH_IS_REL_ABSOLUTE t \<and> t \<noteq> ARCH_GLOB_DAT then Some c
         else if \<not> HasModule ms (m_ModuleIndex entry) then Some c
         else ApplyRel ms entry (module_base mo + r_offset e) addend c)
   }"

definition ApplyRels_rela ::
  "modules \<Rightarrow> image \<Rightarrow> ModuleObject \<Rightarrow> LookupEntryBin list \<Rightarrow> u64 \<Rightarrow> u64 \<Rightarrow> cells \<Rightarrow> cells option" where
  "ApplyRels_rela ms im mo table ptr sz =
     for_each (\<lambda>i. CheckAndApplyRel ms im mo table (Elf_Rel.truncate (rela_at im ptr i)) (r_addend (rela_at im ptr i)))
       [0..<unat sz div sizeof_Rela]"

definition ApplyRels_rel ::
  "modules \<Rightarrow> image \<Rightarrow> ModuleObject \<Rightarrow> LookupEntryBin list \<Rightarrow> u64 \<Rightarrow> u64 \<Rightarrow> cells \<Rightarrow> cells option" where
  "ApplyRels_rel ms im mo table ptr sz =
     for_each (\<lambda>i. CheckAndApplyRel ms im mo table (rel_at im ptr i) 0) [0..<unat sz div sizeof_Rel]"

definition ApplyRels :: "modules \<Rightarrow> image \<Rightarrow> ModuleObject \<Rightarrow> LookupEntryBin list \<Rightarrow> cells \<Rightarrow> cells option" where
  "ApplyRels ms im mo table c =
     (let hasRel = (rel_count mo \<noteq> 0 \<or> rel_dyn_size mo \<noteq> 0); hasRela = (rela_count mo \<noteq> 0 \<or> rela_dyn_size mo \<noteq> 0) in
      if hasRel = hasRela then None
      else if hasRela then ApplyRels_rela ms im mo table (rela_or_rel mo) (rela_dyn_size mo) c
      else ApplyRels_rel ms im mo table (rela_or_rel mo) (rel_dyn_size mo) c)"

definition ApplyPlt :: "modules \<Rightarrow> image \<Rightarrow> ModuleObject \<Rightarrow> LookupEntryBin list \<Rightarrow> cells \<Rightarrow> cells option" where
  "ApplyPlt ms im mo table c =
     (if is_rela mo then ApplyRels_rela ms im mo table (rela_or_rel_plt mo) (rela_or_rel_plt_size mo) c
      else ApplyRels_rel ms im mo table (rela_or_rel_plt mo) (rela_or_rel_plt_size mo) c)"

text \<open>\<open>Lookup::Apply\<close> on the module that runs, at \<open>base\<close> with the dynamic section \<open>dyn\<close>.\<close>

definition Lookup_Apply :: "modules \<Rightarrow> image \<Rightarrow> u64 \<Rightarrow> Elf_Dyn list \<Rightarrow> LookupEntryBin list \<Rightarrow> cells \<Rightarrow> cells option" where
  "Lookup_Apply ms im base dyn table c = do {
     mo \<leftarrow> Initialize im base dyn no_module;
     c \<leftarrow> ApplyRels ms im mo table c;
     ApplyPlt ms im mo table c
   }"

text \<open>\<open>reloc::impl::Initialize\<close>: whether it succeeded, the cached table, and the memory.\<close>

definition Reloc_Initialize ::
  "table_set \<Rightarrow> nat \<Rightarrow> modules \<Rightarrow> image \<Rightarrow> u64 \<Rightarrow> Elf_Dyn list \<Rightarrow> cells \<Rightarrow> (bool \<times> LookupEntryBin list \<times> cells) option" where
  "Reloc_Initialize ts version ms im base dyn c =
     (if length ts = 0 then Some (True, [], c)
      else if \<not> DoesTableExist ts version then Some (False, [], c)
      else do {
        table \<leftarrow> TableSet_Get ts version;
        c \<leftarrow> Lookup_Apply ms im base dyn table c;
        Some (True, table, c)
      })"

section \<open>Symbols of any module\<close>

text \<open>
  \<open>GetModuleRuntime\<close> sets up the object of a module on its first use; \<open>runtimes\<close> are the objects by
  index and \<open>dyns\<close> the dynamic sections. The search over all modules has no \<open>return\<close> at its end:
  \<open>None\<close> there is the undefined value it yields for an unknown symbol.
\<close>

definition GetModuleRuntime ::
  "modules \<Rightarrow> image \<Rightarrow> (nat \<Rightarrow> ModuleObject) \<Rightarrow> (nat \<Rightarrow> Elf_Dyn list) \<Rightarrow> nat \<Rightarrow> ModuleObject option" where
  "GetModuleRuntime ms im runtimes dyns i = do {
     info \<leftarrow> GetModuleInfo ms i;
     if module_base (runtimes i) \<noteq> 0 then Some (runtimes i)
     else Initialize im (word_of_nat (m_Start (m_Total info))) (dyns i) (runtimes i)
   }"

definition GetSymbol_in ::
  "modules \<Rightarrow> image \<Rightarrow> (nat \<Rightarrow> ModuleObject) \<Rightarrow> (nat \<Rightarrow> Elf_Dyn list) \<Rightarrow> bytes \<Rightarrow> nat \<Rightarrow> (ModuleObject \<times> u32) option option" where
  "GetSymbol_in ms im runtimes dyns name i = do {
     mo \<leftarrow> GetModuleRuntime ms im runtimes dyns i;
     r \<leftarrow> GetSymbolByName im mo name;
     Some (map_option (\<lambda>k. (mo, k)) r)
   }"

fun GetSymbol_from ::
  "modules \<Rightarrow> image \<Rightarrow> (nat \<Rightarrow> ModuleObject) \<Rightarrow> (nat \<Rightarrow> Elf_Dyn list) \<Rightarrow> bytes \<Rightarrow> nat list \<Rightarrow> (ModuleObject \<times> u32) option" where
  "GetSymbol_from ms im runtimes dyns name [] = None"
| "GetSymbol_from ms im runtimes dyns name (i # is) =
     (if \<not> HasModule ms i then GetSymbol_from ms im runtimes dyns name is
      else do {
        r \<leftarrow> GetSymbol_in ms im runtimes dyns name i;
        case r of Some s \<Rightarrow> Some s | None \<Rightarrow> GetSymbol_from ms im runtimes dyns name is
      })"

definition GetSymbol ::
  "modules \<Rightarrow> image \<Rightarrow> (nat \<Rightarrow> ModuleObject) \<Rightarrow> (nat \<Rightarrow> Elf_Dyn list) \<Rightarrow> bytes \<Rightarrow> (ModuleObject \<times> u32) option" where
  "GetSymbol ms im runtimes dyns name =
     GetSymbol_from ms im runtimes dyns name [ModuleIndex_value ModuleIndex.Rtld..<ModuleIndex_value End]"

section \<open>Searching\<close>

lemma sorted_key_nth: "sorted (map f xs) \<Longrightarrow> i \<le> j \<Longrightarrow> j < length xs \<Longrightarrow> f (xs ! i) \<le> f (xs ! j)"
  using sorted_nth_mono [of "map f xs" i j] by simp

lemma lower_bound_sorted:
  assumes "sorted (map f xs)"
  shows "lower_bound (\<lambda>x. f x < h) xs = length (takeWhile (\<lambda>x. f x < h) xs)"
proof (rule lower_bound_partition)
  let ?m = "length (takeWhile (\<lambda>x. f x < h) xs)"
  show "?m \<le> length xs" by (rule length_takeWhile_le)
  show "f (xs ! i) < h" if "i < ?m" for i
    using that by (metis nth_mem set_takeWhileD takeWhile_nth)
  show "\<not> f (xs ! i) < h" if "?m \<le> i" "i < length xs" for i
  proof -
    have "\<not> f (xs ! ?m) < h" using that by (intro nth_length_takeWhile [of "\<lambda>x. f x < h"]) simp
    moreover have "f (xs ! ?m) \<le> f (xs ! i)" by (rule sorted_key_nth [OF assms that])
    ultimately show ?thesis by simp
  qed
qed

text \<open>
  In a sorted table the search returns the entry of the hash, if there is one; it says there is
  none only when some larger hash is in the table. For a hash above all those of the table it reads
  past the end.
\<close>

theorem find_by_hash:
  assumes "sorted (map m_SymbolHash entries)"
  shows "FindByHash entries hash =
    (if \<exists>e \<in> set entries. hash \<le> m_SymbolHash e then Some (List.find (\<lambda>e. m_SymbolHash e = hash) entries) else None)"
proof -
  let ?m = "length (takeWhile (\<lambda>e. m_SymbolHash e < hash) entries)"
  have low: "lower_bound (\<lambda>e. m_SymbolHash e < hash) entries = ?m" by (rule lower_bound_sorted [OF assms])
  have below: "m_SymbolHash (entries ! i) < hash" if "i < ?m" for i
    using that by (metis nth_mem set_takeWhileD takeWhile_nth)
  show ?thesis
  proof (cases "?m = length entries")
    case True
    then have "\<forall>e \<in> set entries. m_SymbolHash e < hash" using below by (metis in_set_conv_nth)
    then show ?thesis using True low by (auto simp: FindByHash_def not_le [symmetric])
  next
    case False
    then have m: "?m < length entries" using length_takeWhile_le [of _ entries] by (metis le_neq_implies_less)
    have ge: "hash \<le> m_SymbolHash (entries ! ?m)" using nth_length_takeWhile [OF m] by simp
    then have ex: "\<exists>e \<in> set entries. hash \<le> m_SymbolHash e" using m by (metis nth_mem)
    show ?thesis
    proof (cases "m_SymbolHash (entries ! ?m) = hash")
      case True
      have "List.find (\<lambda>e. m_SymbolHash e = hash) entries = Some (entries ! ?m)"
        using m True below by (auto simp: find_Some_iff intro!: exI [of _ ?m])
      with True ex low False show ?thesis by (simp add: FindByHash_def)
    next
      case no: False
      have "m_SymbolHash (entries ! i) \<noteq> hash" if "i < length entries" for i
      proof (cases "i < ?m")
        case False
        then have "m_SymbolHash (entries ! ?m) \<le> m_SymbolHash (entries ! i)" using sorted_key_nth [OF assms _ that] by simp
        with ge no show ?thesis by (metis order_antisym)
      qed (use below in fastforce)
      then have "List.find (\<lambda>e. m_SymbolHash e = hash) entries = None" by (auto simp: find_None_iff in_set_conv_nth)
      with no ex low False show ?thesis by (simp add: FindByHash_def)
    qed
  qed
qed

text \<open>The tables of the library are sorted when they are built.\<close>

lemma TableType_sorted: "TableType es = Some t \<Longrightarrow> sorted (map m_SymbolHash t)"
  by (auto simp: TableType_def split: if_splits)

definition demo_entry :: "u32 \<Rightarrow> LookupEntryBin" where
  "demo_entry h = \<lparr>m_SymbolHash = h, m_Offset = 0x100, m_ModuleIndex = 1\<rparr>"

lemma find_by_hash_witness:
  "FindByHash [demo_entry 3, demo_entry 7] 7 = Some (Some (demo_entry 7)) \<and> FindByHash [demo_entry 3, demo_entry 7] 5 = Some None \<and>
   FindByHash [demo_entry 3, demo_entry 7] 9 = None"
proof -
  have "sorted (map m_SymbolHash [demo_entry 3, demo_entry 7])" by (simp add: demo_entry_def)
  from find_by_hash [OF this] show ?thesis by (simp add: demo_entry_def)
qed

section \<open>What applying a table changes\<close>

definition names_symbol :: "image \<Rightarrow> ModuleObject \<Rightarrow> LookupEntryBin list \<Rightarrow> Elf_Rel \<Rightarrow> bool" where
  "names_symbol im mo table e \<longleftrightarrow>
     (\<exists>name entry. c_string im (dynstr mo + ucast (st_name (sym_at im mo (ELF_R_SYM (r_info e))))) = Some name \<and>
        FindByName table name = Some (Some entry))"

lemma check_frame:
  assumes "CheckAndApplyRel ms im mo table e addend c = Some c'" and "c' a \<noteq> c a"
  shows "a = module_base mo + r_offset e \<and> names_symbol im mo table e"
  using assms
  by (auto simp: CheckAndApplyRel_def ApplyRel_def names_symbol_def Let_def Option.bind_eq_Some_conv fun_upd_apply
      split: option.splits if_splits)

lemma for_each_frame:
  assumes "for_each f xs c = Some c'" and "c' a \<noteq> (c a :: 'b)"
    and "\<And>x c c'. f x c = Some c' \<Longrightarrow> c' a \<noteq> c a \<Longrightarrow> Q x"
  shows "\<exists>x \<in> set xs. Q x"
  using assms(1,2)
proof (induction xs arbitrary: c)
  case (Cons x xs)
  then obtain d where d: "f x c = Some d" "for_each f xs d = Some c'" by (auto simp: Option.bind_eq_Some_conv)
  show ?case
  proof (cases "d a = c a")
    case True
    with Cons.IH [OF d(2)] Cons.prems(2) show ?thesis by auto
  next
    case False
    with assms(3) [OF d(1)] show ?thesis by auto
  qed
qed simp

text \<open>Only cells that a relocation of a symbol of the table names are changed.\<close>

lemma apply_plt_frame:
  assumes "ApplyPlt ms im mo table c = Some c'" and "is_rela mo" and "c' a \<noteq> c a"
  shows "\<exists>i < unat (rela_or_rel_plt_size mo) div sizeof_Rela.
    a = module_base mo + r_offset (rela_at im (rela_or_rel_plt mo) i) \<and>
    names_symbol im mo table (Elf_Rel.truncate (rela_at im (rela_or_rel_plt mo) i))"
proof -
  let ?e = "\<lambda>i. Elf_Rel.truncate (rela_at im (rela_or_rel_plt mo) i)"
  have run: "for_each (\<lambda>i. CheckAndApplyRel ms im mo table (?e i) (r_addend (rela_at im (rela_or_rel_plt mo) i)))
      [0..<unat (rela_or_rel_plt_size mo) div sizeof_Rela] c = Some c'"
    using assms(1,2) by (simp add: ApplyPlt_def ApplyRels_rela_def)
  have "\<exists>i \<in> set [0..<unat (rela_or_rel_plt_size mo) div sizeof_Rela].
      a = module_base mo + r_offset (?e i) \<and> names_symbol im mo table (?e i)"
    by (rule for_each_frame [OF run assms(3)]) (rule check_frame)
  then show ?thesis by (auto simp: Elf_Rel.truncate_def)
qed

end
