(* ===== verification/Pages.thy ===== *)
theory Pages
  imports Virtmem MemRegions Hook
begin

text \<open>
  Writing to code: \<open>RwPages\<close> (\<open>lib/util/sys/rw_pages\<close>), a writable alias of read-only pages made of
  one mapping per block of memory at an address from \<open>virtmem\<close>; the patchers of \<open>lib/patch\<close> that
  write through it; and the hook entry points of \<open>inline_impl.cpp\<close>. Addresses are numbers below
  \<open>2^64\<close>. \<open>None\<close> is an abort or a failed assertion.
\<close>

section \<open>Claims\<close>

definition ALIGN_DOWN :: "nat \<Rightarrow> nat" where "ALIGN_DOWN x = x - x mod 0x1000"

record Claim =
  m_Ro :: nat
  m_Rw :: nat
  m_Size :: nat
  m_RwReserve :: nat

definition no_claim :: Claim where "no_claim = \<lparr>m_Ro = 0, m_Rw = 0, m_Size = 0, m_RwReserve = 0\<rparr>"

definition GetAlignedRo :: "Claim \<Rightarrow> nat" where "GetAlignedRo c = ALIGN_DOWN (m_Ro c)"
definition GetAlignedRw :: "Claim \<Rightarrow> nat" where "GetAlignedRw c = ALIGN_DOWN (m_Rw c)"
definition GetAlignedSize :: "Claim \<Rightarrow> nat" where "GetAlignedSize c = page_align (m_Size c)"

text \<open>Differences of addresses are signed; they are added modulo \<open>2^64\<close>.\<close>

definition RoToOffset :: "Claim \<Rightarrow> nat \<Rightarrow> nat" where "RoToOffset c address = size_sub (m_Ro c) address"
definition RwToOffset :: "Claim \<Rightarrow> nat \<Rightarrow> nat" where "RwToOffset c address = size_sub (m_Rw c) address"
definition RoToRw :: "Claim \<Rightarrow> nat \<Rightarrow> nat" where "RoToRw c address = size_add (m_Rw c) (RoToOffset c address)"
definition RwToRo :: "Claim \<Rightarrow> nat \<Rightarrow> nat" where "RwToRo c address = size_add (RwToOffset c address) (m_Ro c)"

definition in_claim :: "nat \<Rightarrow> nat \<Rightarrow> bool" where
  "in_claim offset sz \<longleftrightarrow> (if 2 ^ 63 \<le> offset then False else if sz \<le> offset then False else True)"

definition InRo :: "Claim \<Rightarrow> nat \<Rightarrow> bool" where "InRo c address \<longleftrightarrow> in_claim (RoToOffset c address) (m_Size c)"
definition InRw :: "Claim \<Rightarrow> nat \<Rightarrow> bool" where "InRw c address \<longleftrightarrow> in_claim (RwToOffset c address) (m_Size c)"

section \<open>The blocks under a range\<close>

text \<open>The pieces \<open>ForEachMemRange\<close> calls its callback on: address, length and offset.\<close>

fun mem_ranges :: "nat \<Rightarrow> (nat \<Rightarrow> MemoryInfo option) \<Rightarrow> nat \<Rightarrow> nat \<Rightarrow> nat \<Rightarrow> (nat \<times> nat \<times> nat) list option" where
  "mem_ranges 0 query a start_address fin = None"
| "mem_ranges (Suc fuel) query a start_address fin = do {
     mi \<leftarrow> query a;
     let mem_end = size_add (mi_addr mi) (mi_size mi);
     let offset = max (mi_addr mi) start_address - start_address;
     let current_address = start_address + offset;
     let current_length = size_sub (min fin mem_end) current_address;
     if mem_end < fin then do {
       ps \<leftarrow> mem_ranges fuel query mem_end start_address fin;
       Some ((current_address, current_length, offset) # ps)
     }
     else Some [(current_address, current_length, offset)]
   }"

definition ForEachMemRange :: "nat \<Rightarrow> (nat \<Rightarrow> MemoryInfo option) \<Rightarrow> nat \<Rightarrow> nat \<Rightarrow> (nat \<times> nat \<times> nat) list option" where
  "ForEachMemRange fuel query start_address n = mem_ranges fuel query start_address start_address (size_add start_address n)"

section \<open>RwPages\<close>

text \<open>The process: its reservations and its aliases, as triples of writable address, original and size.\<close>

record process =
  vmem :: virtmem
  aliases :: "(nat \<times> nat \<times> nat) list"

text \<open>
  \<open>alignedRw\<close> is the answer of \<open>virtmemFindAslr\<close> (see \<open>Virtmem\<close>) and \<open>fresh\<close> that of \<open>malloc\<close>;
  \<open>svcMapProcessMemory\<close> succeeds. \<open>same\<close> compares the two views at the end.
\<close>

definition RwPages_open ::
  "nat \<Rightarrow> (nat \<Rightarrow> MemoryInfo option) \<Rightarrow> nat \<Rightarrow> nat \<Rightarrow> (nat \<Rightarrow> nat \<Rightarrow> nat \<Rightarrow> bool) \<Rightarrow> nat \<Rightarrow> nat \<Rightarrow> process \<Rightarrow> (Claim \<times> process) option" where
  "RwPages_open fuel query alignedRw fresh same ro sz p =
     (let claim = no_claim\<lparr>m_Ro := ro, m_Size := sz\<rparr> in
      if alignedRw = 0 then None
      else do {
        (reserve, vm) \<leftarrow> virtmemAddReservation fresh (vmem p) alignedRw (GetAlignedSize claim);
        if reserve = 0 then None
        else do {
          ps \<leftarrow> ForEachMemRange fuel query (GetAlignedRo claim) (GetAlignedSize claim);
          let claim = claim\<lparr>m_RwReserve := reserve, m_Rw := size_add alignedRw (ro - GetAlignedRo claim)\<rparr>;
          if \<not> same (m_Ro claim) (m_Rw claim) sz then None
          else Some (claim, \<lparr>vmem = vm, aliases = aliases p @ map (\<lambda>(a, n, off). (size_add alignedRw off, a, n)) ps\<rparr>)
        }
      })"

definition RwPages_close ::
  "nat \<Rightarrow> (nat \<Rightarrow> MemoryInfo option) \<Rightarrow> bool \<Rightarrow> Claim \<Rightarrow> process \<Rightarrow> process option" where
  "RwPages_close fuel query owner claim p =
     (if \<not> owner then Some p
      else do {
        ps \<leftarrow> ForEachMemRange fuel query (GetAlignedRo claim) (GetAlignedSize claim);
        let gone = map (\<lambda>(a, n, off). (size_add (GetAlignedRw claim) off, a, n)) ps;
        if \<not> set gone \<subseteq> set (aliases p) then None
        else do {
          vm \<leftarrow> virtmemRemoveReservation (vmem p) (m_RwReserve claim);
          Some \<lparr>vmem = vm, aliases = filter (\<lambda>x. x \<notin> set gone) (aliases p)\<rparr>
        }
      })"

text \<open>
  The ranges whose data cache is flushed and whose instruction cache is invalidated, by \<open>Flush\<close> and
  by the destructor.
\<close>

definition RwPages_Flush :: "Claim \<Rightarrow> (nat \<times> nat) \<times> (nat \<times> nat)" where
  "RwPages_Flush c = ((GetAlignedRw c, GetAlignedSize c), (GetAlignedRw c, GetAlignedSize c))"

definition RwPages_close_flush :: "Claim \<Rightarrow> (nat \<times> nat) \<times> (nat \<times> nat)" where
  "RwPages_close_flush c = ((m_Rw c, m_Size c), (m_Ro c, m_Size c))"

text \<open>Pages and their owner flag; moving gives the new pages and what is left of the old ones.\<close>

record RwPages =
  m_Claim :: Claim
  m_Owner :: bool

definition RwPages_move :: "RwPages \<Rightarrow> RwPages \<times> RwPages" where
  "RwPages_move other = (\<lparr>m_Claim = m_Claim other, m_Owner = m_Owner other\<rparr>, \<lparr>m_Claim = no_claim, m_Owner = False\<rparr>)"

definition RwPages_assign :: "RwPages \<Rightarrow> RwPages \<Rightarrow> RwPages \<times> RwPages" where
  "RwPages_assign self other = (self\<lparr>m_Claim := m_Claim other\<rparr>, other\<lparr>m_Claim := no_claim, m_Owner := False\<rparr>)"

definition RwPages_drop :: "nat \<Rightarrow> (nat \<Rightarrow> MemoryInfo option) \<Rightarrow> RwPages \<Rightarrow> process \<Rightarrow> process option" where
  "RwPages_drop fuel query r p = RwPages_close fuel query (m_Owner r) (m_Claim r) p"

section \<open>Patchers\<close>

text \<open>\<open>InitPatcherImpl\<close>: the range from the start of the module to the end of its read-only data.\<close>

definition patcher_range :: "nat \<Rightarrow> nat \<Rightarrow> nat \<times> nat" where
  "patcher_range total_start rodata_end = (total_start, size_sub rodata_end total_start)"

text \<open>The alias of the main module the patchers share, and the memory behind it.\<close>

definition AddrFromRo :: "Claim \<Rightarrow> nat \<Rightarrow> nat" where "AddrFromRo c ro = size_sub ro (m_Ro c)"
definition AddrFromRw :: "Claim \<Rightarrow> nat \<Rightarrow> nat" where "AddrFromRw c rw = size_sub rw (m_Rw c)"
definition RoFromAddr :: "Claim \<Rightarrow> nat \<Rightarrow> nat" where "RoFromAddr c a = size_add (m_Ro c) a"
definition RwFromAddr :: "Claim \<Rightarrow> nat \<Rightarrow> nat" where "RwFromAddr c a = size_add (m_Rw c) a"

definition store_bytes :: "(nat \<Rightarrow> u8) \<Rightarrow> nat \<Rightarrow> bytes \<Rightarrow> nat \<Rightarrow> u8" where
  "store_bytes mem a bs x = (if size_sub x a < length bs then bs ! size_sub x a else mem x)"

text \<open>A stream patcher with the memory it writes and the ranges it has flushed (by offset).\<close>

record stream_patcher =
  sp_start :: nat
  sp_current :: nat
  sp_mem :: "nat \<Rightarrow> u8"
  sp_flushed :: "(nat \<times> nat) list"

definition sp_init :: "nat \<Rightarrow> (nat \<Rightarrow> u8) \<Rightarrow> stream_patcher" where
  "sp_init st mem = \<lparr>sp_start = st, sp_current = st, sp_mem = mem, sp_flushed = []\<rparr>"

definition sp_Flush :: "stream_patcher \<Rightarrow> stream_patcher" where
  "sp_Flush s =
     (if sp_start s = sp_current s then s
      else (let n = size_sub (sp_current s) (sp_start s) in
        s\<lparr>sp_flushed := sp_flushed s @ [(sp_start s, n)], sp_start := size_add (sp_start s) n\<rparr>))"

definition sp_Write :: "Claim \<Rightarrow> bytes \<Rightarrow> stream_patcher \<Rightarrow> stream_patcher" where
  "sp_Write c v s =
     s\<lparr>sp_mem := store_bytes (sp_mem s) (RwFromAddr c (sp_current s)) v, sp_current := size_add (sp_current s) (length v)\<rparr>"

definition RelativeAddressFromBase :: "stream_patcher \<Rightarrow> nat \<Rightarrow> nat" where
  "RelativeAddressFromBase s address = size_sub address (sp_current s)"

definition RelativeAddressFromPointer :: "Claim \<Rightarrow> stream_patcher \<Rightarrow> nat \<Rightarrow> nat" where
  "RelativeAddressFromPointer c s ptr = size_sub (AddrFromRo c ptr) (sp_current s)"

definition sp_SeekRel :: "nat \<Rightarrow> stream_patcher \<Rightarrow> stream_patcher" where
  "sp_SeekRel address s =
     (if address = 0 then s
      else (let address = size_add address (sp_current s) in (sp_Flush s)\<lparr>sp_start := address, sp_current := address\<rparr>))"

definition sp_Seek :: "nat \<Rightarrow> stream_patcher \<Rightarrow> stream_patcher" where
  "sp_Seek address s = sp_SeekRel (RelativeAddressFromBase s address) s"

definition sp_SeekPtr :: "Claim \<Rightarrow> nat \<Rightarrow> stream_patcher \<Rightarrow> stream_patcher" where
  "sp_SeekPtr c ptr s = sp_SeekRel (RelativeAddressFromPointer c s ptr) s"

text \<open>\<open>CodePatcher\<close>.\<close>

definition WriteInst :: "Claim \<Rightarrow> u32 \<Rightarrow> stream_patcher \<Rightarrow> stream_patcher" where
  "WriteInst c w = sp_Write c (le_bytes 4 (unat w))"

definition BranchInstRel :: "Claim \<Rightarrow> nat \<Rightarrow> stream_patcher \<Rightarrow> stream_patcher" where
  "BranchInstRel c a = WriteInst c (Branch (word_of_nat a))"

definition BranchLinkInstRel :: "Claim \<Rightarrow> nat \<Rightarrow> stream_patcher \<Rightarrow> stream_patcher" where
  "BranchLinkInstRel c a = WriteInst c (BranchLink (word_of_nat a))"

definition BranchInst :: "Claim \<Rightarrow> nat \<Rightarrow> stream_patcher \<Rightarrow> stream_patcher" where
  "BranchInst c a s = BranchInstRel c (RelativeAddressFromBase s a) s"

definition BranchLinkInst :: "Claim \<Rightarrow> nat \<Rightarrow> stream_patcher \<Rightarrow> stream_patcher" where
  "BranchLinkInst c a s = BranchLinkInstRel c (RelativeAddressFromBase s a) s"

definition BranchInst_ptr :: "Claim \<Rightarrow> nat \<Rightarrow> stream_patcher \<Rightarrow> stream_patcher" where
  "BranchInst_ptr c p s = BranchInstRel c (RelativeAddressFromPointer c s p) s"

definition BranchLinkInst_ptr :: "Claim \<Rightarrow> nat \<Rightarrow> stream_patcher \<Rightarrow> stream_patcher" where
  "BranchLinkInst_ptr c p s = BranchLinkInstRel c (RelativeAddressFromPointer c s p) s"

text \<open>\<open>RandomAccessPatcher\<close>: the bounds of what was written.\<close>

record ra_patcher =
  ra_lowest :: nat
  ra_highest :: nat
  ra_mem :: "nat \<Rightarrow> u8"

definition ra_init :: "(nat \<Rightarrow> u8) \<Rightarrow> ra_patcher" where
  "ra_init mem = \<lparr>ra_lowest = SIZE_MAX, ra_highest = SIZE_MAX, ra_mem = mem\<rparr>"

definition IsUnset :: "ra_patcher \<Rightarrow> bool" where
  "IsUnset p \<longleftrightarrow> ra_lowest p = SIZE_MAX \<or> ra_highest p = SIZE_MAX"

definition SetLowest :: "nat \<Rightarrow> ra_patcher \<Rightarrow> ra_patcher" where
  "SetLowest a p = p\<lparr>ra_lowest := (if IsUnset p then a else min (ra_lowest p) a)\<rparr>"

definition SetHighest :: "nat \<Rightarrow> ra_patcher \<Rightarrow> ra_patcher" where
  "SetHighest a p = p\<lparr>ra_highest := (if IsUnset p then a else max (ra_highest p) a)\<rparr>"

definition ra_Write :: "Claim \<Rightarrow> nat \<Rightarrow> bytes \<Rightarrow> ra_patcher \<Rightarrow> ra_patcher" where
  "ra_Write c a v p =
     (let p = SetHighest (size_add a (length v)) (SetLowest a p) in p\<lparr>ra_mem := store_bytes (ra_mem p) (RwFromAddr c a) v\<rparr>)"

definition ra_Flush :: "ra_patcher \<Rightarrow> (nat \<times> nat) option" where
  "ra_Flush p = (if IsUnset p then None else Some (ra_lowest p, size_sub (ra_highest p) (ra_lowest p)))"

section \<open>Inline hooks\<close>

definition InlinePoolCount :: nat where "InlinePoolCount = 0x1000 div 24"

text \<open>An entry of the inline pool: four instructions and the callback.\<close>

record inline_entry =
  m_CbEntry :: "u32 list"
  m_Callback :: u64

definition lrBackupOffset :: u16 where "lrBackupOffset = - 0x10"

definition entry_address :: "u64 \<Rightarrow> nat \<Rightarrow> u64" where
  "entry_address pool_rx index = pool_rx + word_of_nat (24 * index)"

definition make_entry :: "u64 \<Rightarrow> u64 \<Rightarrow> u64 \<Rightarrow> u64 \<Rightarrow> inline_entry" where
  "make_entry entryCb impl trampoline callback =
     \<lparr>m_CbEntry = [SturUnscaledImmediate LR SP lrBackupOffset, BranchLink (ucast (impl - (entryCb + 4))),
        LdurUnscaledImmediate LR SP lrBackupOffset, Branch (ucast (trampoline - (entryCb + 12)))],
      m_Callback = callback\<rparr>"

text \<open>
  \<open>Hook\<close>: the words at the hooked function and the trampoline, its address, and the new index of
  the trampoline pool at \<open>jit_rx\<close> (written at \<open>jit_rw\<close>).
\<close>

definition Hook ::
  "u64 \<Rightarrow> u64 \<Rightarrow> int \<Rightarrow> u64 \<Rightarrow> u64 \<Rightarrow> bool \<Rightarrow> u32 list \<Rightarrow> (u64 \<Rightarrow> u8) \<Rightarrow> (u64 \<times> u32 list \<times> u32 list \<times> int) option" where
  "Hook jit_rx jit_rw index hook callback do_trampoline orig mem =
     (if hook = 0 \<or> callback = 0 then None
      else if do_trampoline then
       (case AllocForTrampoline index of
          (None, _) \<Rightarrow> None
        | (Some i, index') \<Rightarrow>
           (let rx = jit_rx + word_of_nat (slot_offset i); rw = jit_rw + word_of_nat (slot_offset i) in do {
              (ws, tr) \<leftarrow> HookFuncImpl hook callback orig (Some (rx, rw)) mem;
              Some (rx, ws, tr, index')
            }))
      else do { (ws, tr) \<leftarrow> HookFuncImpl hook callback orig None mem; Some (0, ws, tr, index) })"

definition HookInline ::
  "u64 \<Rightarrow> u64 \<Rightarrow> int \<Rightarrow> u64 \<Rightarrow> nat \<Rightarrow> u64 \<Rightarrow> u64 \<Rightarrow> u64 \<Rightarrow> u32 list \<Rightarrow> (u64 \<Rightarrow> u8) \<Rightarrow>
     (inline_entry \<times> u32 list \<times> u32 list \<times> int \<times> nat) option" where
  "HookInline jit_rx jit_rw index pool_rx entry_index hook callback impl orig mem =
     (if entry_index \<ge> InlinePoolCount then None
      else do {
        let entryCb = entry_address pool_rx entry_index;
        (trampoline, ws, tr, index') \<leftarrow> Hook jit_rx jit_rw index hook entryCb True orig mem;
        Some (make_entry entryCb impl trampoline callback, ws, tr, index', entry_index + 1)
      })"

section \<open>What is mapped\<close>

text \<open>Pieces that follow one another from one address to another.\<close>

fun tiles :: "nat \<Rightarrow> nat \<Rightarrow> nat \<Rightarrow> (nat \<times> nat \<times> nat) list \<Rightarrow> bool" where
  "tiles base a e [] \<longleftrightarrow> a = e"
| "tiles base a e ((p, n, off) # ps) \<longleftrightarrow> p = a \<and> base + off = a \<and> 0 < n \<and> tiles base (a + n) e ps"

definition in_one_block :: "(nat \<Rightarrow> MemoryInfo option) \<Rightarrow> nat \<times> nat \<times> nat \<Rightarrow> bool" where
  "in_one_block query p = (case p of (a, n, off) \<Rightarrow> \<exists>mi. \<forall>b. a \<le> b \<and> b < a + n \<longrightarrow> query b = Some mi)"

lemma mem_ranges_tile:
  assumes "answers_blocks query" and "base \<le> a" and "a < e" and "e < 2 ^ 64" and "e - a < fuel"
    and "a = base \<or> (\<exists>mi. query a = Some mi \<and> mi_addr mi = a)"
    and below: "\<And>b mi. base \<le> b \<Longrightarrow> b < e \<Longrightarrow> query b = Some mi \<Longrightarrow> mi_addr mi + mi_size mi < 2 ^ 64"
  shows "\<exists>ps. mem_ranges fuel query a base e = Some ps \<and> tiles base a e ps \<and> (\<forall>p \<in> set ps. in_one_block query p)"
  using assms(2-6)
proof (induction fuel arbitrary: a)
  case (Suc fuel)
  have a: "a < 2 ^ 64" using Suc.prems(2,3) by simp
  obtain mi where mi: "query a = Some mi" "mi_addr mi \<le> a" "a < mi_addr mi + mi_size mi" "mi_addr mi + mi_size mi \<le> 2 ^ 64"
    "\<forall>b. mi_addr mi \<le> b \<and> b < mi_addr mi + mi_size mi \<longrightarrow> query b = Some mi"
    using assms(1) a unfolding answers_blocks_def by blast
  have cur: "base + (max (mi_addr mi) base - base) = a" using Suc.prems(1,5) mi(1,2) by auto
  show ?case
  proof (cases "mi_addr mi + mi_size mi < e")
    case True
    let ?b = "mi_addr mi + mi_size mi"
    have se: "size_add (mi_addr mi) (mi_size mi) = ?b" using True Suc.prems(3) by (simp add: SIZE_MAX_def)
    have "\<exists>mi'. query ?b = Some mi' \<and> mi_addr mi' = ?b"
    proof -
      have b64: "?b < 2 ^ 64" using True Suc.prems(3) by simp
      obtain mi' where mi': "query ?b = Some mi'" "mi_addr mi' \<le> ?b" "?b < mi_addr mi' + mi_size mi'"
        "\<forall>b. mi_addr mi' \<le> b \<and> b < mi_addr mi' + mi_size mi' \<longrightarrow> query b = Some mi'"
        using assms(1) b64 unfolding answers_blocks_def by blast
      have "mi_addr mi' = ?b"
      proof (rule ccontr)
        assume ne: "mi_addr mi' \<noteq> ?b"
        then have "mi_addr mi' \<le> ?b - 1" "?b - 1 < mi_addr mi' + mi_size mi'" using mi'(2,3) by simp_all
        then have "query (?b - 1) = Some mi'" using mi'(4) by simp
        moreover have "mi_addr mi \<le> ?b - 1" "?b - 1 < ?b" using mi(2,3) by simp_all
        then have "query (?b - 1) = Some mi" using mi(5) by simp
        ultimately show False using mi'(3) by simp
      qed
      with mi' show ?thesis by blast
    qed
    moreover have "e - ?b < fuel" using Suc.prems(2,4) mi(3) True by linarith
    ultimately obtain ps where ps: "mem_ranges fuel query ?b base e = Some ps" "tiles base ?b e ps" "\<forall>p \<in> set ps. in_one_block query p"
      using Suc.IH [of ?b] Suc.prems(1,3) mi(3) True by auto
    have "size_sub (min e ?b) a = ?b - a" using True mi(3) Suc.prems(3) by (simp add: SIZE_MAX_def)
    then have run: "mem_ranges (Suc fuel) query a base e = Some ((a, ?b - a, max (mi_addr mi) base - base) # ps)"
      using True ps(1) mi(1) by (simp add: se cur Let_def)
    have "in_one_block query (a, ?b - a, max (mi_addr mi) base - base)"
      unfolding in_one_block_def prod.case using mi(2,3,5) by (intro exI [of _ mi]) simp
    then show ?thesis using run ps mi(3) cur by simp
  next
    case False
    have top: "mi_addr mi + mi_size mi < 2 ^ 64" using below [OF Suc.prems(1,2) mi(1)] .
    then have se: "size_add (mi_addr mi) (mi_size mi) = mi_addr mi + mi_size mi" by (simp add: SIZE_MAX_def)
    have "size_sub (min e (mi_addr mi + mi_size mi)) a = e - a"
      using False Suc.prems(2,3) by (simp add: SIZE_MAX_def min_def)
    then have "mem_ranges (Suc fuel) query a base e = Some [(a, e - a, max (mi_addr mi) base - base)]"
      using False mi(1) by (simp add: cur Let_def se)
      moreover have "in_one_block query (a, e - a, max (mi_addr mi) base - base)"
        unfolding in_one_block_def prod.case using mi(2,5) False by (intro exI [of _ mi]) auto
      ultimately show ?thesis using Suc.prems(2) cur by simp
  qed
qed simp

lemma tiles_cover: "tiles base a e ps \<Longrightarrow> a \<le> e \<and> ((\<exists>(p, n, off) \<in> set ps. p \<le> x \<and> x < p + n) \<longleftrightarrow> a \<le> x \<and> x < e)"
proof (induction ps arbitrary: a)
  case (Cons q ps)
  obtain p n off where q: "q = (p, n, off)" by (cases q)
  with Cons.prems have t: "p = a" "0 < n" "tiles base (a + n) e ps" by simp_all
  from Cons.IH [OF t(3)] q t(1,2) show ?case by auto
qed auto

lemma tiles_offset: "tiles base a e ps \<Longrightarrow> (p, n, off) \<in> set ps \<Longrightarrow> base + off = p \<and> p + n \<le> e"
proof (induction ps arbitrary: a)
  case (Cons q ps)
  obtain p' n' off' where q: "q = (p', n', off')" by (cases q)
  with Cons.prems have t: "p' = a" "base + off' = a" "tiles base (a + n') e ps" by simp_all
  from tiles_cover [OF t(3)] have "a + n' \<le> e" by blast
  with Cons.IH [OF t(3)] Cons.prems(2) q t show ?case by auto
qed simp

text \<open>
  What the answers of the kernel are taken to be around a range of original pages: every query
  succeeds, and no block under the range reaches the end of the address space.
\<close>

definition blocks_below_top :: "(nat \<Rightarrow> MemoryInfo option) \<Rightarrow> nat \<Rightarrow> nat \<Rightarrow> bool" where
  "blocks_below_top query a e \<longleftrightarrow> answers_blocks query \<and>
     (\<forall>b mi. a \<le> b \<longrightarrow> b < e \<longrightarrow> query b = Some mi \<longrightarrow> mi_addr mi + mi_size mi < 2 ^ 64)"

text \<open>
  C39. Opening a writable view maps its pages piece by piece, each piece inside one block, so that
  byte \<open>k\<close> of the original is byte \<open>k\<close> of the view: exactly for the bytes before the end of the
  last page mapped. The number of pages is computed from the size alone, so when the range starts
  inside a page and crosses one page more, its last bytes have no view.
\<close>

theorem rw_view_exact:
  assumes "RwPages_open fuel query alignedRw fresh same ro sz p = Some (claim, p')"
    and "blocks_below_top query (GetAlignedRo claim) (GetAlignedRo claim + GetAlignedSize claim)"
    and "0 < GetAlignedSize claim" and "GetAlignedRo claim + GetAlignedSize claim < 2 ^ 64" and "alignedRw + GetAlignedSize claim < 2 ^ 64"
    and "GetAlignedSize claim < fuel" and "ro + sz < 2 ^ 64"
  shows "\<exists>new. aliases p' = aliases p @ new \<and>
    (\<forall>k < sz. (\<exists>(w, a, n) \<in> set new. a \<le> ro + k \<and> ro + k < a + n \<and> m_Rw claim + k = w + (ro + k - a)) \<longleftrightarrow>
       ro mod 0x1000 + k < GetAlignedSize claim)"
proof -
  define A where "A = ro - ro mod 0x1000"
  define S where "S = page_align sz"
  obtain ps where ps: "ForEachMemRange fuel query A S = Some ps"
    and al: "aliases p' = aliases p @ map (\<lambda>(a, n, off). (size_add alignedRw off, a, n)) ps"
    and cl: "m_Ro claim = ro" "m_Size claim = sz" "m_Rw claim = size_add alignedRw (ro - A)"
    using assms(1)
    by (auto simp: RwPages_open_def Let_def no_claim_def GetAlignedRo_def GetAlignedSize_def ALIGN_DOWN_def A_def S_def Option.bind_eq_Some_conv split: if_splits)
  have AS: "GetAlignedRo claim = A" "GetAlignedSize claim = S" by (simp_all add: GetAlignedRo_def GetAlignedSize_def ALIGN_DOWN_def A_def S_def cl)
  note h = assms(2-6) [unfolded AS]
  have e: "size_add A S = A + S" using h(3) by (simp add: SIZE_MAX_def)
  have "\<exists>ps. mem_ranges fuel query A A (A + S) = Some ps \<and> tiles A A (A + S) ps \<and> (\<forall>p \<in> set ps. in_one_block query p)"
    using h by (intro mem_ranges_tile) (auto simp: blocks_below_top_def)
  then have t: "tiles A A (A + S) ps" using ps e by (auto simp: ForEachMemRange_def)
  have w: "size_add alignedRw off = alignedRw + off \<and> A + off = a \<and> a + n \<le> A + S" if "(a, n, off) \<in> set ps" for a n off
  proof -
    have "A + off = a" "a + n \<le> A + S" using tiles_offset [OF t that] by simp_all
    moreover from this have "alignedRw + off \<le> SIZE_MAX" using h(4) by (simp add: SIZE_MAX_def)
    ultimately show ?thesis by simp
  qed
  have ro: "ro = A + ro mod 0x1000" by (simp add: A_def)
  have "(\<exists>(w, a, n) \<in> set (map (\<lambda>(a, n, off). (size_add alignedRw off, a, n)) ps). a \<le> ro + k \<and> ro + k < a + n \<and> m_Rw claim + k = w + (ro + k - a)) \<longleftrightarrow>
      ro mod 0x1000 + k < S" if "k < sz" for k
  proof -
    have cover: "(\<exists>(a, n, off) \<in> set ps. a \<le> ro + k \<and> ro + k < a + n) \<longleftrightarrow> ro mod 0x1000 + k < S"
      using tiles_cover [OF t, of "ro + k"] ro by (smt (verit) add.assoc le_add1 nat_add_left_cancel_less)
    have "m_Rw claim + k = size_add alignedRw off + (ro + k - a)" if m: "(a, n, off) \<in> set ps" "a \<le> ro + k" "ro + k < a + n" for a n off
    proof -
      have "ro mod 0x1000 < S" using w [OF m(1)] m(3) ro by linarith
      then have "alignedRw + ro mod 0x1000 \<le> SIZE_MAX" using h(4) by (simp add: SIZE_MAX_def)
      moreover have "ro - A = ro mod 0x1000" by (simp add: A_def)
      ultimately have "m_Rw claim = alignedRw + ro mod 0x1000" using cl(3) by simp
      then show ?thesis using w [OF m(1)] m(2) ro by linarith
    qed
    note view = this
    let ?view = "map (\<lambda>(a, n, off). (size_add alignedRw off, a, n)) ps"
    show ?thesis
    proof
      assume "\<exists>(w, a, n) \<in> set ?view. a \<le> ro + k \<and> ro + k < a + n \<and> m_Rw claim + k = w + (ro + k - a)"
      then obtain a n off where "(a, n, off) \<in> set ps" "a \<le> ro + k" "ro + k < a + n" by auto
      then show "ro mod 0x1000 + k < S" unfolding cover [symmetric] by blast
    next
      assume "ro mod 0x1000 + k < S"
      then obtain a n off where m: "(a, n, off) \<in> set ps" "a \<le> ro + k" "ro + k < a + n" unfolding cover [symmetric] by blast
      then have "(size_add alignedRw off, a, n) \<in> set ?view" by force
      with m view [OF m] show "\<exists>(w, a, n) \<in> set ?view. a \<le> ro + k \<and> ro + k < a + n \<and> m_Rw claim + k = w + (ro + k - a)"
        by blast
    qed
  qed
  with al show ?thesis unfolding AS by blast
qed

text \<open>A kernel with two blocks, for the witness.\<close>

definition two_blocks :: "nat \<Rightarrow> MemoryInfo option" where
  "two_blocks a =
     (if a < 0x10000
      then Some \<lparr>mi_addr = 0, mi_size = 0x10000, mi_type = 3, mi_attr = 0, mi_perm = 5, mi_device_refcount = 0, mi_ipc_refcount = 0\<rparr>
      else if a < 2 ^ 64
      then Some \<lparr>mi_addr = 0x10000, mi_size = 2 ^ 64 - 0x10000, mi_type = 0, mi_attr = 0, mi_perm = 0, mi_device_refcount = 0, mi_ipc_refcount = 0\<rparr>
      else None)"

lemma two_blocks_ok: "e \<le> 0x10000 \<Longrightarrow> blocks_below_top two_blocks a e"
  by (auto simp: blocks_below_top_def answers_blocks_def two_blocks_def split: if_splits)

definition no_reservations :: process where
  "no_reservations = \<lparr>vmem = \<lparr>g_AliasRegion = \<lparr>r_start = 0, r_end = 0\<rparr>, g_HeapRegion = \<lparr>r_start = 0, r_end = 0\<rparr>,
     g_AslrRegion = \<lparr>r_start = 0, r_end = 0\<rparr>, g_StackRegion = \<lparr>r_start = 0, r_end = 0\<rparr>, g_Reservations = 0,
     g_IsLegacyKernel = False, nodes = Map.empty\<rparr>, aliases = []\<rparr>"

lemma ranges_example: "mem_ranges 0x1001 two_blocks 0x1000 0x1000 0x2000 = Some [(0x1000, 0x1000, 0)]"
proof -
  have "mem_ranges (Suc 0x1000) two_blocks 0x1000 0x1000 0x2000 = Some [(0x1000, 0x1000, 0)]"
    by (simp add: two_blocks_def SIZE_MAX_def del: Suc_numeral)
  then show ?thesis by simp
qed

lemma open_example:
  "\<exists>p'. RwPages_open (Suc 0x1000) two_blocks 0x500000 0x40 (\<lambda>_ _ _. True) 0x1ff8 20 no_reservations =
     Some (\<lparr>m_Ro = 0x1ff8, m_Rw = 0x500ff8, m_Size = 20, m_RwReserve = 0x40\<rparr>, p') \<and> aliases p' = [(0x500000, 0x1000, 0x1000)]"
  by (simp add: RwPages_open_def virtmemAddReservation_def ForEachMemRange_def two_blocks_def no_reservations_def no_claim_def
    GetAlignedRo_def GetAlignedSize_def ALIGN_DOWN_def page_align_def SIZE_MAX_def Let_def ranges_example)

text \<open>Twenty bytes that begin eight bytes before the end of a page: the ninth has no view.\<close>

theorem rw_view_exact_witness:
  "\<exists>p'. RwPages_open (Suc 0x1000) two_blocks 0x500000 0x40 (\<lambda>_ _ _. True) 0x1ff8 20 no_reservations =
      Some (\<lparr>m_Ro = 0x1ff8, m_Rw = 0x500ff8, m_Size = 20, m_RwReserve = 0x40\<rparr>, p') \<and>
    (\<exists>(w, a, n) \<in> set (aliases p'). a \<le> 0x1fff \<and> 0x1fff < a + n \<and> 0x500fff = w + (0x1fff - a)) \<and>
    \<not> (\<exists>(w, a, n) \<in> set (aliases p'). a \<le> 0x2000 \<and> 0x2000 < a + n \<and> 0x501000 = w + (0x2000 - a))"
proof -
  let ?c = "\<lparr>m_Ro = 0x1ff8, m_Rw = 0x500ff8, m_Size = 20, m_RwReserve = 0x40\<rparr>"
  obtain p' where p: "RwPages_open (Suc 0x1000) two_blocks 0x500000 0x40 (\<lambda>_ _ _. True) 0x1ff8 20 no_reservations = Some (?c, p')"
    using open_example by blast
  have al: "GetAlignedRo ?c = 0x1000" "GetAlignedSize ?c = 0x1000"
    by (simp_all add: GetAlignedRo_def GetAlignedSize_def ALIGN_DOWN_def page_align_def size_add_def SIZE_MAX_def)
  have nil: "aliases no_reservations = []" by (simp add: no_reservations_def)
  have "\<exists>new. aliases p' = aliases no_reservations @ new \<and>
    (\<forall>k < 20. (\<exists>(w, a, n) \<in> set new. a \<le> 0x1ff8 + k \<and> 0x1ff8 + k < a + n \<and> m_Rw ?c + k = w + (0x1ff8 + k - a)) \<longleftrightarrow>
       0x1ff8 mod 0x1000 + k < GetAlignedSize ?c)"
    by (rule rw_view_exact [OF p]) (simp_all add: al two_blocks_ok)
  then have *: "\<And>k. k < 20 \<Longrightarrow> (\<exists>(w, a, n) \<in> set (aliases p'). a \<le> 0x1ff8 + k \<and> 0x1ff8 + k < a + n \<and> 0x500ff8 + k = w + (0x1ff8 + k - a)) \<longleftrightarrow>
       0xff8 + k < 0x1000" unfolding al nil by simp
  show ?thesis using p * [of 7] * [of 8] by auto
qed

section \<open>Mistakes of the claim\<close>

text \<open>
  The translation between the views is mirrored: it takes an address above the base as far below the
  other base, and the bounds tests accept addresses up to the base only.
\<close>

lemma RoToRw_mirrored:
  assumes "d \<le> m_Ro c" and "m_Rw c + d < 2 ^ 64" and "m_Ro c < 2 ^ 64"
  shows "RoToRw c (m_Ro c - d) = m_Rw c + d"
  using assms by (simp add: RoToRw_def RoToOffset_def SIZE_MAX_def)

lemma InRo_below:
  assumes "m_Ro c < 2 ^ 63" and "x < 2 ^ 63"
  shows "InRo c x \<longleftrightarrow> x \<le> m_Ro c \<and> m_Ro c < x + m_Size c"
proof (cases "x \<le> m_Ro c")
  case True
  then show ?thesis using assms by (simp add: InRo_def RoToOffset_def in_claim_def SIZE_MAX_def) linarith
next
  case False
  then have "2 ^ 63 \<le> size_sub (m_Ro c) x" using assms by (simp add: size_sub_def SIZE_MAX_def)
  then show ?thesis using False by (simp add: InRo_def RoToOffset_def in_claim_def)
qed

text \<open>
  A move keeps the owner, an assignment to pages that were moved from does not: nobody unmaps the
  view any more.
\<close>

lemma moved_pages_unmap:
  "RwPages_drop fuel query (fst (RwPages_move r)) p = RwPages_drop fuel query r p \<and>
   RwPages_drop fuel query (snd (RwPages_move r)) p = Some p"
  by (simp add: RwPages_drop_def RwPages_move_def RwPages_close_def)

lemma assigned_pages_leak:
  "(let (b, a) = RwPages_assign (snd (RwPages_move x)) r in
     RwPages_drop fuel query b p = Some p \<and> RwPages_drop fuel query a p = Some p)"
  by (simp add: RwPages_drop_def RwPages_assign_def RwPages_move_def RwPages_close_def)

section \<open>Inline hook entries\<close>

lemma sint_low_word:
  assumes "- (2 ^ 31) \<le> sint x" and "sint x < 2 ^ 31"
  shows "sint (ucast (x :: u64) :: u32) = sint x"
proof -
  have "(ucast x :: u32) = word_of_int (sint x)"
    by transfer (simp add: take_bit_signed_take_bit)
  moreover have "sint (word_of_int (sint x) :: u32) = signed_take_bit 31 (sint x)" by transfer (simp add: signed_take_bit_take_bit)
  ultimately show ?thesis using assms by (simp add: signed_take_bit_int_eq_self)
qed

text \<open>
  The entry point of an inline hook saves the link register below the stack pointer, calls the
  implementation, restores the link register and continues in the trampoline: the branches reach
  their targets whenever these are within reach of the pool.
\<close>

theorem inline_entry_reaches:
  fixes entryCb impl trampoline callback :: u64
  assumes "sint (impl - (entryCb + 4)) mod 4 = 0" and "\<bar>sint (impl - (entryCb + 4))\<bar> < 2 ^ 27"
    and "sint (trampoline - (entryCb + 12)) mod 4 = 0" and "\<bar>sint (trampoline - (entryCb + 12))\<bar> < 2 ^ 27"
  shows "\<exists>call jump. make_entry entryCb impl trampoline callback = \<lparr>m_CbEntry = [0xf81f03fe, call, 0xf85f03fe, jump], m_Callback = callback\<rparr> \<and>
    is_bl call \<and> entryCb + 4 + word_of_int (imm26 call) = impl \<and>
    is_b jump \<and> entryCb + 12 + word_of_int (imm26 jump) = trampoline"
proof -
  have s: "SturUnscaledImmediate LR SP lrBackupOffset = 0xf81f03fe" "LdurUnscaledImmediate LR SP lrBackupOffset = 0xf85f03fe"
    by (simp_all add: lrBackupOffset_def encoder_defs)
  have i: "sint (ucast (impl - (entryCb + 4)) :: u32) = sint (impl - (entryCb + 4))"
    and t: "sint (ucast (trampoline - (entryCb + 12)) :: u32) = sint (trampoline - (entryCb + 12))"
    using assms(2,4) by (simp_all add: sint_low_word)
  note b = branch_displacement [of "ucast (impl - (entryCb + 4))", unfolded i] branch_displacement [of "ucast (trampoline - (entryCb + 12))", unfolded t]
  show ?thesis
    unfolding make_entry_def s
    by (intro exI conjI, rule refl) (use b assms in simp_all)
qed

text \<open>An entry at \<open>0x8000\<close>, its implementation below and its trampoline above it.\<close>

theorem inline_entry_reaches_witness:
  "\<exists>call jump. make_entry 0x8000 0x4000 0x10000 0x1234 = \<lparr>m_CbEntry = [0xf81f03fe, call, 0xf85f03fe, jump], m_Callback = 0x1234\<rparr> \<and>
    is_bl call \<and> 0x8000 + 4 + word_of_int (imm26 call) = (0x4000 :: u64) \<and>
    is_b jump \<and> 0x8000 + 12 + word_of_int (imm26 jump) = (0x10000 :: u64)"
  by (rule inline_entry_reaches) (simp_all)

end
