(* ===== verification/Game.thy ===== *)
theory Game
  imports Rpc Pages MemLayout StupidHash
begin

text \<open>
  The program proper (\<open>program/main.cpp\<close>): what its hooks on the game do. Objects of the game are
  read at fixed offsets from an address (the \<open>PROP\<close> macros of \<open>stuff.hpp\<close>); the collision events they
  show are written to the hose, with the help of three hash tables. The original function of a hook
  (\<open>Orig\<close>) is an argument: it may change the game's memory and run other hooks. Flags change
  between callbacks. \<open>None\<close> is a panic or a failed assertion.
\<close>

section \<open>Objects of the game\<close>

definition rd :: "nat \<Rightarrow> (nat \<Rightarrow> u8) \<Rightarrow> nat \<Rightarrow> nat" where "rd n mem a = le_value (read_mem mem a n)"

definition pointer_bytes :: "nat \<Rightarrow> bytes" where "pointer_bytes p = le_bytes 8 p"

text \<open>\<open>mm_pointer_to_member_function\<close>: the low bit of the second word tells a virtual function.\<close>

definition resolve_member :: "(nat \<Rightarrow> u8) \<Rightarrow> nat \<Rightarrow> nat \<Rightarrow> nat" where
  "resolve_member mem p object =
     (let w0 = rd 8 mem p; w1 = rd 8 mem (size_add p 8) in
      if w1 mod 2 = 1
      then rd 8 mem (size_add (rd 8 mem (unat (word_of_nat object + word_of_int (sint (word_of_nat w1 :: u64) div 2) :: u64))) w0)
      else w0)"

definition mm_SafeString_str :: "(nat \<Rightarrow> u8) \<Rightarrow> nat \<Rightarrow> nat" where "mm_SafeString_str mem p = rd 8 mem (size_add p 0x8)"

definition delegate_owner :: "(nat \<Rightarrow> u8) \<Rightarrow> nat \<Rightarrow> nat" where "delegate_owner mem d = rd 8 mem (size_add d 0x8)"

definition callback_n :: "nat \<Rightarrow> nat \<Rightarrow> nat option" where
  "callback_n d n =
     (if n = 0 then Some (size_add d 0x10) else if n = 1 then Some (size_add d 0x20)
      else if n = 2 then Some (size_add d 0x30) else None)"

definition StateMachine_state :: "(nat \<Rightarrow> u8) \<Rightarrow> nat \<Rightarrow> nat" where "StateMachine_state mem sm = rd 4 mem (size_add sm 0x8)"

text \<open>A count and a pointer: the count, and the address of an element of the given size.\<close>

definition count_ptr_count :: "(nat \<Rightarrow> u8) \<Rightarrow> nat \<Rightarrow> nat" where "count_ptr_count mem a = rd 4 mem a"
definition count_ptr_ptr :: "(nat \<Rightarrow> u8) \<Rightarrow> nat \<Rightarrow> nat" where "count_ptr_ptr mem a = rd 8 mem (size_add a 8)"

definition pt_at :: "nat \<Rightarrow> nat \<Rightarrow> nat \<Rightarrow> nat" where "pt_at raw i sz = size_add raw (i * sz)"

text \<open>The address of the name, or \<open>None\<close> for the literal ?.\<close>

definition get_state_name :: "(nat \<Rightarrow> u8) \<Rightarrow> nat \<Rightarrow> nat \<Rightarrow> nat option" where
  "get_state_name mem sm st =
     (if st < count_ptr_count mem (size_add sm 0x38)
      then Some (mm_SafeString_str mem (pt_at (count_ptr_ptr mem (size_add sm 0x38)) st 0x10))
      else None)"

definition get_state_callback :: "nat \<Rightarrow> (nat \<Rightarrow> u8) \<Rightarrow> nat \<Rightarrow> nat \<Rightarrow> nat \<Rightarrow> nat option" where
  "get_state_callback target_start mem sm st which =
     (if \<not> st < count_ptr_count mem (size_add sm 0x28) then None
      else do {
        let delegate = pt_at (count_ptr_ptr mem (size_add sm 0x28)) st 0x40;
        cb \<leftarrow> callback_n delegate which;
        let func = resolve_member mem cb (delegate_owner mem delegate);
        Some (if func \<noteq> 0 then size_sub func target_start else func)
      })"

fun return_address_from_frame :: "(nat \<Rightarrow> u8) \<Rightarrow> nat \<Rightarrow> nat \<Rightarrow> nat" where
  "return_address_from_frame mem frame0 0 = (if frame0 = 0 then 0 else rd 8 mem (size_add frame0 8))"
| "return_address_from_frame mem frame0 (Suc n) =
     (if frame0 = 0 then 0 else return_address_from_frame mem (rd 8 mem frame0) n)"

text \<open>
  Intrusive lists: a node holds the previous and the next node, the list its head node, a count and
  the offset of the node in an element. The range-based \<open>for\<close> gives the elements' addresses; the
  fuel is the number of nodes, of which a game list has finitely many.
\<close>

fun list_nodes :: "nat \<Rightarrow> (nat \<Rightarrow> u8) \<Rightarrow> nat \<Rightarrow> nat \<Rightarrow> nat list option" where
  "list_nodes 0 mem cur_node end_node = None"
| "list_nodes (Suc fuel) mem cur_node end_node =
     (if cur_node = end_node then Some []
      else map_option ((#) cur_node) (list_nodes fuel mem (rd 8 mem (size_add cur_node 8)) end_node))"

definition get_offset_to_link :: "bool \<Rightarrow> (nat \<Rightarrow> u8) \<Rightarrow> nat \<Rightarrow> nat" where
  "get_offset_to_link use_offset_to_link mem l = (if use_offset_to_link then rd 4 mem (size_add l 0x14) else 0)"

definition mm_list_elements :: "nat \<Rightarrow> bool \<Rightarrow> (nat \<Rightarrow> u8) \<Rightarrow> nat \<Rightarrow> nat list option" where
  "mm_list_elements fuel use_offset_to_link mem l =
     map_option (map (\<lambda>n. size_sub n (get_offset_to_link use_offset_to_link mem l)))
       (list_nodes fuel mem (rd 8 mem (size_add l 8)) l)"

datatype collider_class = NormalCollider | ScolCollider | UnknownCollider

definition downcast :: "nat \<Rightarrow> nat \<Rightarrow> nat \<Rightarrow> (nat \<Rightarrow> u8) \<Rightarrow> nat \<Rightarrow> collider_class" where
  "downcast normal_collider_vt20 scol_vt20 scol_subclass_vt20 mem p =
     (let vt20 = rd 8 mem (size_add (rd 8 mem p) 0x20) in
      if vt20 = normal_collider_vt20 then NormalCollider
      else if vt20 = scol_vt20 \<or> vt20 = scol_subclass_vt20 then ScolCollider
      else UnknownCollider)"

section \<open>State\<close>

datatype stub = Stub_hitbox_collide | Stub_AreaSystem_do_many_collisions | Stub_Collider_add_to_collision_grid
  | Stub_Collider_remove_from_collision_grid_and_lists | Stub_scol_true_outmost
  | Stub_cctx_bg_collide_against_twopoint | Stub_cctx_bg_collide_against_point | Stub_huge_frame_func

text \<open>
  The environment: whether the hose takes the \<open>n\<close>th packet offered, of a given size (see \<open>Hose\<close>); the
  64-bit XXH3 hash, which is third-party code; the expected vtable of a hitbox; the value found
  in an uninitialised variable; the generated table of addresses, one for each version of the game;
  and whether a hook can be placed at an address (\<open>Hook\<close> models the placing). The state: the game's memory, the flags, the tables, the hooks
  installed, and the packets that were published, as chunks.
\<close>

record game_env =
  hose_takes :: "nat \<Rightarrow> nat \<Rightarrow> bool"
  XXH3_64bits :: "bytes \<Rightarrow> u64"
  hitbox_vtable :: nat
  uninitialised :: "nat \<Rightarrow> bool"
  list_fuel :: nat
  addrs :: "stub \<Rightarrow> nat list"
  missing_addr :: nat
  s_cur_mm_version :: nat
  s_target_start :: nat
  hook_succeeds :: "nat \<Rightarrow> bool"

record game =
  gmem :: "nat \<Rightarrow> u8"
  gflags :: u64
  s_colliders :: "unit stupid_hash"
  s_hashed_scols :: "u64 stupid_hash"
  s_hitboxes_this_frame :: "unit stupid_hash"
  installed :: bool
  installs :: "stub list"
  offered :: nat
  written :: "bytes list list"

definition game_init :: "(nat \<Rightarrow> u8) \<Rightarrow> game" where
  "game_init mem = \<lparr>gmem = mem, gflags = 0, s_colliders = empty_table () 12289 12289, s_hashed_scols = empty_table 0 3079 3079,
     s_hitboxes_this_frame = empty_table () 3079 3079, installed = False, installs = [], offered = 0, written = []\<rparr>"

definition test_rpc_flag :: "u64 \<Rightarrow> game \<Rightarrow> bool" where "test_rpc_flag flag g \<longleftrightarrow> gflags g AND flag = flag"

definition test_and_clear_rpc_flag :: "u64 \<Rightarrow> game \<Rightarrow> bool \<times> game" where
  "test_and_clear_rpc_flag flag g =
     (if gflags g AND flag = flag then (True, g\<lparr>gflags := gflags g AND NOT flag\<rparr>) else (False, g))"

definition tag8 :: "string \<Rightarrow> bytes" where "tag8 s = take 8 (ascii s @ replicate 8 0)"

text \<open>
  \<open>write_packet\<close> with a review callback, which sees the bytes and may change the state; the result
  tells whether it was called, and what it returned.
\<close>

definition write_packet_review ::
  "game_env \<Rightarrow> bytes list \<Rightarrow> (bytes \<Rightarrow> game \<Rightarrow> bool \<times> game) \<Rightarrow> game \<Rightarrow> bool option \<times> game" where
  "write_packet_review env chunks review g =
     (let n = offered g; g = g\<lparr>offered := n + 1\<rparr> in
      if \<not> hose_takes env n (calc_size chunks) then (None, g)
      else (case review (concat chunks) g of
          (True, g) \<Rightarrow> (Some True, g\<lparr>written := written g @ [chunks]\<rparr>)
        | (False, g) \<Rightarrow> (Some False, g)))"

definition write_packet :: "game_env \<Rightarrow> bytes list \<Rightarrow> game \<Rightarrow> game" where
  "write_packet env chunks g = snd (write_packet_review env chunks (\<lambda>_ g. (True, g)) g)"

section \<open>Hitboxes\<close>

definition mm_world_id :: "(nat \<Rightarrow> u8) \<Rightarrow> nat \<Rightarrow> bytes" where
  "mm_world_id mem actor =
     (if actor = 0 then [0xff]
      else (let world = rd 8 mem (size_add actor 0x48) in
        if world = 0 then [0xff] else take 1 (read_mem mem (size_add world 0x20) 4)))"

definition hitbox_packet :: "(nat \<Rightarrow> u8) \<Rightarrow> nat \<Rightarrow> bytes list" where
  "hitbox_packet mem hb = [tag8 ''hitbox'', pointer_bytes hb, read_mem mem hb 0x1c8, mm_world_id mem (rd 8 mem (size_add hb 0xa8))]"

definition report_hitbox :: "game_env \<Rightarrow> nat \<Rightarrow> game \<Rightarrow> game option" where
  "report_hitbox env hb g =
     (if rd 8 (gmem g) hb \<noteq> hitbox_vtable env then None
      else do {
        k \<leftarrow> UInt48 (word_of_nat hb);
        (t, e, seen) \<leftarrow> lookup (s_hitboxes_this_frame g) k True;
        let g = g\<lparr>s_hitboxes_this_frame := t\<rparr>;
        if seen then Some g
        else Some (write_packet env (hitbox_packet (gmem g) hb) g)
      })"

definition hitbox_collide :: "game_env \<Rightarrow> (game \<Rightarrow> (nat \<times> game) option) \<Rightarrow> nat \<Rightarrow> nat \<Rightarrow> game \<Rightarrow> (nat \<times> game) option" where
  "hitbox_collide env orig hb1 hb2 g = do {
     (ret, g) \<leftarrow> orig g;
     if test_rpc_flag RPC_FLAG_SEND_COLL_STUFF g then do {
       g \<leftarrow> report_hitbox env hb1 g;
       g \<leftarrow> report_hitbox env hb2 g;
       Some (ret, write_packet env [tag8 ''collisi'', pointer_bytes hb1, pointer_bytes hb2, le_bytes 8 ret] g)
     } else Some (ret, g)
   }"

fun report_hitboxes :: "game_env \<Rightarrow> nat list \<Rightarrow> game \<Rightarrow> game option" where
  "report_hitboxes env [] g = Some g"
| "report_hitboxes env (hb # hbs) g = do { g \<leftarrow> report_hitbox env hb g; report_hitboxes env hbs g }"

text \<open>The four split lists hold nodes that point to a hitbox; the staging list links the hitboxes themselves.\<close>

fun report_split_lists :: "game_env \<Rightarrow> nat list \<Rightarrow> game \<Rightarrow> game option" where
  "report_split_lists env [] g = Some g"
| "report_split_lists env (l # rest) g = do {
     ns \<leftarrow> mm_list_elements (list_fuel env) False (gmem g) l;
     g \<leftarrow> report_hitboxes env (map (\<lambda>n. rd 8 (gmem g) (size_add n 0x10)) ns) g;
     report_split_lists env rest g
   }"

definition report_all_hitboxes :: "game_env \<Rightarrow> nat \<Rightarrow> game \<Rightarrow> game option" where
  "report_all_hitboxes env as g = do {
     let mgr = rd 8 (gmem g) (size_add as 0x40);
     g \<leftarrow> report_split_lists env (map (\<lambda>i. size_add mgr (0x10 + i * 0x18)) [0..<4]) g;
     hbs \<leftarrow> mm_list_elements (list_fuel env) True (gmem g) (size_add mgr 0x70);
     report_hitboxes env hbs g
   }"

definition do_many_collisions :: "game_env \<Rightarrow> (game \<Rightarrow> game option) \<Rightarrow> nat \<Rightarrow> game \<Rightarrow> game option" where
  "do_many_collisions env orig as g = do {
     g \<leftarrow> (if test_rpc_flag RPC_FLAG_SEND_COLL_STUFF g
           then report_all_hitboxes env as
             (write_packet env [tag8 ''do_many'', pointer_bytes as, le_bytes 8 (rd 4 (gmem g) (size_add as 0x18))] g)
           else Some g);
     orig g
   }"

section \<open>Background collisions\<close>

definition bool_byte :: "bool \<Rightarrow> bytes" where "bool_byte b = [if b then 1 else 0]"

text \<open>The world of the collision context.\<close>

definition ctx_world_id :: "(nat \<Rightarrow> u8) \<Rightarrow> nat \<Rightarrow> bytes" where
  "ctx_world_id mem ctx = take 1 (read_mem mem (size_add (rd 8 mem (size_add ctx 0x90)) 0x18) 4)"

definition collide_against_twopoint ::
  "game_env \<Rightarrow> (game \<Rightarrow> (bool \<times> game) option) \<Rightarrow> nat \<Rightarrow> nat \<Rightarrow> nat \<Rightarrow> nat \<Rightarrow> u32 \<Rightarrow> bool \<Rightarrow> bool \<Rightarrow> game \<Rightarrow> (bool \<times> game) option" where
  "collide_against_twopoint env orig ctx cp xy1 xy2 shapemask enable1 enable2 g = do {
     (ret, g) \<leftarrow> orig g;
     if test_rpc_flag RPC_FLAG_SEND_BG_EVENTS g
     then Some (ret, write_packet env
       ([tag8 ''bgcol2p'', ctx_world_id (gmem g) ctx, read_mem (gmem g) xy1 8, read_mem (gmem g) xy2 8,
         le_bytes 4 (unat shapemask), bool_byte enable1, bool_byte enable2, bool_byte ret, bool_byte (cp \<noteq> 0)] @
        (if cp \<noteq> 0 then [read_mem (gmem g) cp 0x20] else [])) g)
     else Some (ret, g)
   }"

definition collide_against_point ::
  "game_env \<Rightarrow> (game \<Rightarrow> (bool \<times> game) option) \<Rightarrow> nat \<Rightarrow> nat \<Rightarrow> nat \<Rightarrow> bool \<Rightarrow> bool \<Rightarrow> game \<Rightarrow> (bool \<times> game) option" where
  "collide_against_point env orig ctx bic xy enable1 enable2 g = do {
     (ret, g) \<leftarrow> orig g;
     if test_rpc_flag RPC_FLAG_SEND_BG_EVENTS g
     then Some (ret, write_packet env
       [tag8 ''bgcol1p'', ctx_world_id (gmem g) ctx, read_mem (gmem g) xy 8, bool_byte enable1, bool_byte enable2,
        bool_byte ret, read_mem (gmem g) bic 0x10] g)
     else Some (ret, g)
   }"

section \<open>Colliders\<close>

text \<open>\<open>pos ?: s_dummy_pos\<close>, two floats.\<close>

definition ext_pos :: "(nat \<Rightarrow> u8) \<Rightarrow> nat \<Rightarrow> bytes" where
  "ext_pos mem p = (if p \<noteq> 0 then read_mem mem p 8 else replicate 8 0)"

definition normal_collider_packet :: "(nat \<Rightarrow> u8) \<Rightarrow> nat \<Rightarrow> string \<Rightarrow> bytes list" where
  "normal_collider_packet mem nc tag =
     [tag8 tag, pointer_bytes nc, read_mem mem nc 0x3e0, ext_pos mem (rd 8 mem (size_add nc 0x290)),
      ext_pos mem (rd 8 mem (size_add nc 0x298)),
      read_mem mem (count_ptr_ptr mem (size_add nc 0x3c0)) (count_ptr_count mem (size_add nc 0x3c0) * 0x18),
      read_mem mem (count_ptr_ptr mem (size_add nc 0x3d0)) (count_ptr_count mem (size_add nc 0x3d0) * 0x18),
      take 1 (read_mem mem (size_add (rd 8 mem (size_add nc 0x2a8)) 0x18) 4)]"

definition report_normal_collider :: "game_env \<Rightarrow> nat \<Rightarrow> string \<Rightarrow> game \<Rightarrow> game" where
  "report_normal_collider env nc tag g = write_packet env (normal_collider_packet (gmem g) nc tag) g"

definition add_to_collision_grid :: "game_env \<Rightarrow> (game \<Rightarrow> game option) \<Rightarrow> nat \<Rightarrow> game \<Rightarrow> game option" where
  "add_to_collision_grid env orig self g = do {
     g \<leftarrow> orig g;
     if test_rpc_flag RPC_FLAG_SEND_COLL_STUFF g then do {
       k \<leftarrow> UInt48 (word_of_nat self);
       (t, e, found) \<leftarrow> lookup (s_colliders g) k True;
       Some (report_normal_collider env self ''normco+'' (g\<lparr>s_colliders := t\<rparr>))
     } else Some g
   }"

definition remove_from_collision_grid :: "game_env \<Rightarrow> (game \<Rightarrow> game option) \<Rightarrow> nat \<Rightarrow> game \<Rightarrow> game option" where
  "remove_from_collision_grid env orig self g = do {
     g \<leftarrow> (if test_rpc_flag RPC_FLAG_SEND_COLL_STUFF g then do {
             k \<leftarrow> UInt48 (word_of_nat self);
             (t, e, found) \<leftarrow> lookup (s_colliders g) k False;
             if e \<noteq> 0 then do {
               t \<leftarrow> remove t e;
               Some (write_packet env [tag8 ''normco-'', pointer_bytes self] (g\<lparr>s_colliders := t\<rparr>))
             } else Some (g\<lparr>s_colliders := t\<rparr>)
           } else Some g);
     orig g
   }"

definition scol_packet :: "(nat \<Rightarrow> u8) \<Rightarrow> nat \<Rightarrow> bytes list" where
  "scol_packet mem p =
     [tag8 ''scolcol'', pointer_bytes p, read_mem mem p 0x103c, ext_pos mem (rd 8 mem (size_add p 0x2a0)),
      ext_pos mem (rd 8 mem (size_add p 0x2a8)), mm_world_id mem (rd 8 mem (size_add p 0x188))]"

definition scol_unchanged :: "nat \<Rightarrow> bytes list" where "scol_unchanged p = [tag8 ''scolco~'', pointer_bytes p]"

text \<open>
  The result is uninitialised when the hose does not take the packet, because the review callback
  that sets it is not called.
\<close>

definition write_cached_dump :: "game_env \<Rightarrow> nat \<Rightarrow> bool \<Rightarrow> bytes list \<Rightarrow> game \<Rightarrow> bool \<times> game" where
  "write_cached_dump env e found chunks g =
     (let old_hash = (if found then Some (vl (s_hashed_scols g) e) else None);
          n = offered g;
          (ret, g) = write_packet_review env chunks (\<lambda>b g.
            (let new_hash = XXH3_64bits env b;
                 g = (if e \<noteq> 0 then g\<lparr>s_hashed_scols := set_value (s_hashed_scols g) e new_hash\<rparr> else g)
             in (old_hash \<noteq> Some new_hash, g))) g
      in (case ret of Some r \<Rightarrow> (r, g) | None \<Rightarrow> (uninitialised env n, g)))"

definition scol_true_outmost :: "game_env \<Rightarrow> (game \<Rightarrow> game option) \<Rightarrow> nat \<Rightarrow> game \<Rightarrow> game option" where
  "scol_true_outmost env orig self g = do {
     g \<leftarrow> orig g;
     if test_rpc_flag RPC_FLAG_SEND_COLL_STUFF g then do {
       k \<leftarrow> UInt48 (word_of_nat self);
       (t, e, found) \<leftarrow> lookup (s_hashed_scols g) k True;
       let (sent, g) = write_cached_dump env e found (scol_packet (gmem g) self) (g\<lparr>s_hashed_scols := t\<rparr>);
       Some (if sent then g else write_packet env (scol_unchanged self) g)
     } else Some g
   }"

section \<open>Frames\<close>

definition collision_stubs :: "stub list" where
  "collision_stubs = [Stub_hitbox_collide, Stub_AreaSystem_do_many_collisions, Stub_Collider_add_to_collision_grid,
     Stub_Collider_remove_from_collision_grid_and_lists, Stub_scol_true_outmost, Stub_cctx_bg_collide_against_twopoint,
     Stub_cctx_bg_collide_against_point]"

definition collider_address :: "unit entry \<Rightarrow> nat" where "collider_address e = unat (UInt48_to_u64 (key e))"

definition report_all_colliders :: "game_env \<Rightarrow> game \<Rightarrow> game" where
  "report_all_colliders env g =
     fold (\<lambda>e. report_normal_collider env (collider_address e) ''normco*'') (begin_end (s_colliders g)) g"

definition get_addr_impl :: "nat \<Rightarrow> nat \<Rightarrow> nat list \<Rightarrow> nat \<Rightarrow> nat option" where
  "get_addr_impl missing target_start by_ver ver =
     (let offset = by_ver ! ver in if offset = missing then None else Some (size_add offset target_start))"

text \<open>
  Installing a hook panics when the address is not known for this version of the game, and aborts
  when the hook cannot be placed.
\<close>

definition install :: "game_env \<Rightarrow> stub \<Rightarrow> game \<Rightarrow> game option" where
  "install env st g = do {
     ptr \<leftarrow> get_addr_impl (missing_addr env) (s_target_start env) (addrs env st) (s_cur_mm_version env);
     if hook_succeeds env ptr then Some (g\<lparr>installs := installs g @ [st]\<rparr>) else None
   }"

fun install_all :: "game_env \<Rightarrow> stub list \<Rightarrow> game \<Rightarrow> game option" where
  "install_all env [] g = Some g"
| "install_all env (st # sts) g = do { g \<leftarrow> install env st g; install_all env sts g }"

definition start_collisions :: "game_env \<Rightarrow> game \<Rightarrow> game" where
  "start_collisions env g =
     (let g = g\<lparr>s_hitboxes_this_frame := clear (s_hitboxes_this_frame g)\<rparr>;
          (all, g) = test_and_clear_rpc_flag RPC_FLAG_SEND_ALL_COLLS g
      in if all
         then report_all_colliders env (write_packet env [tag8 ''allcols''] (g\<lparr>s_hashed_scols := clear (s_hashed_scols g)\<rparr>))
         else g)"

definition frame_start_collision_actions :: "game_env \<Rightarrow> game \<Rightarrow> game option" where
  "frame_start_collision_actions env g =
     (if \<not> test_rpc_flag RPC_FLAG_SEND_COLL_STUFF g then Some g
      else do {
        g \<leftarrow> (if \<not> installed g then install_all env collision_stubs (g\<lparr>installed := True\<rparr>) else Some g);
        Some (start_collisions env g)
      })"

text \<open>
  The pause loop over the flags seen at each test: waiting returns when a request cleared the flag.
  \<open>None\<close> when the game stays paused.
\<close>

fun pause_loop :: "u64 list \<Rightarrow> u64 option" where
  "pause_loop [] = None"
| "pause_loop (f # fs) = (if f AND RPC_FLAG_PAUSE = RPC_FLAG_PAUSE then pause_loop fs else Some f)"

definition huge_frame_func ::
  "game_env \<Rightarrow> (game \<Rightarrow> game option) \<Rightarrow> u64 list \<Rightarrow> mem_monitor \<Rightarrow> game \<Rightarrow> (game \<times> mem_monitor) option" where
  "huge_frame_func env orig flags_seen mm g = do {
     let (packet, mm) = do_reads (gmem g) mm;
     let g = (case packet of None \<Rightarrow> g | Some chunks \<Rightarrow> write_packet env chunks g);
     f \<leftarrow> pause_loop flags_seen;
     g \<leftarrow> frame_start_collision_actions env (g\<lparr>gflags := f\<rparr>);
     g \<leftarrow> orig g;
     Some (g, mm)
   }"

section \<open>Start-up\<close>

text \<open>
  The skin of the area is replaced around the original function (a hook that is not installed).
\<close>

definition grab_runtime_asset_name :: "nat \<Rightarrow> ((nat \<Rightarrow> u8) \<Rightarrow> (nat \<times> (nat \<Rightarrow> u8)) option) \<Rightarrow> nat \<Rightarrow> (nat \<Rightarrow> u8) \<Rightarrow> (nat \<times> (nat \<Rightarrow> u8)) option" where
  "grab_runtime_asset_name new_skin_at orig area mem = do {
     let skin_pp = size_add (rd 8 mem (size_add area 0x20)) 0xb0;
     let orig_skin_p = rd 8 mem skin_pp;
     let mem = store_bytes (store_bytes mem new_skin_at (le_bytes 4 3)) skin_pp (le_bytes 8 new_skin_at);
     (ret, mem) \<leftarrow> orig mem;
     Some (ret, store_bytes mem skin_pp (le_bytes 8 orig_skin_p))
   }"

definition gnu_tag :: bytes where "gnu_tag = ascii ''GNU'' @ [0]"

text \<open>The build id behind the tag; its size is that of a generated type. A later match replaces an earlier one.\<close>

fun scan_build_id :: "nat \<Rightarrow> nat \<Rightarrow> (nat \<Rightarrow> u8) \<Rightarrow> nat \<Rightarrow> bytes option \<Rightarrow> bytes option" where
  "scan_build_id id_size 0 mem haystack_ptr found = found"
| "scan_build_id id_size (Suc n) mem haystack_ptr found =
     scan_build_id id_size n mem (size_sub haystack_ptr 1)
       (if read_mem mem haystack_ptr 4 = gnu_tag then Some (read_mem mem (size_add haystack_ptr 4) id_size) else found)"

definition module_build_id :: "nat \<Rightarrow> (nat \<Rightarrow> u8) \<Rightarrow> ModuleInfo option \<Rightarrow> bytes option" where
  "module_build_id id_size mem mi =
     (case mi of None \<Rightarrow> None
      | Some info \<Rightarrow>
         (let rodata = m_Rodata info; needle_size = 4 + id_size in
          if Range.m_Size rodata < needle_size then None
          else scan_build_id id_size (size_sub (min (Range.m_Size rodata) 0x1000) needle_size) mem (size_sub (GetEnd rodata) needle_size) None))"

definition fetch_build_ids :: "nat \<Rightarrow> (nat \<Rightarrow> u8) \<Rightarrow> modules \<Rightarrow> bytes option list" where
  "fetch_build_ids id_size mem ms = map (\<lambda>smi. module_build_id id_size mem (GetModuleInfo ms smi)) [0..<ModuleIndex_value End]"

fun find_version :: "bytes list \<Rightarrow> bytes \<Rightarrow> nat \<Rightarrow> nat option" where
  "find_version [] build_id i = None"
| "find_version (v # vs) build_id i = (if v = build_id then Some i else find_version vs build_id (i + 1))"

definition init_version :: "bytes list \<Rightarrow> bytes option list \<Rightarrow> nat option" where
  "init_version s_version_to_build_id ids = do {
     build_id \<leftarrow> ids ! ModuleIndex_value Main;
     find_version s_version_to_build_id build_id 0
   }"

text \<open>The patches of \<open>exl_main\<close>, through the view of the main module.\<close>

definition main_patches :: "(nat \<times> u32) list" where
  "main_patches = [(0x017e428c, 0x321e03e1), (0x012dcc6c, 0xf900581f), (0x012dc9e8, 0xf9005a7f)]"

definition apply_patch :: "Claim \<Rightarrow> nat \<times> u32 \<Rightarrow> (nat \<Rightarrow> u8) \<Rightarrow> nat \<Rightarrow> u8" where
  "apply_patch c p mem = sp_mem (sp_Flush (WriteInst c (snd p) (sp_init (fst p) mem)))"

definition exl_main_patches :: "Claim \<Rightarrow> (nat \<Rightarrow> u8) \<Rightarrow> nat \<Rightarrow> u8" where
  "exl_main_patches c mem = fold (apply_patch c) main_patches mem"

section \<open>Runs\<close>

text \<open>
  What the hooks do, in the order the game runs them; the game changes its memory and the server the
  flags in between.
\<close>

datatype game_event = Collide nat nat nat | DoMany nat | TwoPoint nat nat nat nat u32 bool bool bool | OnePoint nat nat nat bool bool bool
  | AddCollider nat | RemoveCollider nat | Scol nat | StartFrame | SetFlags u64 | GameMemory "nat \<Rightarrow> u8"

fun run_event :: "game_env \<Rightarrow> game_event \<Rightarrow> game \<Rightarrow> game option" where
  "run_event env (Collide hb1 hb2 ret) g = map_option snd (hitbox_collide env (\<lambda>g. Some (ret, g)) hb1 hb2 g)"
| "run_event env (DoMany as) g = do_many_collisions env Some as g"
| "run_event env (TwoPoint ctx cp xy1 xy2 shp e1 e2 ret) g =
     map_option snd (collide_against_twopoint env (\<lambda>g. Some (ret, g)) ctx cp xy1 xy2 shp e1 e2 g)"
| "run_event env (OnePoint ctx bic xy e1 e2 ret) g = map_option snd (collide_against_point env (\<lambda>g. Some (ret, g)) ctx bic xy e1 e2 g)"
| "run_event env (AddCollider p) g = add_to_collision_grid env Some p g"
| "run_event env (RemoveCollider p) g = remove_from_collision_grid env Some p g"
| "run_event env (Scol p) g = scol_true_outmost env Some p g"
| "run_event env StartFrame g = frame_start_collision_actions env g"
| "run_event env (SetFlags f) g = Some (g\<lparr>gflags := f\<rparr>)"
| "run_event env (GameMemory m) g = Some (g\<lparr>gmem := m\<rparr>)"

fun run_events :: "game_env \<Rightarrow> game_event list \<Rightarrow> game \<Rightarrow> game option" where
  "run_events env [] g = Some g"
| "run_events env (e # es) g = do { g \<leftarrow> run_event env e g; run_events env es g }"

section \<open>What the hooks need of a table\<close>

context bounded_map
begin

lemma touch:
  assumes "invar h" and "amap h k \<noteq> None \<or> count h < cap h"
  shows "\<exists>h' x. find_or_insert h k True = Some (h', x, amap h k \<noteq> None) \<and> invar h' \<and> 0 < x \<and> x \<le> count h' \<and>
    key_at h' x = k \<and> dom (amap h') = insert k (dom (amap h)) \<and> cap h' = cap h"
proof (cases "amap h k")
  case None
  with assms obtain h' x where i: "find_or_insert h k True = Some (h', x, False)" "invar h'" "0 < x"
    "x \<le> count h'" "cap h' = cap h" "key_at h' x = k" "\<forall>k'. k' \<noteq> k \<longrightarrow> amap h' k' = amap h k'" "amap h' k \<noteq> None"
    using inserted [of h k] by auto
  have "dom (amap h') = insert k (dom (amap h))" using i(7,8) by (auto simp: dom_def)
  with i None show ?thesis by auto
next
  case (Some w)
  with assms obtain x where "find_or_insert h k True = Some (h, x, True)" "0 < x" "x \<le> count h" "key_at h x = k"
    using found by blast
  with assms Some show ?thesis by (auto simp: insert_absorb dom_def)
qed

lemma total:
  assumes "invar h"
  shows "\<exists>h' x f. find_or_insert h k i = Some (h', x, f) \<and> invar h' \<and> cap h' = cap h \<and> x \<le> count h' \<and>
    (x \<noteq> 0 \<longrightarrow> key_at h' x = k) \<and> (f \<longrightarrow> x \<noteq> 0)"
proof (cases "amap h k")
  case None
  show ?thesis
  proof (cases "i \<and> count h < cap h")
    case True
    then show ?thesis using inserted [OF assms None] by auto
  next
    case False
    then have "find_or_insert h k i = Some (h, 0, False)"
      using missing [OF assms None] full [OF assms None] count_le [OF assms] by (cases i) auto
    with assms show ?thesis by auto
  qed
next
  case (Some w)
  with assms obtain x where "find_or_insert h k i = Some (h, x, True)" "0 < x" "x \<le> count h" "key_at h x = k"
    using found by blast
  with assms show ?thesis by auto
qed

end

section \<open>Invariant of the tables\<close>

definition game_inv :: "game \<Rightarrow> bool" where
  "game_inv g \<longleftrightarrow> well_formed (s_colliders g) \<and> capacity (s_colliders g) = 12289 \<and>
     well_formed (s_hashed_scols g) \<and> capacity (s_hashed_scols g) = 3079 \<and>
     well_formed (s_hitboxes_this_frame g) \<and> capacity (s_hitboxes_this_frame g) = 3079"

lemma game_init_inv: "game_inv (game_init mem)"
  using empty_table_well_formed [of 12289 12289 "()"] empty_table_well_formed [of 3079 3079 "0 :: u64"]
    empty_table_well_formed [of 3079 3079 "()"]
  by (simp add: game_inv_def game_init_def) (simp add: capacity_def empty_table_def)

text \<open>Publishing a packet changes nothing but the packets and their number.\<close>

lemma write_packet_frame [simp]:
  "gmem (write_packet env cs g) = gmem g" "gflags (write_packet env cs g) = gflags g"
  "s_colliders (write_packet env cs g) = s_colliders g" "s_hashed_scols (write_packet env cs g) = s_hashed_scols g"
  "s_hitboxes_this_frame (write_packet env cs g) = s_hitboxes_this_frame g" "installed (write_packet env cs g) = installed g"
  "installs (write_packet env cs g) = installs g" "offered (write_packet env cs g) = offered g + 1"
  by (simp_all add: write_packet_def write_packet_review_def Let_def)

lemma write_packet_written:
  "written (write_packet env cs g) = written g @ (if hose_takes env (offered g) (calc_size cs) then [cs] else [])"
  by (simp add: write_packet_def write_packet_review_def Let_def)

lemma write_packet_inv [simp]: "game_inv (write_packet env cs g) = game_inv g"
  by (simp add: game_inv_def)

lemma game_inv_update [simp]:
  "game_inv (g\<lparr>gflags := f\<rparr>) = game_inv g" "game_inv (g\<lparr>gmem := m\<rparr>) = game_inv g" "game_inv (g\<lparr>offered := n\<rparr>) = game_inv g"
  "game_inv (g\<lparr>written := w\<rparr>) = game_inv g" "game_inv (g\<lparr>installed := b\<rparr>) = game_inv g" "game_inv (g\<lparr>installs := st\<rparr>) = game_inv g"
  by (simp_all add: game_inv_def)

text \<open>
  The addresses the hooks are called with: a hitbox with the expected vtable at an address below
  \<open>2^48\<close>, a collider below \<open>2^48\<close>, lists that end.
\<close>

lemma UInt48_small: "p < 2 ^ 48 \<Longrightarrow> UInt48 (word_of_nat p) = Some (word_of_nat p)"
proof -
  assume p: "p < 2 ^ 48"
  have "unat (word_of_nat p :: u64) = p" using p by (simp add: unat_of_nat)
  then have "unat (drop_bit 48 (word_of_nat p :: u64)) = drop_bit 48 p" by (simp only: unat_drop_bit_eq)
  moreover have "drop_bit 48 p = 0" using p by (simp add: drop_bit_eq_div)
  ultimately have "unat (drop_bit 48 (word_of_nat p :: u64)) = 0" by (simp only:)
  then have "drop_bit 48 (word_of_nat p :: u64) = 0" by (simp only: unat_eq_zero)
  moreover have "(ucast (word_of_nat p :: u64) :: uint48) = word_of_nat p"
    using p by (simp add: unsigned_of_nat take_bit_nat_eq_self)
  ultimately show ?thesis by (simp add: UInt48_def)
qed

lemma UInt48_large: "\<not> p mod 2 ^ 64 < 2 ^ 48 \<Longrightarrow> UInt48 (word_of_nat p) = None"
proof (rule ccontr)
  assume p: "\<not> p mod 2 ^ 64 < 2 ^ 48" and "UInt48 (word_of_nat p) \<noteq> None"
  then have "drop_bit 48 (word_of_nat p :: u64) = 0" by (auto simp: UInt48_def split: if_splits)
  then have "unat (drop_bit 48 (word_of_nat p :: u64)) = 0" by simp
  then have "drop_bit 48 (unat (word_of_nat p :: u64)) = 0" by (simp only: unat_drop_bit_eq)
  then have "p mod 2 ^ 64 div 2 ^ 48 = 0" by (simp add: unat_of_nat drop_bit_eq_div)
  then show False using p by (simp add: div_eq_0_iff)
qed

lemma word_of_nat_mod: "(word_of_nat (p mod 2 ^ 64) :: u64) = word_of_nat p"
proof -
  have "take_bit 64 (take_bit 64 p) = take_bit 64 p" by simp
  then show ?thesis by (simp add: word_of_nat_eq_iff take_bit_eq_mod)
qed

lemma UInt48_address:
  "UInt48 (word_of_nat p) = (if p mod 2 ^ 64 < 2 ^ 48 then Some (word_of_nat (p mod 2 ^ 64)) else None)"
  using UInt48_large [of p] UInt48_small [of "p mod 2 ^ 64"] unfolding word_of_nat_mod by presburger

definition hitbox_ok :: "game_env \<Rightarrow> (nat \<Rightarrow> u8) \<Rightarrow> nat \<Rightarrow> bool" where
  "hitbox_ok env mem hb \<longleftrightarrow> hb < 2 ^ 48 \<and> rd 8 mem hb = hitbox_vtable env"

text \<open>The same without a word about the upper part of an address: what \<open>verify\<close> and the key of the table accept.\<close>

definition hitbox_fine :: "game_env \<Rightarrow> (nat \<Rightarrow> u8) \<Rightarrow> nat \<Rightarrow> bool" where
  "hitbox_fine env mem hb \<longleftrightarrow> hb mod 2 ^ 64 < 2 ^ 48 \<and> rd 8 mem hb = hitbox_vtable env"

lemma hitbox_ok_fine: "hitbox_ok env mem hb \<Longrightarrow> hitbox_fine env mem hb"
  by (simp add: hitbox_ok_def hitbox_fine_def)

lemma report_hitbox_total:
  assumes "game_inv g" and "hitbox_fine env (gmem g) hb"
  shows "\<exists>g'. report_hitbox env hb g = Some g' \<and> game_inv g' \<and> gmem g' = gmem g \<and> gflags g' = gflags g \<and>
    s_colliders g' = s_colliders g \<and> s_hashed_scols g' = s_hashed_scols g"
proof -
  obtain t x f where t: "lookup (s_hitboxes_this_frame g) (word_of_nat (hb mod 2 ^ 64)) True = Some (t, x, f)" "well_formed t" "capacity t = 3079"
    using table.total [of "s_hitboxes_this_frame g" "word_of_nat (hb mod 2 ^ 64)" True] assms(1) unfolding game_inv_def by fastforce
  have "UInt48 (word_of_nat hb) = Some (word_of_nat (hb mod 2 ^ 64))" using assms(2) by (simp only: UInt48_address hitbox_fine_def if_True)
  with assms t show ?thesis
    by (auto simp: report_hitbox_def hitbox_fine_def game_inv_def Let_def)
qed

lemma report_hitbox_panics: "\<not> hitbox_fine env (gmem g) hb \<Longrightarrow> report_hitbox env hb g = None"
  by (auto simp: report_hitbox_def hitbox_fine_def UInt48_large)

lemma report_hitboxes_total:
  assumes "game_inv g" and "\<forall>hb \<in> set hbs. hitbox_fine env (gmem g) hb"
  shows "\<exists>g'. report_hitboxes env hbs g = Some g' \<and> game_inv g' \<and> gmem g' = gmem g \<and> gflags g' = gflags g \<and>
    s_colliders g' = s_colliders g \<and> s_hashed_scols g' = s_hashed_scols g"
  using assms
proof (induction hbs arbitrary: g)
  case (Cons hb hbs)
  then obtain g1 where g1: "report_hitbox env hb g = Some g1" "game_inv g1" "gmem g1 = gmem g" "gflags g1 = gflags g"
    "s_colliders g1 = s_colliders g" "s_hashed_scols g1 = s_hashed_scols g"
    using report_hitbox_total [of g env hb] by auto
  from Cons.IH [OF g1(2)] Cons.prems(2) g1 show ?case by auto
qed simp

text \<open>The hitboxes of an area, in the order they are reported.\<close>

definition split_hitboxes :: "game_env \<Rightarrow> (nat \<Rightarrow> u8) \<Rightarrow> nat list \<Rightarrow> nat list option" where
  "split_hitboxes env mem heads =
     map_option (map (\<lambda>n. rd 8 mem (size_add n 0x10)) \<circ> concat) (those (map (mm_list_elements (list_fuel env) False mem) heads))"

definition area_hitboxes :: "game_env \<Rightarrow> (nat \<Rightarrow> u8) \<Rightarrow> nat \<Rightarrow> nat list option" where
  "area_hitboxes env mem as =
     (let mgr = rd 8 mem (size_add as 0x40) in do {
        hs \<leftarrow> split_hitboxes env mem (map (\<lambda>i. size_add mgr (0x10 + i * 0x18)) [0..<4]);
        ss \<leftarrow> mm_list_elements (list_fuel env) True mem (size_add mgr 0x70);
        Some (hs @ ss)
      })"

lemma report_hitboxes_append:
  "report_hitboxes env (xs @ ys) g = do { g \<leftarrow> report_hitboxes env xs g; report_hitboxes env ys g }"
proof (induction xs arbitrary: g)
  case (Cons x xs)
  then show ?case by (cases "report_hitbox env x g") simp_all
qed simp

lemma report_hitbox_mem: "report_hitbox env hb g = Some g' \<Longrightarrow> gmem g' = gmem g"
  by (auto simp: report_hitbox_def bind_eq_Some_conv Let_def split: if_splits)

lemma report_hitboxes_mem: "report_hitboxes env hbs g = Some g' \<Longrightarrow> gmem g' = gmem g"
  by (induction hbs arbitrary: g) (auto simp: bind_eq_Some_conv dest: report_hitbox_mem)

lemma report_split_lists_flat:
  "split_hitboxes env (gmem g) heads = Some hbs \<Longrightarrow> report_split_lists env heads g = report_hitboxes env hbs g"
proof (induction heads arbitrary: g hbs)
  case (Cons l heads)
  then obtain ns rest where ns: "mm_list_elements (list_fuel env) False (gmem g) l = Some ns"
    "split_hitboxes env (gmem g) heads = Some rest" "hbs = map (\<lambda>n. rd 8 (gmem g) (size_add n 0x10)) ns @ rest"
    by (auto simp: split_hitboxes_def split: option.splits)
  have "report_split_lists env heads g' = report_hitboxes env rest g'" if "gmem g' = gmem g" for g'
    using Cons.IH [of g' rest] ns(2) that by simp
  then show ?case
    by (auto simp: ns(1,3) report_hitboxes_append intro!: Option.bind_cong dest: report_hitboxes_mem)
qed (simp add: split_hitboxes_def)

lemma report_all_flat:
  "area_hitboxes env (gmem g) as = Some hbs \<Longrightarrow> report_all_hitboxes env as g = report_hitboxes env hbs g"
proof -
  assume a: "area_hitboxes env (gmem g) as = Some hbs"
  let ?mgr = "rd 8 (gmem g) (size_add as 0x40)" and ?at = "\<lambda>mgr. map (\<lambda>i. size_add mgr (0x10 + i * 0x18)) [0..<4]"
  from a obtain xs ys where s: "split_hitboxes env (gmem g) (?at ?mgr) = Some xs"
    "mm_list_elements (list_fuel env) True (gmem g) (size_add ?mgr 0x70) = Some ys" "hbs = xs @ ys"
    unfolding area_hitboxes_def Let_def bind_eq_Some_conv by auto
  show ?thesis
    unfolding report_all_hitboxes_def Let_def report_split_lists_flat [OF s(1)] s(3) report_hitboxes_append
    by (auto intro!: Option.bind_cong dest!: report_hitboxes_mem simp: s(2))
qed

section \<open>No table assertion fails\<close>

definition installable :: "game_env \<Rightarrow> stub \<Rightarrow> bool" where
  "installable env st \<longleftrightarrow>
     (case get_addr_impl (missing_addr env) (s_target_start env) (addrs env st) (s_cur_mm_version env) of
        None \<Rightarrow> False | Some ptr \<Rightarrow> hook_succeeds env ptr)"

lemma install_all_cases:
  "install_all env sts g = (if list_all (installable env) sts then Some (g\<lparr>installs := installs g @ sts\<rparr>) else None)"
  by (induction sts arbitrary: g) (auto simp: install_def installable_def split: option.splits)

text \<open>
  The panics that the hooks have, while the collision events are on: a hitbox with another vtable, an
  address that does not fit the 48-bit key of a table, a hook that cannot be installed in the first
  frame. (A list of hitboxes that does not end is \<open>None\<close> as well.)
\<close>

fun event_panics :: "game_env \<Rightarrow> game_event \<Rightarrow> game \<Rightarrow> bool" where
  "event_panics env (Collide hb1 hb2 ret) g \<longleftrightarrow> test_rpc_flag RPC_FLAG_SEND_COLL_STUFF g \<and>
     (\<not> hitbox_fine env (gmem g) hb1 \<or> \<not> hitbox_fine env (gmem g) hb2)"
| "event_panics env (DoMany as) g \<longleftrightarrow> test_rpc_flag RPC_FLAG_SEND_COLL_STUFF g \<and>
     (case area_hitboxes env (gmem g) as of None \<Rightarrow> True | Some hbs \<Rightarrow> \<not> list_all (hitbox_fine env (gmem g)) hbs)"
| "event_panics env (AddCollider p) g \<longleftrightarrow> test_rpc_flag RPC_FLAG_SEND_COLL_STUFF g \<and> 2 ^ 48 \<le> p mod 2 ^ 64"
| "event_panics env (RemoveCollider p) g \<longleftrightarrow> test_rpc_flag RPC_FLAG_SEND_COLL_STUFF g \<and> 2 ^ 48 \<le> p mod 2 ^ 64"
| "event_panics env (Scol p) g \<longleftrightarrow> test_rpc_flag RPC_FLAG_SEND_COLL_STUFF g \<and> 2 ^ 48 \<le> p mod 2 ^ 64"
| "event_panics env StartFrame g \<longleftrightarrow> test_rpc_flag RPC_FLAG_SEND_COLL_STUFF g \<and> \<not> installed g \<and>
     \<not> list_all (installable env) collision_stubs"
| "event_panics env _ g \<longleftrightarrow> False"

lemma report_hitboxes_panics:
  "game_inv g \<Longrightarrow> \<not> list_all (hitbox_fine env (gmem g)) hbs \<Longrightarrow> report_hitboxes env hbs g = None"
proof (induction hbs arbitrary: g)
  case (Cons hb hbs)
  show ?case
  proof (cases "hitbox_fine env (gmem g) hb")
    case True
    with report_hitbox_total [OF Cons.prems(1) True] Cons show ?thesis by auto
  qed (simp add: report_hitbox_panics)
qed simp

lemma report_split_lists_endless:
  "split_hitboxes env (gmem g) heads = None \<Longrightarrow> report_split_lists env heads g = None"
proof (induction heads arbitrary: g)
  case (Cons l heads)
  show ?case
  proof (cases "mm_list_elements (list_fuel env) False (gmem g) l")
    case (Some ns)
    then have "split_hitboxes env (gmem g) heads = None" using Cons.prems by (auto simp: split_hitboxes_def)
    then have "report_hitboxes env hbs g = Some g1 \<Longrightarrow> report_split_lists env heads g1 = None" for hbs g1
      using Cons.IH [of g1] report_hitboxes_mem by metis
    then show ?thesis using Some by (auto split: Option.bind_split)
  qed simp
qed (simp add: split_hitboxes_def)

lemma report_all_endless: "area_hitboxes env (gmem g) as = None \<Longrightarrow> report_all_hitboxes env as g = None"
proof -
  assume a: "area_hitboxes env (gmem g) as = None"
  let ?mgr = "rd 8 (gmem g) (size_add as 0x40)"
  let ?heads = "map (\<lambda>i. size_add ?mgr (0x10 + i * 0x18)) [0..<4]"
  show ?thesis
  proof (cases "split_hitboxes env (gmem g) ?heads")
    case None
    then show ?thesis by (simp only: report_all_hitboxes_def Let_def report_split_lists_endless Option.bind.bind_lzero)
  next
    case (Some hbs)
    then have "mm_list_elements (list_fuel env) True (gmem g) (size_add ?mgr 0x70) = None"
      using a by (simp only: area_hitboxes_def Let_def Option.bind.bind_lunit) (auto simp: bind_eq_None_conv)
    then show ?thesis
      unfolding report_all_hitboxes_def Let_def report_split_lists_flat [OF Some]
      by (auto split: Option.bind_split dest!: report_hitboxes_mem)
  qed
qed

lemma lookup_colliders:
  assumes "game_inv g"
  shows "\<exists>t x f. lookup (s_colliders g) k i = Some (t, x, f) \<and> well_formed t \<and> capacity t = 12289 \<and> x \<le> size t"
  using table.total [of "s_colliders g" k i] assms unfolding game_inv_def by fastforce

lemma lookup_scols:
  assumes "game_inv g"
  shows "\<exists>t x f. lookup (s_hashed_scols g) k True = Some (t, x, f) \<and> well_formed t \<and> capacity t = 3079 \<and> x \<le> size t"
  using table.total [of "s_hashed_scols g" k True] assms unfolding game_inv_def by fastforce

lemma write_cached_dump_cases:
  "write_cached_dump env e f cs g =
     (let h = XXH3_64bits env (concat cs); g1 = g\<lparr>offered := offered g + 1\<rparr>;
          g2 = (if e \<noteq> 0 then g1\<lparr>s_hashed_scols := set_value (s_hashed_scols g) e h\<rparr> else g1) in
      if \<not> hose_takes env (offered g) (calc_size cs) then (uninitialised env (offered g), g1)
      else if f \<and> vl (s_hashed_scols g) e = h then (False, g2)
      else (True, g2\<lparr>written := written g @ [cs]\<rparr>))"
  by (auto simp: write_cached_dump_def write_packet_review_def Let_def split: bool.split)

lemma write_cached_dump_inv:
  assumes "game_inv g" and "e \<le> size (s_hashed_scols g)"
  shows "game_inv (snd (write_cached_dump env e f cs g))"
proof -
  have "well_formed (set_value (s_hashed_scols g) e v) \<and> capacity (set_value (s_hashed_scols g) e v) = 3079" if "e \<noteq> 0" for v
    using table.assigned [of "s_hashed_scols g" e v] assms that by (simp add: game_inv_def)
  then show ?thesis using assms(1)
    by (auto simp: write_cached_dump_cases Let_def game_inv_def)
qed

lemma report_all_colliders_frame:
  "gmem (report_all_colliders env g) = gmem g" "gflags (report_all_colliders env g) = gflags g"
  "s_colliders (report_all_colliders env g) = s_colliders g" "s_hashed_scols (report_all_colliders env g) = s_hashed_scols g"
  "s_hitboxes_this_frame (report_all_colliders env g) = s_hitboxes_this_frame g"
proof -
  have "gmem (fold (\<lambda>e. report_normal_collider env (collider_address e) ''normco*'') es g) = gmem g \<and>
    gflags (fold (\<lambda>e. report_normal_collider env (collider_address e) ''normco*'') es g) = gflags g \<and>
    s_colliders (fold (\<lambda>e. report_normal_collider env (collider_address e) ''normco*'') es g) = s_colliders g \<and>
    s_hashed_scols (fold (\<lambda>e. report_normal_collider env (collider_address e) ''normco*'') es g) = s_hashed_scols g \<and>
    s_hitboxes_this_frame (fold (\<lambda>e. report_normal_collider env (collider_address e) ''normco*'') es g) = s_hitboxes_this_frame g" for es
    by (induction es arbitrary: g) (simp_all add: report_normal_collider_def)
  then show "gmem (report_all_colliders env g) = gmem g" "gflags (report_all_colliders env g) = gflags g"
    "s_colliders (report_all_colliders env g) = s_colliders g" "s_hashed_scols (report_all_colliders env g) = s_hashed_scols g"
    "s_hitboxes_this_frame (report_all_colliders env g) = s_hitboxes_this_frame g"
    by (simp_all add: report_all_colliders_def)
qed

lemma clear_capacity [simp]: "capacity (clear h) = capacity h"
  by (simp add: clear_def capacity_def)

abbreviation installed_all :: "game \<Rightarrow> game" where
  "installed_all g \<equiv> (if installed g then g else g\<lparr>installed := True, installs := installs g @ collision_stubs\<rparr>)"

lemma frame_start_cases:
  "frame_start_collision_actions env g =
     (if \<not> test_rpc_flag RPC_FLAG_SEND_COLL_STUFF g then Some g
      else if installed g \<or> list_all (installable env) collision_stubs then Some (start_collisions env (installed_all g))
      else None)"
  by (auto simp: frame_start_collision_actions_def install_all_cases)

lemma start_collisions_inv: "game_inv g \<Longrightarrow> game_inv (start_collisions env g)"
  by (auto simp: start_collisions_def test_and_clear_rpc_flag_def Let_def game_inv_def clear_well_formed report_all_colliders_frame)

lemma frame_start_inv: "frame_start_collision_actions env g = Some g' \<Longrightarrow> game_inv g \<Longrightarrow> game_inv g'"
  by (auto simp: frame_start_cases intro!: start_collisions_inv split: if_splits)

lemma run_event_total:
  assumes "game_inv g" and "\<not> event_panics env e g"
  shows "\<exists>g'. run_event env e g = Some g' \<and> game_inv g'"
proof (cases "test_rpc_flag RPC_FLAG_SEND_COLL_STUFF g")
  case False
  with assms(1) show ?thesis
    by (cases e) (simp_all add: hitbox_collide_def do_many_collisions_def collide_against_twopoint_def collide_against_point_def
      add_to_collision_grid_def remove_from_collision_grid_def scol_true_outmost_def frame_start_collision_actions_def)
next
  case True
  show ?thesis
  proof (cases e)
    case (Collide hb1 hb2 ret)
    with assms(2) True have ok: "hitbox_fine env (gmem g) hb1" "hitbox_fine env (gmem g) hb2" by simp_all
    from report_hitbox_total [OF assms(1) ok(1)] obtain g1 where g1: "report_hitbox env hb1 g = Some g1" "game_inv g1" "gmem g1 = gmem g"
      by blast
    with report_hitbox_total [OF g1(2), of env hb2] ok(2) obtain g2 where "report_hitbox env hb2 g1 = Some g2" "game_inv g2" by auto
    with g1 Collide assms(1) show ?thesis by (simp add: hitbox_collide_def)
  next
    case (DoMany as)
    with assms(2) True obtain hbs where hbs: "area_hitboxes env (gmem g) as = Some hbs" "\<forall>hb \<in> set hbs. hitbox_fine env (gmem g) hb"
      by (auto simp: list_all_iff split: option.splits)
    let ?g = "write_packet env [tag8 ''do_many'', pointer_bytes as, le_bytes 8 (rd 4 (gmem g) (size_add as 0x18))] g"
    from report_hitboxes_total [of ?g hbs env] hbs(2) assms(1)
    obtain g2 where "report_hitboxes env hbs ?g = Some g2" "game_inv g2" by auto
    with report_all_flat [of env ?g as hbs] hbs(1) DoMany assms(1) show ?thesis by (simp add: do_many_collisions_def)
  next
    case (AddCollider p)
    then have k: "UInt48 (word_of_nat p) = Some (word_of_nat (p mod 2 ^ 64))" using assms(2) True by (simp add: UInt48_address)
    obtain t x f where "lookup (s_colliders g) (word_of_nat (p mod 2 ^ 64)) True = Some (t, x, f)" "well_formed t" "capacity t = 12289"
      using lookup_colliders [OF assms(1)] by blast
    with AddCollider assms(1) k show ?thesis
      by (simp add: add_to_collision_grid_def report_normal_collider_def game_inv_def)
  next
    case (RemoveCollider p)
    then have k: "UInt48 (word_of_nat p) = Some (word_of_nat (p mod 2 ^ 64))" using assms(2) True by (simp add: UInt48_address)
    obtain t x f where t: "lookup (s_colliders g) (word_of_nat (p mod 2 ^ 64)) False = Some (t, x, f)" "well_formed t" "capacity t = 12289" "x \<le> size t"
      using lookup_colliders [OF assms(1)] by blast
    have "\<exists>t'. remove t x = Some t' \<and> well_formed t' \<and> capacity t' = 12289" if "x \<noteq> 0"
      using table.deleted [OF t(2), of x] t(3,4) that by auto
    with t RemoveCollider assms(1) k show ?thesis
      by (auto simp: remove_from_collision_grid_def game_inv_def)
  next
    case (Scol p)
    then have k: "UInt48 (word_of_nat p) = Some (word_of_nat (p mod 2 ^ 64))" using assms(2) True by (simp add: UInt48_address)
    obtain t x f where t: "lookup (s_hashed_scols g) (word_of_nat (p mod 2 ^ 64)) True = Some (t, x, f)" "well_formed t" "capacity t = 3079" "x \<le> size t"
      using lookup_scols [OF assms(1)] by blast
    then have "game_inv (g\<lparr>s_hashed_scols := t\<rparr>)" using assms(1) by (simp add: game_inv_def)
    then have "game_inv (snd (write_cached_dump env x f (scol_packet (gmem g) p) (g\<lparr>s_hashed_scols := t\<rparr>)))"
      by (rule write_cached_dump_inv) (use t in simp)
    with t Scol assms(1) k show ?thesis
      by (auto simp: scol_true_outmost_def split: prod.splits)
  next
    case StartFrame
    with assms True have "frame_start_collision_actions env g = Some (start_collisions env (installed_all g))"
      by (simp add: frame_start_cases)
    with StartFrame assms(1) frame_start_inv show ?thesis by auto
  qed (use assms in \<open>simp_all add: collide_against_twopoint_def collide_against_point_def\<close>)
qed

lemma run_event_panics:
  assumes "game_inv g" and "event_panics env e g"
  shows "run_event env e g = None"
proof (cases e)
  case (Collide hb1 hb2 ret)
  show ?thesis
  proof (cases "hitbox_fine env (gmem g) hb1")
    case True
    with report_hitbox_total [OF assms(1) True] assms(2) Collide show ?thesis
      by (auto simp: hitbox_collide_def report_hitbox_panics)
  qed (use assms(2) Collide in \<open>simp add: hitbox_collide_def report_hitbox_panics\<close>)
next
  case (DoMany as)
  let ?g = "write_packet env [tag8 ''do_many'', pointer_bytes as, le_bytes 8 (rd 4 (gmem g) (size_add as 0x18))] g"
  have "report_all_hitboxes env as ?g = None"
  proof (cases "area_hitboxes env (gmem g) as")
    case None
    then show ?thesis by (simp add: report_all_endless)
  next
    case (Some hbs)
    with assms(2) DoMany have "\<not> list_all (hitbox_fine env (gmem ?g)) hbs" by simp
    with report_all_flat [of env ?g as hbs] report_hitboxes_panics [of ?g env hbs] Some assms(1) show ?thesis by simp
  qed
  then show ?thesis using assms(2) DoMany by (simp add: do_many_collisions_def)
next
  case StartFrame
  with assms(2) show ?thesis by (simp add: frame_start_cases)
qed (use assms(2) in \<open>auto simp: add_to_collision_grid_def remove_from_collision_grid_def scol_true_outmost_def UInt48_large\<close>)

lemma run_event_inv: "run_event env e g = Some g' \<Longrightarrow> game_inv g \<Longrightarrow> game_inv g' \<and> \<not> event_panics env e g"
  using run_event_total [of g env e] run_event_panics [of g env e] by fastforce

lemma run_events_inv: "run_events env es g = Some g' \<Longrightarrow> game_inv g \<Longrightarrow> game_inv g'"
  by (induction es arbitrary: g) (auto simp: bind_eq_Some_conv dest!: run_event_inv)

text \<open>
  C3. From the start of the program, after whatever hooks ran in whatever order, with or without room
  in the hose, the three tables are well formed at their fixed capacities, and what can make the
  next hook fail is known exactly: while the collision events are on, a hitbox without the expected vtable
  or at an address of more than 48 bits (of the two that collide, or in the lists of the area), a
  collider at such an address, or, in the first frame, a hook whose address is missing or cannot be
  placed. No other hook fails, and no assertion of the tables does.
\<close>

theorem game_hooks_panic_exactly:
  assumes "run_events env es (game_init mem) = Some g"
  shows "well_formed (s_colliders g) \<and> well_formed (s_hashed_scols g) \<and>
    well_formed (s_hitboxes_this_frame g) \<and> capacity (s_colliders g) = 12289 \<and> capacity (s_hashed_scols g) = 3079 \<and>
    capacity (s_hitboxes_this_frame g) = 3079 \<and> (run_event env e g = None \<longleftrightarrow> event_panics env e g)"
proof -
  have inv: "game_inv g" using run_events_inv [OF assms game_init_inv] .
  then have "run_event env e g = None \<longleftrightarrow> event_panics env e g"
    using run_event_total run_event_panics by fastforce
  with inv show ?thesis unfolding game_inv_def by blast
qed

text \<open>An environment whose hose takes everything and whose hooks can be installed, and memory that is zero.\<close>

definition open_env :: game_env where
  "open_env = \<lparr>hose_takes = (\<lambda>_ _. True), XXH3_64bits = (\<lambda>b. word_of_nat (le_value b)), hitbox_vtable = 0, uninitialised = (\<lambda>_. False), list_fuel = 9,
     addrs = (\<lambda>_. [0x4000]), missing_addr = 0xee, s_cur_mm_version = 0, s_target_start = 0x100000, hook_succeeds = (\<lambda>_. True)\<rparr>"

theorem game_hooks_panic_exactly_witness:
  "\<exists>g. run_events open_env [SetFlags 0x10, StartFrame] (game_init (\<lambda>_. 0)) = Some g \<and>
    run_event open_env (Collide 0x1000 0x2000 1) g \<noteq> None \<and> run_event open_env (AddCollider (2 ^ 50)) g = None"
proof -
  have zero: "le_value (replicate n (0 :: u8)) = 0" for n by (induction n) auto
  have ok: "hitbox_fine open_env (\<lambda>_. 0) hb" if "hb < 2 ^ 48" for hb
    using that by (simp add: hitbox_fine_def open_env_def rd_def read_mem_def map_replicate_const zero)
  let ?g = "start_collisions open_env (installed_all ((game_init (\<lambda>_. 0))\<lparr>gflags := 0x10\<rparr>))"
  have g: "gmem ?g = (\<lambda>_. 0)" "test_rpc_flag RPC_FLAG_SEND_COLL_STUFF ?g"
    by (simp_all add: start_collisions_def test_and_clear_rpc_flag_def test_rpc_flag_def RPC_FLAG_SEND_COLL_STUFF_def RPC_FLAG_SEND_ALL_COLLS_def
        Let_def game_init_def)
  have "list_all (installable open_env) collision_stubs"
    by (simp add: collision_stubs_def installable_def get_addr_impl_def open_env_def)
  then have r: "run_events open_env [SetFlags 0x10, StartFrame] (game_init (\<lambda>_. 0)) = Some ?g"
    by (simp add: frame_start_cases test_rpc_flag_def RPC_FLAG_SEND_COLL_STUFF_def game_init_def)
  have "\<not> event_panics open_env (Collide 0x1000 0x2000 1) ?g" unfolding event_panics.simps g(1) using ok by simp
  moreover have "event_panics open_env (AddCollider (2 ^ 50)) ?g"
    unfolding event_panics.simps using g(2) by simp
  ultimately show ?thesis
    using game_hooks_panic_exactly [OF r, of "Collide 0x1000 0x2000 1"] game_hooks_panic_exactly [OF r, of "AddCollider (2 ^ 50)"] r by blast
qed

section \<open>Hitboxes of a frame\<close>

lemma size_card: "well_formed h \<Longrightarrow> size h = card (dom (table_map h))"
proof -
  assume w: "well_formed h"
  have "dom (table_map h) = set (map fst (kvs h))"
    by (simp only: table_map_def dom_map_of_conv_image_fst set_map flip: kvs_def)
  then have "card (dom (table_map h)) = length (kvs h)"
    using kvs_facts(2) [OF w] distinct_card [of "map fst (kvs h)"] by simp
  then show ?thesis using kvs_facts(1) [OF w] by (simp add: size_def)
qed

definition key_of :: "nat \<Rightarrow> uint48" where "key_of p = word_of_nat p"

lemma key_of_inj: "p < 2 ^ 48 \<Longrightarrow> q < 2 ^ 48 \<Longrightarrow> key_of p = key_of q \<longleftrightarrow> p = q"
  by (auto simp: key_of_def word_of_nat_eq_iff take_bit_nat_eq_self)

lemma inj_on_key_of: "S \<subseteq> {..<2 ^ 48} \<Longrightarrow> inj_on key_of S"
  by (intro inj_onI) (metis key_of_inj lessThan_iff subsetD)

lemma UInt48_key_mod: "p mod 2 ^ 64 < 2 ^ 48 \<Longrightarrow> UInt48 (word_of_nat p) = Some (key_of (p mod 2 ^ 64))"
  by (simp only: UInt48_address key_of_def if_True)

lemma UInt48_key: "p < 2 ^ 48 \<Longrightarrow> UInt48 (word_of_nat p) = Some (key_of p)"
  by (simp add: UInt48_small key_of_def)

text \<open>The hitboxes seen this frame, as addresses.\<close>

definition seen_hitboxes :: "game \<Rightarrow> nat set" where
  "seen_hitboxes g = {p. p < 2 ^ 48 \<and> key_of p \<in> dom (table_map (s_hitboxes_this_frame g))}"

definition taken :: "game_env \<Rightarrow> nat \<Rightarrow> bytes list list \<Rightarrow> bytes list list" where
  "taken env n ps = map snd (filter (\<lambda>(i, p). hose_takes env i (calc_size p)) (enumerate n ps))"

lemma taken_simps [simp]:
  "taken env n [] = []"
  "taken env n (p # ps) = (if hose_takes env n (calc_size p) then [p] else []) @ taken env (Suc n) ps"
  by (simp_all add: taken_def)

fun firsts :: "nat set \<Rightarrow> nat list \<Rightarrow> nat list" where
  "firsts S [] = []"
| "firsts S (x # xs) = (if x \<in> S then firsts S xs else x # firsts (insert x S) xs)"

lemma firsts_distinct: "distinct (firsts S xs) \<and> set (firsts S xs) = set xs - S"
  by (induction xs arbitrary: S) auto

lemma taken_append: "taken env n (ps @ qs) = taken env n ps @ taken env (n + length ps) qs"
  by (induction ps arbitrary: n) simp_all

text \<open>One report of a hitbox: a packet for a new one, nothing for one that was seen.\<close>

lemma report_hitbox_step:
  assumes "game_inv g" and "hitbox_ok env (gmem g) hb" and "hb \<in> seen_hitboxes g \<or> size (s_hitboxes_this_frame g) < 3079"
  shows "\<exists>g'. report_hitbox env hb g = Some g' \<and> game_inv g' \<and> gmem g' = gmem g \<and>
    seen_hitboxes g' = insert hb (seen_hitboxes g) \<and>
    size (s_hitboxes_this_frame g') \<le> size (s_hitboxes_this_frame g) + (if hb \<in> seen_hitboxes g then 0 else 1) \<and>
    (let ps = (if hb \<in> seen_hitboxes g then [] else [hitbox_packet (gmem g) hb]) in
      written g' = written g @ taken env (offered g) ps \<and> offered g' = offered g + length ps)"
proof -
  let ?h = "s_hitboxes_this_frame g"
  have hb: "hb < 2 ^ 48" "rd 8 (gmem g) hb = hitbox_vtable env" using assms(2) by (simp_all add: hitbox_ok_def)
  have seen: "hb \<in> seen_hitboxes g \<longleftrightarrow> table_map ?h (key_of hb) \<noteq> None" using hb(1) by (auto simp: seen_hitboxes_def)
  have w: "well_formed ?h" "capacity ?h = 3079" using assms(1) by (simp_all add: game_inv_def)
  obtain t x where t: "lookup ?h (key_of hb) True = Some (t, x, table_map ?h (key_of hb) \<noteq> None)" "well_formed t"
    "dom (table_map t) = insert (key_of hb) (dom (table_map ?h))" "capacity t = 3079"
    using table.touch [OF w(1), of "key_of hb"] assms(3) w(2) unfolding seen by auto
  have fin: "finite (dom (table_map ?h))" by (simp add: table_map_def finite_dom_map_of)
  have size: "size t \<le> size ?h + (if hb \<in> seen_hitboxes g then 0 else 1)"
    unfolding size_card [OF w(1)] size_card [OF t(2)] t(3) seen using fin by (auto simp: card_insert_if dom_def)
  have dom: "{p. p < 2 ^ 48 \<and> key_of p \<in> dom (table_map t)} = insert hb (seen_hitboxes g)"
    unfolding t(3) seen_hitboxes_def using hb(1) key_of_inj by auto
  have inv: "game_inv (g\<lparr>s_hitboxes_this_frame := t\<rparr>)" using assms(1) t(2,4) by (simp add: game_inv_def)
  have dom': "seen_hitboxes (g\<lparr>s_hitboxes_this_frame := t\<rparr>) = insert hb (seen_hitboxes g)"
    unfolding dom [symmetric] by (simp add: seen_hitboxes_def)
  have wp: "seen_hitboxes (write_packet env cs g') = seen_hitboxes g'" for cs g' by (simp add: seen_hitboxes_def)
  show ?thesis
  proof (cases "hb \<in> seen_hitboxes g")
    case True
    then have "report_hitbox env hb g = Some (g\<lparr>s_hitboxes_this_frame := t\<rparr>)"
      using t(1) seen hb by (simp add: report_hitbox_def UInt48_key)
    then show ?thesis using True inv size dom' by simp
  next
    case False
    then have "report_hitbox env hb g = Some (write_packet env (hitbox_packet (gmem g) hb) (g\<lparr>s_hitboxes_this_frame := t\<rparr>))"
      using t(1) seen hb by (simp add: report_hitbox_def UInt48_key)
    then show ?thesis using False inv size dom' by (simp add: wp write_packet_written)
  qed
qed

lemma report_hitboxes_once:
  assumes "game_inv g" and "\<forall>hb \<in> set hbs. hitbox_ok env (gmem g) hb"
    and "size (s_hitboxes_this_frame g) + card (set hbs - seen_hitboxes g) \<le> 3079"
  shows "\<exists>g'. report_hitboxes env hbs g = Some g' \<and>
    written g' = written g @ taken env (offered g) (map (hitbox_packet (gmem g)) (firsts (seen_hitboxes g) hbs))"
  using assms
proof (induction hbs arbitrary: g)
  case (Cons hb hbs)
  have room: "hb \<in> seen_hitboxes g \<or> size (s_hitboxes_this_frame g) < 3079"
  proof (rule disjCI)
    assume "\<not> size (s_hitboxes_this_frame g) < 3079"
    with Cons.prems(3) have "card (set (hb # hbs) - seen_hitboxes g) = 0" by linarith
    then show "hb \<in> seen_hitboxes g" by auto
  qed
  have "hitbox_ok env (gmem g) hb" using Cons.prems(2) by simp
  from report_hitbox_step [OF Cons.prems(1) this room] obtain g1 where g1: "report_hitbox env hb g = Some g1" "game_inv g1" "gmem g1 = gmem g"
    "seen_hitboxes g1 = insert hb (seen_hitboxes g)"
    "size (s_hitboxes_this_frame g1) \<le> size (s_hitboxes_this_frame g) + (if hb \<in> seen_hitboxes g then 0 else 1)"
    "written g1 = written g @ taken env (offered g) (if hb \<in> seen_hitboxes g then [] else [hitbox_packet (gmem g) hb])"
    "offered g1 = offered g + length (if hb \<in> seen_hitboxes g then [] else [hitbox_packet (gmem g) hb])"
    unfolding Let_def by blast
  have "card (set (hb # hbs) - seen_hitboxes g) = card (set hbs - seen_hitboxes g1) + (if hb \<in> seen_hitboxes g then 0 else 1)"
  proof (cases "hb \<in> seen_hitboxes g")
    case False
    then have "set (hb # hbs) - seen_hitboxes g = insert hb (set hbs - seen_hitboxes g1)" using g1(4) by auto
    then show ?thesis using False g1(4) by simp
  qed (use g1(4) in \<open>simp add: insert_absorb\<close>)
  then have "size (s_hitboxes_this_frame g1) + card (set hbs - seen_hitboxes g1) \<le> 3079" using Cons.prems(3) g1(5) by linarith
  from Cons.IH [OF g1(2) _ this] Cons.prems(2) g1(3) obtain g2 where
    g2: "report_hitboxes env hbs g1 = Some g2"
    "written g2 = written g1 @ taken env (offered g1) (map (hitbox_packet (gmem g)) (firsts (seen_hitboxes g1) hbs))" by auto
  show ?case
  proof (cases "hb \<in> seen_hitboxes g")
    case True
    then have "seen_hitboxes g1 = seen_hitboxes g" using g1(4) by (simp add: insert_absorb)
    then show ?thesis using True g1 g2 by simp
  next
    case False
    then show ?thesis using g1 g2 by simp
  qed
qed simp

lemma start_collisions_facts:
  "gmem (start_collisions env g) = gmem g"
  "test_rpc_flag RPC_FLAG_SEND_COLL_STUFF (start_collisions env g) = test_rpc_flag RPC_FLAG_SEND_COLL_STUFF g"
  "s_hitboxes_this_frame (start_collisions env g) = clear (s_hitboxes_this_frame g)"
proof -
  have "f AND NOT 2 AND 0x10 = f AND 0x10" for f :: u64
  proof -
    have "NOT 2 AND 0x10 = (0x10 :: u64)" by simp
    then show ?thesis by (metis and.assoc)
  qed
  then show "test_rpc_flag RPC_FLAG_SEND_COLL_STUFF (start_collisions env g) = test_rpc_flag RPC_FLAG_SEND_COLL_STUFF g"
    by (simp add: start_collisions_def test_and_clear_rpc_flag_def Let_def report_all_colliders_frame test_rpc_flag_def
      RPC_FLAG_SEND_COLL_STUFF_def RPC_FLAG_SEND_ALL_COLLS_def and.assoc)
qed (simp_all add: start_collisions_def test_and_clear_rpc_flag_def Let_def report_all_colliders_frame)

lemma frame_start_facts:
  assumes "frame_start_collision_actions env g = Some g'"
  shows "gmem g' = gmem g"
    and "test_rpc_flag RPC_FLAG_SEND_COLL_STUFF g' = test_rpc_flag RPC_FLAG_SEND_COLL_STUFF g"
    and "test_rpc_flag RPC_FLAG_SEND_COLL_STUFF g \<Longrightarrow> s_hitboxes_this_frame g' = clear (s_hitboxes_this_frame g)"
proof -
  have flag: "test_rpc_flag RPC_FLAG_SEND_COLL_STUFF (installed_all g) = test_rpc_flag RPC_FLAG_SEND_COLL_STUFF g"
    by (simp add: test_rpc_flag_def)
  from assms show "gmem g' = gmem g"
    and "test_rpc_flag RPC_FLAG_SEND_COLL_STUFF g' = test_rpc_flag RPC_FLAG_SEND_COLL_STUFF g"
    and "test_rpc_flag RPC_FLAG_SEND_COLL_STUFF g \<Longrightarrow> s_hitboxes_this_frame g' = clear (s_hitboxes_this_frame g)"
    using flag by (auto simp: frame_start_cases start_collisions_facts split: if_splits)
qed

text \<open>
  C5. In a frame, the collisions of an area start with a report of each of its hitboxes exactly once,
  in the order of their first appearance in the lists (a packet the hose does not take is lost, and
  not repeated in that frame): for up to 3079 hitboxes and however often a list names one.
\<close>

theorem hitboxes_reported_once:
  assumes "game_inv g" and "test_rpc_flag RPC_FLAG_SEND_COLL_STUFF g" and "area_hitboxes env (gmem g) as = Some hbs"
    and "\<forall>hb \<in> set hbs. hitbox_ok env (gmem g) hb" and "card (set hbs) \<le> 3079" and "frame_start_collision_actions env g = Some g1"
  shows "distinct (firsts {} hbs) \<and> set (firsts {} hbs) = set hbs \<and>
    (\<exists>g'. do_many_collisions env Some as g1 = Some g' \<and>
      written g' = written g1 @ taken env (offered g1)
        ([tag8 ''do_many'', pointer_bytes as, le_bytes 8 (rd 4 (gmem g) (size_add as 0x18))] # map (hitbox_packet (gmem g)) (firsts {} hbs)))"
proof -
  let ?p = "[tag8 ''do_many'', pointer_bytes as, le_bytes 8 (rd 4 (gmem g) (size_add as 0x18))]"
  let ?g2 = "write_packet env ?p g1"
  have mem: "gmem g1 = gmem g" and flag: "test_rpc_flag RPC_FLAG_SEND_COLL_STUFF g1"
    and empty: "s_hitboxes_this_frame g1 = clear (s_hitboxes_this_frame g)" using assms(2) frame_start_facts [OF assms(6)] by simp_all
  have inv: "game_inv ?g2" using frame_start_inv [OF assms(6,1)] by simp
  have "well_formed (s_hitboxes_this_frame g)" using assms(1) by (simp add: game_inv_def)
  then have "seen_hitboxes ?g2 = {}" "size (s_hitboxes_this_frame ?g2) = 0"
    using clear_well_formed [of "s_hitboxes_this_frame g"]
    by (simp_all add: seen_hitboxes_def empty) (simp add: size_def clear_def)
  then obtain g' where "report_hitboxes env hbs ?g2 = Some g'"
    "written g' = written ?g2 @ taken env (offered ?g2) (map (hitbox_packet (gmem ?g2)) (firsts {} hbs))"
    using report_hitboxes_once [OF inv, of hbs env] assms(4,5) mem by auto
  moreover have "report_all_hitboxes env as ?g2 = report_hitboxes env hbs ?g2"
    by (rule report_all_flat) (simp add: mem assms(3))
  ultimately have "do_many_collisions env Some as g1 = Some g'"
    "written g' = written g1 @ taken env (offered g1) (?p # map (hitbox_packet (gmem g)) (firsts {} hbs))"
    by (simp_all add: do_many_collisions_def flag mem write_packet_written)
  then show ?thesis using firsts_distinct [of "{}" hbs] by auto
qed

text \<open>An area whose lists name one hitbox twice and another one once.\<close>

definition words_at :: "(nat \<times> nat) list \<Rightarrow> nat \<Rightarrow> u8" where
  "words_at ws x = (case List.find (\<lambda>(a, v). a \<le> x \<and> x < a + 8) ws of None \<Rightarrow> 0 | Some (a, v) \<Rightarrow> word_of_nat (v div 256 ^ (x - a)))"

definition area_memory :: "nat \<Rightarrow> u8" where
  "area_memory = words_at [(0x40, 0x100), (0x118, 0x200), (0x208, 0x110), (0x210, 0x1000), (0x130, 0x220), (0x228, 0x128),
     (0x230, 0x1000), (0x148, 0x140), (0x160, 0x158), (0x178, 0x2020), (0x184, 0x20), (0x2028, 0x170)]"

lemma area_example: "area_hitboxes open_env area_memory 0 = Some [0x1000, 0x1000, 0x2000]"
  by code_simp

lemma hitboxes_example: "hitbox_ok open_env area_memory 0x1000" "hitbox_ok open_env area_memory 0x2000"
  by code_simp+

theorem hitboxes_reported_once_witness:
  "\<exists>g g'. do_many_collisions open_env Some 0 g = Some g' \<and>
    written g' = written g @ [[tag8 ''do_many'', pointer_bytes 0, le_bytes 8 0], hitbox_packet area_memory 0x1000, hitbox_packet area_memory 0x2000]"
proof -
  let ?g = "(game_init area_memory)\<lparr>gflags := 0x10\<rparr>"
  have g: "game_inv ?g" "test_rpc_flag RPC_FLAG_SEND_COLL_STUFF ?g" "gmem ?g = area_memory"
    by (simp_all add: game_init_inv) (simp_all add: test_rpc_flag_def RPC_FLAG_SEND_COLL_STUFF_def game_init_def)
  have ok: "\<forall>hb \<in> set [0x1000, 0x1000, 0x2000]. hitbox_ok open_env (gmem ?g) hb" unfolding g(3) using hitboxes_example by simp
  have w: "rd 4 area_memory (size_add 0 0x18) = 0" by code_simp
  have "area_hitboxes open_env (gmem ?g) 0 = Some [0x1000, 0x1000, 0x2000]" unfolding g(3) by (rule area_example)
  moreover have "list_all (installable open_env) collision_stubs"
    by (simp add: collision_stubs_def installable_def get_addr_impl_def open_env_def)
  then obtain g1 where g1: "frame_start_collision_actions open_env ?g = Some g1" using g(2) by (simp add: frame_start_cases)
  ultimately obtain g' where
    "do_many_collisions open_env Some 0 g1 = Some g'"
    "written g' = written g1 @ taken open_env (offered g1)
      ([tag8 ''do_many'', pointer_bytes 0, le_bytes 8 0] # map (hitbox_packet area_memory) (firsts {} [0x1000, 0x1000, 0x2000]))"
    using hitboxes_reported_once [OF g(1,2) _ ok _ g1, of 0] unfolding g(3) w by auto
  moreover have "taken open_env n ps = ps" for n ps by (induction ps arbitrary: n) (simp_all add: open_env_def)
  moreover have "hose_takes open_env n k" for n k by (simp add: open_env_def)
  ultimately show ?thesis by (auto intro!: exI)
qed

section \<open>Colliders of the collision grid\<close>

text \<open>What the table holds, as addresses.\<close>

definition tracked :: "game \<Rightarrow> nat set" where
  "tracked g = {p. p < 2 ^ 48 \<and> key_of p \<in> dom (table_map (s_colliders g))}"

lemma key_of_surj: "\<exists>p < 2 ^ 48. key_of p = k"
  by (intro exI [of _ "unat k"]) (use unsigned_less [of k] in \<open>simp add: key_of_def\<close>)

lemma tracked_keys: "key_of ` tracked g = dom (table_map (s_colliders g))"
proof
  show "dom (table_map (s_colliders g)) \<subseteq> key_of ` tracked g"
  proof
    fix k assume k: "k \<in> dom (table_map (s_colliders g))"
    obtain p where "p < 2 ^ 48" "key_of p = k" using key_of_surj by blast
    with k show "k \<in> key_of ` tracked g" unfolding tracked_def by blast
  qed
qed (auto simp: tracked_def)

lemma size_tracked: "well_formed (s_colliders g) \<Longrightarrow> size (s_colliders g) = card (tracked g)"
proof -
  assume "well_formed (s_colliders g)"
  moreover have "card (key_of ` tracked g) = card (tracked g)" by (intro card_image inj_on_key_of) (auto simp: tracked_def)
  ultimately show ?thesis by (simp add: size_card tracked_keys)
qed

text \<open>Every hook but the two of the grid leaves the table alone, and none but the server the flag.\<close>

lemma report_hitbox_frame:
  "report_hitbox env hb g = Some g' \<Longrightarrow> s_colliders g' = s_colliders g \<and> gflags g' = gflags g"
  by (auto simp: report_hitbox_def bind_eq_Some_conv Let_def split: if_splits)

lemma report_hitboxes_frame:
  "report_hitboxes env hbs g = Some g' \<Longrightarrow> s_colliders g' = s_colliders g \<and> gflags g' = gflags g"
  by (induction hbs arbitrary: g) (auto simp: bind_eq_Some_conv dest!: report_hitbox_frame)

lemma report_split_lists_frame:
  "report_split_lists env heads g = Some g' \<Longrightarrow> s_colliders g' = s_colliders g \<and> gflags g' = gflags g"
  by (induction heads arbitrary: g) (auto simp: bind_eq_Some_conv dest!: report_hitboxes_frame)

lemma report_all_hitboxes_frame:
  "report_all_hitboxes env as g = Some g' \<Longrightarrow> s_colliders g' = s_colliders g \<and> gflags g' = gflags g"
  by (auto simp: report_all_hitboxes_def Let_def bind_eq_Some_conv dest!: report_hitboxes_frame report_split_lists_frame)

lemma write_cached_dump_frame:
  "s_colliders (snd (write_cached_dump env e f cs g)) = s_colliders g" "gflags (snd (write_cached_dump env e f cs g)) = gflags g"
  by (simp_all add: write_cached_dump_cases Let_def)

lemma scol_cases:
  assumes "scol_true_outmost env Some p g = Some g'" and "test_rpc_flag RPC_FLAG_SEND_COLL_STUFF g"
  obtains k t x f b g1 where "UInt48 (word_of_nat p) = Some k" and "lookup (s_hashed_scols g) k True = Some (t, x, f)"
    and "write_cached_dump env x f (scol_packet (gmem g) p) (g\<lparr>s_hashed_scols := t\<rparr>) = (b, g1)"
    and "g' = (if b then g1 else write_packet env (scol_unchanged p) g1)"
proof -
  from assms obtain k t x f where a: "UInt48 (word_of_nat p) = Some k" "lookup (s_hashed_scols g) k True = Some (t, x, f)"
    "(case write_cached_dump env x f (scol_packet (gmem g) p) (g\<lparr>s_hashed_scols := t\<rparr>) of
       (b, g1) \<Rightarrow> Some (if b then g1 else write_packet env (scol_unchanged p) g1)) = Some g'"
    by (auto simp: scol_true_outmost_def Let_def bind_eq_Some_conv)
  then show thesis
    using that by (cases "write_cached_dump env x f (scol_packet (gmem g) p) (g\<lparr>s_hashed_scols := t\<rparr>)") auto
qed

lemma scol_frame:
  assumes "scol_true_outmost env Some p g = Some g'"
  shows "s_colliders g' = s_colliders g \<and> gflags g' = gflags g"
proof (cases "test_rpc_flag RPC_FLAG_SEND_COLL_STUFF g")
  case True
  with assms obtain k t x f b g1 where
    "write_cached_dump env x f (scol_packet (gmem g) p) (g\<lparr>s_hashed_scols := t\<rparr>) = (b, g1)"
    "g' = (if b then g1 else write_packet env (scol_unchanged p) g1)" by (rule scol_cases)
  then show ?thesis
    using write_cached_dump_frame [of env x f "scol_packet (gmem g) p" "g\<lparr>s_hashed_scols := t\<rparr>"] by auto
qed (use assms in \<open>simp add: scol_true_outmost_def\<close>)

fun grid_step :: "nat set \<Rightarrow> game_event \<Rightarrow> nat set" where
  "grid_step S (AddCollider p) = insert (p mod 2 ^ 64) S"
| "grid_step S (RemoveCollider p) = S - {p mod 2 ^ 64}"
| "grid_step S e = S"

definition live :: "game_event list \<Rightarrow> nat set" where "live es = foldl grid_step {} es"

fun keeps_flag :: "game_event \<Rightarrow> bool" where
  "keeps_flag (SetFlags f) \<longleftrightarrow> f AND RPC_FLAG_SEND_COLL_STUFF = RPC_FLAG_SEND_COLL_STUFF"
| "keeps_flag e \<longleftrightarrow> True"

abbreviation coll_flag :: "game \<Rightarrow> bool" where "coll_flag \<equiv> test_rpc_flag RPC_FLAG_SEND_COLL_STUFF"

lemma run_event_flag:
  "run_event env e g = Some g' \<Longrightarrow> keeps_flag e \<Longrightarrow> coll_flag g \<Longrightarrow> coll_flag g'"
proof (cases e)
  case (SetFlags f)
  assume "run_event env e g = Some g'" "keeps_flag e"
  with SetFlags show ?thesis by (auto simp: test_rpc_flag_def)
next
  case StartFrame
  assume "run_event env e g = Some g'" "coll_flag g"
  with StartFrame show ?thesis using frame_start_facts(2) by simp
next
  case (Scol p)
  assume "run_event env e g = Some g'" "coll_flag g"
  with Scol show ?thesis using scol_frame [of env p g g'] by (simp add: test_rpc_flag_def)
next
  case (AddCollider p)
  assume "run_event env e g = Some g'" "coll_flag g"
  with AddCollider show ?thesis
    by (auto simp: add_to_collision_grid_def report_normal_collider_def bind_eq_Some_conv test_rpc_flag_def)
next
  case (RemoveCollider p)
  assume "run_event env e g = Some g'" "coll_flag g"
  with RemoveCollider show ?thesis
    by (auto simp: remove_from_collision_grid_def bind_eq_Some_conv test_rpc_flag_def split: if_splits)
next
  case (Collide hb1 hb2 ret)
  assume a: "run_event env e g = Some g'" "coll_flag g"
  with Collide obtain g1 g2 where "report_hitbox env hb1 g = Some g1" "report_hitbox env hb2 g1 = Some g2" "gflags g' = gflags g2"
    by (auto simp: hitbox_collide_def bind_eq_Some_conv)
  then show ?thesis using a(2) report_hitbox_frame [of env hb1 g g1] report_hitbox_frame [of env hb2 g1 g2]
    by (simp add: test_rpc_flag_def)
next
  case (DoMany as)
  assume a: "run_event env e g = Some g'" "coll_flag g"
  with DoMany obtain g1 where "report_all_hitboxes env as g1 = Some g'" "gflags g1 = gflags g"
    by (auto simp: do_many_collisions_def)
  then show ?thesis using a(2) report_all_hitboxes_frame [of env as g1 g'] by (simp add: test_rpc_flag_def)
qed (auto simp: collide_against_twopoint_def collide_against_point_def test_rpc_flag_def split: if_splits)

lemma run_event_colliders:
  assumes "run_event env e g = Some g'" and "\<And>p. e \<noteq> AddCollider p" and "\<And>p. e \<noteq> RemoveCollider p"
  shows "s_colliders g' = s_colliders g"
proof (cases e)
  case (Collide hb1 hb2 ret)
  with assms(1) show ?thesis
    using report_hitbox_frame by (auto simp: hitbox_collide_def bind_eq_Some_conv split: if_splits)
next
  case (DoMany as)
  with assms(1) show ?thesis by (auto simp: do_many_collisions_def split: if_splits dest!: report_all_hitboxes_frame)
next
  case StartFrame
  with assms(1) show ?thesis
    by (auto simp: frame_start_cases start_collisions_def test_and_clear_rpc_flag_def Let_def report_all_colliders_frame split: if_splits)
next
  case (Scol p)
  with assms(1) show ?thesis using scol_frame [of env p g g'] by simp
qed (use assms in \<open>auto simp: collide_against_twopoint_def collide_against_point_def split: if_splits\<close>)

lemma run_event_tracked:
  assumes "run_event env e g = Some g'" and "game_inv g" and "coll_flag g"
    and "card (grid_step (tracked g) e) \<le> 12289"
  shows "tracked g' = grid_step (tracked g) e"
proof -
  have w: "well_formed (s_colliders g)" "capacity (s_colliders g) = 12289" using assms(2) by (simp_all add: game_inv_def)
  have size: "size (s_colliders g) = card (tracked g)" using size_tracked w(1) .
  have fin: "finite (tracked g)" by (simp add: tracked_def finite_subset [of _ "{..<2 ^ 48}"] subsetI)
  consider (add) p where "e = AddCollider p" | (rem) p where "e = RemoveCollider p"
    | (other) "\<And>p. e \<noteq> AddCollider p" "\<And>p. e \<noteq> RemoveCollider p" by blast
  then show ?thesis
  proof cases
    case add
    let ?p = "p mod 2 ^ 64"
    have p: "?p < 2 ^ 48" using run_event_inv [OF assms(1,2)] assms(3) add by simp
    note k = UInt48_key_mod [OF p]
    have "table_map (s_colliders g) (key_of ?p) \<noteq> None \<or> size (s_colliders g) < capacity (s_colliders g)"
    proof (cases "?p \<in> tracked g")
      case False
      then have "card (tracked g) < 12289" using assms(4) add fin by simp
      then show ?thesis using size w(2) by simp
    qed (auto simp: tracked_def)
    from table.touch [OF w(1) this] obtain t x where t: "lookup (s_colliders g) (key_of ?p) True = Some (t, x, table_map (s_colliders g) (key_of ?p) \<noteq> None)"
      "dom (table_map t) = insert (key_of ?p) (dom (table_map (s_colliders g)))" by blast
    have "s_colliders g' = t"
      using assms(1,3) add t(1) by (auto simp: add_to_collision_grid_def k report_normal_collider_def)
    then show ?thesis using add p key_of_inj by (auto simp: tracked_def t(2))
  next
    case rem
    let ?p = "p mod 2 ^ 64"
    have p: "?p < 2 ^ 48" using run_event_inv [OF assms(1,2)] assms(3) rem by simp
    note k = UInt48_key_mod [OF p]
    show ?thesis
    proof (cases "table_map (s_colliders g) (key_of ?p)")
      case None
      have "lookup (s_colliders g) (key_of ?p) False = Some (s_colliders g, 0, False)" by (rule table.missing [OF w(1) None])
      then have "s_colliders g' = s_colliders g"
        using assms(1,3) rem by (auto simp: remove_from_collision_grid_def k)
      moreover have "?p \<notin> tracked g" using None by (auto simp: tracked_def)
      ultimately show ?thesis using rem by (simp add: tracked_def)
    next
      case (Some u)
      obtain x where x: "lookup (s_colliders g) (key_of ?p) False = Some (s_colliders g, x, True)" "0 < x" "x \<le> size (s_colliders g)"
        "ky (s_colliders g) x = key_of ?p" using table.found [OF w(1) Some] by blast
      obtain t where t: "remove (s_colliders g) x = Some t" "table_map t = (table_map (s_colliders g))(key_of ?p := None)"
        using table.deleted [OF w(1) x(2,3)] x(4) by auto
      have "s_colliders g' = t"
        using assms(1,3) rem x(1,2) t(1) by (auto simp: remove_from_collision_grid_def k)
      then show ?thesis using rem p key_of_inj by (auto simp: tracked_def t(2) split: if_splits)
    qed
  next
    case other
    then have "s_colliders g' = s_colliders g" by (rule run_event_colliders [OF assms(1)])
    moreover have "grid_step (tracked g) e = tracked g" using other by (cases e) auto
    ultimately show ?thesis by (simp add: tracked_def)
  qed
qed

lemma run_events_tracked:
  assumes "run_events env es g = Some g'" and "game_inv g" and "coll_flag g"
    and "\<forall>e \<in> set es. keeps_flag e" and "\<forall>n. card (foldl grid_step (tracked g) (take n es)) \<le> 12289"
  shows "game_inv g' \<and> coll_flag g' \<and> tracked g' = foldl grid_step (tracked g) es"
  using assms
proof (induction es arbitrary: g)
  case (Cons e es)
  then obtain g1 where g1: "run_event env e g = Some g1" "run_events env es g1 = Some g'"
    by (auto simp: bind_eq_Some_conv)
  have inv: "game_inv g1" using run_event_inv [OF g1(1) Cons.prems(2)] by simp
  have flag: "coll_flag g1" using run_event_flag [OF g1(1)] Cons.prems(3,4) by simp
  have "card (grid_step (tracked g) e) \<le> 12289" using Cons.prems(5) [THEN spec, of 1] by simp
  then have tr: "tracked g1 = grid_step (tracked g) e" by (rule run_event_tracked [OF g1(1) Cons.prems(2,3)])
  have "card (foldl grid_step (tracked g1) (take n es)) \<le> 12289" for n
    using Cons.prems(5) [THEN spec, of "Suc n"] tr by simp
  with Cons.IH [OF g1(2) inv flag] Cons.prems(4) show ?case by (simp add: tr)
qed simp

text \<open>The report of all colliders: one packet for each entry of the table.\<close>

lemma collider_addresses:
  assumes "well_formed (s_colliders g)"
  shows "distinct (map collider_address (begin_end (s_colliders g))) \<and> set (map collider_address (begin_end (s_colliders g))) = tracked g"
proof -
  let ?es = "begin_end (s_colliders g)"
  have addr: "collider_address e < 2 ^ 48 \<and> key_of (collider_address e) = key e" for e :: "unit entry"
  proof -
    have u: "unat (key e) < 2 ^ 48" by (rule order_less_le_trans [OF unsigned_less]) simp
    then have "take_bit 64 (unat (key e)) = unat (key e)" by (intro take_bit_nat_eq_self) simp
    with u show ?thesis by (simp add: collider_address_def UInt48_to_u64_def key_of_def unsigned_ucast_eq)
  qed
  have keys: "map fst (kvs (s_colliders g)) = map key ?es" by (simp add: kvs_def comp_def)
  have "distinct (map key ?es)" using kvs_facts(2) [OF assms] by (simp only: keys)
  moreover have "map key ?es = map key_of (map collider_address ?es)" using addr by simp
  ultimately have "distinct (map key_of (map collider_address ?es))" by metis
  then have d: "distinct (map collider_address ?es)" by (auto simp: distinct_map intro: inj_on_imageI2)
  have "dom (table_map (s_colliders g)) = key ` set ?es"
    by (simp add: table_map_def dom_map_of_conv_image_fst image_image)
  then have "set (map collider_address ?es) = tracked g"
    using addr key_of_inj by (auto simp: tracked_def image_iff) metis
  with d show ?thesis by blast
qed

lemma report_colliders_written:
  "written (fold (\<lambda>e. report_normal_collider env (collider_address e) ''normco*'') es g) =
     written g @ taken env (offered g) (map (\<lambda>e. normal_collider_packet (gmem g) (collider_address e) ''normco*'') es)"
proof (induction es arbitrary: g)
  case (Cons e es)
  then show ?case by (simp add: report_normal_collider_def write_packet_written)
qed simp

text \<open>
  C6. In a run that starts with the collision events on and empty tables, that keeps them on all
  the time, and in which at no time more than 12289 colliders are in the grid (the capacity of the
  table), the table of colliders holds exactly those that were added to the collision grid and
  not removed since; and a request for all of them gives one announcement and then one packet for each,
  none twice. (\<open>removed_collider_reported\<close> is what goes wrong when the events are off for a while. The frame
  fails only when it has to install the hooks and cannot.)
\<close>

theorem colliders_tracked:
  assumes "run_events env es g0 = Some g" and "g0 = (game_init mem)\<lparr>gflags := f\<rparr>" and "coll_flag g0"
    and "\<forall>e \<in> set es. keeps_flag e" and "\<forall>n. card (live (take n es)) \<le> 12289"
  shows "tracked g = live es \<and>
    (gflags g AND RPC_FLAG_SEND_ALL_COLLS = RPC_FLAG_SEND_ALL_COLLS \<longrightarrow>
      (\<exists>ps. distinct ps \<and> set ps = live es \<and>
        (case frame_start_collision_actions env g of
           None \<Rightarrow> \<not> installed g \<and> \<not> list_all (installable env) collision_stubs
         | Some g' \<Rightarrow> written g' = written g @ taken env (offered g)
             ([tag8 ''allcols''] # map (\<lambda>p. normal_collider_packet (gmem g) p ''normco*'') ps))))"
proof -
  have inv: "game_inv g0" using assms(2) game_init_inv by simp
  have "tracked g0 = {}"
    using empty_table_well_formed [of 12289 12289 "()"] by (simp add: assms(2) tracked_def game_init_def)
  then have tr: "tracked g = live es" and w: "well_formed (s_colliders g)" and flag: "coll_flag g"
    using run_events_tracked [OF assms(1) inv assms(3,4)] assms(5) by (simp_all add: live_def game_inv_def)
  let ?ps = "map collider_address (begin_end (s_colliders g))"
  let ?w = "written g @ taken env (offered g) ([tag8 ''allcols''] # map (\<lambda>p. normal_collider_packet (gmem g) p ''normco*'') ?ps)"
  have "written (start_collisions env (installed_all g)) = ?w"
    if "gflags g AND RPC_FLAG_SEND_ALL_COLLS = RPC_FLAG_SEND_ALL_COLLS"
    using that by (simp add: start_collisions_def test_and_clear_rpc_flag_def Let_def report_all_colliders_def
        report_colliders_written write_packet_written comp_def)
  then have "case frame_start_collision_actions env g of
      None \<Rightarrow> \<not> installed g \<and> \<not> list_all (installable env) collision_stubs | Some g' \<Rightarrow> written g' = ?w"
    if "gflags g AND RPC_FLAG_SEND_ALL_COLLS = RPC_FLAG_SEND_ALL_COLLS"
    using that flag by (simp only: frame_start_cases) simp
  with collider_addresses [OF w] show ?thesis unfolding tr by blast
qed

theorem colliders_tracked_witness:
  "\<exists>g. run_events open_env [AddCollider 0x3000, AddCollider 0x4000, RemoveCollider 0x3000] ((game_init (\<lambda>_. 0))\<lparr>gflags := 0x10\<rparr>) = Some g \<and>
    tracked g = {0x4000}"
proof -
  let ?es = "[AddCollider 0x3000, AddCollider 0x4000, RemoveCollider 0x3000]" and ?g0 = "(game_init (\<lambda>_. 0))\<lparr>gflags := 0x10\<rparr>"
  have flag: "coll_flag ?g0" by (simp add: test_rpc_flag_def RPC_FLAG_SEND_COLL_STUFF_def)
  have total: "\<exists>g'. run_event open_env e g = Some g' \<and> game_inv g'" if "e \<in> set ?es" "game_inv g" for e g
    by (rule run_event_total) (use that in auto)
  have inv: "game_inv ?g0" using game_init_inv by simp
  obtain g1 where g1: "run_event open_env (AddCollider 0x3000) ?g0 = Some g1" "game_inv g1" using total [OF _ inv, of "AddCollider 0x3000"] by (auto simp del: run_event.simps)
  obtain g2 where g2: "run_event open_env (AddCollider 0x4000) g1 = Some g2" "game_inv g2" using total [OF _ g1(2), of "AddCollider 0x4000"] by (auto simp del: run_event.simps)
  obtain g where "run_event open_env (RemoveCollider 0x3000) g2 = Some g" using total [OF _ g2(2), of "RemoveCollider 0x3000"] by (auto simp del: run_event.simps)
  with g1 g2 have g: "run_events open_env ?es ?g0 = Some g" by (simp del: run_event.simps)
  have "card (live (take n ?es)) \<le> 12289" for n
  proof -
    have "card (live (take n es)) \<le> length es" for es :: "game_event list"
    proof -
      have "finite (foldl grid_step S xs) \<and> card (foldl grid_step S xs) \<le> card S + length xs" if "finite S" for S :: "nat set" and xs
        using that
      proof (induction xs arbitrary: S)
        case (Cons e xs)
        have "finite (grid_step S e) \<and> card (grid_step S e) \<le> card S + 1"
          using Cons.prems by (cases e) (auto simp: card_insert_if card_Diff1_le le_SucI)
        with Cons.IH [of "grid_step S e"] show ?case by auto
      qed simp
      from this [of "{}" "take n es"] show ?thesis by (simp add: live_def)
    qed
    from this [of ?es] show ?thesis by simp
  qed
  with colliders_tracked [OF g refl flag] have "tracked g = live ?es" by simp
  moreover have "live ?es = {0x4000}" by (auto simp: live_def)
  ultimately show ?thesis using g by blast
qed

lemma singleton_list: "set xs = {x} \<Longrightarrow> distinct xs \<Longrightarrow> xs = [x]"
  by (cases xs; cases "tl xs") auto

text \<open>
  The removal hook does nothing while the collision events are switched off, so a collider that
  is removed then stays in the table: when they are switched on again and all colliders are asked
  for, its packet is built from whatever the memory of the removed object holds.
\<close>

theorem removed_collider_reported:
  assumes "p < 2 ^ 48" and "\<And>n k. hose_takes env n k" and "list_all (installable env) collision_stubs"
  shows "\<exists>g. run_events env [SetFlags 0x10, AddCollider p, SetFlags 0, RemoveCollider p, GameMemory mem', SetFlags 0x12, StartFrame] (game_init mem) = Some g \<and>
    last (written g) = normal_collider_packet mem' p ''normco*''"
proof -
  let ?g1 = "(game_init mem)\<lparr>gflags := 0x10\<rparr>"
  have inv: "game_inv ?g1" and flag: "coll_flag ?g1" and none: "tracked ?g1 = {}"
    using empty_table_well_formed [of 12289 12289 "()"] game_init_inv
    by (simp_all add: test_rpc_flag_def RPC_FLAG_SEND_COLL_STUFF_def) (simp add: tracked_def game_init_def)
  obtain g2 where g2: "run_event env (AddCollider p) ?g1 = Some g2" "game_inv g2"
    using run_event_total [OF inv, of env "AddCollider p"] assms(1) by auto
  have tr: "tracked g2 = {p}"
    using run_event_tracked [OF g2(1) inv flag] assms(1) none by simp
  let ?g3 = "g2\<lparr>gmem := mem', gflags := 0x12\<rparr>"
  have w: "well_formed (s_colliders g2)" using g2(2) by (simp add: game_inv_def)
  have "set (map collider_address (begin_end (s_colliders g2))) = {p}" "distinct (map collider_address (begin_end (s_colliders g2)))"
    using collider_addresses [OF w] tr by simp_all
  then have ps: "map collider_address (begin_end (s_colliders g2)) = [p]"
    by (rule singleton_list)
  let ?g4 = "start_collisions env (installed_all ?g3)"
  have "run_events env [SetFlags 0x10, AddCollider p, SetFlags 0, RemoveCollider p, GameMemory mem', SetFlags 0x12, StartFrame] (game_init mem) = Some ?g4"
    using g2(1) assms(3)
    by (simp add: remove_from_collision_grid_def test_rpc_flag_def RPC_FLAG_SEND_COLL_STUFF_def frame_start_cases del: run_event.simps(5))
  moreover have "last (written ?g4) = normal_collider_packet mem' p ''normco*''"
  proof -
    have es: "map (\<lambda>e. normal_collider_packet mem' (collider_address e) ''normco*'') (begin_end (s_colliders g2)) =
        [normal_collider_packet mem' p ''normco*'']"
      using arg_cong [OF ps, of "map (\<lambda>p. normal_collider_packet mem' p ''normco*'')"] by (simp add: comp_def)
    show ?thesis
      by (simp add: start_collisions_def test_and_clear_rpc_flag_def Let_def report_all_colliders_def
        RPC_FLAG_SEND_ALL_COLLS_def report_colliders_written write_packet_written assms(2) es)
  qed
  ultimately show ?thesis by blast
qed

lemma open_env_installable: "list_all (installable open_env) collision_stubs"
  by (simp add: collision_stubs_def installable_def get_addr_impl_def open_env_def)

theorem removed_collider_reported_witness:
  "\<exists>g. run_events open_env [SetFlags 0x10, AddCollider 0x3000, SetFlags 0, RemoveCollider 0x3000, GameMemory (\<lambda>_. 7), SetFlags 0x12, StartFrame] (game_init (\<lambda>_. 0)) = Some g \<and>
    last (written g) = normal_collider_packet (\<lambda>_. 7) 0x3000 ''normco*''"
  by (rule removed_collider_reported) (simp_all add: open_env_installable, simp add: open_env_def)

section \<open>Dumps of moving colliders\<close>

text \<open>
  What a client that listens has of an object: its last dump since the last announcement that all
  colliders are sent again.
\<close>

definition client_step :: "nat \<Rightarrow> bytes option \<Rightarrow> bytes list \<Rightarrow> bytes option" where
  "client_step p d pk =
     (if pk = [tag8 ''allcols''] then None
      else case pk of t # q # rest \<Rightarrow> if t = tag8 ''scolcol'' \<and> q = pointer_bytes p then Some (concat pk) else d | _ \<Rightarrow> d)"

definition client_dump :: "nat \<Rightarrow> bytes list list \<Rightarrow> bytes option" where
  "client_dump p pks = foldl (client_step p) None pks"

definition neutral :: "bytes list \<Rightarrow> bool" where
  "neutral pk \<longleftrightarrow> (\<exists>t q rest. pk = t # q # rest \<and> t \<noteq> tag8 ''scolcol'')"

lemma client_dump_append: "client_dump p (a @ b) = foldl (client_step p) (client_dump p a) b"
  by (simp add: client_dump_def)

lemma neutral_step: "neutral pk \<Longrightarrow> client_step p d pk = d"
  by (auto simp: neutral_def client_step_def)

lemma neutral_steps: "\<forall>pk \<in> set pks. neutral pk \<Longrightarrow> foldl (client_step p) d pks = d"
  by (induction pks arbitrary: d) (auto simp: neutral_step)

lemma tags_differ:
  "tag8 ''hitbox'' \<noteq> tag8 ''scolcol''" "tag8 ''collisi'' \<noteq> tag8 ''scolcol''" "tag8 ''do_many'' \<noteq> tag8 ''scolcol''"
  "tag8 ''bgcol2p'' \<noteq> tag8 ''scolcol''" "tag8 ''bgcol1p'' \<noteq> tag8 ''scolcol''" "tag8 ''normco+'' \<noteq> tag8 ''scolcol''"
  "tag8 ''normco-'' \<noteq> tag8 ''scolcol''" "tag8 ''normco*'' \<noteq> tag8 ''scolcol''" "tag8 ''scolco~'' \<noteq> tag8 ''scolcol''"
  by code_simp+

text \<open>Two packets of another kind, and only such, leave the dumps alone.\<close>

definition adds_neutral :: "game \<Rightarrow> game \<Rightarrow> bool" where
  "adds_neutral g g' \<longleftrightarrow> s_hashed_scols g' = s_hashed_scols g \<and>
     (\<exists>pks. written g' = written g @ pks \<and> (\<forall>pk \<in> set pks. neutral pk))"

lemma adds_neutral_refl: "s_hashed_scols g' = s_hashed_scols g \<Longrightarrow> written g' = written g \<Longrightarrow> adds_neutral g g'"
  by (simp add: adds_neutral_def)

lemma adds_neutral_trans:
  assumes "adds_neutral g g'" and "adds_neutral g' g''"
  shows "adds_neutral g g''"
proof -
  from assms obtain a b where "written g' = written g @ a" "\<forall>pk \<in> set a. neutral pk" "written g'' = written g' @ b" "\<forall>pk \<in> set b. neutral pk"
    unfolding adds_neutral_def by blast
  then have "written g'' = written g @ (a @ b)" "\<forall>pk \<in> set (a @ b). neutral pk" by auto
  with assms show ?thesis unfolding adds_neutral_def by metis
qed

lemma write_neutral: "neutral pk \<Longrightarrow> s_hashed_scols g' = s_hashed_scols g \<Longrightarrow> written g' = written g \<Longrightarrow> adds_neutral g (write_packet env pk g')"
  by (simp add: adds_neutral_def write_packet_written)

lemma neutral_tag: "t \<noteq> tag8 ''scolcol'' \<Longrightarrow> neutral (t # q # rest)"
  by (simp add: neutral_def)

lemma report_hitbox_neutral:
  assumes "report_hitbox env hb g = Some g'"
  shows "adds_neutral g g'"
proof -
  from assms obtain t where "g' = g\<lparr>s_hitboxes_this_frame := t\<rparr> \<or> g' = write_packet env (hitbox_packet (gmem g) hb) (g\<lparr>s_hitboxes_this_frame := t\<rparr>)"
    by (auto simp: report_hitbox_def bind_eq_Some_conv Let_def split: if_splits)
  moreover have "neutral (hitbox_packet (gmem g) hb)" unfolding hitbox_packet_def by (rule neutral_tag) (rule tags_differ)
  ultimately show ?thesis using adds_neutral_refl write_neutral by auto
qed

lemma report_hitboxes_neutral: "report_hitboxes env hbs g = Some g' \<Longrightarrow> adds_neutral g g'"
  by (induction hbs arbitrary: g)
    (auto simp: bind_eq_Some_conv intro: adds_neutral_refl adds_neutral_trans dest!: report_hitbox_neutral)

lemma report_split_lists_neutral: "report_split_lists env heads g = Some g' \<Longrightarrow> adds_neutral g g'"
  by (induction heads arbitrary: g)
    (auto simp: bind_eq_Some_conv intro: adds_neutral_refl adds_neutral_trans dest!: report_hitboxes_neutral)

lemma report_all_hitboxes_neutral: "report_all_hitboxes env as g = Some g' \<Longrightarrow> adds_neutral g g'"
  by (auto simp: report_all_hitboxes_def Let_def bind_eq_Some_conv intro: adds_neutral_trans
      dest!: report_hitboxes_neutral report_split_lists_neutral)

lemma start_collisions_dumps:
  assumes "game_inv g"
  shows "adds_neutral g (start_collisions env g) \<or> table_map (s_hashed_scols (start_collisions env g)) = Map.empty"
proof (cases "gflags g AND RPC_FLAG_SEND_ALL_COLLS = RPC_FLAG_SEND_ALL_COLLS")
  case True
  have "well_formed (s_hashed_scols g)" using assms by (simp add: game_inv_def)
  then have "table_map (clear (s_hashed_scols g)) = Map.empty" using clear_well_formed by blast
  with True show ?thesis
    by (simp add: start_collisions_def test_and_clear_rpc_flag_def Let_def report_all_colliders_frame)
next
  case False
  then show ?thesis
    by (intro disjI1 adds_neutral_refl) (auto simp: start_collisions_def test_and_clear_rpc_flag_def Let_def)
qed

lemma frame_start_dumps:
  assumes "frame_start_collision_actions env g = Some g'" and "game_inv g"
  shows "adds_neutral g g' \<or> table_map (s_hashed_scols g') = Map.empty"
proof (cases "coll_flag g")
  case True
  then have g': "g' = start_collisions env (installed_all g)" using assms(1) by (auto simp: frame_start_cases split: if_splits)
  have n: "adds_neutral g (installed_all g)" by (simp add: adds_neutral_refl)
  have "game_inv (installed_all g)" using assms(2) by simp
  from start_collisions_dumps [OF this, of env] show ?thesis using adds_neutral_trans [OF n] unfolding g' by blast
next
  case False
  with assms(1) show ?thesis by (simp add: frame_start_cases adds_neutral_refl)
qed

lemma run_event_dumps:
  assumes "run_event env e g = Some g'" and "game_inv g" and "\<And>p. e \<noteq> Scol p"
  shows "adds_neutral g g' \<or> table_map (s_hashed_scols g') = Map.empty"
proof (cases e)
  case (Collide hb1 hb2 ret)
  show ?thesis
  proof (cases "coll_flag g")
    case True
    with assms(1) Collide obtain g1 g2 where "report_hitbox env hb1 g = Some g1" "report_hitbox env hb2 g1 = Some g2"
      "g' = write_packet env [tag8 ''collisi'', pointer_bytes hb1, pointer_bytes hb2, le_bytes 8 ret] g2"
      by (auto simp: hitbox_collide_def bind_eq_Some_conv)
    moreover from this have "adds_neutral g2 g'" by (simp add: write_neutral neutral_tag tags_differ)
    ultimately show ?thesis by (blast intro: adds_neutral_trans report_hitbox_neutral)
  qed (use assms(1) Collide in \<open>simp add: hitbox_collide_def adds_neutral_refl\<close>)
next
  case (DoMany as)
  show ?thesis
  proof (cases "coll_flag g")
    case True
    with assms(1) DoMany obtain c where
      "report_all_hitboxes env as (write_packet env (tag8 ''do_many'' # pointer_bytes as # c) g) = Some g'"
      by (auto simp: do_many_collisions_def)
    moreover have "adds_neutral g (write_packet env (tag8 ''do_many'' # pointer_bytes as # c) g)"
      by (simp add: write_neutral neutral_tag tags_differ)
    ultimately show ?thesis by (blast intro: adds_neutral_trans report_all_hitboxes_neutral)
  qed (use assms(1) DoMany in \<open>simp add: do_many_collisions_def adds_neutral_refl\<close>)
next
  case (AddCollider p)
  show ?thesis
  proof (cases "coll_flag g")
    case True
    have "neutral (normal_collider_packet m p ''normco+'')" for m
      unfolding normal_collider_packet_def by (rule neutral_tag) (rule tags_differ)
    with assms(1) AddCollider True show ?thesis
      by (auto simp: add_to_collision_grid_def report_normal_collider_def bind_eq_Some_conv write_neutral)
  qed (use assms(1) AddCollider in \<open>simp add: add_to_collision_grid_def adds_neutral_refl\<close>)
next
  case (RemoveCollider p)
  have "neutral [tag8 ''normco-'', pointer_bytes p]" by (rule neutral_tag) (rule tags_differ)
  with assms(1) RemoveCollider show ?thesis
    by (auto simp: remove_from_collision_grid_def bind_eq_Some_conv Let_def write_neutral adds_neutral_refl split: if_splits)
next
  case StartFrame
  with assms(1) frame_start_dumps [OF _ assms(2)] show ?thesis by simp
next
  case (TwoPoint ctx cp xy1 xy2 shp e1 e2 ret)
  then show ?thesis using assms(1)
    by (auto simp: collide_against_twopoint_def write_neutral neutral_tag tags_differ adds_neutral_refl split: if_splits)
next
  case (OnePoint ctx bic xy e1 e2 ret)
  then show ?thesis using assms(1)
    by (auto simp: collide_against_point_def write_neutral neutral_tag tags_differ adds_neutral_refl split: if_splits)
qed (use assms in \<open>auto intro: adds_neutral_refl\<close>)

definition cache_ok :: "game_env \<Rightarrow> game \<Rightarrow> bool" where
  "cache_ok env g \<longleftrightarrow> (\<forall>p < 2 ^ 48. \<forall>h. table_map (s_hashed_scols g) (key_of p) = Some h \<longrightarrow>
     (\<exists>b. client_dump p (written g) = Some b \<and> XXH3_64bits env b = h))"

lemma cache_ok_neutral: "cache_ok env g \<Longrightarrow> adds_neutral g g' \<Longrightarrow> cache_ok env g'"
  by (auto simp: cache_ok_def adds_neutral_def client_dump_append neutral_steps)

lemma pointer_bytes_inj: "p < 2 ^ 48 \<Longrightarrow> q < 2 ^ 48 \<Longrightarrow> pointer_bytes p = pointer_bytes q \<longleftrightarrow> p = q"
proof
  assume "p < 2 ^ 48" "q < 2 ^ 48" and "pointer_bytes p = pointer_bytes q"
  then have "le_value (pointer_bytes p) = le_value (pointer_bytes q)" by simp
  then show "p = q" using \<open>p < 2 ^ 48\<close> \<open>q < 2 ^ 48\<close> by (simp add: pointer_bytes_def le_value_le_bytes)
qed simp

lemma pointer_bytes_mod: "pointer_bytes (p mod 2 ^ 64) = pointer_bytes p"
  using le_bytes_le_value [of "le_bytes 8 p"] by (simp add: pointer_bytes_def le_value_le_bytes)

lemma client_step_scol:
  assumes "p mod 2 ^ 64 < 2 ^ 48" and "q < 2 ^ 48"
  shows "client_step q d (scol_packet mem p) = (if q = p mod 2 ^ 64 then Some (concat (scol_packet mem p)) else d)"
proof -
  have "pointer_bytes p = pointer_bytes q \<longleftrightarrow> q = p mod 2 ^ 64"
    using pointer_bytes_inj [OF assms] unfolding pointer_bytes_mod by blast
  then show ?thesis by (auto simp only: client_step_def scol_packet_def list.simps split: if_splits)
qed

text \<open>One dump: the client has an object with the current hash, and the cache knows only what the client has.\<close>

lemma scol_step:
  assumes "run_event env (Scol p) g = Some g'" and "game_inv g" and "coll_flag g" and "cache_ok env g"
    and takes: "\<And>n k. hose_takes env n k"
  shows "cache_ok env g' \<and> (\<exists>b. client_dump (p mod 2 ^ 64) (written g') = Some b \<and> XXH3_64bits env b = XXH3_64bits env (concat (scol_packet (gmem g) p)))"
proof -
  let ?p = "p mod 2 ^ 64"
  have p: "?p < 2 ^ 48" using run_event_inv [OF assms(1,2)] assms(3) by simp
  let ?h = "XXH3_64bits env (concat (scol_packet (gmem g) p))"
  have w: "well_formed (s_hashed_scols g)" using assms(2) by (simp add: game_inv_def)
  have "scol_true_outmost env Some p g = Some g'" using assms(1) by simp
  then obtain k t x f b g1 where k: "UInt48 (word_of_nat p) = Some k" and t: "lookup (s_hashed_scols g) k True = Some (t, x, f)"
    and c: "write_cached_dump env x f (scol_packet (gmem g) p) (g\<lparr>s_hashed_scols := t\<rparr>) = (b, g1)"
    and g': "g' = (if b then g1 else write_packet env (scol_unchanged p) g1)" using assms(3) by (rule scol_cases)
  have kp: "k = key_of ?p" using k UInt48_key_mod [OF p] by simp
  have unch: "neutral (scol_unchanged p)" unfolding scol_unchanged_def by (rule neutral_tag) (rule tags_differ)
  obtain t' where t': "(if x \<noteq> 0 then set_value t x ?h else t) = t'" by blast
  have g1: "if f \<and> vl t x = ?h then \<not> b \<and> written g1 = written g \<and> s_hashed_scols g1 = t'
            else b \<and> written g1 = written g @ [scol_packet (gmem g) p] \<and> s_hashed_scols g1 = t'"
    using c takes t' by (auto simp: write_cached_dump_cases Let_def split: if_splits)
  have map: "(x \<noteq> 0 \<longrightarrow> table_map t' = (table_map (s_hashed_scols g))(k \<mapsto> ?h)) \<and> (x = 0 \<longrightarrow> \<not> f \<and> table_map t' = table_map (s_hashed_scols g) \<and> table_map t' k = None) \<and>
      (f \<longrightarrow> table_map (s_hashed_scols g) k = Some (vl t x))"
  proof (cases "table_map (s_hashed_scols g) k")
    case (Some v)
    from table.found [OF w Some, of True] t have "t = s_hashed_scols g" "0 < x" "x \<le> size t" "ky t x = k" "vl t x = v" by auto
    then show ?thesis using table.assigned [OF w, of x ?h] Some t' by auto
  next
    case None
    show ?thesis
    proof (cases "size (s_hashed_scols g) = capacity (s_hashed_scols g)")
      case True
      with table.full [OF w None] t t' None show ?thesis by auto
    next
      case False
      then have "size (s_hashed_scols g) < capacity (s_hashed_scols g)" using table.count_le [OF w] by simp
      from table.inserted [OF w None this] t have i: "\<not> f" "well_formed t" "0 < x" "x \<le> size t" "ky t x = k"
        "\<forall>k'. k' \<noteq> k \<longrightarrow> table_map t k' = table_map (s_hashed_scols g) k'" by auto
      have "table_map t' = (table_map t)(k \<mapsto> ?h)" using table.assigned [OF i(2,3,4), of ?h] i(3,5) t' by auto
      also have "\<dots> = (table_map (s_hashed_scols g))(k \<mapsto> ?h)" using i(6) by auto
      finally show ?thesis using i by auto
    qed
  qed
  show ?thesis
  proof (cases "f \<and> vl t x = ?h")
    case True
    then have g1': "\<not> b" "written g1 = written g" "s_hashed_scols g1 = t'" using g1 by simp_all
    have same: "table_map t' = table_map (s_hashed_scols g)" "table_map t' k = Some ?h" using True map by auto
    have "adds_neutral (g\<lparr>s_hashed_scols := t'\<rparr>) g'" using g1' g' unch by (simp add: write_neutral)
    moreover have "cache_ok env (g\<lparr>s_hashed_scols := t'\<rparr>)" using assms(4) same(1) by (simp add: cache_ok_def)
    ultimately have ok: "cache_ok env g'" by (rule cache_ok_neutral [rotated])
    have "table_map (s_hashed_scols g') (key_of ?p) = Some ?h" using same(2) g1' g' kp by simp
    with ok p show ?thesis by (auto simp: cache_ok_def)
  next
    case False
    then have g1': "b" "written g1 = written g @ [scol_packet (gmem g) p]" "s_hashed_scols g1 = t'" using g1 by simp_all
    then have wr: "written g' = written g @ [scol_packet (gmem g) p]" "s_hashed_scols g' = t'" using g' by simp_all
    have dump: "client_dump q (written g') = (if q = ?p then Some (concat (scol_packet (gmem g) p)) else client_dump q (written g))"
      if "q < 2 ^ 48" for q
      by (simp add: wr(1) client_dump_append client_step_scol [OF p that])
    have "\<exists>b. client_dump q (written g') = Some b \<and> XXH3_64bits env b = h"
      if q: "q < 2 ^ 48" "table_map (s_hashed_scols g') (key_of q) = Some h" for q h
    proof (cases "q = ?p")
      case True
      then show ?thesis using q map dump [OF q(1)] kp wr(2) by (cases "x = 0") auto
    next
      case False
      then have "key_of q \<noteq> k" using kp key_of_inj q(1) p by simp
      then have "table_map (s_hashed_scols g) (key_of q) = Some h" using map q(2) wr(2) by (cases "x = 0") auto
      then show ?thesis using assms(4) q(1) dump [OF q(1)] False by (auto simp: cache_ok_def)
    qed
    then have "cache_ok env g'" by (simp add: cache_ok_def)
    then show ?thesis using dump [OF p] by simp
  qed
qed

lemma run_events_cache:
  assumes "run_events env es g = Some g'" and "game_inv g" and "cache_ok env g" and "\<And>n k. hose_takes env n k"
  shows "game_inv g' \<and> cache_ok env g'"
  using assms(1-3)
proof (induction es arbitrary: g)
  case (Cons e es)
  then obtain g1 where g1: "run_event env e g = Some g1" "run_events env es g1 = Some g'"
    by (auto simp: bind_eq_Some_conv)
  have inv: "game_inv g1" using run_event_inv [OF g1(1) Cons.prems(2)] by simp
  have "cache_ok env g1"
  proof (cases "\<exists>p. e = Scol p \<and> coll_flag g")
    case True
    then show ?thesis using scol_step [of env _ g g1] g1(1) Cons.prems(2,3) assms(4) by auto
  next
    case False
    have "adds_neutral g g1 \<or> table_map (s_hashed_scols g1) = Map.empty"
    proof (cases "\<exists>p. e = Scol p")
      case True
      with False g1(1) have "g1 = g" by (auto simp: scol_true_outmost_def)
      then show ?thesis by (simp add: adds_neutral_refl)
    next
      case False
      then show ?thesis using run_event_dumps [OF g1(1) Cons.prems(2)] by blast
    qed
    then show ?thesis using Cons.prems(3) cache_ok_neutral by (auto simp: cache_ok_def)
  qed
  with Cons.IH g1 inv show ?case by simp
qed simp

text \<open>
  C4. As long as the hose takes the packets, a client is up to date about every moving collider after
  the hook ran for it: the last dump the client got since all were announced again has the hash of
  the object's present dump, whether the hook sent the dump again, said that it is unchanged, or had
  no room in its table of hashes.
\<close>

theorem scol_client_current:
  assumes "run_events env es (game_init mem) = Some g"
    and "run_event env (Scol p) g = Some g'" and "p < 2 ^ 48" and "coll_flag g" and "\<And>n k. hose_takes env n k"
  shows "\<exists>b. client_dump p (written g') = Some b \<and> XXH3_64bits env b = XXH3_64bits env (concat (scol_packet (gmem g) p))"
proof -
  have "cache_ok env (game_init mem)"
    using empty_table_well_formed [of 3079 3079 "0 :: u64"] by (simp add: cache_ok_def game_init_def)
  from run_events_cache [OF assms(1) game_init_inv this assms(5)]
  have "game_inv g" "cache_ok env g" by simp_all
  from scol_step [OF assms(2) this(1) assms(4) this(2) assms(5)] show ?thesis using assms(3) by simp
qed

theorem scol_client_current_witness:
  "\<exists>g g' b. run_events open_env [SetFlags 0x10] (game_init (\<lambda>_. 0)) = Some g \<and> run_event open_env (Scol 0x3000) g = Some g' \<and>
    client_dump 0x3000 (written g') = Some b \<and> XXH3_64bits open_env b = XXH3_64bits open_env (concat (scol_packet (\<lambda>_. 0) 0x3000))"
proof -
  let ?g = "(game_init (\<lambda>_. 0))\<lparr>gflags := 0x10\<rparr>"
  have r: "run_events open_env [SetFlags 0x10] (game_init (\<lambda>_. 0)) = Some ?g"
    by simp
  have flag: "coll_flag ?g" by (simp add: test_rpc_flag_def RPC_FLAG_SEND_COLL_STUFF_def)
  obtain g' where g': "run_event open_env (Scol 0x3000) ?g = Some g'"
    using run_event_total [of ?g open_env "Scol 0x3000"] game_init_inv by auto
  have "gmem ?g = (\<lambda>_. 0)" by (simp add: game_init_def)
  then show ?thesis using scol_client_current [OF r g' _ flag] r g' by (auto simp: open_env_def)
qed

text \<open>
  A dump that the hose does not take leaves a fresh entry with the value its slot held before, so
  after the table is cleared an unchanged object that was dumped before can be reported as unchanged
  to a client that never got its dump: here the third packet does not fit.
\<close>

theorem scol_cache_stale:
  assumes "p < 2 ^ 48" and "\<And>n k. hose_takes env n k \<longleftrightarrow> n \<noteq> 2" and "list_all (installable env) collision_stubs"
  shows "\<exists>g. run_events env [SetFlags 0x10, Scol p, SetFlags 0x12, StartFrame, Scol p, Scol p] (game_init mem) = Some g \<and>
    client_dump p (written g) = None \<and> last (written g) = scol_unchanged p"
proof -
  let ?c = "scol_packet mem p" and ?u = "scol_unchanged p"
  let ?v = "XXH3_64bits env (concat ?c)"
  let ?t0 = "empty_table 0 3079 3079 :: u64 stupid_hash"
  have k: "UInt48 (word_of_nat p) = Some (key_of p)" using assms(1) by (rule UInt48_key)
  have w0: "well_formed ?t0" "table_map ?t0 = Map.empty" using empty_table_well_formed [of 3079 3079 "0 :: u64"] by simp_all
  obtain t1 where t1: "lookup ?t0 (key_of p) True = Some (t1, 1, False)" "well_formed t1" "entries_count t1 = 1" "length (entries t1) = 3079"
    using insert_correct [of ?t0 "key_of p"] w0 by (auto simp: empty_table_def frame_def)
  define t2 where "t2 = set_value t1 1 ?v"
  have t2: "well_formed t2" "entries_count t2 = 1" "vl t2 1 = ?v" "length (entries t2) = 3079"
    using set_value_correct [OF t1(2), of 1 ?v] t1(3,4) by (auto simp: t2_def frame_def vl_def set_value_def set_entry_def)
  define t3 where "t3 = clear t2"
  have t3: "well_formed t3" "table_map t3 = Map.empty" "entries_count t3 = 0" "vl t3 1 = ?v" "length (entries t3) = 3079"
    using clear_well_formed [OF t2(1)] t2 by (simp_all add: t3_def clear_def vl_def)
  obtain t4 where t4: "lookup t3 (key_of p) True = Some (t4, 1, False)" "well_formed t4" "entries_count t4 = 1"
    "ky t4 = (ky t3)(1 := key_of p)" "\<forall>j > 0. vl t4 j = vl t3 j"
    using insert_correct [of t3 "key_of p"] t3 by auto
  have "table_map t4 (key_of p) = Some ?v" using t4 t3(4) by (auto simp: table_map_Some)
  then obtain x where t5: "lookup t4 (key_of p) True = Some (t4, x, True)" "0 < x" "vl t4 x = ?v"
    using table.found [OF t4(2), of "key_of p" ?v True] by auto
  let ?g1 = "(game_init mem)\<lparr>gflags := 0x10, s_hashed_scols := t2, offered := 1, written := [?c]\<rparr>"
  let ?all = "[tag8 ''allcols'']"
  have e1: "run_event env (Scol p) ((game_init mem)\<lparr>gflags := 0x10\<rparr>) = Some ?g1"
    using t1(1) assms(2)
    by (simp add: scol_true_outmost_def k test_rpc_flag_def RPC_FLAG_SEND_COLL_STUFF_def write_cached_dump_cases game_init_def t2_def)
  obtain g2 where e2: "run_event env StartFrame (?g1\<lparr>gflags := 0x12\<rparr>) = Some g2" and
    g2: "s_hashed_scols g2 = t3" "gflags g2 = 0x10" "offered g2 = 2" "written g2 = [?c, ?all]" "gmem g2 = mem"
    using assms(2,3)
    by (simp add: frame_start_cases start_collisions_def test_and_clear_rpc_flag_def test_rpc_flag_def Let_def report_all_colliders_def
        RPC_FLAG_SEND_COLL_STUFF_def RPC_FLAG_SEND_ALL_COLLS_def game_init_def begin_end_def empty_table_def write_packet_written t3_def)
  have flag: "coll_flag g2" using g2(2) by (simp add: test_rpc_flag_def RPC_FLAG_SEND_COLL_STUFF_def)
  obtain us g3 where e3: "run_event env (Scol p) g2 = Some g3" and
    g3: "s_hashed_scols g3 = t4" "gflags g3 = 0x10" "offered g3 > 2" "written g3 = [?c, ?all] @ us" "gmem g3 = mem" "\<forall>u \<in> set us. u = ?u"
    using flag t4(1) g2 assms(2)
    by (cases "uninitialised env 2") (simp_all add: scol_true_outmost_def k write_cached_dump_cases write_packet_written Let_def)
  have flag3: "coll_flag g3" using g3(2) by (simp add: test_rpc_flag_def RPC_FLAG_SEND_COLL_STUFF_def)
  obtain g4 where e4: "run_event env (Scol p) g3 = Some g4" and g4: "written g4 = [?c, ?all] @ us @ [?u]"
    using flag3 t5 g3 assms(2) by (simp add: scol_true_outmost_def k write_cached_dump_cases write_packet_written Let_def)
  have "neutral ?u" unfolding scol_unchanged_def by (rule neutral_tag) (rule tags_differ)
  then have "foldl (client_step p) None (us @ [?u]) = None" using g3(6) by (intro neutral_steps) auto
  then have "client_dump p (written g4) = None" unfolding g4 client_dump_append by (simp add: client_dump_def client_step_def)
  moreover have "last (written g4) = ?u" by (simp add: g4)
  moreover have "run_events env [SetFlags 0x10, Scol p, SetFlags 0x12, StartFrame, Scol p, Scol p] (game_init mem) = Some g4"
    using e1 e2 e3 e4 by (simp del: run_event.simps(7,8))
  ultimately show ?thesis by blast
qed

text \<open>An environment that refuses the third packet.\<close>

theorem scol_cache_stale_witness:
  "\<exists>g. run_events (open_env\<lparr>hose_takes := (\<lambda>n _. n \<noteq> 2)\<rparr>) [SetFlags 0x10, Scol 0x3000, SetFlags 0x12, StartFrame, Scol 0x3000, Scol 0x3000] (game_init (\<lambda>_. 0)) = Some g \<and>
    client_dump 0x3000 (written g) = None \<and> last (written g) = scol_unchanged 0x3000"
proof (rule scol_cache_stale)
  have "installable (open_env\<lparr>hose_takes := f\<rparr>) = installable open_env" for f by (rule ext) (simp add: installable_def split: option.split)
  then show "list_all (installable (open_env\<lparr>hose_takes := (\<lambda>n _. n \<noteq> 2)\<rparr>)) collision_stubs" using open_env_installable by simp
qed simp_all

section \<open>Lists, build ids and patches\<close>

fun linked :: "(nat \<Rightarrow> u8) \<Rightarrow> nat \<Rightarrow> nat list \<Rightarrow> nat \<Rightarrow> bool" where
  "linked mem a [] e \<longleftrightarrow> a = e"
| "linked mem a (n # ns) e \<longleftrightarrow> a = n \<and> n \<noteq> e \<and> linked mem (rd 8 mem (size_add n 8)) ns e"

lemma list_nodes_linked: "linked mem a ns e \<Longrightarrow> length ns < fuel \<Longrightarrow> list_nodes fuel mem a e = Some ns"
proof (induction ns arbitrary: a fuel)
  case (Cons n ns)
  then show ?case by (cases fuel) auto
next
  case Nil
  then show ?case by (cases fuel) auto
qed

lemma list_nodes_Some: "list_nodes fuel mem a e = Some ns \<Longrightarrow> linked mem a ns e"
  by (induction fuel arbitrary: a ns) (auto split: if_splits)

text \<open>The scan goes down from the end of the read-only data and keeps the last match, that is the lowest.\<close>

lemma scan_build_id_lowest:
  assumes "n \<le> p" and "p < 2 ^ 64" and "i < n" and "read_mem mem (p - i) 4 = gnu_tag"
    and "\<And>j. i < j \<Longrightarrow> j < n \<Longrightarrow> read_mem mem (p - j) 4 \<noteq> gnu_tag"
  shows "scan_build_id id_size n mem p found = Some (read_mem mem (size_add (p - i) 4) id_size)"
proof -
  have none: "scan_build_id id_size n mem p found = found"
    if "\<And>j. j < n \<Longrightarrow> read_mem mem (p - j) 4 \<noteq> gnu_tag" "n \<le> p" "p < 2 ^ 64" for n p found
    using that
  proof (induction n arbitrary: p found)
    case (Suc n)
    have "read_mem mem (p - 1 - j) 4 \<noteq> gnu_tag" if "j < n" for j using Suc.prems(1) [of "Suc j"] that by simp
    with Suc.IH [of "p - 1" found] Suc.prems(1) [of 0] Suc.prems(2,3) show ?case by (simp add: SIZE_MAX_def)
  qed simp
  from assms show ?thesis
  proof (induction n arbitrary: p i found)
    case (Suc n)
    have s: "size_sub p 1 = p - 1" using Suc.prems(1,2) by (simp add: SIZE_MAX_def)
    show ?case
    proof (cases i)
      case 0
      have "read_mem mem (p - 1 - j) 4 \<noteq> gnu_tag" if "j < n" for j using Suc.prems(5) [of "Suc j"] that 0 by simp
      with none [of n "p - 1"] Suc.prems(1,2,4) 0 s show ?thesis by simp
    next
      case (Suc i')
      have "read_mem mem (p - 1 - j) 4 \<noteq> gnu_tag" if "i' < j" "j < n" for j using Suc.prems(5) [of "Suc j"] that Suc by simp
      with Suc.IH [of "p - 1" i'] Suc.prems(1-4) Suc s show ?thesis by simp
    qed
  qed simp
qed

text \<open>A section that holds nothing but the tag and the build id is not searched: the last place is left out.\<close>

lemma build_id_alone_missed:
  "Range.m_Size (m_Rodata info) = 4 + id_size \<Longrightarrow> 4 + id_size \<le> 0x1000 \<Longrightarrow> module_build_id id_size mem (Some info) = None"
  by (simp add: module_build_id_def SIZE_MAX_def min_def)

lemma apply_patch_bytes:
  "apply_patch c (a, w) mem x = (let at = size_add (m_Rw c) a in
     if size_sub x at < 4 then le_bytes 4 (unat w) ! size_sub x at else mem x)"
  by (simp add: apply_patch_def sp_Flush_def WriteInst_def sp_Write_def sp_init_def store_bytes_def RwFromAddr_def Let_def)

end
