(* ===== verification/Syscalls.thy ===== *)
theory Syscalls
  imports Prelude
begin

text \<open>
  What the C library asks of the system (\<open>program/syscalls.cpp\<close>, \<open>syscalls.h\<close>, \<open>convert_errno.c\<close>): the
  translation of error numbers, locks, condition variables, threads and clocks. The console's own
  functions are arguments; its critical sections come with the hypothesis \<open>critical_section\<close>.
\<close>

section \<open>Error numbers\<close>

text \<open>The numbers of the C library (newlib), by name.\<close>

abbreviation (input) EPERM :: nat where "EPERM \<equiv> 1"
abbreviation (input) ENOENT :: nat where "ENOENT \<equiv> 2"
abbreviation (input) ESRCH :: nat where "ESRCH \<equiv> 3"
abbreviation (input) EINTR :: nat where "EINTR \<equiv> 4"
abbreviation (input) EIO :: nat where "EIO \<equiv> 5"
abbreviation (input) ENXIO :: nat where "ENXIO \<equiv> 6"
abbreviation (input) E2BIG :: nat where "E2BIG \<equiv> 7"
abbreviation (input) ENOEXEC :: nat where "ENOEXEC \<equiv> 8"
abbreviation (input) EBADF :: nat where "EBADF \<equiv> 9"
abbreviation (input) ECHILD :: nat where "ECHILD \<equiv> 10"
abbreviation (input) EAGAIN :: nat where "EAGAIN \<equiv> 11"
abbreviation (input) ENOMEM :: nat where "ENOMEM \<equiv> 12"
abbreviation (input) EACCES :: nat where "EACCES \<equiv> 13"
abbreviation (input) EFAULT :: nat where "EFAULT \<equiv> 14"
abbreviation (input) ENOTBLK :: nat where "ENOTBLK \<equiv> 15"
abbreviation (input) EBUSY :: nat where "EBUSY \<equiv> 16"
abbreviation (input) EEXIST :: nat where "EEXIST \<equiv> 17"
abbreviation (input) EXDEV :: nat where "EXDEV \<equiv> 18"
abbreviation (input) ENODEV :: nat where "ENODEV \<equiv> 19"
abbreviation (input) ENOTDIR :: nat where "ENOTDIR \<equiv> 20"
abbreviation (input) EISDIR :: nat where "EISDIR \<equiv> 21"
abbreviation (input) EINVAL :: nat where "EINVAL \<equiv> 22"
abbreviation (input) ENFILE :: nat where "ENFILE \<equiv> 23"
abbreviation (input) EMFILE :: nat where "EMFILE \<equiv> 24"
abbreviation (input) ENOTTY :: nat where "ENOTTY \<equiv> 25"
abbreviation (input) ETXTBSY :: nat where "ETXTBSY \<equiv> 26"
abbreviation (input) EFBIG :: nat where "EFBIG \<equiv> 27"
abbreviation (input) ENOSPC :: nat where "ENOSPC \<equiv> 28"
abbreviation (input) ESPIPE :: nat where "ESPIPE \<equiv> 29"
abbreviation (input) EROFS :: nat where "EROFS \<equiv> 30"
abbreviation (input) EMLINK :: nat where "EMLINK \<equiv> 31"
abbreviation (input) EPIPE :: nat where "EPIPE \<equiv> 32"
abbreviation (input) EDOM :: nat where "EDOM \<equiv> 33"
abbreviation (input) ERANGE :: nat where "ERANGE \<equiv> 34"
abbreviation (input) ENOMSG :: nat where "ENOMSG \<equiv> 35"
abbreviation (input) EIDRM :: nat where "EIDRM \<equiv> 36"
abbreviation (input) ECHRNG :: nat where "ECHRNG \<equiv> 37"
abbreviation (input) EL2NSYNC :: nat where "EL2NSYNC \<equiv> 38"
abbreviation (input) EL3HLT :: nat where "EL3HLT \<equiv> 39"
abbreviation (input) EL3RST :: nat where "EL3RST \<equiv> 40"
abbreviation (input) ELNRNG :: nat where "ELNRNG \<equiv> 41"
abbreviation (input) EUNATCH :: nat where "EUNATCH \<equiv> 42"
abbreviation (input) ENOCSI :: nat where "ENOCSI \<equiv> 43"
abbreviation (input) EL2HLT :: nat where "EL2HLT \<equiv> 44"
abbreviation (input) EDEADLK :: nat where "EDEADLK \<equiv> 45"
abbreviation (input) ENOLCK :: nat where "ENOLCK \<equiv> 46"
abbreviation (input) EBADE :: nat where "EBADE \<equiv> 50"
abbreviation (input) EBADR :: nat where "EBADR \<equiv> 51"
abbreviation (input) EXFULL :: nat where "EXFULL \<equiv> 52"
abbreviation (input) ENOANO :: nat where "ENOANO \<equiv> 53"
abbreviation (input) EBADRQC :: nat where "EBADRQC \<equiv> 54"
abbreviation (input) EBADSLT :: nat where "EBADSLT \<equiv> 55"
abbreviation (input) EBFONT :: nat where "EBFONT \<equiv> 57"
abbreviation (input) ENOSTR :: nat where "ENOSTR \<equiv> 60"
abbreviation (input) ENODATA :: nat where "ENODATA \<equiv> 61"
abbreviation (input) ETIME :: nat where "ETIME \<equiv> 62"
abbreviation (input) ENOSR :: nat where "ENOSR \<equiv> 63"
abbreviation (input) ENONET :: nat where "ENONET \<equiv> 64"
abbreviation (input) ENOPKG :: nat where "ENOPKG \<equiv> 65"
abbreviation (input) EREMOTE :: nat where "EREMOTE \<equiv> 66"
abbreviation (input) ENOLINK :: nat where "ENOLINK \<equiv> 67"
abbreviation (input) EADV :: nat where "EADV \<equiv> 68"
abbreviation (input) ESRMNT :: nat where "ESRMNT \<equiv> 69"
abbreviation (input) ECOMM :: nat where "ECOMM \<equiv> 70"
abbreviation (input) EPROTO :: nat where "EPROTO \<equiv> 71"
abbreviation (input) EMULTIHOP :: nat where "EMULTIHOP \<equiv> 74"
abbreviation (input) EDOTDOT :: nat where "EDOTDOT \<equiv> 76"
abbreviation (input) EBADMSG :: nat where "EBADMSG \<equiv> 77"
abbreviation (input) ENOTUNIQ :: nat where "ENOTUNIQ \<equiv> 80"
abbreviation (input) EBADFD :: nat where "EBADFD \<equiv> 81"
abbreviation (input) EREMCHG :: nat where "EREMCHG \<equiv> 82"
abbreviation (input) ELIBACC :: nat where "ELIBACC \<equiv> 83"
abbreviation (input) ELIBBAD :: nat where "ELIBBAD \<equiv> 84"
abbreviation (input) ELIBSCN :: nat where "ELIBSCN \<equiv> 85"
abbreviation (input) ELIBMAX :: nat where "ELIBMAX \<equiv> 86"
abbreviation (input) ELIBEXEC :: nat where "ELIBEXEC \<equiv> 87"
abbreviation (input) ENOSYS :: nat where "ENOSYS \<equiv> 88"
abbreviation (input) ENOTEMPTY :: nat where "ENOTEMPTY \<equiv> 90"
abbreviation (input) ENAMETOOLONG :: nat where "ENAMETOOLONG \<equiv> 91"
abbreviation (input) ELOOP :: nat where "ELOOP \<equiv> 92"
abbreviation (input) EOPNOTSUPP :: nat where "EOPNOTSUPP \<equiv> 95"
abbreviation (input) EPFNOSUPPORT :: nat where "EPFNOSUPPORT \<equiv> 96"
abbreviation (input) ECONNRESET :: nat where "ECONNRESET \<equiv> 104"
abbreviation (input) ENOBUFS :: nat where "ENOBUFS \<equiv> 105"
abbreviation (input) EAFNOSUPPORT :: nat where "EAFNOSUPPORT \<equiv> 106"
abbreviation (input) EPROTOTYPE :: nat where "EPROTOTYPE \<equiv> 107"
abbreviation (input) ENOTSOCK :: nat where "ENOTSOCK \<equiv> 108"
abbreviation (input) ESHUTDOWN :: nat where "ESHUTDOWN \<equiv> 110"
abbreviation (input) ECONNREFUSED :: nat where "ECONNREFUSED \<equiv> 111"
abbreviation (input) EADDRINUSE :: nat where "EADDRINUSE \<equiv> 112"
abbreviation (input) ECONNABORTED :: nat where "ECONNABORTED \<equiv> 113"
abbreviation (input) ENETUNREACH :: nat where "ENETUNREACH \<equiv> 114"
abbreviation (input) ENETDOWN :: nat where "ENETDOWN \<equiv> 115"
abbreviation (input) ETIMEDOUT :: nat where "ETIMEDOUT \<equiv> 116"
abbreviation (input) EHOSTDOWN :: nat where "EHOSTDOWN \<equiv> 117"
abbreviation (input) EHOSTUNREACH :: nat where "EHOSTUNREACH \<equiv> 118"
abbreviation (input) EINPROGRESS :: nat where "EINPROGRESS \<equiv> 119"
abbreviation (input) EALREADY :: nat where "EALREADY \<equiv> 120"
abbreviation (input) EDESTADDRREQ :: nat where "EDESTADDRREQ \<equiv> 121"
abbreviation (input) EMSGSIZE :: nat where "EMSGSIZE \<equiv> 122"
abbreviation (input) EPROTONOSUPPORT :: nat where "EPROTONOSUPPORT \<equiv> 123"
abbreviation (input) ESOCKTNOSUPPORT :: nat where "ESOCKTNOSUPPORT \<equiv> 124"
abbreviation (input) EADDRNOTAVAIL :: nat where "EADDRNOTAVAIL \<equiv> 125"
abbreviation (input) ENETRESET :: nat where "ENETRESET \<equiv> 126"
abbreviation (input) EISCONN :: nat where "EISCONN \<equiv> 127"
abbreviation (input) ENOTCONN :: nat where "ENOTCONN \<equiv> 128"
abbreviation (input) ETOOMANYREFS :: nat where "ETOOMANYREFS \<equiv> 129"
abbreviation (input) EUSERS :: nat where "EUSERS \<equiv> 131"
abbreviation (input) EDQUOT :: nat where "EDQUOT \<equiv> 132"
abbreviation (input) ESTALE :: nat where "ESTALE \<equiv> 133"
abbreviation (input) ENOMEDIUM :: nat where "ENOMEDIUM \<equiv> 135"
abbreviation (input) EILSEQ :: nat where "EILSEQ \<equiv> 138"
abbreviation (input) EOVERFLOW :: nat where "EOVERFLOW \<equiv> 139"
abbreviation (input) ECANCELED :: nat where "ECANCELED \<equiv> 140"
abbreviation (input) ENOTRECOVERABLE :: nat where "ENOTRECOVERABLE \<equiv> 141"
abbreviation (input) EOWNERDEAD :: nat where "EOWNERDEAD \<equiv> 142"
abbreviation (input) ESTRPIPE :: nat where "ESTRPIPE \<equiv> 143"

text \<open>The names the source defines as zero before it builds the table, and the table.\<close>

abbreviation (input) EMEDIUMTYPE :: nat where "EMEDIUMTYPE \<equiv> 0"
abbreviation (input) ENOKEY :: nat where "ENOKEY \<equiv> 0"
abbreviation (input) EKEYEXPIRED :: nat where "EKEYEXPIRED \<equiv> 0"
abbreviation (input) EKEYREVOKED :: nat where "EKEYREVOKED \<equiv> 0"
abbreviation (input) EKEYREJECTED :: nat where "EKEYREJECTED \<equiv> 0"
abbreviation (input) ENOPROTOOP :: nat where "ENOPROTOOP \<equiv> 0"
abbreviation (input) EUCLEAN :: nat where "EUCLEAN \<equiv> 0"
abbreviation (input) ENOTNAM :: nat where "ENOTNAM \<equiv> 0"
abbreviation (input) ENAVAIL :: nat where "ENAVAIL \<equiv> 0"
abbreviation (input) EISNAM :: nat where "EISNAM \<equiv> 0"
abbreviation (input) EREMOTEIO :: nat where "EREMOTEIO \<equiv> 0"
abbreviation (input) ERFKILL :: nat where "ERFKILL \<equiv> 0"
abbreviation (input) EHWPOISON :: nat where "EHWPOISON \<equiv> 0"
abbreviation (input) ERESTART :: nat where "ERESTART \<equiv> 0"

definition error_code_map :: "nat list" where
  "error_code_map = [
    0, EPERM, ENOENT, ESRCH, EINTR, EIO, ENXIO, E2BIG, ENOEXEC, EBADF, ECHILD, EAGAIN, ENOMEM, EACCES, EFAULT,
    ENOTBLK, EBUSY, EEXIST, EXDEV, ENODEV, ENOTDIR, EISDIR, EINVAL, ENFILE, EMFILE, ENOTTY, ETXTBSY, EFBIG,
    ENOSPC, ESPIPE, EROFS, EMLINK, EPIPE, EDOM, ERANGE, EDEADLK, ENAMETOOLONG, ENOLCK, ENOSYS, ENOTEMPTY, ELOOP,
    EAGAIN, ENOMSG, EIDRM, ECHRNG, EL2NSYNC, EL3HLT, EL3RST, ELNRNG, EUNATCH, ENOCSI, EL2HLT, EBADE, EBADR,
    EXFULL, ENOANO, EBADRQC, EBADSLT, EDEADLK, EBFONT, ENOSTR, ENODATA, ETIME, ENOSR, ENONET, ENOPKG, EREMOTE,
    ENOLINK, EADV, ESRMNT, ECOMM, EPROTO, EMULTIHOP, EDOTDOT, EBADMSG, EOVERFLOW, ENOTUNIQ, EBADFD, EREMCHG,
    ELIBACC, ELIBBAD, ELIBSCN, ELIBMAX, ELIBEXEC, EILSEQ, ERESTART, ESTRPIPE, EUSERS, ENOTSOCK, EDESTADDRREQ,
    EMSGSIZE, EPROTOTYPE, ENOPROTOOP, EPROTONOSUPPORT, ESOCKTNOSUPPORT, EOPNOTSUPP, EPFNOSUPPORT, EAFNOSUPPORT,
    EADDRINUSE, EADDRNOTAVAIL, ENETDOWN, ENETUNREACH, ENETRESET, ECONNABORTED, ECONNRESET, ENOBUFS, EISCONN,
    ENOTCONN, ESHUTDOWN, ETOOMANYREFS, ETIMEDOUT, ECONNREFUSED, EHOSTDOWN, EHOSTUNREACH, EALREADY, EINPROGRESS,
    ESTALE, EUCLEAN, ENOTNAM, ENAVAIL, EISNAM, EREMOTEIO, EDQUOT, ENOMEDIUM, EMEDIUMTYPE, ECANCELED, ENOKEY,
    EKEYEXPIRED, EKEYREVOKED, EKEYREJECTED, EOWNERDEAD, ENOTRECOVERABLE, ERFKILL, EHWPOISON]"

definition UNKNOWN_ERROR_OFFSET :: int where "UNKNOWN_ERROR_OFFSET = 10000"

definition convert_errno :: "int \<Rightarrow> int" where
  "convert_errno bsdErrno =
     (if bsdErrno < 0 \<or> bsdErrno \<ge> int (length error_code_map) then UNKNOWN_ERROR_OFFSET + bsdErrno
      else int (error_code_map ! nat bsdErrno))"

text \<open>
  \<open>ERRNO_WRAPPER\<close>: the wrapped function runs with the console's \<open>errno\<close> cleared; the result is paired
  with the new \<open>errno\<close>. The clock wrappers do not clear it and ignore the clock asked for.
\<close>

definition errno_wrapper :: "(int \<Rightarrow> 'r \<times> int) \<Rightarrow> 'r \<times> int" where
  "errno_wrapper sdk = (case sdk 0 of (ret, e) \<Rightarrow> (ret, convert_errno e))"

definition fcntl :: "(nat \<Rightarrow> nat \<Rightarrow> nat \<Rightarrow> int \<Rightarrow> int \<times> int) \<Rightarrow> nat \<Rightarrow> nat \<Rightarrow> nat \<Rightarrow> int \<times> int" where
  "fcntl nnsocketFcntl fd cmd arg = errno_wrapper (nnsocketFcntl fd cmd arg)"

definition syscall_clock_gettime :: "(nat \<Rightarrow> int \<Rightarrow> (int \<times> int \<times> int) \<times> int) \<Rightarrow> nat \<Rightarrow> int \<Rightarrow> (int \<times> int \<times> int) \<times> int" where
  "syscall_clock_gettime sdk_clock clock_id sdk_errno = (case sdk_clock 0 sdk_errno of (r, e) \<Rightarrow> (r, convert_errno e))"

definition CLOCK_REALTIME :: nat where "CLOCK_REALTIME = 1"

text \<open>Seconds and microseconds, or the failure.\<close>

definition syscall_gettod :: "(nat \<Rightarrow> int \<Rightarrow> (int \<times> int \<times> int) \<times> int) \<Rightarrow> int \<Rightarrow> (int \<times> int) option" where
  "syscall_gettod sdk_clock sdk_errno =
     (case syscall_clock_gettime sdk_clock CLOCK_REALTIME sdk_errno of
        ((ret, sec, nsec), e) \<Rightarrow> if ret \<noteq> 0 then None else Some (sec, nsec div 1000))"

section \<open>Threads\<close>

definition syscall_thread_create :: "int \<Rightarrow> int \<Rightarrow> int \<Rightarrow> int option" where
  "syscall_thread_create attr_init setstack create =
     (if attr_init \<noteq> 0 then None else if setstack \<noteq> 0 then None else Some (convert_errno create))"

definition syscall_thread_join :: "int \<Rightarrow> nat \<Rightarrow> nat" where
  "syscall_thread_join ret value = (if ret = 0 then value else 0)"

text \<open>
  \<open>__syscall_getreent\<close> with the key and the thread's value of it: \<open>create\<close> is the answer of
  \<open>pthread_key_create\<close>, \<open>fresh\<close> that of \<open>calloc\<close> and \<open>set_ret\<close> that of \<open>pthread_setspecific\<close>. The results are
  the structure, the key and the thread's values.
\<close>

definition syscall_getreent :: "int \<times> nat \<Rightarrow> nat \<Rightarrow> int \<Rightarrow> nat \<Rightarrow> (nat \<Rightarrow> nat) \<Rightarrow> (nat \<times> nat \<times> (nat \<Rightarrow> nat)) option" where
  "syscall_getreent create fresh set_ret reent_key tls = do {
     key \<leftarrow> (if reent_key = 0 then (if convert_errno (fst create) \<noteq> 0 then None else Some (snd create)) else Some reent_key);
     if tls key = 0
     then (if fresh = 0 \<or> convert_errno set_ret \<noteq> 0 then None else Some (fresh, key, tls(key := fresh)))
     else Some (tls key, key, tls)
   }"

section \<open>Locks\<close>

text \<open>
  A critical section: its owner, and what its operations do. \<open>enter\<close> gives \<open>None\<close> while it waits;
  \<open>try_enter\<close> tells whether it got the section.
\<close>

record 'c section_ops =
  owner :: "'c \<Rightarrow> nat option"
  Enter :: "nat \<Rightarrow> 'c \<Rightarrow> 'c option"
  TryEnter :: "nat \<Rightarrow> 'c \<Rightarrow> bool \<times> 'c"
  Leave :: "nat \<Rightarrow> 'c \<Rightarrow> 'c"

definition critical_section :: "'c section_ops \<Rightarrow> bool" where
  "critical_section os \<longleftrightarrow>
     (\<forall>t c. owner os c \<noteq> None \<longrightarrow> Enter os t c = None \<and> TryEnter os t c = (False, c)) \<and>
     (\<forall>t c. owner os c = None \<longrightarrow> (\<exists>c'. Enter os t c = Some c' \<and> owner os c' = Some t) \<and>
        (\<exists>c'. TryEnter os t c = (True, c') \<and> owner os c' = Some t)) \<and>
     (\<forall>t c. owner os c = Some t \<longrightarrow> owner os (Leave os t c) = None)"

record 'c recursive_lock =
  lock :: 'c
  thread_tag :: nat
  counter :: nat

definition syscall_lock_acquire_recursive :: "'c section_ops \<Rightarrow> nat \<Rightarrow> 'c recursive_lock \<Rightarrow> 'c recursive_lock option" where
  "syscall_lock_acquire_recursive os my_tag l = do {
     l \<leftarrow> (if thread_tag l \<noteq> my_tag
           then map_option (\<lambda>c. l\<lparr>lock := c, thread_tag := my_tag\<rparr>) (Enter os my_tag (lock l)) else Some l);
     Some (l\<lparr>counter := (counter l + 1) mod 2 ^ 32\<rparr>)
   }"

definition syscall_lock_try_acquire :: "'c section_ops \<Rightarrow> nat \<Rightarrow> 'c \<Rightarrow> int \<times> 'c" where
  "syscall_lock_try_acquire os t c = (case TryEnter os t c of (b, c) \<Rightarrow> (if b then 1 else 0, c))"

definition syscall_lock_try_acquire_recursive :: "'c section_ops \<Rightarrow> nat \<Rightarrow> 'c recursive_lock \<Rightarrow> int \<times> 'c recursive_lock" where
  "syscall_lock_try_acquire_recursive os my_tag l =
     (if thread_tag l \<noteq> my_tag
      then (case syscall_lock_try_acquire os my_tag (lock l) of (r, c) \<Rightarrow>
              if r \<noteq> 0 then (1, l\<lparr>lock := c\<rparr>)
              else (0, l\<lparr>lock := c, thread_tag := my_tag, counter := (counter l + 1) mod 2 ^ 32\<rparr>))
      else (0, l\<lparr>counter := (counter l + 1) mod 2 ^ 32\<rparr>))"

definition syscall_lock_release_recursive :: "'c section_ops \<Rightarrow> nat \<Rightarrow> 'c recursive_lock \<Rightarrow> 'c recursive_lock" where
  "syscall_lock_release_recursive os t l =
     (let l = l\<lparr>counter := (counter l + 2 ^ 32 - 1) mod 2 ^ 32\<rparr> in
      if counter l = 0 then l\<lparr>thread_tag := 0, lock := Leave os t (lock l)\<rparr> else l)"

datatype cond_status = TimedOut | Success

text \<open>The wait itself gives the section as it is when the thread has it again, and the status.\<close>

definition syscall_cond_wait :: "(nat option \<Rightarrow> 'c \<Rightarrow> cond_status \<times> 'c) \<Rightarrow> nat \<Rightarrow> 'c \<Rightarrow> int \<times> 'c" where
  "syscall_cond_wait wait timeout_ns c =
     (if timeout_ns = 2 ^ 64 - 1 then (0, snd (wait None c))
      else (case wait (Some timeout_ns) c of (TimedOut, c) \<Rightarrow> (int ETIMEDOUT, c) | (Success, c) \<Rightarrow> (0, c)))"

text \<open>Other threads use the lock while this one waits: \<open>wait\<close> also gives what they leave in it.\<close>

definition syscall_cond_wait_recursive ::
  "('c recursive_lock \<Rightarrow> int \<times> 'c recursive_lock) \<Rightarrow> 'c recursive_lock \<Rightarrow> int \<times> 'c recursive_lock" where
  "syscall_cond_wait_recursive wait l =
     (if counter l \<noteq> 1 then (int EBADF, l)
      else (let backup = thread_tag l; (errcode, l) = wait (l\<lparr>thread_tag := 0, counter := 0\<rparr>)
        in (errcode, l\<lparr>thread_tag := backup, counter := 1\<rparr>)))"

section \<open>Facts about error numbers\<close>

lemma error_code_map_eval: "length error_code_map = 134" "set error_code_map \<subseteq> {0..143}"
  by (simp_all add: error_code_map_def)

text \<open>
  The error numbers that become zero, that is success: besides those the C library has no name for,
  92 (\<open>ENOPROTOOPT\<close>), because the source defines a misspelt \<open>ENOPROTOOP\<close> and uses it.
\<close>

lemma errors_become_success:
  "map fst (filter (\<lambda>p. snd p = 0) (enumerate 0 error_code_map)) =
     [0, 85, 92, 117, 118, 119, 120, 121, 124, 126, 127, 128, 129, 132, 133]"
  by (simp add: error_code_map_def)

lemma convert_errno_range: "0 \<le> e \<Longrightarrow> e < 134 \<Longrightarrow> 0 \<le> convert_errno e \<and> convert_errno e \<le> 143"
proof -
  assume "0 \<le> e" "e < 134"
  then have "error_code_map ! nat e \<in> set error_code_map" using error_code_map_eval(1) by (intro nth_mem) simp
  with \<open>0 \<le> e\<close> \<open>e < 134\<close> show ?thesis using subsetD [OF error_code_map_eval(2)] by (auto simp: convert_errno_def error_code_map_eval(1))
qed

lemma convert_errno_unknown: "134 \<le> e \<Longrightarrow> convert_errno e = 10000 + e"
  by (simp add: convert_errno_def error_code_map_eval UNKNOWN_ERROR_OFFSET_def)

section \<open>The trying lock\<close>

lemma try_enter_free:
  assumes "critical_section os" "owner os c = None"
  obtains c' where "TryEnter os t c = (True, c')" "owner os c' = Some t" "Enter os t c' = None"
  using assms unfolding critical_section_def by (metis option.distinct(1))

lemma try_enter_taken: "critical_section os \<Longrightarrow> owner os c = Some u \<Longrightarrow> TryEnter os t c = (False, c)"
  unfolding critical_section_def by (metis option.distinct(1))

lemma enter_some: "critical_section os \<Longrightarrow> Enter os t c = Some c' \<Longrightarrow> owner os c = None \<and> owner os c' = Some t"
  unfolding critical_section_def by (metis option.distinct(1) option.inject)

lemma leave_own: "critical_section os \<Longrightarrow> owner os c = Some t \<Longrightarrow> owner os (Leave os t c) = None"
  by (simp add: critical_section_def)

text \<open>
  \<open>__syscall_lock_try_acquire\<close> passes on \<open>TryEnter\<close>, which is true for success, where the C library
  and \<open>__syscall_lock_try_acquire_recursive\<close> take zero for success. So trying for a free recursive lock
  reports failure and keeps the section, so that the thread waits for itself when it then acquires the
  lock; and trying for a lock that another thread holds reports success and overwrites the tag and the
  count of the holder.
\<close>

theorem try_acquire_inverted:
  assumes "critical_section os" "thread_tag l \<noteq> t"
  shows "case owner os (lock l) of
      None \<Rightarrow> \<exists>l'. syscall_lock_try_acquire_recursive os t l = (1, l') \<and>
        owner os (lock l') = Some t \<and> thread_tag l' = thread_tag l \<and> counter l' = counter l \<and>
        syscall_lock_acquire_recursive os t l' = None
    | Some u \<Rightarrow> syscall_lock_try_acquire_recursive os t l =
        (0, l\<lparr>thread_tag := t, counter := (counter l + 1) mod 2 ^ 32\<rparr>)"
proof (cases "owner os (lock l)")
  case None
  obtain c where "TryEnter os t (lock l) = (True, c)" "owner os c = Some t" "Enter os t c = None"
    by (rule try_enter_free [OF assms(1) None])
  with None assms(2) show ?thesis
    by (simp add: syscall_lock_try_acquire_recursive_def syscall_lock_try_acquire_def syscall_lock_acquire_recursive_def)
next
  case (Some u)
  with assms show ?thesis
    by (simp add: syscall_lock_try_acquire_recursive_def syscall_lock_try_acquire_def try_enter_taken)
qed

definition simple_section :: "nat option section_ops" where
  "simple_section = \<lparr>owner = (\<lambda>c. c), Enter = (\<lambda>t c. if c = None then Some (Some t) else None),
     TryEnter = (\<lambda>t c. if c = None then (True, Some t) else (False, c)), Leave = (\<lambda>t c. None)\<rparr>"

lemma simple_section: "critical_section simple_section"
  by (simp add: critical_section_def simple_section_def)

lemma try_acquire_inverted_witness:
  "syscall_lock_try_acquire_recursive simple_section 7 \<lparr>lock = Some 5, thread_tag = 5, counter = 10\<rparr> =
     (0, \<lparr>lock = Some 5, thread_tag = 7, counter = 11\<rparr>)"
proof -
  have "owner simple_section (Some 5) = Some 5" by (simp add: simple_section_def)
  then show ?thesis
    using try_acquire_inverted [OF simple_section, of "\<lparr>lock = Some 5, thread_tag = 5, counter = 10\<rparr>" 7] by simp
qed

section \<open>Threads that share a recursive lock\<close>

text \<open>
  What a thread is about to do: nothing (\<open>Run\<close>); in \<open>acquire\<close>, enter the section, write the tag, count;
  in \<open>release\<close>, clear the tag, leave; in \<open>cond_wait\<close>, clear the tag and the counter, leave, come back, and
  put the saved tag and the counter back.
\<close>

datatype pc = Run | Entering | Tagging | Counting | Untagging | Leaving
  | WaitUntag nat | WaitClear nat | WaitLeave nat | WaitEnter nat | WaitTag nat | WaitCount

record 'c lock_world =
  shared :: "'c recursive_lock"
  at :: "nat \<Rightarrow> pc"
  depth :: "nat \<Rightarrow> nat"

text \<open>
  One access of the shared lock by thread \<open>t\<close>. The thread releases and waits only while it has the lock
  and does not take it \<open>2\<^sup>3\<^sup>2 - 1\<close> times; \<open>depth\<close> counts how often it has it.
\<close>

inductive lock_step :: "'c section_ops \<Rightarrow> nat \<Rightarrow> 'c lock_world \<Rightarrow> 'c lock_world \<Rightarrow> bool" for os t where
  check_mine: "at s t = Run \<Longrightarrow> depth s t < 2 ^ 32 - 1 \<Longrightarrow> thread_tag (shared s) = t \<Longrightarrow>
     lock_step os t s (s\<lparr>at := (at s)(t := Counting)\<rparr>)"
| check_other: "at s t = Run \<Longrightarrow> depth s t < 2 ^ 32 - 1 \<Longrightarrow> thread_tag (shared s) \<noteq> t \<Longrightarrow>
     lock_step os t s (s\<lparr>at := (at s)(t := Entering)\<rparr>)"
| enter: "at s t = Entering \<Longrightarrow> Enter os t (lock (shared s)) = Some c \<Longrightarrow>
     lock_step os t s (s\<lparr>shared := (shared s)\<lparr>lock := c\<rparr>, at := (at s)(t := Tagging)\<rparr>)"
| tag: "at s t = Tagging \<Longrightarrow>
     lock_step os t s (s\<lparr>shared := (shared s)\<lparr>thread_tag := t\<rparr>, at := (at s)(t := Counting)\<rparr>)"
| count: "at s t = Counting \<Longrightarrow>
     lock_step os t s (s\<lparr>shared := (shared s)\<lparr>counter := (counter (shared s) + 1) mod 2 ^ 32\<rparr>,
       at := (at s)(t := Run), depth := (depth s)(t := depth s t + 1)\<rparr>)"
| release_last: "at s t = Run \<Longrightarrow> 0 < depth s t \<Longrightarrow> (counter (shared s) + 2 ^ 32 - 1) mod 2 ^ 32 = 0 \<Longrightarrow>
     lock_step os t s (s\<lparr>shared := (shared s)\<lparr>counter := 0\<rparr>,
       at := (at s)(t := Untagging), depth := (depth s)(t := depth s t - 1)\<rparr>)"
| release_inner: "at s t = Run \<Longrightarrow> 0 < depth s t \<Longrightarrow> c = (counter (shared s) + 2 ^ 32 - 1) mod 2 ^ 32 \<Longrightarrow> c \<noteq> 0 \<Longrightarrow>
     lock_step os t s (s\<lparr>shared := (shared s)\<lparr>counter := c\<rparr>, depth := (depth s)(t := depth s t - 1)\<rparr>)"
| untag: "at s t = Untagging \<Longrightarrow>
     lock_step os t s (s\<lparr>shared := (shared s)\<lparr>thread_tag := 0\<rparr>, at := (at s)(t := Leaving)\<rparr>)"
| leave: "at s t = Leaving \<Longrightarrow>
     lock_step os t s (s\<lparr>shared := (shared s)\<lparr>lock := Leave os t (lock (shared s))\<rparr>, at := (at s)(t := Run)\<rparr>)"
| wait_start: "at s t = Run \<Longrightarrow> 0 < depth s t \<Longrightarrow> counter (shared s) = 1 \<Longrightarrow>
     lock_step os t s (s\<lparr>at := (at s)(t := WaitUntag (thread_tag (shared s)))\<rparr>)"
| wait_untag: "at s t = WaitUntag b \<Longrightarrow>
     lock_step os t s (s\<lparr>shared := (shared s)\<lparr>thread_tag := 0\<rparr>, at := (at s)(t := WaitClear b)\<rparr>)"
| wait_clear: "at s t = WaitClear b \<Longrightarrow>
     lock_step os t s (s\<lparr>shared := (shared s)\<lparr>counter := 0\<rparr>, at := (at s)(t := WaitLeave b)\<rparr>)"
| wait_leave: "at s t = WaitLeave b \<Longrightarrow>
     lock_step os t s (s\<lparr>shared := (shared s)\<lparr>lock := Leave os t (lock (shared s))\<rparr>, at := (at s)(t := WaitEnter b)\<rparr>)"
| wait_enter: "at s t = WaitEnter b \<Longrightarrow> Enter os t (lock (shared s)) = Some c \<Longrightarrow>
     lock_step os t s (s\<lparr>shared := (shared s)\<lparr>lock := c\<rparr>, at := (at s)(t := WaitTag b)\<rparr>)"
| wait_tag: "at s t = WaitTag b \<Longrightarrow>
     lock_step os t s (s\<lparr>shared := (shared s)\<lparr>thread_tag := b\<rparr>, at := (at s)(t := WaitCount)\<rparr>)"
| wait_count: "at s t = WaitCount \<Longrightarrow>
     lock_step os t s (s\<lparr>shared := (shared s)\<lparr>counter := 1\<rparr>, at := (at s)(t := Run)\<rparr>)"

text \<open>A thread that is not interrupted takes and gives back the lock as the functions above say.\<close>

lemma acquire_steps:
  assumes "syscall_lock_acquire_recursive os t (shared s) = Some l'" "at s t = Run" "depth s t < 2 ^ 32 - 1"
  shows "(lock_step os t)\<^sup>*\<^sup>* s (s\<lparr>shared := l', depth := (depth s)(t := depth s t + 1)\<rparr>)"
proof (cases "thread_tag (shared s) = t")
  case True
  have "lock_step os t s (s\<lparr>at := (at s)(t := Counting)\<rparr>)" using assms True by (intro check_mine)
  moreover have "lock_step os t (s\<lparr>at := (at s)(t := Counting)\<rparr>)
      (s\<lparr>shared := l', depth := (depth s)(t := depth s t + 1)\<rparr>)"
    using count [of "s\<lparr>at := (at s)(t := Counting)\<rparr>" t os] assms True
    by (auto simp: syscall_lock_acquire_recursive_def fun_upd_idem)
  ultimately show ?thesis by (meson converse_rtranclp_into_rtranclp r_into_rtranclp)
next
  case False
  then obtain c where c: "Enter os t (lock (shared s)) = Some c"
    and l': "l' = (shared s)\<lparr>lock := c, thread_tag := t, counter := (counter (shared s) + 1) mod 2 ^ 32\<rparr>"
    using assms(1) by (auto simp: syscall_lock_acquire_recursive_def split: bind_splits)
  let ?s1 = "s\<lparr>at := (at s)(t := Entering)\<rparr>"
  let ?s2 = "s\<lparr>shared := (shared s)\<lparr>lock := c\<rparr>, at := (at s)(t := Tagging)\<rparr>"
  let ?s3 = "s\<lparr>shared := (shared s)\<lparr>lock := c, thread_tag := t\<rparr>, at := (at s)(t := Counting)\<rparr>"
  have "lock_step os t s ?s1" using assms False by (intro check_other)
  moreover have "lock_step os t ?s1 ?s2" using enter [of ?s1 t os c] c by simp
  moreover have "lock_step os t ?s2 ?s3" using tag [of ?s2 t os] by simp
  moreover have "lock_step os t ?s3 (s\<lparr>shared := l', depth := (depth s)(t := depth s t + 1)\<rparr>)"
    using count [of ?s3 t os] assms(2) by (simp add: l' fun_upd_idem)
  ultimately show ?thesis by (meson converse_rtranclp_into_rtranclp r_into_rtranclp)
qed

lemma release_steps:
  assumes "at s t = Run" "0 < depth s t"
  shows "(lock_step os t)\<^sup>*\<^sup>* s
    (s\<lparr>shared := syscall_lock_release_recursive os t (shared s), depth := (depth s)(t := depth s t - 1)\<rparr>)"
proof (cases "(counter (shared s) + 2 ^ 32 - 1) mod 2 ^ 32 = 0")
  case True
  let ?d = "(depth s)(t := depth s t - 1)"
  let ?s1 = "s\<lparr>shared := (shared s)\<lparr>counter := 0\<rparr>, at := (at s)(t := Untagging), depth := ?d\<rparr>"
  let ?s2 = "s\<lparr>shared := (shared s)\<lparr>thread_tag := 0, counter := 0\<rparr>, at := (at s)(t := Leaving), depth := ?d\<rparr>"
  have "lock_step os t s ?s1" using assms True by (intro release_last)
  moreover have "lock_step os t ?s1 ?s2"
  proof -
    have "?s2 = ?s1\<lparr>shared := (shared ?s1)\<lparr>thread_tag := 0\<rparr>, at := (at ?s1)(t := Leaving)\<rparr>"
      by (rule lock_world.equality) simp_all
    moreover have "lock_step os t ?s1 \<dots>" by (rule untag) simp
    ultimately show ?thesis by metis
  qed
  moreover have "lock_step os t ?s2 (s\<lparr>shared := syscall_lock_release_recursive os t (shared s), depth := ?d\<rparr>)" (is "lock_step _ _ _ ?s3")
  proof -
    have "?s3 = ?s2\<lparr>shared := (shared ?s2)\<lparr>lock := Leave os t (lock (shared ?s2))\<rparr>, at := (at ?s2)(t := Run)\<rparr>"
      by (rule lock_world.equality)
        (simp_all add: True [simplified] syscall_lock_release_recursive_def Let_def fun_upd_idem assms(1))
    moreover have "lock_step os t ?s2 \<dots>" by (rule leave) simp
    ultimately show ?thesis by metis
  qed
  ultimately show ?thesis by (meson converse_rtranclp_into_rtranclp r_into_rtranclp)
next
  case False
  have "lock_step os t s (s\<lparr>shared := syscall_lock_release_recursive os t (shared s), depth := (depth s)(t := depth s t - 1)\<rparr>)"
    using release_inner [OF assms refl False] False by (simp add: syscall_lock_release_recursive_def Let_def)
  then show ?thesis by blast
qed

text \<open>All threads start without the lock; thread handles are not zero.\<close>

definition lock_start :: "'c section_ops \<Rightarrow> 'c lock_world \<Rightarrow> bool" where
  "lock_start os s \<longleftrightarrow> owner os (lock (shared s)) = None \<and> thread_tag (shared s) = 0 \<and> counter (shared s) = 0 \<and>
     (\<forall>t. at s t = Run \<and> depth s t = 0)"

inductive lock_reachable :: "'c section_ops \<Rightarrow> 'c lock_world \<Rightarrow> bool" for os where
  start: "lock_start os s \<Longrightarrow> lock_reachable os s"
| step: "lock_reachable os s \<Longrightarrow> t \<noteq> 0 \<Longrightarrow> lock_step os t s s' \<Longrightarrow> lock_reachable os s'"

text \<open>Whether a thread has the section, and the tag and the count it has then.\<close>

fun in_section :: "pc \<Rightarrow> nat \<Rightarrow> bool" where
  "in_section Run d = (0 < d)"
| "in_section Entering d = False"
| "in_section (WaitEnter b) d = False"
| "in_section _ d = True"

fun tag_at :: "pc \<Rightarrow> nat \<Rightarrow> nat" where
  "tag_at Run t = t"
| "tag_at Counting t = t"
| "tag_at Untagging t = t"
| "tag_at (WaitUntag b) t = t"
| "tag_at WaitCount t = t"
| "tag_at _ t = 0"

fun count_at :: "pc \<Rightarrow> nat \<Rightarrow> nat" where
  "count_at Run d = d"
| "count_at Counting d = d"
| "count_at (WaitUntag b) d = 1"
| "count_at (WaitClear b) d = 1"
| "count_at _ d = 0"

fun depth_ok :: "pc \<Rightarrow> nat \<Rightarrow> nat \<Rightarrow> bool" where
  "depth_ok Run t d = (d < 2 ^ 32)"
| "depth_ok Counting t d = (d < 2 ^ 32 - 1)"
| "depth_ok Entering t d = (d = 0)"
| "depth_ok Tagging t d = (d = 0)"
| "depth_ok Untagging t d = (d = 0)"
| "depth_ok Leaving t d = (d = 0)"
| "depth_ok WaitCount t d = (d = 1)"
| "depth_ok (WaitUntag b) t d = (d = 1 \<and> b = t)"
| "depth_ok (WaitClear b) t d = (d = 1 \<and> b = t)"
| "depth_ok (WaitLeave b) t d = (d = 1 \<and> b = t)"
| "depth_ok (WaitEnter b) t d = (d = 1 \<and> b = t)"
| "depth_ok (WaitTag b) t d = (d = 1 \<and> b = t)"

definition thread_ok :: "'c section_ops \<Rightarrow> 'c recursive_lock \<Rightarrow> nat \<Rightarrow> pc \<Rightarrow> nat \<Rightarrow> bool" where
  "thread_ok os l t p d \<longleftrightarrow> depth_ok p t d \<and>
     (if in_section p d then owner os (lock l) = Some t \<and> thread_tag l = tag_at p t \<and> counter l = count_at p d
      else owner os (lock l) \<noteq> Some t)"

definition lock_inv :: "'c section_ops \<Rightarrow> 'c lock_world \<Rightarrow> bool" where
  "lock_inv os s \<longleftrightarrow> (\<forall>t. thread_ok os (shared s) t (at s t) (depth s t)) \<and>
     (owner os (lock (shared s)) = None \<longrightarrow> thread_tag (shared s) = 0 \<and> counter (shared s) = 0)"

text \<open>A step of the thread that has the section, or that finds it free, does not concern the others.\<close>

lemma lock_inv_owner_step:
  assumes "lock_inv os s" "owner os (lock (shared s)) \<in> {None, Some t}" "owner os (lock (shared s')) \<in> {None, Some t}"
    "\<And>u. u \<noteq> t \<Longrightarrow> at s' u = at s u \<and> depth s' u = depth s u"
    "thread_ok os (shared s') t (at s' t) (depth s' t)"
    "owner os (lock (shared s')) = None \<Longrightarrow> thread_tag (shared s') = 0 \<and> counter (shared s') = 0"
  shows "lock_inv os s'"
proof -
  have "thread_ok os (shared s') u (at s' u) (depth s' u)" for u
  proof (cases "u = t")
    case False
    then have "thread_ok os (shared s) u (at s u) (depth s u)" "owner os (lock (shared s)) \<noteq> Some u"
      "owner os (lock (shared s')) \<noteq> Some u" using assms(1-3) by (auto simp: lock_inv_def)
    with assms(4) [OF False] show ?thesis by (auto simp: thread_ok_def split: if_splits)
  qed (use assms(5) in simp)
  with assms(6) show ?thesis by (simp add: lock_inv_def)
qed

lemma lock_inv_local_step:
  assumes "lock_inv os s" "shared s' = shared s" "\<And>u. u \<noteq> t \<Longrightarrow> at s' u = at s u \<and> depth s' u = depth s u"
    "thread_ok os (shared s) t (at s' t) (depth s' t)"
  shows "lock_inv os s'"
proof -
  have "thread_ok os (shared s') u (at s' u) (depth s' u)" for u
    by (cases "u = t") (use assms in \<open>auto simp: lock_inv_def\<close>)
  with assms(1,2) show ?thesis by (simp add: lock_inv_def)
qed

text \<open>Only the thread that has the section sees its own tag.\<close>

lemma tag_mine:
  assumes "lock_inv os s" "at s t = Run" "t \<noteq> 0"
  shows "thread_tag (shared s) = t \<longleftrightarrow> 0 < depth s t"
proof -
  have t: "thread_ok os (shared s) t Run (depth s t)" using assms by (metis lock_inv_def)
  show ?thesis
  proof
    assume tag: "thread_tag (shared s) = t"
    show "0 < depth s t"
    proof (cases "owner os (lock (shared s))")
      case None
      with tag assms show ?thesis by (simp add: lock_inv_def)
    next
      case (Some u)
      have u: "thread_ok os (shared s) u (at s u) (depth s u)" using assms by (simp add: lock_inv_def)
      with Some have "thread_tag (shared s) = tag_at (at s u) u" by (auto simp: thread_ok_def split: if_splits)
      with tag assms(3) have "u = t" by (cases "at s u") auto
      with Some u assms(2) show ?thesis by (auto simp: thread_ok_def split: if_splits)
    qed
  next
    assume "0 < depth s t"
    with t show "thread_tag (shared s) = t" by (simp add: thread_ok_def)
  qed
qed

lemma counter_decrement: "0 < d \<Longrightarrow> d < 2 ^ 32 \<Longrightarrow> (d + 2 ^ 32 - 1) mod 2 ^ 32 = d - (1::nat)"
proof -
  assume "0 < d" "d < 2 ^ 32"
  then have "d + 2 ^ 32 - 1 = (d - 1) + 2 ^ 32" "d - 1 < 2 ^ 32" by auto
  then show ?thesis by (simp only: mod_add_self2 mod_less)
qed

lemma lock_inv_step:
  assumes inv: "lock_inv os s" and cs: "critical_section os" and t0: "t \<noteq> 0" and step: "lock_step os t s s'"
  shows "lock_inv os s'"
proof -
  have ok: "thread_ok os (shared s) t (at s t) (depth s t)" using inv by (simp add: lock_inv_def)
  show ?thesis using step
  proof cases
    case check_mine
    then show ?thesis using ok tag_mine [OF inv _ t0]
      by (intro lock_inv_local_step [OF inv, where t = t]) (auto simp: thread_ok_def)
  next
    case check_other
    then show ?thesis using ok tag_mine [OF inv _ t0]
      by (intro lock_inv_local_step [OF inv, where t = t]) (auto simp: thread_ok_def)
  next
    case (enter c)
    then show ?thesis using ok enter_some [OF cs enter(3)] inv
      by (intro lock_inv_owner_step [OF inv, where t = t]) (auto simp: thread_ok_def lock_inv_def)
  next
    case (wait_enter b c)
    then show ?thesis using ok enter_some [OF cs wait_enter(3)] inv
      by (intro lock_inv_owner_step [OF inv, where t = t]) (auto simp: thread_ok_def lock_inv_def)
  next
    case leave
    then show ?thesis using ok leave_own [OF cs, of "lock (shared s)" t]
      by (intro lock_inv_owner_step [OF inv, where t = t]) (auto simp: thread_ok_def)
  next
    case (wait_leave b)
    then show ?thesis using ok leave_own [OF cs, of "lock (shared s)" t]
      by (intro lock_inv_owner_step [OF inv, where t = t]) (auto simp: thread_ok_def)
  next
    case (release_inner c)
    have "counter (shared s) = depth s t" "0 < depth s t" "depth s t < 2 ^ 32"
      using ok release_inner by (auto simp: thread_ok_def)
    then have "c = depth s t - 1" using counter_decrement [of "depth s t"] release_inner(4) by simp
    then show ?thesis using ok release_inner
      by (intro lock_inv_owner_step [OF inv, where t = t]) (auto simp: thread_ok_def)
  next
    case release_last
    have "counter (shared s) = depth s t" "0 < depth s t" "depth s t < 2 ^ 32"
      using ok release_last by (auto simp: thread_ok_def)
    then have "depth s t = 1" using counter_decrement [of "depth s t"] release_last(4) by simp
    then show ?thesis using ok release_last
      by (intro lock_inv_owner_step [OF inv, where t = t]) (auto simp: thread_ok_def)
  qed (insert ok, (rule lock_inv_owner_step [OF inv, where t = t]; auto simp: thread_ok_def)+)
qed

lemma lock_reachable_inv:
  assumes "critical_section os"
  shows "lock_reachable os s \<Longrightarrow> lock_inv os s"
proof (induction rule: lock_reachable.induct)
  case (start s)
  then show ?case by (simp add: lock_start_def lock_inv_def thread_ok_def)
next
  case (step s t s')
  with lock_inv_step [OF _ assms] show ?case by blast
qed

text \<open>
  C40. Threads that acquire, release and wait with the recursive lock in any interleaving of their accesses
  never have it together: a thread that is between entering and leaving the section owns it, no other is
  there, and while it runs with the lock the tag is its handle and the counter the number of times it took
  the lock; when nobody has the section the tag and the counter are zero.
\<close>

theorem recursive_lock_exclusion:
  assumes "critical_section os" "lock_reachable os s"
  shows "(\<forall>t. in_section (at s t) (depth s t) \<longrightarrow> owner os (lock (shared s)) = Some t \<and>
        (\<forall>u. in_section (at s u) (depth s u) \<longrightarrow> u = t) \<and>
        (at s t = Run \<longrightarrow> thread_tag (shared s) = t \<and> counter (shared s) = depth s t)) \<and>
      (owner os (lock (shared s)) = None \<longrightarrow> thread_tag (shared s) = 0 \<and> counter (shared s) = 0)"
proof -
  have inv: "lock_inv os s" using assms by (rule lock_reachable_inv)
  then have ok: "in_section (at s t) (depth s t) \<Longrightarrow> owner os (lock (shared s)) = Some t \<and>
      thread_tag (shared s) = tag_at (at s t) t \<and> counter (shared s) = count_at (at s t) (depth s t)" for t
    by (simp add: lock_inv_def thread_ok_def)
  show ?thesis
  proof (intro conjI allI impI)
    fix t u assume "in_section (at s t) (depth s t)" "in_section (at s u) (depth s u)"
    with ok [of t] ok [of u] show "u = t" by simp
  next
    fix t assume "in_section (at s t) (depth s t)" "at s t = Run"
    with ok [of t] show "thread_tag (shared s) = t" "counter (shared s) = depth s t" by simp_all
  qed (use ok inv in \<open>auto simp: lock_inv_def\<close>)
qed

text \<open>Thread 5 takes the lock and starts to take it again while thread 7 waits for it.\<close>

lemma recursive_lock_exclusion_witness:
  "let s = \<lparr>shared = \<lparr>lock = Some 5, thread_tag = 5, counter = 1\<rparr>,
     at = (\<lambda>t. Run)(5 := Counting, 7 := Entering), depth = (\<lambda>t. 0)(5 := 1)\<rparr> in
   lock_reachable simple_section s \<and> in_section (at s 5) (depth s 5) \<and> \<not> in_section (at s 7) (depth s 7)"
proof -
  note * = lock_reachable.step [where os = simple_section and t = 5] lock_reachable.step [where os = simple_section and t = 7]
  let ?l0 = "\<lparr>lock = None, thread_tag = 0, counter = 0\<rparr> :: nat option recursive_lock"
  let ?l1 = "\<lparr>lock = Some 5, thread_tag = 0, counter = 0\<rparr> :: nat option recursive_lock"
  let ?l2 = "\<lparr>lock = Some 5, thread_tag = 5, counter = 0\<rparr> :: nat option recursive_lock"
  let ?l3 = "\<lparr>lock = Some 5, thread_tag = 5, counter = 1\<rparr> :: nat option recursive_lock"
  let ?at = "\<lambda>t. Run"
  have 0: "lock_reachable simple_section \<lparr>shared = ?l0, at = ?at, depth = \<lambda>t. 0\<rparr>" (is "lock_reachable _ ?s0")
    by (rule lock_reachable.start) (simp add: lock_start_def simple_section_def)
  have 1: "lock_reachable simple_section \<lparr>shared = ?l0, at = ?at(5 := Entering), depth = \<lambda>t. 0\<rparr>" (is "lock_reachable _ ?s1")
    using *(1) [OF 0 _ check_other] by simp
  have 2: "lock_reachable simple_section \<lparr>shared = ?l1, at = ?at(5 := Tagging), depth = \<lambda>t. 0\<rparr>" (is "lock_reachable _ ?s2")
    using *(1) [OF 1 _ enter, of "Some 5"] by (simp add: simple_section_def)
  have 3: "lock_reachable simple_section \<lparr>shared = ?l2, at = ?at(5 := Counting), depth = \<lambda>t. 0\<rparr>" (is "lock_reachable _ ?s3")
    using *(1) [OF 2 _ tag] by simp
  have 4: "lock_reachable simple_section \<lparr>shared = ?l3, at = ?at(5 := Run), depth = (\<lambda>t. 0)(5 := 1)\<rparr>" (is "lock_reachable _ ?s4")
    using *(1) [OF 3 _ count] by simp
  have 5: "lock_reachable simple_section \<lparr>shared = ?l3, at = ?at(5 := Run, 7 := Entering), depth = (\<lambda>t. 0)(5 := 1)\<rparr>"
    (is "lock_reachable _ ?s5") using *(2) [OF 4 _ check_other] by simp
  have 6: "lock_reachable simple_section \<lparr>shared = ?l3, at = ?at(5 := Counting, 7 := Entering), depth = (\<lambda>t. 0)(5 := 1)\<rparr>"
    using *(1) [OF 5 _ check_mine] by (simp add: fun_upd_twist)
  from recursive_lock_exclusion [OF simple_section 6] 6 show ?thesis by simp
qed

end
