(* ===== verification/WsConn.thy ===== *)
theory WsConn
  imports Prelude WsFrame
begin

text \<open>
  What mongoose does with the bytes a WebSocket connection receives (\<open>externals/mongoose/src/ws.c\<close>,
  \<open>mg_ws_cb\<close>): it takes whole frames from the receive buffer, answers pings and closes, and puts the
  fragments of a message together in place at the front of the buffer. The buffer is its content (the
  list of bytes that \<open>Iobuf\<close> refines); the calls of the user's handler, the frames sent and the flags set
  are recorded in order, since neither handler nor replies change the receive buffer.
\<close>

section \<open>The callback\<close>

text \<open>A \<open>struct mg_ws_message\<close>: its data is a place in the receive buffer at the time of the call.\<close>

record ws_message =
  mflags :: u8
  mbuf :: bytes
  mofs :: nat
  mlen :: nat

definition mg_str_ok :: "ws_message \<Rightarrow> bool" where
  "mg_str_ok m \<longleftrightarrow> mofs m + mlen m \<le> length (mbuf m)"

definition mg_str_bytes :: "ws_message \<Rightarrow> bytes" where
  "mg_str_bytes m = slice (mbuf m) (mofs m) (mofs m + mlen m)"

datatype ws_action =
    Call_WS_CTL ws_message
  | Call_WS_MSG ws_message
  | Ws_send ws_message nat
  | Set_draining
  | Ws_error nat

text \<open>The receive buffer and \<open>pfn_data\<close>, where the next frame starts behind the collected fragments.\<close>

record ws_state =
  ws_recv :: bytes
  ws_ofs :: nat

text \<open>\<open>mg_iobuf_del\<close> on the content of the buffer.\<close>

definition del_at :: "nat \<Rightarrow> nat \<Rightarrow> bytes \<Rightarrow> bytes" where
  "del_at ofs n d = take ofs d @ drop (ofs + n) d"

definition ws_op :: "u8 \<Rightarrow> nat" where "ws_op fl = unat (fl AND 15)"

definition ws_final :: "u8 \<Rightarrow> bool" where "ws_final fl \<longleftrightarrow> fl AND 128 \<noteq> 0"

text \<open>The \<open>switch\<close> over the opcode.\<close>

definition ws_dispatch :: "ws_message \<Rightarrow> ws_action list" where
  "ws_dispatch m =
     (let op = ws_op (mflags m) in
      if op = WEBSOCKET_OP_CONTINUE then [Call_WS_CTL m]
      else if op = WEBSOCKET_OP_PING then [Ws_send m WEBSOCKET_OP_PONG, Call_WS_CTL m]
      else if op = WEBSOCKET_OP_PONG then [Call_WS_CTL m]
      else if op = WEBSOCKET_OP_TEXT \<or> op = WEBSOCKET_OP_BINARY then (if ws_final (mflags m) then [Call_WS_MSG m] else [])
      else if op = WEBSOCKET_OP_CLOSE then [Call_WS_CTL m, Ws_send m WEBSOCKET_OP_CLOSE, Set_draining]
      else [Ws_error op])"

text \<open>
  One round of the loop, or nothing when there is no whole frame. \<open>recv.buf[0]\<close> of an empty buffer is
  zero, since \<open>mg_iobuf_del\<close> clears what it frees.
\<close>

definition ws_round :: "ws_state \<Rightarrow> (ws_action list \<times> ws_state) option" where
  "ws_round c =
     (let ofs = ws_ofs c; (n, msg, tail) = ws_process (drop ofs (ws_recv c)) in
      if n = 0 then None
      else
        (let buf = take ofs (ws_recv c) @ tail;
             m = \<lparr>mflags = flags msg, mbuf = buf, mofs = ofs + header_len msg, mlen = data_len msg\<rparr>;
             acts = ws_dispatch m;
             len = header_len msg + data_len msg; final = ws_final (flags msg); op = ws_op (flags msg) in
         if final \<and> op \<noteq> 0 then Some (acts, \<lparr>ws_recv = del_at ofs len buf, ws_ofs = ofs\<rparr>)
         else
           (let (ofs1, len1, hl) = (if op \<noteq> 0 then (ofs + 1, len - 1, header_len msg - 1) else (ofs, len, header_len msg));
                buf1 = del_at ofs1 hl buf; ofs2 = ofs1 + (len1 - hl) in
            if final then
              Some (acts @ [Call_WS_MSG \<lparr>mflags = (if buf1 = [] then 0 else buf1 ! 0), mbuf = buf1, mofs = 1, mlen = size_sub ofs2 1\<rparr>],
                \<lparr>ws_recv = del_at 0 ofs2 buf1, ws_ofs = 0\<rparr>)
            else Some (acts, \<lparr>ws_recv = buf1, ws_ofs = ofs2\<rparr>))))"

lemma length_del_at: "ofs + n \<le> length d \<Longrightarrow> length (del_at ofs n d) = length d - n"
  by (simp add: del_at_def)

text \<open>What a round does to the buffer: the frame is used up, the rest stays.\<close>

lemma ws_round_cases:
  assumes "ws_round c = Some (acts, c')"
  obtains n msg tail where "ws_process (drop (ws_ofs c) (ws_recv c)) = (n, msg, tail)" "0 < n"
    "n = header_len msg + data_len msg" "2 \<le> header_len msg" "data_len msg \<le> 2 ^ 30"
    "n \<le> length (ws_recv c) - ws_ofs c" "ws_ofs c < length (ws_recv c)"
    "length tail = length (ws_recv c) - ws_ofs c"
proof -
  obtain n msg tail where p: "ws_process (drop (ws_ofs c) (ws_recv c)) = (n, msg, tail)" by (metis prod_cases3)
  have n: "0 < n" using assms by (auto simp: ws_round_def p Let_def split: if_splits)
  show thesis
    using that [OF p n] ws_process_bounds [OF p] n by auto
qed

lemma ws_round_less:
  assumes "ws_round c = Some (acts, c')"
  shows "length (ws_recv c') - ws_ofs c' < length (ws_recv c) - ws_ofs c" and "ws_ofs c' \<le> length (ws_recv c')"
proof -
  obtain n msg tail where p: "ws_process (drop (ws_ofs c) (ws_recv c)) = (n, msg, tail)" "0 < n"
    and n: "n = header_len msg + data_len msg" "2 \<le> header_len msg"
    "n \<le> length (ws_recv c) - ws_ofs c" "ws_ofs c < length (ws_recv c)" "length tail = length (ws_recv c) - ws_ofs c"
    using assms by (rule ws_round_cases) (rule that; assumption)
  have "length (ws_recv c') - ws_ofs c' < length (ws_recv c) - ws_ofs c \<and> ws_ofs c' \<le> length (ws_recv c')"
    using assms p(2) n by (auto simp: ws_round_def p(1) Let_def del_at_def split: if_splits)
  then show "length (ws_recv c') - ws_ofs c' < length (ws_recv c) - ws_ofs c" "ws_ofs c' \<le> length (ws_recv c')" by auto
qed

function ws_loop :: "ws_state \<Rightarrow> ws_action list \<times> ws_state" where
  "ws_loop c = (case ws_round c of None \<Rightarrow> ([], c) | Some (acts, c') \<Rightarrow> (case ws_loop c' of (acts', c'') \<Rightarrow> (acts @ acts', c'')))"
  by pat_completeness auto

termination
  by (relation "measure (\<lambda>c. length (ws_recv c) - ws_ofs c)") (auto dest: ws_round_less(1))

declare ws_loop.simps [simp del]

text \<open>The handler of the event \<open>MG_EV_READ\<close>, after \<open>iolog\<close> counted the bytes read as received.\<close>

definition mg_ws_cb :: "ws_state \<Rightarrow> bytes \<Rightarrow> ws_action list \<times> ws_state" where
  "mg_ws_cb c d = ws_loop (c\<lparr>ws_recv := ws_recv c @ d\<rparr>)"

fun mg_ws_reads :: "ws_state \<Rightarrow> bytes list \<Rightarrow> ws_action list \<times> ws_state" where
  "mg_ws_reads c [] = ([], c)"
| "mg_ws_reads c (d # ds) =
     (case mg_ws_cb c d of (acts, c1) \<Rightarrow> case mg_ws_reads c1 ds of (acts', c2) \<Rightarrow> (acts @ acts', c2))"

definition ws_start :: ws_state where "ws_start = \<lparr>ws_recv = [], ws_ofs = 0\<rparr>"

section \<open>Frames as the peer writes them\<close>

text \<open>
  What a peer sends, as RFC 6455 describes it: frames with an opcode, a payload and a masking key,
  the last of a message marked as final. \<open>mkhdr\<close> writes final frames; the others differ in one bit.
\<close>

record ws_frame =
  fin :: bool
  fop :: nat
  masked :: bool
  mask_key :: bytes
  payload :: bytes

definition flag_byte :: "ws_frame \<Rightarrow> u8" where
  "flag_byte f = word_of_nat (if fin f then fop f OR 128 else fop f)"

definition encode_frame :: "ws_frame \<Rightarrow> bytes" where
  "encode_frame f = (mg_ws_frame (masked f) (mask_key f) (fop f) (payload f))[0 := flag_byte f]"

definition frame_ok :: "ws_frame \<Rightarrow> bool" where
  "frame_ok f \<longleftrightarrow> fop f < 16 \<and> length (payload f) \<le> 2 ^ 30 \<and> (masked f \<longrightarrow> length (mask_key f) = 4)"

text \<open>What the server does with a frame: events for the user, replies, flags.\<close>

datatype ws_event = Ctl u8 bytes | Msg u8 bytes | Reply bytes nat | Draining | Unknown nat

fun observe :: "ws_action \<Rightarrow> ws_event" where
  "observe (Call_WS_CTL m) = Ctl (mflags m) (mg_str_bytes m)"
| "observe (Call_WS_MSG m) = Msg (mflags m) (mg_str_bytes m)"
| "observe (Ws_send m op) = Reply (mg_str_bytes m) op"
| "observe Set_draining = Draining"
| "observe (Ws_error op) = Unknown op"

text \<open>
  The receiver without buffers: its state is the message being put together, with the flags of its
  first frame.
\<close>

definition receive_frame :: "(u8 \<times> bytes) option \<Rightarrow> ws_frame \<Rightarrow> ws_event list \<times> (u8 \<times> bytes) option" where
  "receive_frame acc f =
     (if fop f = 0 then
        (let fl = fst (the acc); d = snd (the acc) @ payload f in
         if fin f then ([Ctl (flag_byte f) (payload f), Msg fl d], None) else ([Ctl (flag_byte f) (payload f)], Some (fl, d)))
      else
        (if fop f = 9 then [Reply (payload f) 10, Ctl (flag_byte f) (payload f)]
         else if fop f = 10 then [Ctl (flag_byte f) (payload f)]
         else if fop f = 1 \<or> fop f = 2 then (if fin f then [Msg (flag_byte f) (payload f)] else [])
         else if fop f = 8 then [Ctl (flag_byte f) (payload f), Reply (payload f) 8, Draining]
         else [Unknown (fop f)],
         if fin f then acc else Some (flag_byte f, payload f)))"

text \<open>Continuations belong to a started message, and a second message does not start inside one.\<close>

definition frame_allowed :: "(u8 \<times> bytes) option \<Rightarrow> ws_frame \<Rightarrow> bool" where
  "frame_allowed acc f \<longleftrightarrow> frame_ok f \<and> (if fop f = 0 then (case acc of None \<Rightarrow> False | Some (fl, d) \<Rightarrow> length d + length (payload f) < SIZE_MAX) else fin f \<or> acc = None)"

fun receive_frames :: "(u8 \<times> bytes) option \<Rightarrow> ws_frame list \<Rightarrow> ws_event list \<times> (u8 \<times> bytes) option" where
  "receive_frames acc [] = ([], acc)"
| "receive_frames acc (f # fs) =
     (case receive_frame acc f of (ev, acc1) \<Rightarrow> case receive_frames acc1 fs of (evs, acc2) \<Rightarrow> (ev @ evs, acc2))"

fun frames_allowed :: "(u8 \<times> bytes) option \<Rightarrow> ws_frame list \<Rightarrow> bool" where
  "frames_allowed acc [] = True"
| "frames_allowed acc (f # fs) \<longleftrightarrow> frame_allowed acc f \<and> frames_allowed (snd (receive_frame acc f)) fs"

text \<open>How the collected message lies at the front of the buffer.\<close>

fun collected :: "(u8 \<times> bytes) option \<Rightarrow> bytes" where
  "collected None = []"
| "collected (Some (fl, d)) = fl # d"

definition holding :: "(u8 \<times> bytes) option \<Rightarrow> bytes \<Rightarrow> ws_state" where
  "holding acc rest = \<lparr>ws_recv = collected acc @ rest, ws_ofs = length (collected acc)\<rparr>"

section \<open>Reading one frame\<close>

lemma flags_bits:
  assumes "op < 16"
  shows "ws_op (word_of_nat op) = op" "ws_op (word_of_nat (op OR 128)) = op"
    "\<not> ws_final (word_of_nat op)" "ws_final (word_of_nat (op OR 128))"
proof -
  have "\<forall>op \<in> {..<16}. ws_op (word_of_nat op) = op \<and> ws_op (word_of_nat (op OR 128)) = op \<and>
     \<not> ws_final (word_of_nat op) \<and> ws_final (word_of_nat (op OR 128))"
    by (simp add: lessThan_nat_numeral ws_op_def ws_final_def)
  with assms show "ws_op (word_of_nat op) = op" "ws_op (word_of_nat (op OR 128)) = op"
    "\<not> ws_final (word_of_nat op)" "ws_final (word_of_nat (op OR 128))" by auto
qed

lemma flag_byte_simps [simp]: "fop f < 16 \<Longrightarrow> ws_op (flag_byte f) = fop f"
  "fop f < 16 \<Longrightarrow> ws_final (flag_byte f) = fin f"
  by (simp_all add: flag_byte_def flags_bits)

text \<open>The parser only copies the first byte into the flags.\<close>

lemma ws_parse_header_update:
  assumes "2 \<le> length buf"
  shows "ws_parse_header (buf[0 := b]) = (case ws_parse_header buf of (msg, ml) \<Rightarrow> (msg\<lparr>flags := b\<rparr>, ml))"
proof (cases buf)
  case (Cons x xs)
  with assms show ?thesis by (simp add: ws_parse_header_def Let_def be32_def nth_Cons' numeral_2_eq_2 split: if_splits)
qed (use assms in simp)

lemma ws_parse_header_head: "ws_parse_header buf = (msg, ml) \<Longrightarrow> 0 < header_len msg \<Longrightarrow> 2 + ml \<le> header_len msg"
  using ws_parse_header_mask by fastforce

lemma ws_process_update:
  assumes p: "ws_process buf = (n, msg, buf')" and n: "0 < n"
  shows "ws_process (buf[0 := b]) = (n, msg\<lparr>flags := b\<rparr>, buf'[0 := b])"
proof -
  obtain msg' ml where h: "ws_parse_header buf = (msg', ml)" by fastforce
  have le: "2 \<le> length buf" using p ws_process_bounds [OF p] n by auto
  have m: "msg' = msg" using p by (auto simp: ws_process_def h Let_def split: if_splits)
  have hl: "2 + ml \<le> header_len msg"
    using ws_process_bounds(3) [OF p n] ws_parse_header_head [OF h] m by simp
  let ?hl = "header_len msg" and ?dl = "data_len msg"
  have fit: "?dl \<le> 1024 * 1024 * 1024" "?hl + ?dl \<le> length buf"
    using p n by (auto simp: ws_process_def h m Let_def split: if_splits)
  have sl: "slice (buf[0 := b]) (?hl - ml) ?hl = slice buf (?hl - ml) ?hl"
    "slice (buf[0 := b]) ?hl (?hl + ?dl) = slice buf ?hl (?hl + ?dl)"
    using hl le by (simp_all add: slice_list_update_other)
  have put: "put_slice (buf[0 := b]) ?hl xs = (put_slice buf ?hl xs)[0 := b]" for xs
  proof -
    have "?hl \<noteq> 0" "buf \<noteq> []" using hl le by auto
    then show ?thesis by (cases buf; cases ?hl) (auto simp: put_slice_def)
  qed
  show ?thesis using p n fit
    by (auto simp: ws_process_def h m ws_parse_header_update [OF le] Let_def sl put split: if_splits)
qed

definition frame_header :: "ws_frame \<Rightarrow> bytes" where
  "frame_header f = (mkhdr (length (payload f)) (fop f) (masked f) (mask_key f))[0 := flag_byte f]"

lemma mkhdr_not_empty [simp]: "mkhdr n op cl rnd \<noteq> []"
  by (simp add: mkhdr_def Let_def)

lemma length_frame_header: "2 \<le> length (frame_header f)"
  by (simp add: frame_header_def length_mkhdr)

lemma list_update_0_append: "xs \<noteq> [] \<Longrightarrow> (xs @ ys)[0 := b] = xs[0 := b] @ ys"
  by (cases xs) simp_all

lemma length_encode_frame: "length (encode_frame f) = length (frame_header f) + length (payload f)"
  by (simp add: encode_frame_def frame_header_def mg_ws_frame_def)

lemma ws_process_encode_frame:
  assumes "frame_ok f"
  shows "ws_process (encode_frame f @ rest) =
    (length (encode_frame f), \<lparr>flags = flag_byte f, header_len = length (frame_header f), data_len = length (payload f)\<rparr>,
     frame_header f @ payload f @ rest)"
proof -
  have e: "encode_frame f @ rest = (mg_ws_frame (masked f) (mask_key f) (fop f) (payload f) @ rest)[0 := flag_byte f]"
    by (simp add: encode_frame_def list_update_0_append mg_ws_frame_def)
  have p: "ws_process (mg_ws_frame (masked f) (mask_key f) (fop f) (payload f) @ rest) =
      (length (encode_frame f), \<lparr>flags = word_of_nat (fop f OR 128), header_len = length (frame_header f), data_len = length (payload f)\<rparr>,
       mkhdr (length (payload f)) (fop f) (masked f) (mask_key f) @ payload f @ rest)"
    using assms by (simp add: ws_process_frame frame_ok_def encode_frame_def frame_header_def)
  show ?thesis unfolding e
    using ws_process_update [OF p, of "flag_byte f"] length_frame_header [of f]
    by (simp add: length_encode_frame) (simp add: frame_header_def list_update_0_append)
qed

text \<open>More bytes behind a whole frame do not change it; so a part of a frame is not taken for a frame.\<close>

lemma ws_parse_header_append:
  assumes "ws_parse_header b = (msg, ml)" "0 < header_len msg"
  shows "ws_parse_header (b @ x) = (msg, ml)"
proof -
  let ?n = "unat (b ! 1 AND 0x7f)" and ?ml = "if b ! 1 AND 128 \<noteq> 0 then 4 else 0 :: nat"
  have 2: "2 \<le> length b" using assms by (auto simp: ws_parse_header_def Let_def split: if_splits)
  have nth: "i < length b \<Longrightarrow> (b @ x) ! i = b ! i" for i by (simp add: nth_append)
  have nth0: "(b @ x) ! 0 = b ! 0" using 2 by (cases b) simp_all
  have be: "i + 4 \<le> length b \<Longrightarrow> be32 (drop i (b @ x)) = be32 (drop i b)" for i
  proof -
    assume "i + 4 \<le> length b"
    then have "3 < length b - i" "i < length b" by simp_all
    then show ?thesis by (simp add: be32_def nth_append)
  qed
  consider (small) "?n < 126" "?ml \<le> length b" | (medium) "?n = 126" "4 + ?ml \<le> length b"
    | (large) "\<not> ?n < 126" "?n \<noteq> 126" "10 + ?ml \<le> length b"
    using assms 2 by (simp add: ws_parse_header_def Let_def split: if_splits) (linarith | force)+
  then show ?thesis
  proof cases
    case small
    then show ?thesis using assms(1) 2 nth0 nth [of 1] by (auto simp: ws_parse_header_def Let_def)
  next
    case medium
    then show ?thesis using assms(1) 2 nth0 nth [of 1] nth [of 2] nth [of 3] by (auto simp: ws_parse_header_def Let_def)
  next
    case large
    then show ?thesis using assms(1) 2 nth0 nth [of 1] be [of 2] be [of 6] by (auto simp: ws_parse_header_def Let_def simp del: drop_append)
  qed
qed

lemma ws_process_append:
  assumes p: "ws_process b = (n, msg, b')" and n: "0 < n"
  shows "fst (ws_process (b @ x)) = n"
proof -
  obtain msg' ml where h: "ws_parse_header b = (msg', ml)" by fastforce
  have "msg' = msg" using p by (auto simp: ws_process_def h Let_def split: if_splits)
  with h have h: "ws_parse_header b = (msg, ml)" by simp
  have hl: "0 < header_len msg" using ws_process_bounds(3) [OF p n] by simp
  show ?thesis using p n
    by (auto simp: ws_process_def h ws_parse_header_append [OF h hl] Let_def split: if_splits)
qed

lemma ws_process_part:
  assumes "frame_ok f" "encode_frame f = b @ x" "x \<noteq> []"
  shows "fst (ws_process b) = 0"
proof (rule ccontr)
  obtain n msg b' where p: "ws_process b = (n, msg, b')" by (metis prod_cases3)
  assume "fst (ws_process b) \<noteq> 0"
  with p have n: "0 < n" by simp
  have "n = length (encode_frame f)"
    using ws_process_append [OF p n, of x] ws_process_encode_frame [OF assms(1), of "[]"] assms(2) by simp
  moreover have "n \<le> length b" using ws_process_bounds(1) [OF p] .
  ultimately show False using assms(2,3) by simp
qed

section \<open>The callback puts messages together\<close>

lemma slice_middle: "slice (xs @ ys @ zs) (length xs) (length xs + length ys) = ys"
  by (simp add: slice_def)

lemma ws_round_frame:
  assumes f: "frame_allowed acc f" and r: "receive_frame acc f = (ev, acc')"
  shows "\<exists>acts. ws_round (holding acc (encode_frame f @ rest)) = Some (acts, holding acc' rest) \<and> map observe acts = ev"
proof -
  let ?h = "frame_header f" and ?p = "payload f" and ?fl = "flag_byte f" and ?pre = "collected acc"
  have ok: "frame_ok f" and op: "fop f < 16" using f by (simp_all add: frame_allowed_def frame_ok_def)
  have h2: "2 \<le> length ?h" by (rule length_frame_header)
  define buf where "buf = ?pre @ ?h @ ?p @ rest"
  define m where "m = \<lparr>mflags = ?fl, mbuf = buf, mofs = length ?pre + length ?h, mlen = length ?p\<rparr>"
  have m: "mg_str_bytes m = ?p" "mflags m = ?fl"
    using slice_middle [of "?pre @ ?h" ?p rest] by (simp_all add: m_def mg_str_bytes_def buf_def)
  have disp: "map observe (ws_dispatch m) =
      (if fop f = 0 then [Ctl ?fl ?p] else if fop f = 9 then [Reply ?p 10, Ctl ?fl ?p]
       else if fop f = 10 then [Ctl ?fl ?p] else if fop f = 1 \<or> fop f = 2 then (if fin f then [Msg ?fl ?p] else [])
       else if fop f = 8 then [Ctl ?fl ?p, Reply ?p 8, Draining] else [Unknown (fop f)])"
    using op by (simp add: ws_dispatch_def Let_def m op_defs)
  have proc: "ws_process (drop (ws_ofs (holding acc (encode_frame f @ rest))) (ws_recv (holding acc (encode_frame f @ rest)))) =
      (length (encode_frame f), \<lparr>flags = ?fl, header_len = length ?h, data_len = length ?p\<rparr>, ?h @ ?p @ rest)"
    using ws_process_encode_frame [OF ok, of rest] by (simp add: holding_def)
  have round: "ws_round (holding acc (encode_frame f @ rest)) =
     (if fin f \<and> fop f \<noteq> 0 then Some (ws_dispatch m, \<lparr>ws_recv = del_at (length ?pre) (length ?h + length ?p) buf, ws_ofs = length ?pre\<rparr>)
      else (let (ofs1, len1, hl) = (if fop f \<noteq> 0 then (length ?pre + 1, length ?h + length ?p - 1, length ?h - 1) else (length ?pre, length ?h + length ?p, length ?h));
                buf1 = del_at ofs1 hl buf; ofs2 = ofs1 + (len1 - hl) in
            if fin f then
              Some (ws_dispatch m @ [Call_WS_MSG \<lparr>mflags = (if buf1 = [] then 0 else buf1 ! 0), mbuf = buf1, mofs = 1, mlen = size_sub ofs2 1\<rparr>],
                \<lparr>ws_recv = del_at 0 ofs2 buf1, ws_ofs = 0\<rparr>)
            else Some (ws_dispatch m, \<lparr>ws_recv = buf1, ws_ofs = ofs2\<rparr>)))"
    unfolding ws_round_def Let_def proc using h2 op
    by (cases "?h = []") (simp_all add: holding_def m_def buf_def length_encode_frame)
  consider (single) "fin f" "fop f \<noteq> 0" | (first) "\<not> fin f" "fop f \<noteq> 0" | (more) "fop f = 0" by blast
  then show ?thesis
  proof cases
    case single
    have "del_at (length ?pre) (length ?h + length ?p) buf = ?pre @ rest" by (simp add: del_at_def buf_def)
    moreover have "ev = map observe (ws_dispatch m)" "acc' = acc" using single disp r by (simp_all add: receive_frame_def)
    ultimately show ?thesis using single unfolding round by (simp add: holding_def)
  next
    case first
    then have acc: "acc = None" using f by (simp add: frame_allowed_def)
    obtain b hs where hb: "?h = b # hs" using h2 by (cases ?h) auto
    have "b = ?fl" using hb by (cases "mkhdr (length ?p) (fop f) (masked f) (mask_key f)") (auto simp: frame_header_def)
    then have "del_at (Suc 0) (length ?h - 1) buf = ?fl # ?p @ rest" by (simp add: del_at_def buf_def acc hb)
    moreover have "Suc (length ?h + length ?p - 1 - (length ?h - 1)) = Suc (length ?p)" using h2 by simp
    moreover have "ev = map observe (ws_dispatch m)" "acc' = Some (?fl, ?p)" using first disp r by (simp_all add: receive_frame_def)
    ultimately show ?thesis using first unfolding round by (simp add: holding_def acc)
  next
    case more
    then obtain fl d where acc: "acc = Some (fl, d)" using f by (auto simp: frame_allowed_def split: option.splits)
    have d: "del_at (Suc (length d)) (length ?h) buf = fl # d @ ?p @ rest" by (simp add: del_at_def buf_def acc)
    show ?thesis
    proof (cases "fin f")
      case False
      then have "ev = map observe (ws_dispatch m)" "acc' = Some (fl, d @ ?p)" using more disp r by (simp_all add: receive_frame_def acc)
      with False more d show ?thesis unfolding round by (simp add: holding_def acc)
    next
      case True
      have "slice (fl # d @ ?p @ rest) (Suc 0) (Suc (length d + length ?p)) = d @ ?p" by (simp add: slice_def)
      moreover have "size_sub (Suc (length d) + length ?p) (Suc 0) = length d + length ?p"
        using f more by (simp add: frame_allowed_def acc)
      moreover have "ev = map observe (ws_dispatch m) @ [Msg fl (d @ ?p)]" "acc' = None"
        using True more disp r by (simp_all add: receive_frame_def acc)
      ultimately show ?thesis using True more d
        unfolding round by (simp add: holding_def acc mg_str_bytes_def del_at_def [of 0])
    qed
  qed
qed

lemma ws_round_none: "ws_round c = None \<longleftrightarrow> fst (ws_process (drop (ws_ofs c) (ws_recv c))) = 0"
  by (cases "ws_process (drop (ws_ofs c) (ws_recv c))") (simp add: ws_round_def Let_def split: if_splits)

lemma ws_loop_none: "fst (ws_process rest) = 0 \<Longrightarrow> ws_loop (holding acc rest) = ([], holding acc rest)"
  by (subst ws_loop.simps) (simp add: ws_round_none [THEN iffD2] holding_def)

lemma ws_loop_some: "ws_round c = Some (acts, c') \<Longrightarrow> ws_loop c = (case ws_loop c' of (acts', c'') \<Rightarrow> (acts @ acts', c''))"
  by (subst ws_loop.simps) simp

definition encode_frames :: "ws_frame list \<Rightarrow> bytes" where
  "encode_frames fs = concat (map encode_frame fs)"

lemma ws_loop_frames:
  assumes "frames_allowed acc fs" "receive_frames acc fs = (ev, acc')" "fst (ws_process rest) = 0"
  shows "\<exists>acts. ws_loop (holding acc (encode_frames fs @ rest)) = (acts, holding acc' rest) \<and> map observe acts = ev"
  using assms(1,2)
proof (induction fs arbitrary: acc ev)
  case Nil
  then show ?case using ws_loop_none [OF assms(3)] by (simp add: encode_frames_def)
next
  case (Cons f fs)
  obtain ev1 acc1 where r: "receive_frame acc f = (ev1, acc1)" by fastforce
  obtain ev2 where r2: "receive_frames acc1 fs = (ev2, acc')" "ev = ev1 @ ev2"
    using Cons.prems(2) by (auto simp: r split: prod.splits)
  have f: "frame_allowed acc f" "frames_allowed acc1 fs" using Cons.prems(1) r by simp_all
  obtain acts1 where 1: "ws_round (holding acc (encode_frame f @ encode_frames fs @ rest)) = Some (acts1, holding acc1 (encode_frames fs @ rest))"
    "map observe acts1 = ev1" using ws_round_frame [OF f(1) r] by blast
  obtain acts2 where "ws_loop (holding acc1 (encode_frames fs @ rest)) = (acts2, holding acc' rest)" "map observe acts2 = ev2"
    using Cons.IH [OF f(2) r2(1)] by blast
  then show ?case using ws_loop_some [OF 1(1)] 1(2) r2(2) by (simp add: encode_frames_def)
qed

text \<open>A part of the stream ends inside a frame or between two.\<close>

lemma stream_part:
  assumes "\<forall>f \<in> set fs. frame_ok f" "b @ x = encode_frames fs"
  obtains fs1 fs2 p where "fs = fs1 @ fs2" "b = encode_frames fs1 @ p" "p @ x = encode_frames fs2" "fst (ws_process p) = 0"
  using assms
proof (induction fs arbitrary: b thesis)
  case Nil
  then have "b = []" "x = []" by (simp_all add: encode_frames_def)
  then show ?case using Nil(1) [of "[]" "[]" "[]"] by (simp add: encode_frames_def ws_process_def ws_parse_header_def)
next
  case (Cons f fs)
  have e: "b @ x = encode_frame f @ encode_frames fs" using Cons.prems(3) by (simp add: encode_frames_def)
  show ?case
  proof (cases "length b < length (encode_frame f)")
    case True
    define y where "y = drop (length b) (encode_frame f)"
    have "take (length b) (encode_frame f) = b" using arg_cong [OF e, of "take (length b)"] True by simp
    then have y: "encode_frame f = b @ y" using append_take_drop_id [of "length b" "encode_frame f"] by (simp add: y_def)
    then have "y \<noteq> []" using True by auto
    note y = y this
    have "fst (ws_process b) = 0" using ws_process_part [OF _ y] Cons.prems(2) by simp
    then show ?thesis using Cons.prems(1) [of "[]" "f # fs" b] Cons.prems(3) by (simp add: encode_frames_def)
  next
    case False
    define b' where "b' = drop (length (encode_frame f)) b"
    have "take (length (encode_frame f)) b = encode_frame f"
      using arg_cong [OF e, of "take (length (encode_frame f))"] False by simp
    then have "b = encode_frame f @ b'" using append_take_drop_id [of "length (encode_frame f)" b] by (simp add: b'_def)
    moreover have "b' @ x = encode_frames fs"
      using arg_cong [OF e, of "drop (length (encode_frame f))"] False by (simp add: b'_def)
    ultimately have b': "b = encode_frame f @ b'" "b' @ x = encode_frames fs" by simp_all
    obtain fs1 fs2 p where "fs = fs1 @ fs2" "b' = encode_frames fs1 @ p" "p @ x = encode_frames fs2" "fst (ws_process p) = 0"
      using Cons.IH [of b'] b'(2) Cons.prems(2) by (metis list.set_intros(2))
    then show ?thesis using Cons.prems(1) [of "f # fs1" fs2 p] b'(1) by (simp add: encode_frames_def)
  qed
qed

lemma receive_frames_append:
  "receive_frames acc (fs1 @ fs2) = (case receive_frames acc fs1 of (ev1, acc1) \<Rightarrow>
     case receive_frames acc1 fs2 of (ev2, acc2) \<Rightarrow> (ev1 @ ev2, acc2))"
  by (induction fs1 arbitrary: acc) (auto split: prod.splits)

lemma frames_allowed_append:
  "frames_allowed acc (fs1 @ fs2) \<longleftrightarrow> frames_allowed acc fs1 \<and> frames_allowed (snd (receive_frames acc fs1)) fs2"
  by (induction fs1 arbitrary: acc) (auto split: prod.splits)

lemma frames_allowed_ok: "frames_allowed acc fs \<Longrightarrow> f \<in> set fs \<Longrightarrow> frame_ok f"
  by (induction fs arbitrary: acc) (auto simp: frame_allowed_def)

lemma mg_ws_reads_stream:
  assumes "frames_allowed acc fs" "p @ concat ds = encode_frames fs" "receive_frames acc fs = (ev, acc')"
    "fst (ws_process p) = 0"
  shows "\<exists>acts. mg_ws_reads (holding acc p) ds = (acts, holding acc' []) \<and> map observe acts = ev"
  using assms
proof (induction ds arbitrary: acc fs p ev)
  case Nil
  then have p: "p = encode_frames fs" by simp
  obtain acts where "ws_loop (holding acc (encode_frames fs @ [])) = (acts, holding acc' [])" "map observe acts = ev"
    using ws_loop_frames [OF Nil.prems(1,3), of "[]"] by (auto simp: ws_process_def ws_parse_header_def)
  moreover have "ws_loop (holding acc p) = ([], holding acc p)" using ws_loop_none [OF Nil.prems(4)] .
  ultimately show ?case using p by simp
next
  case (Cons d ds)
  have ok: "\<forall>f \<in> set fs. frame_ok f" using frames_allowed_ok [OF Cons.prems(1)] by blast
  have "(p @ d) @ concat ds = encode_frames fs" using Cons.prems(2) by simp
  then obtain fs1 fs2 q where s: "fs = fs1 @ fs2" "p @ d = encode_frames fs1 @ q" "q @ concat ds = encode_frames fs2"
    "fst (ws_process q) = 0" by (rule stream_part [OF ok])
  obtain ev1 acc1 where r1: "receive_frames acc fs1 = (ev1, acc1)" by fastforce
  obtain ev2 where r2: "receive_frames acc1 fs2 = (ev2, acc')" "ev = ev1 @ ev2"
    using Cons.prems(3) by (auto simp: s(1) receive_frames_append r1 split: prod.splits)
  have a: "frames_allowed acc fs1" "frames_allowed acc1 fs2"
    using Cons.prems(1) by (simp_all add: s(1) frames_allowed_append r1)
  obtain acts1 where "ws_loop (holding acc (encode_frames fs1 @ q)) = (acts1, holding acc1 q)" "map observe acts1 = ev1"
    using ws_loop_frames [OF a(1) r1 s(4)] by blast
  moreover have "(holding acc p)\<lparr>ws_recv := ws_recv (holding acc p) @ d\<rparr> = holding acc (encode_frames fs1 @ q)"
    using s(2) by (simp add: holding_def)
  moreover obtain acts2 where "mg_ws_reads (holding acc1 q) ds = (acts2, holding acc' [])" "map observe acts2 = ev2"
    using Cons.IH [OF a(2) s(3) r2(1) s(4)] by blast
  ultimately show ?case using r2(2) by (simp add: mg_ws_cb_def)
qed

section \<open>Properties\<close>

text \<open>
  C12. However the network cuts the bytes of a peer's frames into pieces, the callback does what the
  frames say, in their order: it reports every message once, with the payloads of its fragments joined and
  unmasked and with the flags of its first frame, although pings and other control frames come between the
  fragments; it answers pings and closes with the payload they carry; and when all bytes are in, the buffer
  holds just what the peer has sent of an unfinished message.
\<close>

theorem ws_messages_reassembled:
  assumes "frames_allowed None fs" "concat ds = encode_frames fs"
  shows "\<exists>acts. mg_ws_reads ws_start ds = (acts, holding (snd (receive_frames None fs)) []) \<and>
     map observe acts = fst (receive_frames None fs)"
proof -
  have "fst (ws_process []) = 0" by (simp add: ws_process_def ws_parse_header_def)
  then show ?thesis
    using mg_ws_reads_stream [of None fs "[]" ds "fst (receive_frames None fs)" "snd (receive_frames None fs)"] assms
    by (simp add: holding_def ws_start_def)
qed

text \<open>"Hel", a ping, and "lo" arrive in pieces of one, five and the remaining bytes.\<close>

definition witness_frames :: "ws_frame list" where
  "witness_frames =
    [\<lparr>fin = False, fop = 1, masked = True, mask_key = [1, 2, 3, 4], payload = [72, 101, 108]\<rparr>,
     \<lparr>fin = True, fop = 9, masked = True, mask_key = [5, 6, 7, 8], payload = [33]\<rparr>,
     \<lparr>fin = True, fop = 0, masked = False, mask_key = [], payload = [108, 111]\<rparr>]"

theorem ws_messages_reassembled_witness:
  "\<exists>acts. mg_ws_reads ws_start [take 1 (encode_frames witness_frames), take 5 (drop 1 (encode_frames witness_frames)),
       drop 6 (encode_frames witness_frames)] = (acts, ws_start) \<and>
     map observe acts = [Reply [33] 10, Ctl 137 [33], Ctl 128 [108, 111], Msg 1 [72, 101, 108, 108, 111]]"
proof -
  have ok: "frames_allowed None witness_frames"
    by (simp add: witness_frames_def frame_allowed_def frame_ok_def receive_frame_def SIZE_MAX_def)
  have r: "receive_frames None witness_frames =
      ([Reply [33] 10, Ctl 137 [33], Ctl 128 [108, 111], Msg 1 [72, 101, 108, 108, 111]], None)"
    by (simp add: witness_frames_def receive_frame_def flag_byte_def)
  have c: "concat [take 1 e, take 5 (drop 1 e), drop 6 e] = e" for e :: bytes
  proof -
    have "take 5 (drop 1 e) @ drop 6 e = drop 1 e" using append_take_drop_id [of 5 "drop 1 e"] by (simp add: add.commute)
    then show ?thesis using append_take_drop_id [of 1 e] by simp
  qed
  show ?thesis using ws_messages_reassembled [OF ok c] unfolding r by (simp add: holding_def ws_start_def)
qed

text \<open>The places the actions name.\<close>

fun action_message :: "ws_action \<Rightarrow> ws_message option" where
  "action_message (Call_WS_CTL m) = Some m"
| "action_message (Call_WS_MSG m) = Some m"
| "action_message (Ws_send m op) = Some m"
| "action_message Set_draining = None"
| "action_message (Ws_error op) = None"

definition action_ok :: "ws_action \<Rightarrow> bool" where
  "action_ok a = (case action_message a of None \<Rightarrow> True | Some m \<Rightarrow> mg_str_ok m)"

text \<open>
  The frame that is reported wrongly: an empty frame that continues and ends a message, received while no
  fragment is kept; and whether the loop comes to such a frame.
\<close>

definition lone_end :: "ws_state \<Rightarrow> bool" where
  "lone_end c =
     (case ws_process (drop (ws_ofs c) (ws_recv c)) of (n, msg, tail) \<Rightarrow>
        n \<noteq> 0 \<and> ws_final (flags msg) \<and> ws_op (flags msg) = 0 \<and> data_len msg = 0 \<and> ws_ofs c = 0)"

function meets_lone_end :: "ws_state \<Rightarrow> bool" where
  "meets_lone_end c = (lone_end c \<or> (case ws_round c of None \<Rightarrow> False | Some (acts, c') \<Rightarrow> meets_lone_end c'))"
  by pat_completeness auto

termination
  by (relation "measure (\<lambda>c. length (ws_recv c) - ws_ofs c)") (auto dest: ws_round_less(1))

declare meets_lone_end.simps [simp del]

lemma meets_lone_end_none: "ws_round c = None \<Longrightarrow> \<not> meets_lone_end c"
  by (subst meets_lone_end.simps) (auto simp: lone_end_def, auto simp: ws_round_none)

lemma ws_dispatch_message: "a \<in> set (ws_dispatch m) \<Longrightarrow> action_message a = Some m' \<Longrightarrow> m' = m"
  by (auto simp: ws_dispatch_def Let_def split: if_splits)

lemma ws_round_ok:
  assumes "ws_round c = Some (acts, c')" "length (ws_recv c) \<le> SIZE_MAX"
  shows "(\<forall>a \<in> set acts. action_ok a) \<longleftrightarrow> \<not> lone_end c" and "length (ws_recv c') \<le> length (ws_recv c)"
proof -
  obtain n msg tail where p: "ws_process (drop (ws_ofs c) (ws_recv c)) = (n, msg, tail)" "0 < n"
    and n: "n = header_len msg + data_len msg" "2 \<le> header_len msg"
    "n \<le> length (ws_recv c) - ws_ofs c" "ws_ofs c < length (ws_recv c)" "length tail = length (ws_recv c) - ws_ofs c"
    using assms(1) by (rule ws_round_cases) (rule that; assumption)
  let ?buf = "take (ws_ofs c) (ws_recv c) @ tail"
  let ?m = "\<lparr>mflags = flags msg, mbuf = ?buf, mofs = ws_ofs c + header_len msg, mlen = data_len msg\<rparr>"
  have disp: "\<forall>a \<in> set (ws_dispatch ?m). action_ok a"
    using ws_dispatch_message n by (fastforce simp: action_ok_def mg_str_ok_def split: option.split)
  show "length (ws_recv c') \<le> length (ws_recv c)"
    using assms(1) p(2) n by (auto simp: ws_round_def p(1) Let_def del_at_def split: if_splits)
  have last: "action_ok (Call_WS_MSG \<lparr>mflags = fl, mbuf = del_at (ws_ofs c) (header_len msg) ?buf, mofs = 1,
      mlen = size_sub (ws_ofs c + data_len msg) 1\<rparr>) \<longleftrightarrow> ws_ofs c + data_len msg \<noteq> 0" for fl
  proof (cases "ws_ofs c + data_len msg = 0")
    case True
    then have "size_sub (ws_ofs c + data_len msg) 1 = SIZE_MAX" by (simp add: size_sub_def SIZE_MAX_def)
    moreover have "length (del_at (ws_ofs c) (header_len msg) ?buf) \<le> SIZE_MAX" using n assms(2) by (simp add: del_at_def)
    ultimately show ?thesis using True by (simp add: action_ok_def mg_str_ok_def)
  next
    case False
    moreover have "ws_ofs c + data_len msg \<le> SIZE_MAX" using n assms(2) by linarith
    ultimately have "size_sub (ws_ofs c + data_len msg) 1 = ws_ofs c + data_len msg - 1"
      by (intro size_sub_eq) linarith+
    moreover have "ws_ofs c + data_len msg \<le> length (ws_recv c) - header_len msg" using n by linarith
    ultimately show ?thesis using n False by (simp add: action_ok_def mg_str_ok_def del_at_def)
  qed
  have lone: "lone_end c \<longleftrightarrow> ws_final (flags msg) \<and> ws_op (flags msg) = 0 \<and> ws_ofs c + data_len msg = 0"
    using p(2) by (auto simp: lone_end_def p(1))
  show "(\<forall>a \<in> set acts. action_ok a) \<longleftrightarrow> \<not> lone_end c"
    unfolding lone using assms(1) p(2) disp last by (auto simp: ws_round_def p(1) Let_def split: if_splits)
qed

text \<open>
  C13. Whatever bytes arrive, the callback returns, with no whole frame left in the buffer and the offset
  inside it; and every control event, reply and message it hands out lies inside the bytes received if and only if
  it does not come to an empty final continuation frame while no fragment is kept.
\<close>

theorem ws_cb_in_bounds:
  assumes "length (ws_recv c) + length d \<le> SIZE_MAX" "ws_ofs c \<le> length (ws_recv c)"
  shows "case mg_ws_cb c d of (acts, c') \<Rightarrow>
     fst (ws_process (drop (ws_ofs c') (ws_recv c'))) = 0 \<and> ws_ofs c' \<le> length (ws_recv c') \<and>
     length (ws_recv c') \<le> length (ws_recv c) + length d \<and>
     ((\<forall>a \<in> set acts. action_ok a) \<longleftrightarrow> \<not> meets_lone_end (c\<lparr>ws_recv := ws_recv c @ d\<rparr>))"
proof -
  have "case ws_loop c of (acts, c') \<Rightarrow> fst (ws_process (drop (ws_ofs c') (ws_recv c'))) = 0 \<and>
     ws_ofs c' \<le> length (ws_recv c') \<and> length (ws_recv c') \<le> length (ws_recv c) \<and>
     ((\<forall>a \<in> set acts. action_ok a) \<longleftrightarrow> \<not> meets_lone_end c)"
    if "length (ws_recv c) \<le> SIZE_MAX" "ws_ofs c \<le> length (ws_recv c)" for c
    using that
  proof (induction c rule: ws_loop.induct)
    case (1 c)
    show ?case
    proof (cases "ws_round c")
      case None
      then have "ws_loop c = ([], c)" by (subst ws_loop.simps) simp
      with None 1(3) meets_lone_end_none [OF None] show ?thesis by (simp add: ws_round_none)
    next
      case (Some r)
      obtain acts c' where r: "ws_round c = Some (acts, c')" using Some by (cases r) simp
      obtain acts' c'' where l: "ws_loop c' = (acts', c'')" by (cases "ws_loop c'")
      have "fst (ws_process (drop (ws_ofs c'') (ws_recv c''))) = 0 \<and>
         ws_ofs c'' \<le> length (ws_recv c'') \<and> length (ws_recv c'') \<le> length (ws_recv c') \<and>
         ((\<forall>a \<in> set acts'. action_ok a) \<longleftrightarrow> \<not> meets_lone_end c')"
        using 1(1) [OF r refl] ws_round_ok [OF r 1(2)] ws_round_less(2) [OF r] 1(2) l by simp
      moreover have "ws_loop c = (acts @ acts', c'')" using ws_loop_some [OF r] l by simp
      moreover have "meets_lone_end c \<longleftrightarrow> lone_end c \<or> meets_lone_end c'" by (subst meets_lone_end.simps) (simp add: r)
      ultimately show ?thesis using ws_round_ok [OF r 1(2)] by auto
    qed
  qed
  from this [of "c\<lparr>ws_recv := ws_recv c @ d\<rparr>"] assms show ?thesis by (simp add: mg_ws_cb_def)
qed

theorem ws_cb_in_bounds_witness:
  "case mg_ws_cb ws_start [129, 1, 65, 129] of (acts, c') \<Rightarrow>
     fst (ws_process (drop (ws_ofs c') (ws_recv c'))) = 0 \<and> ws_ofs c' \<le> length (ws_recv c') \<and>
     length (ws_recv c') \<le> length (ws_recv ws_start) + length [129, 1, 65, 129 :: u8] \<and>
     ((\<forall>a \<in> set acts. action_ok a) \<longleftrightarrow> \<not> meets_lone_end (ws_start\<lparr>ws_recv := ws_recv ws_start @ [129, 1, 65, 129]\<rparr>))"
  by (rule ws_cb_in_bounds) (simp_all add: ws_start_def SIZE_MAX_def)

text \<open>
  A single empty frame that claims to continue and end a message, on a connection where no message
  has begun, is reported as a message of \<open>2\<^sup>6\<^sup>4 - 1\<close> bytes: its length is computed as the offset less
  one, with the offset zero. The message lies outside what was received, and the user's handler reads
  behind the buffer.
\<close>

theorem empty_continuation_overflows:
  assumes "frame_ok f" "fop f = 0" "fin f" "payload f = []"
  shows "\<exists>acts m c'. ws_round \<lparr>ws_recv = encode_frame f @ rest, ws_ofs = 0\<rparr> = Some (acts @ [Call_WS_MSG m], c') \<and>
     mlen m = 2 ^ 64 - 1 \<and> mbuf m = rest \<and> (length rest < 2 ^ 64 \<longrightarrow> \<not> mg_str_ok m)"
proof -
  have "ws_process (encode_frame f @ rest) = (length (encode_frame f),
      \<lparr>flags = flag_byte f, header_len = length (frame_header f), data_len = 0\<rparr>, frame_header f @ rest)"
    using ws_process_encode_frame [OF assms(1), of rest] assms(4) by simp
  moreover have "length (encode_frame f) > 0" using length_frame_header [of f] by (auto simp: length_encode_frame)
  moreover have "size_sub 0 (Suc 0) = 2 ^ 64 - 1" by (simp add: size_sub_def)
  ultimately show ?thesis using assms
    by (simp add: ws_round_def Let_def del_at_def mg_str_ok_def)
qed

theorem empty_continuation_overflows_witness:
  "\<exists>acts m c'. ws_round \<lparr>ws_recv = [128, 0], ws_ofs = 0\<rparr> = Some (acts @ [Call_WS_MSG m], c') \<and>
     mlen m = 2 ^ 64 - 1 \<and> mbuf m = [] \<and> \<not> mg_str_ok m"
proof -
  let ?f = "\<lparr>fin = True, fop = 0, masked = False, mask_key = [], payload = []\<rparr>"
  have "encode_frame ?f = [128, 0]" by (simp add: encode_frame_def mg_ws_frame_def mkhdr_def flag_byte_def)
  then show ?thesis using empty_continuation_overflows [of ?f "[]"] by (simp add: frame_ok_def)
qed

end
