(* ===== verification/Base64.thy ===== *)
theory Base64
  imports Prelude
begin

unbundle bit_operations_syntax

text \<open>
  Base64 (\<open>externals/mongoose/src/base64.c\<close>), with which the WebSocket handshake answers its client. The
  encoder works byte by byte on the destination, where it keeps the bits left over; the destination is a
  list of bytes and a write outside of it is \<open>None\<close>.
\<close>

section \<open>The code\<close>

definition mg_base64_encode_single :: "u8 \<Rightarrow> u8" where
  "mg_base64_encode_single c =
     (if c < 26 then c + 65
      else if c < 52 then c - 26 + 97
      else if c < 62 then c - 52 + 48
      else if c = 62 then 43 else 47)"

text \<open>\<open>None\<close> stands for -1.\<close>

definition mg_base64_decode_single :: "u8 \<Rightarrow> u8 option" where
  "mg_base64_decode_single c =
     (if 65 \<le> c \<and> c \<le> 90 then Some (c - 65)
      else if 97 \<le> c \<and> c \<le> 122 then Some (c + 26 - 97)
      else if 48 \<le> c \<and> c \<le> 57 then Some (c + 52 - 48)
      else if c = 43 then Some 62
      else if c = 47 then Some 63
      else if c = 61 then Some 64
      else None)"

definition poke :: "bytes \<Rightarrow> nat \<Rightarrow> u8 \<Rightarrow> bytes option" where
  "poke xs i v = (if i < length xs then Some (xs[i := v]) else None)"

definition mg_base64_update :: "u8 \<Rightarrow> bytes \<Rightarrow> nat \<Rightarrow> (bytes \<times> nat) option" where
  "mg_base64_update ch to n =
     (let rem = n mod 4 mod 3 in
      if n \<ge> length to then None
      else if rem = 0 then do {
        to \<leftarrow> poke to n (mg_base64_encode_single (drop_bit 2 ch));
        to \<leftarrow> poke to (n + 1) (push_bit 4 (ch AND 3));
        Some (to, n + 1)
      } else if rem = 1 then do {
        to \<leftarrow> poke to n (mg_base64_encode_single (to ! n OR drop_bit 4 ch));
        to \<leftarrow> poke to (n + 1) (push_bit 2 (ch AND 15));
        Some (to, n + 1)
      } else do {
        to \<leftarrow> poke to n (mg_base64_encode_single (to ! n OR drop_bit 6 ch));
        to \<leftarrow> poke to (n + 1) (mg_base64_encode_single (ch AND 63));
        Some (to, n + 2)
      })"

text \<open>The loop of \<open>mg_base64_final\<close> that fills up with \<open>=\<close> runs at most three times.\<close>

fun pad_equals :: "nat \<Rightarrow> bytes \<Rightarrow> nat \<Rightarrow> (bytes \<times> nat) option" where
  "pad_equals 0 to n = Some (to, n)"
| "pad_equals (Suc k) to n =
     (if n mod 4 = 0 then Some (to, n) else Option.bind (poke to n 61) (\<lambda>to. pad_equals k to (n + 1)))"

definition mg_base64_final :: "bytes \<Rightarrow> nat \<Rightarrow> (bytes \<times> nat) option" where
  "mg_base64_final to n0 = do {
     (to, n) \<leftarrow> (if n0 mod 4 \<noteq> 0 then mg_base64_update 0 to n0 else Some (to, n0));
     let n = (if n0 mod 4 = 2 then n - 1 else n);
     (to, n) \<leftarrow> pad_equals 3 to n;
     to \<leftarrow> poke to n 0;
     Some (to, n)
   }"

fun base64_updates :: "bytes \<Rightarrow> bytes \<Rightarrow> nat \<Rightarrow> (bytes \<times> nat) option" where
  "base64_updates [] to n = Some (to, n)"
| "base64_updates (ch # p) to n = Option.bind (mg_base64_update ch to n) (\<lambda>(to, n). base64_updates p to n)"

definition mg_base64_encode :: "bytes \<Rightarrow> bytes \<Rightarrow> (bytes \<times> nat) option" where
  "mg_base64_encode p to =
     (let dl = length to; to = (if dl > 0 then to[0 := 0] else to); n = length p in
      if dl < (n div 3 + (if n mod 3 \<noteq> 0 then 1 else 0)) * 4 + 1 then Some (to, 0)
      else Option.bind (base64_updates p to 0) (\<lambda>(to, n). mg_base64_final to n))"

text \<open>One quartet of the decoder: the bytes it stores, or a failure.\<close>

definition decode_quartet :: "u8 \<Rightarrow> u8 \<Rightarrow> u8 \<Rightarrow> u8 \<Rightarrow> bytes option" where
  "decode_quartet s0 s1 s2 s3 = do {
     a \<leftarrow> mg_base64_decode_single s0; b \<leftarrow> mg_base64_decode_single s1;
     c \<leftarrow> mg_base64_decode_single s2; d \<leftarrow> mg_base64_decode_single s3;
     if a = 64 \<or> b = 64 then None
     else Some ((push_bit 2 a OR drop_bit 4 b) #
       (if s2 = 61 then [] else (push_bit 4 b OR drop_bit 2 c) # (if s3 = 61 then [] else [push_bit 6 c OR d])))
   }"

text \<open>
  The loop: the bytes are stored from \<open>len\<close> on. The outer \<open>None\<close> is a write outside of the destination,
  the inner one the jump to \<open>fail\<close>.
\<close>

fun decode_loop :: "bytes \<Rightarrow> bytes \<Rightarrow> nat \<Rightarrow> (bytes \<times> nat) option option" where
  "decode_loop (s0 # s1 # s2 # s3 # src) dst len =
     (case decode_quartet s0 s1 s2 s3 of
        None \<Rightarrow> Some None
      | Some bs \<Rightarrow> Option.bind (memcpy_into dst len bs) (\<lambda>dst. decode_loop src dst (len + length bs)))"
| "decode_loop src dst len = Some (Some (dst, len))"

definition mg_base64_decode :: "bytes \<Rightarrow> bytes \<Rightarrow> (bytes \<times> nat) option" where
  "mg_base64_decode src dst =
     (let dl = length dst; fail = Some ((if dl > 0 then dst[0 := 0] else dst), 0) in
      if dl < length src div 4 * 3 + 1 then fail
      else do {
        r \<leftarrow> decode_loop src dst 0;
        (case r of None \<Rightarrow> fail | Some (dst, len) \<Rightarrow> Option.bind (poke dst len 0) (\<lambda>dst. Some (dst, len)))
      })"

section \<open>What it computes\<close>

text \<open>The encoding by groups of three bytes (RFC 4648).\<close>

fun base64 :: "bytes \<Rightarrow> bytes" where
  "base64 (a # b # c # p) =
     mg_base64_encode_single (drop_bit 2 a) # mg_base64_encode_single (push_bit 4 (a AND 3) OR drop_bit 4 b) #
     mg_base64_encode_single (push_bit 2 (b AND 15) OR drop_bit 6 c) # mg_base64_encode_single (c AND 63) # base64 p"
| "base64 [a, b] =
     [mg_base64_encode_single (drop_bit 2 a), mg_base64_encode_single (push_bit 4 (a AND 3) OR drop_bit 4 b),
      mg_base64_encode_single (push_bit 2 (b AND 15)), 61]"
| "base64 [a] = [mg_base64_encode_single (drop_bit 2 a), mg_base64_encode_single (push_bit 4 (a AND 3)), 61, 61]"
| "base64 [] = []"

lemma length_base64: "length (base64 p) = (length p div 3 + (if length p mod 3 \<noteq> 0 then 1 else 0)) * 4"
  by (induction p rule: base64.induct) (auto simp: Suc_div_le_mono mod_Suc div_Suc)

text \<open>Three more bytes are four more characters, written over whatever was there.\<close>

lemma poke_append: "length xs = n \<Longrightarrow> poke (xs @ y # ys) n v = Some (xs @ v # ys)"
  by (auto simp: poke_def)

lemma poke_append_Suc: "length xs = n \<Longrightarrow> poke (xs @ x # y # ys) (Suc n) v = Some (xs @ x # v # ys)"
  using poke_append [of "xs @ [x]" "Suc n" y ys v] by simp

lemma nth_append_here: "length xs = n \<Longrightarrow> (xs @ y # ys) ! n = y"
  by auto

lemmas poke_simps = poke_append poke_append_Suc nth_append_here

lemma update_0:
  assumes "length pre = n" "n mod 4 = 0"
  shows "mg_base64_update ch (pre @ x0 # x1 # post) n =
    Some (pre @ mg_base64_encode_single (drop_bit 2 ch) # push_bit 4 (ch AND 3) # post, n + 1)"
  using assms by (simp add: mg_base64_update_def poke_simps)

lemma update_1:
  assumes "length pre = n" "n mod 4 = 1"
  shows "mg_base64_update ch (pre @ x1 # x2 # post) n =
    Some (pre @ mg_base64_encode_single (x1 OR drop_bit 4 ch) # push_bit 2 (ch AND 15) # post, n + 1)"
  using assms by (simp add: mg_base64_update_def poke_simps)

lemma update_2:
  assumes "length pre = n" "n mod 4 = 2"
  shows "mg_base64_update ch (pre @ x2 # x3 # post) n =
    Some (pre @ mg_base64_encode_single (x2 OR drop_bit 6 ch) # mg_base64_encode_single (ch AND 63) # post, n + 2)"
  using assms by (simp add: mg_base64_update_def poke_simps)

lemma updates_group:
  assumes "length pre = n" "n mod 4 = 0"
  shows "base64_updates (a # b # c # p) (pre @ x0 # x1 # x2 # x3 # post) n =
    base64_updates p (pre @ base64 [a, b, c] @ post) (n + 4)"
proof -
  let ?y0 = "mg_base64_encode_single (drop_bit 2 a)"
  let ?y1 = "mg_base64_encode_single (push_bit 4 (a AND 3) OR drop_bit 4 b)"
  have m: "(n + 1) mod 4 = 1" "(n + 1 + 1) mod 4 = 2" using assms(2) by presburger+
  have 1: "mg_base64_update b (pre @ ?y0 # push_bit 4 (a AND 3) # x2 # x3 # post) (n + 1) =
      Some (pre @ ?y0 # ?y1 # push_bit 2 (b AND 15) # x3 # post, n + 1 + 1)"
    using update_1 [of "pre @ [?y0]" "n + 1" b] assms(1) m(1) by simp
  have 2: "mg_base64_update c (pre @ ?y0 # ?y1 # push_bit 2 (b AND 15) # x3 # post) (n + 1 + 1) =
      Some (pre @ base64 [a, b, c] @ post, n + 1 + 1 + 2)"
    using update_2 [of "pre @ [?y0, ?y1]" "n + 1 + 1" c] assms(1) m(2) by simp
  have n4: "n + 1 + 1 + 2 = n + 4" by simp
  show ?thesis by (simp only: base64_updates.simps bind.bind_lunit prod.case update_0 [OF assms] 1 2 n4)
qed

lemma updates_two:
  assumes "length pre = n" "n mod 4 = 0"
  shows "base64_updates [a, b] (pre @ x0 # x1 # x2 # post) n =
    Some (pre @ mg_base64_encode_single (drop_bit 2 a) # mg_base64_encode_single (push_bit 4 (a AND 3) OR drop_bit 4 b) #
      push_bit 2 (b AND 15) # post, n + 2)"
proof -
  let ?y0 = "mg_base64_encode_single (drop_bit 2 a)"
  let ?y1 = "mg_base64_encode_single (push_bit 4 (a AND 3) OR drop_bit 4 b)"
  have m: "(n + 1) mod 4 = 1" using assms(2) by presburger
  have 1: "mg_base64_update b (pre @ ?y0 # push_bit 4 (a AND 3) # x2 # post) (n + 1) =
      Some (pre @ ?y0 # ?y1 # push_bit 2 (b AND 15) # post, n + 1 + 1)"
    using update_1 [of "pre @ [?y0]" "n + 1" b] assms(1) m by simp
  have n2: "n + 1 + 1 = n + 2" by simp
  show ?thesis by (simp only: base64_updates.simps bind.bind_lunit prod.case update_0 [OF assms] 1 n2)
qed

lemma pad_equals_1: "length pre = n \<Longrightarrow> n mod 4 = 3 \<Longrightarrow> pad_equals 3 (pre @ x # post) n = Some (pre @ 61 # post, n + 1)"
  by (simp add: numeral_3_eq_3 poke_simps mod_Suc)

lemma pad_equals_2: "length pre = n \<Longrightarrow> n mod 4 = 2 \<Longrightarrow> pad_equals 3 (pre @ x # y # post) n = Some (pre @ 61 # 61 # post, n + 2)"
  by (simp add: numeral_3_eq_3 poke_simps mod_Suc)

lemma final_0:
  assumes "length pre = n" "n mod 4 = 0"
  shows "mg_base64_final (pre @ x # post) n = Some (pre @ 0 # post, n)"
  using assms by (simp add: mg_base64_final_def numeral_3_eq_3 poke_simps)

lemma final_1:
  assumes "length pre = n" "n mod 4 = 1"
  shows "mg_base64_final (pre @ x1 # x2 # x3 # x4 # post) n =
    Some (pre @ mg_base64_encode_single x1 # 61 # 61 # 0 # post, n + 3)"
proof -
  have m: "(n + 1) mod 4 = 2" using assms(2) by presburger
  have u: "mg_base64_update 0 (pre @ x1 # x2 # x3 # x4 # post) n = Some (pre @ mg_base64_encode_single x1 # 0 # x3 # x4 # post, n + 1)"
    using update_1 [OF assms, of 0 x1 x2] by simp
  have p: "pad_equals 3 (pre @ mg_base64_encode_single x1 # 0 # x3 # x4 # post) (n + 1) =
      Some (pre @ mg_base64_encode_single x1 # 61 # 61 # x4 # post, n + 1 + 2)"
    using pad_equals_2 [of "pre @ [mg_base64_encode_single x1]" "n + 1"] m assms(1) by simp
  have q: "poke (pre @ mg_base64_encode_single x1 # 61 # 61 # x4 # post) (n + 3) 0 =
      Some (pre @ mg_base64_encode_single x1 # 61 # 61 # 0 # post)"
    using poke_append [of "pre @ [mg_base64_encode_single x1, 61, 61]" "n + 3"] assms(1) by simp
  have "n + 1 + 2 = n + 3" by simp
  then show ?thesis using assms(2) by (simp add: mg_base64_final_def u p [simplified] q [unfolded numeral_3_eq_3, simplified] Let_def)
qed

lemma final_2:
  assumes "length pre = n" "n mod 4 = 2"
  shows "mg_base64_final (pre @ x2 # x3 # x4 # post) n = Some (pre @ mg_base64_encode_single x2 # 61 # 0 # post, n + 2)"
proof -
  have m: "(n + 1) mod 4 = 3" using assms(2) by presburger
  have u: "mg_base64_update 0 (pre @ x2 # x3 # x4 # post) n =
      Some (pre @ mg_base64_encode_single x2 # mg_base64_encode_single 0 # x4 # post, n + 2)"
    using update_2 [OF assms, of 0 x2 x3] by simp
  have p: "pad_equals 3 (pre @ mg_base64_encode_single x2 # mg_base64_encode_single 0 # x4 # post) (n + 1) =
      Some (pre @ mg_base64_encode_single x2 # 61 # x4 # post, n + 1 + 1)"
    using pad_equals_1 [of "pre @ [mg_base64_encode_single x2]" "n + 1"] m assms(1) by simp
  have q: "poke (pre @ mg_base64_encode_single x2 # 61 # x4 # post) (n + 2) 0 =
      Some (pre @ mg_base64_encode_single x2 # 61 # 0 # post)"
    using poke_append [of "pre @ [mg_base64_encode_single x2, 61]" "n + 2"] assms(1) by simp
  have n: "n + 2 - 1 = n + 1" "n + 1 + 1 = n + 2" by simp_all
  show ?thesis using assms(2) unfolding mg_base64_final_def
    by (simp only: u Let_def bind.bind_lunit prod.case n if_True p q) (simp add: u p [simplified] q [unfolded numeral_2_eq_2, simplified])
qed

lemma list_split_4: "4 \<le> length xs \<Longrightarrow> \<exists>x0 x1 x2 x3 ys. xs = x0 # x1 # x2 # x3 # ys"
  by (auto simp: Suc_le_length_iff numeral_eq_Suc)

lemma updates_final:
  assumes "length pre = n" "n mod 4 = 0" "length (base64 p) < length post"
  shows "Option.bind (base64_updates p (pre @ post) n) (\<lambda>(to, n). mg_base64_final to n) =
    Some (pre @ base64 p @ 0 # drop (Suc (length (base64 p))) post, n + length (base64 p))"
  using assms
proof (induction p arbitrary: pre n post rule: base64.induct)
  case (1 a b c p)
  then obtain x0 x1 x2 x3 post' where post: "post = x0 # x1 # x2 # x3 # post'" using list_split_4 [of post] by auto
  have "Option.bind (base64_updates p ((pre @ base64 [a, b, c]) @ post') (n + 4)) (\<lambda>(to, n). mg_base64_final to n) =
      Some ((pre @ base64 [a, b, c]) @ base64 p @ 0 # drop (Suc (length (base64 p))) post', n + 4 + length (base64 p))"
    using 1(2-4) post by (intro 1(1)) simp_all
  then show ?case unfolding post(1) updates_group [OF 1(2,3)] by simp
next
  case (2 a b)
  then obtain x0 x1 x2 x3 post1 where post1: "post = x0 # x1 # x2 # x3 # post1" using list_split_4 [of post] by auto
  then obtain x4 post' where post: "post = x0 # x1 # x2 # x3 # x4 # post'" using 2(3) by (cases post1) auto
  have "(n + 2) mod 4 = 2" using 2(2) by presburger
  then show ?case
    using updates_two [OF 2(1,2), of a b x0 x1 x2 "x3 # x4 # post'"] 2(1)
      final_2 [of "pre @ [mg_base64_encode_single (drop_bit 2 a), mg_base64_encode_single (push_bit 4 (a AND 3) OR drop_bit 4 b)]" "n + 2"]
    by (simp add: post)
next
  case (3 a)
  then obtain x0 x1 x2 x3 post1 where post1: "post = x0 # x1 # x2 # x3 # post1" using list_split_4 [of post] by auto
  then obtain x4 post' where post: "post = x0 # x1 # x2 # x3 # x4 # post'" using 3(3) by (cases post1) auto
  have "(n + 1) mod 4 = 1" using 3(2) by presburger
  then show ?case
    using update_0 [OF 3(1,2), of a x0 x1 "x2 # x3 # x4 # post'"] 3(1)
      final_1 [of "pre @ [mg_base64_encode_single (drop_bit 2 a)]" "n + 1"]
    by (simp add: post)
next
  case 4
  then obtain x post' where "post = x # post'" by (cases post) auto
  with final_0 [OF 4(1,2)] show ?case by simp
qed

section \<open>Reading it back\<close>

lemma decode_encode_single:
  assumes "x AND 63 = x"
  shows "mg_base64_decode_single (mg_base64_encode_single x) = Some x" and "mg_base64_encode_single x \<noteq> 61" and "x \<noteq> 64"
proof -
  have "x AND 63 \<le> 63" by (rule word_and_le1)
  then have "x \<le> 63" using assms by simp
  then have k: "unat x < 64" "x = word_of_nat (unat x)" by (simp_all add: word_le_nat_alt)
  have "\<forall>k \<in> {..<64}. mg_base64_decode_single (mg_base64_encode_single (word_of_nat k)) = Some (word_of_nat k) \<and>
      mg_base64_encode_single (word_of_nat k) \<noteq> 61 \<and> word_of_nat k \<noteq> (64 :: u8)"
    by (simp add: lessThan_nat_numeral mg_base64_decode_single_def mg_base64_encode_single_def)
  then show "mg_base64_decode_single (mg_base64_encode_single x) = Some x" "mg_base64_encode_single x \<noteq> 61" "x \<noteq> 64"
    using k(1) by (auto dest!: bspec [of "{..<64}" _ "unat x"])
qed

lemma sextet_masks: "(3 :: u8) = mask 2" "(15 :: u8) = mask 4" "(63 :: u8) = mask 6"
  by (simp_all add: mask_eq_exp_minus_1)

lemma sextet:
  "drop_bit 2 a AND 63 = (drop_bit 2 a :: u8)"
  "(push_bit 4 (a AND 3) OR drop_bit 4 b) AND 63 = (push_bit 4 (a AND 3) OR drop_bit 4 b :: u8)"
  "(push_bit 2 (b AND 15) OR drop_bit 6 c) AND 63 = (push_bit 2 (b AND 15) OR drop_bit 6 c :: u8)"
  "push_bit 4 (a AND 3) AND 63 = (push_bit 4 (a AND 3) :: u8)"
  "push_bit 2 (b AND 15) AND 63 = (push_bit 2 (b AND 15) :: u8)"
  "(c AND 63) AND 63 = (c AND 63 :: u8)"
  unfolding sextet_masks by (rule bit_word_eqI; auto simp: bit_simps dest: bit_imp_le_length)+

lemma u8_eqI:
  assumes "\<And>n. n \<in> {0, 1, 2, 3, 4, 5, 6, 7} \<Longrightarrow> bit a n = bit b n"
  shows "a = (b :: u8)"
proof (rule bit_word_eqI)
  fix n :: nat assume "n < LENGTH(8)"
  then have "n \<in> {0, 1, 2, 3, 4, 5, 6, 7}" by auto
  then show "bit a n = bit b n" by (rule assms)
qed

lemma octet:
  "push_bit 2 (drop_bit 2 a) OR drop_bit 4 (push_bit 4 (a AND 3) OR drop_bit 4 b) = (a :: u8)"
  "push_bit 4 (push_bit 4 (a AND 3) OR drop_bit 4 b) OR drop_bit 2 (push_bit 2 (b AND 15) OR drop_bit 6 c) = (b :: u8)"
  "push_bit 6 (push_bit 2 (b AND 15) OR drop_bit 6 c) OR (c AND 63) = (c :: u8)"
  "push_bit 2 (drop_bit 2 a) OR drop_bit 4 (push_bit 4 (a AND 3)) = (a :: u8)"
  "push_bit 4 (push_bit 4 (a AND 3) OR drop_bit 4 b) OR drop_bit 2 (push_bit 2 (b AND 15)) = (b :: u8)"
  unfolding sextet_masks by (rule u8_eqI; auto simp: bit_simps dest: bit_imp_le_length simp flip: numeral_2_eq_2)+

lemma decode_quartets:
  "decode_quartet (mg_base64_encode_single (drop_bit 2 a)) (mg_base64_encode_single (push_bit 4 (a AND 3) OR drop_bit 4 b))
     (mg_base64_encode_single (push_bit 2 (b AND 15) OR drop_bit 6 c)) (mg_base64_encode_single (c AND 63)) = Some [a, b, c]"
  "decode_quartet (mg_base64_encode_single (drop_bit 2 a)) (mg_base64_encode_single (push_bit 4 (a AND 3) OR drop_bit 4 b))
     (mg_base64_encode_single (push_bit 2 (b AND 15))) 61 = Some [a, b]"
  "decode_quartet (mg_base64_encode_single (drop_bit 2 a)) (mg_base64_encode_single (push_bit 4 (a AND 3))) 61 61 = Some [a]"
proof -
  note ds = decode_encode_single [OF sextet(1)] decode_encode_single [OF sextet(2)] decode_encode_single [OF sextet(3)]
    decode_encode_single [OF sextet(4)] decode_encode_single [OF sextet(5)] decode_encode_single [OF sextet(6)]
  have eq: "mg_base64_decode_single 61 = Some 64" by (simp add: mg_base64_decode_single_def)
  show "decode_quartet (mg_base64_encode_single (drop_bit 2 a)) (mg_base64_encode_single (push_bit 4 (a AND 3) OR drop_bit 4 b))
     (mg_base64_encode_single (push_bit 2 (b AND 15) OR drop_bit 6 c)) (mg_base64_encode_single (c AND 63)) = Some [a, b, c]"
    by (simp only: decode_quartet_def ds eq bind.bind_lunit octet simp_thms if_False if_True)
  show "decode_quartet (mg_base64_encode_single (drop_bit 2 a)) (mg_base64_encode_single (push_bit 4 (a AND 3) OR drop_bit 4 b))
     (mg_base64_encode_single (push_bit 2 (b AND 15))) 61 = Some [a, b]"
    by (simp only: decode_quartet_def ds eq bind.bind_lunit octet simp_thms if_False if_True)
  show "decode_quartet (mg_base64_encode_single (drop_bit 2 a)) (mg_base64_encode_single (push_bit 4 (a AND 3))) 61 61 = Some [a]"
    by (simp only: decode_quartet_def ds eq bind.bind_lunit octet simp_thms if_False if_True)
qed

lemma memcpy_into_append: "length pre = n \<Longrightarrow> length bs \<le> length post \<Longrightarrow>
    memcpy_into (pre @ post) n bs = Some (pre @ bs @ drop (length bs) post)"
  by (auto simp: memcpy_into_def put_slice_def)

lemma decode_loop_base64:
  assumes "length pre = n" "length p \<le> length post"
  shows "decode_loop (base64 p) (pre @ post) n = Some (Some (pre @ p @ drop (length p) post, n + length p))"
  using assms
proof (induction p arbitrary: pre n post rule: base64.induct)
  case (1 a b c p)
  have "memcpy_into (pre @ post) n [a, b, c] = Some ((pre @ [a, b, c]) @ drop 3 post)"
    using memcpy_into_append [of pre n "[a, b, c]" post] 1(2,3) by (simp add: numeral_3_eq_3)
  moreover have "decode_loop (base64 p) ((pre @ [a, b, c]) @ drop 3 post) (n + 3) =
      Some (Some ((pre @ [a, b, c]) @ p @ drop (length p) (drop 3 post), n + 3 + length p))"
    using 1(2,3) by (intro 1(1)) simp_all
  ultimately show ?case
    by (simp only: base64.simps decode_loop.simps decode_quartets option.case bind.bind_lunit)
      (simp add: numeral_3_eq_3)
next
  case (2 a b)
  then have "memcpy_into (pre @ post) n [a, b] = Some (pre @ a # b # drop 2 post)"
    using memcpy_into_append [of pre n "[a, b]" post] by (simp add: numeral_2_eq_2)
  then show ?case
    by (simp only: base64.simps decode_loop.simps decode_quartets option.case bind.bind_lunit) (simp add: numeral_2_eq_2)
next
  case (3 a)
  then have "memcpy_into (pre @ post) n [a] = Some (pre @ a # drop 1 post)"
    using memcpy_into_append [of pre n "[a]" post] by simp
  then show ?case
    by (simp only: base64.simps decode_loop.simps decode_quartets option.case bind.bind_lunit) simp
qed simp

lemma base64_encode_decode:
  assumes "length (base64 p) < length to" "length (base64 p) div 4 * 3 < length dst"
  shows "mg_base64_encode p to = Some (base64 p @ 0 # drop (Suc (length (base64 p))) to, length (base64 p))"
    and "mg_base64_decode (base64 p) dst = Some (p @ 0 # drop (Suc (length p)) dst, length p)"
proof -
  obtain x to' where to: "to = x # to'" using assms(1) by (cases to) auto
  have "Option.bind (base64_updates p ([] @ (0 # to')) 0) (\<lambda>(to, n). mg_base64_final to n) =
      Some ([] @ base64 p @ 0 # drop (Suc (length (base64 p))) (0 # to'), 0 + length (base64 p))"
    using assms(1) by (intro updates_final) (simp_all add: to)
  moreover have "\<not> length to < (length p div 3 + (if length p mod 3 \<noteq> 0 then 1 else 0)) * 4 + 1"
    using assms(1) length_base64 [of p] by simp
  ultimately show "mg_base64_encode p to = Some (base64 p @ 0 # drop (Suc (length (base64 p))) to, length (base64 p))"
    by (simp add: mg_base64_encode_def to Let_def)
  have le: "length p < length dst" using assms(2) length_base64 [of p] by (auto split: if_splits)
  have d: "decode_loop (base64 p) dst 0 = Some (Some (p @ drop (length p) dst, length p))"
    using decode_loop_base64 [of "[]" 0 p dst] le by simp
  have "drop (length p) dst = dst ! length p # drop (Suc (length p)) dst" using le by (simp add: Cons_nth_drop_Suc)
  then have "poke (p @ drop (length p) dst) (length p) 0 = Some (p @ 0 # drop (Suc (length p)) dst)"
    by (simp add: poke_append)
  then show "mg_base64_decode (base64 p) dst = Some (p @ 0 # drop (Suc (length p)) dst, length p)"
    using assms(2) by (simp add: mg_base64_decode_def Let_def d)
qed

section \<open>Properties\<close>

text \<open>
  C14. When the destination has room for the text and its terminating zero, the encoder writes the
  Base64 text of its input (RFC 4648) and the zero, nothing else and nothing outside of the destination,
  and decoding the text gives the input back; the decoder writes only inside its destination.
\<close>

theorem base64_roundtrip:
  assumes "length (base64 p) < length to" "length (base64 p) div 4 * 3 < length dst"
  shows "mg_base64_encode p to = Some (base64 p @ 0 # drop (Suc (length (base64 p))) to, length (base64 p)) \<and>
    mg_base64_decode (base64 p) dst = Some (p @ 0 # drop (Suc (length p)) dst, length p)"
  using base64_encode_decode [OF assms] by (rule conjI)

theorem base64_roundtrip_witness:
  "mg_base64_encode [77, 97] [1, 2, 3, 4, 5, 6] = Some ([84, 87, 69, 61, 0, 6], 4) \<and>
   mg_base64_decode [84, 87, 69, 61] [1, 2, 3, 4] = Some ([77, 97, 0, 4], 2)"
proof -
  have "base64 [77, 97] = [84, 87, 69, 61]" by (simp add: mg_base64_encode_single_def)
  then show ?thesis using base64_roundtrip [of "[77, 97]" "[1, 2, 3, 4, 5, 6]" "[1, 2, 3, 4]"] by simp
qed

end
