(* ===== verification/Sha1.thy ===== *)
theory Sha1
  imports Prelude
begin

unbundle bit_operations_syntax

text \<open>
  SHA-1 (\<open>externals/mongoose/src/sha1.c\<close>), which the WebSocket handshake needs: the block transform with
  its schedule in sixteen words that are overwritten, and the context that takes a message in pieces of any
  size. It is shown to compute the function that FIPS 180-4 defines on whole messages.
\<close>

section \<open>The code\<close>

definition rol :: "u32 \<Rightarrow> nat \<Rightarrow> u32" where
  "rol v bits = push_bit bits v OR drop_bit (32 - bits) v"

text \<open>A word of the block as the processor, which is little-endian, loads it.\<close>

definition load32 :: "bytes \<Rightarrow> nat \<Rightarrow> u32" where
  "load32 b i = ucast (b ! i) OR push_bit 8 (ucast (b ! (i + 1))) OR push_bit 16 (ucast (b ! (i + 2))) OR push_bit 24 (ucast (b ! (i + 3)))"

definition blk0 :: "u32 list \<Rightarrow> nat \<Rightarrow> u32 list" where
  "blk0 block i = block[i := (rol (block ! i) 24 AND 0xFF00FF00) OR (rol (block ! i) 8 AND 0x00FF00FF)]"

definition blk :: "u32 list \<Rightarrow> nat \<Rightarrow> u32 list" where
  "blk block i = block[i mod 16 :=
     rol (block ! ((i + 13) mod 16) XOR block ! ((i + 8) mod 16) XOR block ! ((i + 2) mod 16) XOR block ! (i mod 16)) 1]"

text \<open>
  The macros \<open>R0\<close> to \<open>R4\<close>. Round \<open>i\<close> is called with the variables \<open>a\<close> to \<open>e\<close> shifted by \<open>i\<close> places, so that
  its \<open>v\<close> is variable number \<open>4 * i mod 5\<close>.
\<close>

definition round_f :: "nat \<Rightarrow> u32 \<Rightarrow> u32 \<Rightarrow> u32 \<Rightarrow> u32" where
  "round_f i w x y =
     (if i < 20 then (w AND (x XOR y)) XOR y
      else if i < 40 then w XOR x XOR y
      else if i < 60 then ((w OR x) AND y) OR (w AND x)
      else w XOR x XOR y)"

definition round_k :: "nat \<Rightarrow> u32" where
  "round_k i = (if i < 20 then 0x5A827999 else if i < 40 then 0x6ED9EBA1 else if i < 60 then 0x8F1BBCDC else 0xCA62C1D6)"

definition sha_round :: "nat \<Rightarrow> u32 list \<times> u32 list \<Rightarrow> u32 list \<times> u32 list" where
  "sha_round i s =
     (let (r, block) = s; var = (\<lambda>k. (4 * i + k) mod 5);
          v = r ! var 0; w = r ! var 1; x = r ! var 2; y = r ! var 3; z = r ! var 4;
          block = (if i < 16 then blk0 block i else blk block i)
      in (r[var 4 := z + (round_f i w x y + block ! (i mod 16) + round_k i + rol v 5), var 1 := rol w 30], block))"

definition mg_sha1_transform :: "u32 list \<Rightarrow> bytes \<Rightarrow> u32 list" where
  "mg_sha1_transform state buf =
     (case fold sha_round [0..<80] (state, map (\<lambda>i. load32 buf (4 * i)) [0..<16]) of
        (r, block) \<Rightarrow> map2 (+) state r)"

record mg_sha1_ctx =
  sha_state :: "u32 list"
  count0 :: u32
  count1 :: u32
  sha_buffer :: bytes

definition mg_sha1_init :: "bytes \<Rightarrow> mg_sha1_ctx" where
  "mg_sha1_init buf = \<lparr>sha_state = [0x67452301, 0xEFCDAB89, 0x98BADCFE, 0x10325476, 0xC3D2E1F0],
     count0 = 0, count1 = 0, sha_buffer = buf\<rparr>"

text \<open>The loop over the whole blocks of the data, and what is left of it.\<close>

function sha1_blocks :: "u32 list \<Rightarrow> bytes \<Rightarrow> u32 list \<times> bytes" where
  "sha1_blocks state d = (if 63 < length d then sha1_blocks (mg_sha1_transform state (take 64 d)) (drop 64 d) else (state, d))"
  by pat_completeness auto

termination
  by (relation "measure (\<lambda>(state, d). length d)") auto

declare sha1_blocks.simps [simp del]

definition mg_sha1_update :: "mg_sha1_ctx \<Rightarrow> bytes \<Rightarrow> mg_sha1_ctx" where
  "mg_sha1_update c d =
     (let len = length d; j0 = count0 c;
          c0 = j0 + push_bit 3 (word_of_nat len);
          c1 = (if c0 < j0 then count1 c + 1 else count1 c) + word_of_nat (len div 2 ^ 29);
          j = unat (drop_bit 3 j0 AND 63) in
      if j + len > 63 then
        (let i = 64 - j;
             buf = put_slice (sha_buffer c) j (take i d);
             (state, rest) = sha1_blocks (mg_sha1_transform (sha_state c) buf) (drop i d)
         in \<lparr>sha_state = state, count0 = c0, count1 = c1, sha_buffer = put_slice buf 0 rest\<rparr>)
      else c\<lparr>count0 := c0, count1 := c1, sha_buffer := put_slice (sha_buffer c) j d\<rparr>)"

text \<open>The loop that pads with zeros, with fuel; it runs at most 63 times.\<close>

fun pad_zeros :: "nat \<Rightarrow> mg_sha1_ctx \<Rightarrow> mg_sha1_ctx option" where
  "pad_zeros 0 c = None"
| "pad_zeros (Suc k) c = (if count0 c AND 504 \<noteq> 448 then pad_zeros k (mg_sha1_update c [0]) else Some c)"

definition mg_sha1_final :: "mg_sha1_ctx \<Rightarrow> bytes option" where
  "mg_sha1_final c =
     (let finalcount = map (\<lambda>i. ucast (drop_bit ((3 - i mod 4) * 8) (if i \<ge> 4 then count0 c else count1 c))) [0..<8] in do {
        c1 \<leftarrow> pad_zeros 64 (mg_sha1_update c [128]);
        let c2 = mg_sha1_update c1 finalcount;
        Some (map (\<lambda>i. ucast (drop_bit ((3 - i mod 4) * 8) (sha_state c2 ! (i div 4)))) [0..<20])
      })"

section \<open>The function of FIPS 180-4\<close>

definition be_word :: "bytes \<Rightarrow> nat \<Rightarrow> u32" where
  "be_word b i = push_bit 24 (ucast (b ! i)) OR push_bit 16 (ucast (b ! (i + 1))) OR push_bit 8 (ucast (b ! (i + 2))) OR ucast (b ! (i + 3))"

fun schedule :: "bytes \<Rightarrow> nat \<Rightarrow> u32" where
  "schedule b t =
     (if t < 16 then be_word b (4 * t)
      else rol (schedule b (t - 3) XOR schedule b (t - 8) XOR schedule b (t - 14) XOR schedule b (t - 16)) 1)"

declare schedule.simps [simp del]

definition Ch :: "u32 \<Rightarrow> u32 \<Rightarrow> u32 \<Rightarrow> u32" where "Ch x y z = (x AND y) XOR (NOT x AND z)"
definition Parity :: "u32 \<Rightarrow> u32 \<Rightarrow> u32 \<Rightarrow> u32" where "Parity x y z = x XOR y XOR z"
definition Maj :: "u32 \<Rightarrow> u32 \<Rightarrow> u32 \<Rightarrow> u32" where "Maj x y z = (x AND y) XOR (x AND z) XOR (y AND z)"

definition sha_f :: "nat \<Rightarrow> u32 \<Rightarrow> u32 \<Rightarrow> u32 \<Rightarrow> u32" where
  "sha_f t = (if t < 20 then Ch else if t < 40 then Parity else if t < 60 then Maj else Parity)"

type_synonym hash5 = "u32 \<times> u32 \<times> u32 \<times> u32 \<times> u32"

definition spec_round :: "bytes \<Rightarrow> nat \<Rightarrow> hash5 \<Rightarrow> hash5" where
  "spec_round m t h = (case h of (a, b, c, d, e) \<Rightarrow>
     (rol a 5 + sha_f t b c d + e + round_k t + schedule m t, a, rol b 30, c, d))"

definition compress :: "hash5 \<Rightarrow> bytes \<Rightarrow> hash5" where
  "compress h m = (case h of (a, b, c, d, e) \<Rightarrow> case fold (spec_round m) [0..<80] h of
     (a', b', c', d', e') \<Rightarrow> (a + a', b + b', c + c', d + d', e + e'))"

function sha_fold :: "hash5 \<Rightarrow> bytes \<Rightarrow> hash5" where
  "sha_fold h m = (if 63 < length m then sha_fold (compress h (take 64 m)) (drop 64 m) else h)"
  by pat_completeness auto

termination
  by (relation "measure (\<lambda>(h, m). length m)") auto

declare sha_fold.simps [simp del]

definition sha_init :: hash5 where
  "sha_init = (0x67452301, 0xEFCDAB89, 0x98BADCFE, 0x10325476, 0xC3D2E1F0)"

definition word_bytes :: "u32 \<Rightarrow> bytes" where
  "word_bytes w = map (\<lambda>k. ucast (drop_bit ((3 - k) * 8) w)) [0..<4]"

text \<open>The padding ends with the length of the message in bits, in eight bytes.\<close>

definition sha_pad :: "bytes \<Rightarrow> bytes" where
  "sha_pad m = m @ 128 # replicate ((119 - length m mod 64) mod 64) 0 @
     word_bytes (word_of_nat (8 * length m div 2 ^ 32)) @ word_bytes (word_of_nat (8 * length m))"

definition SHA1 :: "bytes \<Rightarrow> bytes" where
  "SHA1 m = (case sha_fold sha_init (sha_pad m) of (a, b, c, d, e) \<Rightarrow> concat (map word_bytes [a, b, c, d, e]))"

section \<open>One block\<close>

lemma round_f_eq: "round_f t = sha_f t"
proof (intro ext)
  fix x y z
  show "round_f t x y z = sha_f t x y z"
    unfolding round_f_def sha_f_def Ch_def Parity_def Maj_def
    by (cases "t < 20"; cases "t < 40"; cases "t < 60") (simp_all, (rule bit_word_eqI, auto simp: bit_simps)+)
qed

lemma u32_eqI:
  assumes "\<And>k. k < 8 \<Longrightarrow> bit a k = bit b k" "\<And>k. k < 8 \<Longrightarrow> bit a (k + 8) = bit b (k + 8)"
    "\<And>k. k < 8 \<Longrightarrow> bit a (k + 16) = bit b (k + 16)" "\<And>k. k < 8 \<Longrightarrow> bit a (k + 24) = bit b (k + 24)"
  shows "a = (b :: u32)"
proof (rule bit_word_eqI)
  fix n :: nat assume "n < LENGTH(32)"
  then have "n mod 8 < 8" "n = n mod 8 \<or> n = n mod 8 + 8 \<or> n = n mod 8 + 16 \<or> n = n mod 8 + 24" by (simp, simp) presburger
  then show "bit a n = bit b n" using assms by metis
qed

lemma u8_bit_ge: "8 \<le> n \<Longrightarrow> \<not> bit (w :: u8) n"
  using bit_imp_le_length [of w n] by auto

lemma swap_masks: "(0xFF00FF00 :: u32) = push_bit 8 (mask 8) OR push_bit 24 (mask 8)"
  "(0x00FF00FF :: u32) = mask 8 OR push_bit 16 (mask 8)"
  by (simp_all add: mask_eq_exp_minus_1)

lemma swap_bytes: "(rol (load32 b i) 24 AND 0xFF00FF00) OR (rol (load32 b i) 8 AND 0x00FF00FF) = be_word b i"
  unfolding load32_def be_word_def rol_def swap_masks
  by (rule u32_eqI) (auto simp: bit_simps u8_bit_ge)

text \<open>The variables hold the working values shifted by the round; the sixteen words the last ones of the schedule.\<close>

definition regs_hold :: "nat \<Rightarrow> u32 list \<Rightarrow> hash5 \<Rightarrow> bool" where
  "regs_hold i r h \<longleftrightarrow> length r = 5 \<and> (case h of (a, b, c, d, e) \<Rightarrow>
     r ! (4 * i mod 5) = a \<and> r ! ((4 * i + 1) mod 5) = b \<and> r ! ((4 * i + 2) mod 5) = c \<and>
     r ! ((4 * i + 3) mod 5) = d \<and> r ! ((4 * i + 4) mod 5) = e)"

definition block_holds :: "bytes \<Rightarrow> nat \<Rightarrow> u32 list \<Rightarrow> bool" where
  "block_holds m i block \<longleftrightarrow> length block = 16 \<and> (\<forall>t < i. i \<le> t + 16 \<longrightarrow> block ! (t mod 16) = schedule m t) \<and>
     (\<forall>t < 16. i \<le> t \<longrightarrow> block ! t = load32 m (4 * t))"

lemma length_5: "length r = 5 \<Longrightarrow> \<exists>r0 r1 r2 r3 r4. r = [r0, r1, r2, r3, r4]"
  by (auto simp: length_Suc_conv numeral_eq_Suc)

lemma regs_step:
  assumes "regs_hold i r (a, b, c, d, e)"
  shows "regs_hold (Suc i) (r[(4 * i + 4) mod 5 := x, (4 * i + 1) mod 5 := y]) (x, a, y, c, d)"
proof -
  obtain r0 r1 r2 r3 r4 where r: "r = [r0, r1, r2, r3, r4]"
    using length_5 [of r] assms unfolding regs_hold_def by blast
  define k where "k = 4 * i mod 5"
  have m1: "(4 * i + j) mod 5 = (k + j) mod 5" for j unfolding k_def by (rule mod_add_left_eq [symmetric])
  have e: "4 * Suc i + j = 4 * i + (j + 4)" "4 * Suc i = 4 * i + 4" for j by simp_all
  have m: "(4 * i + j) mod 5 = (k + j) mod 5" "(4 * Suc i + j) mod 5 = (k + (j + 4)) mod 5" "4 * Suc i mod 5 = (k + 4) mod 5" for j
    using m1 [of j] m1 [of "j + 4"] m1 [of 4] by (simp_all only: mult_Suc mult_Suc_right ac_simps)
  have "k < 5" by (simp add: k_def)
  then consider "k = 0" | "k = 1" | "k = 2" | "k = 3" | "k = 4" by linarith
  then show ?thesis
    using assms unfolding regs_hold_def m k_def [symmetric] r by cases simp_all
qed

lemma block_step:
  assumes "block_holds m i block"
  defines "block' \<equiv> (if i < 16 then blk0 block i else blk block i)"
  shows "block_holds m (Suc i) block'" and "block' ! (i mod 16) = schedule m i"
proof -
  have len: "length block = 16" using assms(1) by (simp add: block_holds_def)
  have upd: "block' = block[i mod 16 := schedule m i]"
  proof (cases "i < 16")
    case True
    then have "block ! i = load32 m (4 * i)" using assms(1) by (simp add: block_holds_def)
    then show ?thesis using True by (simp add: block'_def blk0_def swap_bytes schedule.simps [of m i])
  next
    case False
    have old: "block ! ((i + (16 - k)) mod 16) = schedule m (i - k)" if "0 < k" "k \<le> 16" for k
    proof -
      have "(i + (16 - k)) mod 16 = (i - k) mod 16"
      proof -
        have "i + (16 - k) = (i - k) + 16" using that False by simp
        then show ?thesis by (simp only: mod_add_self2)
      qed
      then show ?thesis using that False assms(1) by (simp add: block_holds_def)
    qed
    show ?thesis using False old [of 3] old [of 8] old [of 14] old [of 16]
      by (simp add: block'_def blk_def schedule.simps [of m i])
  qed
  show "block' ! (i mod 16) = schedule m i" using len by (simp add: upd)
  have other: "t mod 16 \<noteq> i mod 16" if "t < i" "Suc i \<le> t + 16" for t
  proof
    assume "t mod 16 = i mod 16"
    then have "16 dvd i - t" using that(1) mod_eq_dvd_iff_nat [of t i 16] by simp
    then have "16 \<le> i - t" using that(1) by (intro dvd_imp_le) simp_all
    with that(2) show False by simp
  qed
  show "block_holds m (Suc i) block'"
    using assms(1) other other [symmetric] by (auto simp: block_holds_def upd nth_list_update less_Suc_eq)
qed

lemma sha_round_step:
  assumes "regs_hold i r h" "block_holds m i block"
  shows "case sha_round i (r, block) of (r', block') \<Rightarrow> regs_hold (Suc i) r' (spec_round m i h) \<and> block_holds m (Suc i) block'"
proof -
  obtain a b c d e where h: "h = (a, b, c, d, e)" by (cases h)
  note r = assms(1) [unfolded h]
  have vars: "r ! (4 * i mod 5) = a" "r ! ((4 * i + 1) mod 5) = b" "r ! ((4 * i + 2) mod 5) = c"
    "r ! ((4 * i + 3) mod 5) = d" "r ! ((4 * i + 4) mod 5) = e" using r by (simp_all add: regs_hold_def)
  show ?thesis
    using regs_step [OF r, of "rol a 5 + sha_f i b c d + e + round_k i + schedule m i" "rol b 30"] block_step [OF assms(2)]
    unfolding sha_round_def Let_def prod.case vars add_0_right
    by (simp add: h spec_round_def round_f_eq ac_simps)
qed

lemma transform_compress:
  assumes "64 \<le> length m"
  shows "mg_sha1_transform [a, b, c, d, e] m = (case compress (a, b, c, d, e) m of (a, b, c, d, e) \<Rightarrow> [a, b, c, d, e])"
proof -
  let ?block = "map (\<lambda>i. load32 m (4 * i)) [0..<16]"
  have inv: "\<exists>r block. fold sha_round [0..<n] ([a, b, c, d, e], ?block) = (r, block) \<and>
      regs_hold n r (fold (spec_round m) [0..<n] (a, b, c, d, e)) \<and> block_holds m n block" for n
  proof (induction n)
    case 0
    show ?case by (simp add: regs_hold_def block_holds_def)
  next
    case (Suc n)
    then obtain r block where f: "fold sha_round [0..<n] ([a, b, c, d, e], ?block) = (r, block)"
      and h: "regs_hold n r (fold (spec_round m) [0..<n] (a, b, c, d, e))" "block_holds m n block" by blast
    show ?case using sha_round_step [OF h] f by (cases "sha_round n (r, block)") simp
  qed
  from inv [of 80] obtain r block where f: "fold sha_round [0..<80] ([a, b, c, d, e], ?block) = (r, block)"
    and h: "regs_hold 80 r (fold (spec_round m) [0..<80] (a, b, c, d, e))" by blast
  have len: "length r = 5" using h by (simp only: regs_hold_def)
  obtain r0 r1 r2 r3 r4 where r: "r = [r0, r1, r2, r3, r4]"
    using length_5 [OF len] by blast
  obtain a' b' c' d' e' where s: "fold (spec_round m) [0..<80] (a, b, c, d, e) = (a', b', c', d', e')" by (metis prod_cases5)
  have "a' = r0" "b' = r1" "c' = r2" "d' = r3" "e' = r4" using h unfolding s by (simp_all add: regs_hold_def r)
  then show ?thesis unfolding mg_sha1_transform_def compress_def f r s prod.case by simp
qed

section \<open>Messages in pieces\<close>

definition hash_list :: "hash5 \<Rightarrow> u32 list" where
  "hash_list h = (case h of (a, b, c, d, e) \<Rightarrow> [a, b, c, d, e])"

lemma transform_hash_list: "64 \<le> length m \<Longrightarrow> mg_sha1_transform (hash_list h) m = hash_list (compress h m)"
  by (cases h) (simp add: hash_list_def transform_compress)

text \<open>The bytes behind the last whole block.\<close>

definition tail_of :: "bytes \<Rightarrow> bytes" where
  "tail_of m = drop (length m - length m mod 64) m"

lemma length_tail_of: "length (tail_of m) = length m mod 64"
  by (simp add: tail_of_def)

lemma tail_of_short: "length m < 64 \<Longrightarrow> tail_of m = m"
  by (simp add: tail_of_def)

lemma tail_of_drop: "64 \<le> length m \<Longrightarrow> tail_of (drop 64 m) = tail_of m"
proof -
  assume *: "64 \<le> length m"
  then have "(length m - 64) mod 64 = length m mod 64" by (metis le_mod_geq)
  moreover from this have "length m mod 64 \<le> length m - 64" by (metis mod_less_eq_dividend)
  then have "64 + (length m - 64 - length m mod 64) = length m - length m mod 64" using * by linarith
  ultimately show ?thesis by (simp add: tail_of_def add.commute)
qed

lemma tail_of_append: "length m mod 64 = 0 \<Longrightarrow> tail_of (m @ d) = tail_of d"
proof -
  assume "length m mod 64 = 0"
  then have "(length m + length d) mod 64 = length d mod 64" by (metis add.left_neutral mod_add_left_eq)
  then show ?thesis by (simp add: tail_of_def)
qed

lemma sha_fold_short: "length m < 64 \<Longrightarrow> sha_fold h m = h"
  by (subst sha_fold.simps) simp

lemma sha_fold_block: "length b = 64 \<Longrightarrow> sha_fold h (b @ m) = sha_fold (compress h b) m"
  by (subst sha_fold.simps) simp

lemma sha_fold_append: "length m mod 64 = 0 \<Longrightarrow> sha_fold h (m @ d) = sha_fold (sha_fold h m) d"
proof (induction h m rule: sha_fold.induct)
  case (1 h m)
  show ?case
  proof (cases "63 < length m")
    case True
    have "(length m - 64) mod 64 = 0" using 1(2) True le_mod_geq [of 64 "length m"] by simp
    then show ?thesis using 1(1) [OF True] True
      by (subst sha_fold.simps, subst (2) sha_fold.simps) simp
  next
    case False
    with 1(2) have "m = []" by (cases m) (auto simp: mod_less)
    then show ?thesis by (simp add: sha_fold_short)
  qed
qed

lemma sha1_blocks_fold: "sha1_blocks (hash_list h) d = (hash_list (sha_fold h d), tail_of d)"
proof (induction h d rule: sha_fold.induct)
  case (1 h m)
  show ?case
  proof (cases "63 < length m")
    case True
    with 1 [OF True] show ?thesis
      by (subst sha1_blocks.simps, subst sha_fold.simps) (simp add: transform_hash_list tail_of_drop)
  next
    case False
    then show ?thesis by (subst sha1_blocks.simps, subst sha_fold.simps) (simp add: tail_of_short)
  qed
qed

text \<open>The context after the bytes \<open>m\<close>.\<close>

definition ctx_after :: "bytes \<Rightarrow> mg_sha1_ctx \<Rightarrow> bool" where
  "ctx_after m c \<longleftrightarrow> length (sha_buffer c) = 64 \<and> sha_state c = hash_list (sha_fold sha_init m) \<and>
     take (length m mod 64) (sha_buffer c) = tail_of m \<and>
     count0 c = word_of_nat (8 * length m) \<and> count1 c = word_of_nat (8 * length m div 2 ^ 32)"

lemma ctx_init: "length buf = 64 \<Longrightarrow> ctx_after [] (mg_sha1_init buf)"
  by (simp add: ctx_after_def mg_sha1_init_def sha_fold_short tail_of_def hash_list_def sha_init_def)

lemma count_position: "unat (drop_bit 3 (word_of_nat (8 * n) :: u32) AND 63) = n mod 64"
proof -
  have m: "(63 :: u32) = mask 6" by (simp add: mask_eq_exp_minus_1)
  have "unat (drop_bit 3 (word_of_nat (8 * n) :: u32) AND 63) = (8 * n mod 2 ^ 32 div 2 ^ 3) mod 2 ^ 6"
    unfolding m take_bit_eq_mask [symmetric] unsigned_take_bit_eq unat_drop_bit_eq unat_of_nat
    by (simp add: take_bit_eq_mod drop_bit_eq_div)
  also have "8 * n mod 2 ^ 32 div 2 ^ 3 = n mod 2 ^ 29"
    using mult_mod_right [of 8 n "2 ^ 29"] by simp
  finally show ?thesis by (simp add: mod_mod_cancel)
qed

lemma fold_behind:
  shows "sha_fold h (m @ d) = sha_fold (sha_fold h m) (tail_of m @ d)" and "tail_of (m @ d) = tail_of (tail_of m @ d)"
proof -
  define b where "b = take (length m - length m mod 64) m"
  have m: "m = b @ tail_of m" by (simp add: tail_of_def b_def)
  have whole: "length b mod 64 = 0" by (simp add: b_def min_absorb2 minus_mod_eq_mult_div)
  have "length (tail_of m) < 64" by (simp add: length_tail_of)
  then have "sha_fold h (b @ tail_of m) = sha_fold h b" by (simp add: sha_fold_append [OF whole] sha_fold_short)
  then have "sha_fold h m = sha_fold h b" using m by simp
  moreover have "sha_fold h (b @ (tail_of m @ d)) = sha_fold (sha_fold h b) (tail_of m @ d)" by (rule sha_fold_append [OF whole])
  ultimately show "sha_fold h (m @ d) = sha_fold (sha_fold h m) (tail_of m @ d)" using m by (metis append_assoc)
  have "tail_of (b @ (tail_of m @ d)) = tail_of (tail_of m @ d)" by (rule tail_of_append [OF whole])
  then show "tail_of (m @ d) = tail_of (tail_of m @ d)" using m by (metis append_assoc)
qed

text \<open>The two words of the count are the number of bits.\<close>

lemma word_of_nat_div29: "n * 8 div 2 ^ 32 = (n div 2 ^ 29 :: nat)"
  using div_mult2_eq [of "n * 8" 8 "2 ^ 29"] by simp

lemma count_step:
  fixes c0 :: u32
  assumes "8 * (L + n) < (2 ^ 64 :: nat)"
  defines "c0 \<equiv> word_of_nat (8 * L) + push_bit 3 (word_of_nat n)"
  shows "c0 = word_of_nat (8 * (L + n))"
    and "(if c0 < word_of_nat (8 * L) then word_of_nat (8 * L div 2 ^ 32) + 1 else word_of_nat (8 * L div 2 ^ 32)) + word_of_nat (n div 2 ^ 29)
      = (word_of_nat (8 * (L + n) div 2 ^ 32) :: u32)"
proof -
  show c0: "c0 = word_of_nat (8 * (L + n))"
    by (simp add: c0_def push_bit_eq_mult algebra_simps)
  let ?a = "8 * L" and ?b = "8 * n" and ?M = "2 ^ 32 :: nat"
  have less: "c0 < word_of_nat (8 * L) \<longleftrightarrow> (?a + ?b) mod ?M < ?a mod ?M"
    unfolding c0 word_less_nat_alt unat_of_nat by (simp add: distrib_left)
  have carry: "(?a + ?b) div ?M = ?a div ?M + ?b div ?M + (if (?a + ?b) mod ?M < ?a mod ?M then 1 else 0)"
  proof (cases "?a mod ?M + ?b mod ?M < ?M")
    case True
    then have "(?a + ?b) mod ?M = ?a mod ?M + ?b mod ?M" by (metis mod_add_eq mod_less)
    moreover have "(?a + ?b) div ?M = ?a div ?M + ?b div ?M" using True by (simp only: div_add1_eq [of ?a ?b]) simp
    ultimately show ?thesis by simp
  next
    case False
    have lt: "?a mod ?M < ?M" "?b mod ?M < ?M" by simp_all
    have "(?a + ?b) mod ?M = ?a mod ?M + ?b mod ?M - ?M"
      using False lt mod_add_eq [of ?a ?M ?b] le_mod_geq [of ?M "?a mod ?M + ?b mod ?M"] by simp
    then have "(?a + ?b) mod ?M < ?a mod ?M" using lt False by linarith
    moreover have "(?a mod ?M + ?b mod ?M) div ?M = 1"
      using False lt le_div_geq [of ?M "?a mod ?M + ?b mod ?M"] by simp
    then have "(?a + ?b) div ?M = ?a div ?M + ?b div ?M + 1" by (simp only: div_add1_eq [of ?a ?b])
    ultimately show ?thesis by simp
  qed
  show "(if c0 < word_of_nat (8 * L) then word_of_nat (8 * L div 2 ^ 32) + 1 else word_of_nat (8 * L div 2 ^ 32)) + word_of_nat (n div 2 ^ 29)
      = (word_of_nat (8 * (L + n) div 2 ^ 32) :: u32)"
    unfolding distrib_left carry less word_of_nat_div29 [of n, symmetric] by (simp add: mult.commute)
qed

lemma take_put_slice_front: "take (length ys) (put_slice xs 0 ys) = ys"
  by (simp add: put_slice_def)

lemma ctx_update:
  assumes c: "ctx_after m c" and len: "length m + length d < 2 ^ 61"
  shows "ctx_after (m @ d) (mg_sha1_update c d)"
proof -
  let ?L = "length m" and ?r = "length m mod 64" and ?n = "length d"
  have buf: "length (sha_buffer c) = 64" "take ?r (sha_buffer c) = tail_of m" and st: "sha_state c = hash_list (sha_fold sha_init m)"
    and cnt: "count0 c = word_of_nat (8 * ?L)" "count1 c = word_of_nat (8 * ?L div 2 ^ 32)"
    using c by (simp_all add: ctx_after_def)
  have r: "?r < 64" by simp
  define c0 :: u32 where "c0 = word_of_nat (8 * ?L) + push_bit 3 (word_of_nat ?n)"
  have c0: "c0 = word_of_nat (8 * length (m @ d))"
    and c1: "(if c0 < count0 c then count1 c + 1 else count1 c) + word_of_nat (?n div 2 ^ 29) = word_of_nat (8 * length (m @ d) div 2 ^ 32)"
    using count_step [of ?L ?n] len unfolding cnt length_append c0_def by simp_all
  note behind = fold_behind(1) [of sha_init m d] fold_behind(2) [of m d]
  have lr: "length (tail_of m @ d) = ?r + ?n" by (simp add: length_tail_of)
  have mod: "length (m @ d) mod 64 = (?r + ?n) mod 64" by (simp add: mod_add_left_eq)
  have j: "unat (drop_bit 3 (count0 c) AND 63) = ?r" unfolding cnt by (rule count_position)
  note upd = mg_sha1_update_def [of c d, unfolded Let_def j, folded c0_def [folded cnt(1)]]
  show ?thesis
  proof (cases "?r + ?n > 63")
    case False
    then have short: "length (tail_of m @ d) < 64" using lr by simp
    have "take (?r + ?n) (put_slice (sha_buffer c) ?r d) = tail_of m @ d"
      using buf r False by (simp add: put_slice_def length_tail_of)
    moreover have "length (put_slice (sha_buffer c) ?r d) = 64" using buf(1) False by (simp add: put_slice_def)
    ultimately show ?thesis
      using False mod c1 c0 st
      by (simp add: ctx_after_def upd behind sha_fold_short [OF short] tail_of_short [OF short])
  next
    case True
    let ?i = "64 - ?r"
    let ?buf = "put_slice (sha_buffer c) ?r (take ?i d)"
    have i: "?i \<le> ?n" using True r by linarith
    have b: "?buf = tail_of m @ take ?i d" using buf r i by (simp add: put_slice_def min_absorb1 min_absorb2)
    have lb: "length ?buf = 64" using i r by (simp add: b length_tail_of min_absorb2)
    have split: "tail_of m @ d = ?buf @ drop ?i d" by (simp add: b)
    have tl: "tail_of (?buf @ drop ?i d) = tail_of (drop ?i d)" by (rule tail_of_append) (simp add: lb)
    have ln: "length (tail_of (drop ?i d)) = (?r + ?n) mod 64"
    proof -
      have "?r + ?n = (?n - ?i) + 64" using i r by linarith
      then have "(?r + ?n) mod 64 = (?n - ?i) mod 64" by (simp only: mod_add_self2)
      then show ?thesis by (simp add: length_tail_of)
    qed
    have fold: "sha_fold sha_init (m @ d) = sha_fold (compress (sha_fold sha_init m) ?buf) (drop ?i d)"
      unfolding behind(1) split by (rule sha_fold_block [OF lb])
    have tr: "mg_sha1_transform (sha_state c) ?buf = hash_list (compress (sha_fold sha_init m) ?buf)"
      unfolding st by (rule transform_hash_list) (simp only: lb order_refl)
    have "mg_sha1_update c d = \<lparr>sha_state = hash_list (sha_fold sha_init (m @ d)), count0 = c0,
        count1 = (if c0 < count0 c then count1 c + 1 else count1 c) + word_of_nat (?n div 2 ^ 29),
        sha_buffer = put_slice ?buf 0 (tail_of (drop ?i d))\<rparr>"
      unfolding upd if_P [OF True] tr sha1_blocks_fold prod.case fold ..
    moreover have "take ((?r + ?n) mod 64) (put_slice ?buf 0 (tail_of (drop ?i d))) = tail_of (drop ?i d)"
      unfolding ln [symmetric] by (rule take_put_slice_front)
    moreover have "length (put_slice ?buf 0 (tail_of (drop ?i d))) = 64"
    proof -
      have "0 + length (tail_of (drop ?i d)) \<le> length ?buf" unfolding ln lb by simp
      then show ?thesis by (simp only: length_put_slice lb)
    qed
    moreover have "tail_of (m @ d) = tail_of (drop ?i d)" unfolding behind(2) split by (rule tl)
    ultimately show ?thesis using c1 c0 unfolding ctx_after_def mod by simp
  qed
qed

section \<open>The padding\<close>

lemma and_504: "(w :: u32) AND 504 = 448 \<longleftrightarrow> unat (drop_bit 3 w AND 63) = 56"
proof -
  have m: "(504 :: u32) = push_bit 3 (mask 6)" "(63 :: u32) = mask 6" "(448 :: u32) = push_bit 3 56" "(56 :: u32) AND mask 6 = 56"
    by (simp_all add: mask_eq_exp_minus_1)
  have *: "w AND push_bit 3 (mask 6) = push_bit 3 (drop_bit 3 w AND mask 6)"
    by (rule bit_word_eqI) (auto simp: bit_simps)
  have inj: "push_bit 3 (a AND mask 6) = push_bit 3 (b AND mask 6) \<longleftrightarrow> a AND mask 6 = b AND mask 6" for a b :: u32
  proof
    assume e: "push_bit 3 (a AND mask 6) = push_bit 3 (b AND mask 6)"
    show "a AND mask 6 = b AND mask 6"
    proof (rule bit_word_eqI)
      fix n :: nat assume "n < LENGTH(32)"
      show "bit (a AND mask 6) n = bit (b AND mask 6) n"
      proof (cases "n < 6")
        case True
        then have "bit (push_bit 3 (a AND mask 6)) (n + 3) = bit (a AND mask 6) n" "bit (push_bit 3 (b AND mask 6)) (n + 3) = bit (b AND mask 6) n"
          by (simp_all add: bit_simps)
        with e show ?thesis by simp
      qed (simp add: bit_simps)
    qed
  qed simp
  have "w AND 504 = 448 \<longleftrightarrow> drop_bit 3 w AND mask 6 = 56"
    unfolding m(1,3) * using inj [of "drop_bit 3 w" 56] by (simp only: m(4))
  also have "\<dots> \<longleftrightarrow> unat (drop_bit 3 w AND mask 6) = unat (56 :: u32)" by (rule word_unat_eq_iff)
  finally show ?thesis unfolding m(2) by simp
qed

lemma ctx_count:
  assumes "ctx_after m c"
  shows "count0 c AND 504 = 448 \<longleftrightarrow> length m mod 64 = 56"
  using assms count_position [of "length m"] by (simp only: ctx_after_def and_504)

lemma pad_zeros_ok:
  assumes "ctx_after m c" "length m + k < 2 ^ 61" "(length m + k) mod 64 = 56" "k < fuel" "k < 64"
  shows "\<exists>c'. pad_zeros fuel c = Some c' \<and> ctx_after (m @ replicate k 0) c'"
  using assms
proof (induction k arbitrary: m c fuel)
  case 0
  then obtain f where "fuel = Suc f" by (cases fuel) auto
  with 0 ctx_count [OF 0(1)] show ?case by simp
next
  case (Suc k)
  then obtain f where f: "fuel = Suc f" "k < f" by (cases fuel) auto
  have "length m mod 64 \<noteq> 56"
  proof
    assume "length m mod 64 = 56"
    then have "(56 + Suc k) mod 64 = 56" using Suc.prems(3) by (metis mod_add_left_eq)
    with Suc.prems(5) show False by presburger
  qed
  then have go: "count0 c AND 504 \<noteq> 448" using ctx_count [OF Suc.prems(1)] by simp
  have upd: "ctx_after (m @ [0]) (mg_sha1_update c [0])" using Suc.prems by (intro ctx_update) simp_all
  have "\<exists>c'. pad_zeros f (mg_sha1_update c [0]) = Some c' \<and> ctx_after ((m @ [0]) @ replicate k 0) c'"
    using Suc.prems f upd by (intro Suc.IH) simp_all
  then show ?case using go f by simp
qed

lemma digest_bytes:
  "map (\<lambda>i. ucast (drop_bit ((3 - i mod 4) * 8) ([a, b, c, d, e] ! (i div 4)))) [0..<20] =
   concat (map word_bytes [a, b, c, d, e :: u32])"
proof -
  have u: "[0..<20] = [0, 1, 2, 3, 4, 5, 6, 7, 8, 9, 10, 11, 12, 13, 14, 15, 16, 17, 18, 19]" "[0..<4] = [0, 1, 2, 3]"
    by (simp_all add: upt_rec)
  show ?thesis unfolding word_bytes_def u by simp
qed

lemma finalcount_bytes:
  "map (\<lambda>i. ucast (drop_bit ((3 - i mod 4) * 8) (if 4 \<le> i then w0 else w1 :: u32))) [0..<8] = word_bytes w1 @ word_bytes w0"
proof -
  have u: "[0..<8] = [0, 1, 2, 3, 4, 5, 6, 7]" "[0..<4] = [0, 1, 2, 3]" by (simp_all add: upt_rec)
  show ?thesis unfolding word_bytes_def u by simp
qed

lemma final_SHA1:
  assumes c: "ctx_after m c" and len: "length m < 2 ^ 60"
  shows "mg_sha1_final c = Some (SHA1 m)"
proof -
  define k where "k = (119 - length m mod 64) mod 64"
  have k: "k < 64" by (simp add: k_def)
  have k56: "(length (m @ [128]) + k) mod 64 = 56"
  proof -
    have r: "length m mod 64 < 64" by simp
    have "length m mod 64 + (1 + k) = 56 \<or> length m mod 64 + (1 + k) = 56 + 64"
    proof (cases "length m mod 64 \<le> 55")
      case True
      then have "119 - length m mod 64 = (55 - length m mod 64) + 64" "55 - length m mod 64 < 64" by simp_all
      then have "k = 55 - length m mod 64" unfolding k_def by (simp only: mod_add_self2 mod_less)
      with True show ?thesis by simp
    next
      case False
      then have "k = 119 - length m mod 64" using r unfolding k_def by simp
      with False r show ?thesis by simp
    qed
    then have "(length m mod 64 + (1 + k)) mod 64 = 56" by auto
    then have "(length m + (1 + k)) mod 64 = 56" by (simp only: mod_add_left_eq)
    then show ?thesis by (simp add: add.assoc)
  qed
  have u1: "ctx_after (m @ [128]) (mg_sha1_update c [128])" using len by (intro ctx_update [OF c]) simp
  have "\<exists>c1. pad_zeros 64 (mg_sha1_update c [128]) = Some c1 \<and> ctx_after ((m @ [128]) @ replicate k 0) c1"
    using len k k56 by (intro pad_zeros_ok [OF u1]) simp_all
  then obtain c1 where c1: "pad_zeros 64 (mg_sha1_update c [128]) = Some c1" "ctx_after ((m @ [128]) @ replicate k 0) c1" by blast
  let ?fc = "word_bytes (count1 c) @ word_bytes (count0 c)"
  have cnt: "count0 c = word_of_nat (8 * length m)" "count1 c = word_of_nat (8 * length m div 2 ^ 32)"
    using c by (simp_all add: ctx_after_def)
  have "ctx_after (((m @ [128]) @ replicate k 0) @ ?fc) (mg_sha1_update c1 ?fc)"
    using len k by (intro ctx_update [OF c1(2)]) (simp add: word_bytes_def)
  moreover have "((m @ [128]) @ replicate k 0) @ ?fc = sha_pad m"
    unfolding sha_pad_def cnt k_def by simp
  ultimately have st: "sha_state (mg_sha1_update c1 ?fc) = hash_list (sha_fold sha_init (sha_pad m))"
    by (simp add: ctx_after_def)
  obtain a b c' d e where h: "sha_fold sha_init (sha_pad m) = (a, b, c', d, e)" by (metis prod_cases5)
  show ?thesis
    unfolding mg_sha1_final_def Let_def finalcount_bytes c1(1) bind.bind_lunit st SHA1_def h hash_list_def prod.case digest_bytes ..
qed

section \<open>Properties\<close>

text \<open>
  C15. However a message of less than \<open>2\<^sup>6\<^sup>0\<close> bytes is cut into pieces, feeding them to the context and
  closing it gives the SHA-1 digest that FIPS 180-4 defines for the whole message: the sixteen words that
  are overwritten in place hold the schedule, the buffer carries what does not fill a block from piece to
  piece, the count of bits carries between its words, and the padding loop ends.
\<close>

theorem sha1_pieces:
  assumes "length (concat ds) < 2 ^ 60" "length buf = 64"
  shows "mg_sha1_final (fold (\<lambda>d c. mg_sha1_update c d) ds (mg_sha1_init buf)) = Some (SHA1 (concat ds))"
proof -
  have "ctx_after (m @ concat ds) (fold (\<lambda>d c. mg_sha1_update c d) ds c)"
    if "ctx_after m c" "length (m @ concat ds) < 2 ^ 60" for m c
    using that
  proof (induction ds arbitrary: m c)
    case (Cons d ds)
    have "ctx_after (m @ d) (mg_sha1_update c d)" using Cons.prems by (intro ctx_update) simp_all
    then show ?case using Cons.IH [of "m @ d"] Cons.prems by simp
  qed simp
  from this [of "[]"] ctx_init [OF assms(2)] assms(1) show ?thesis by (simp add: final_SHA1)
qed

theorem sha1_pieces_witness:
  "mg_sha1_final (mg_sha1_update (mg_sha1_update (mg_sha1_init (replicate 64 7)) [97]) [98, 99]) = Some (SHA1 [97, 98, 99])"
  using sha1_pieces [of "[[97], [98, 99]]" "replicate 64 7"] by simp

end
