(* ===== verification/Fmt.thy ===== *)
theory Fmt
  imports Prelude Iobuf
begin

unbundle bit_operations_syntax

text \<open>
  Formatted output and the reading of numbers in mongoose (\<open>externals/mongoose/src/fmt.c\<close>, \<open>printf.c\<close>, \<open>str.c\<close>),
  with which replies and their lengths are written. A format is the list of its bytes without the closing
  zero. Integer arguments are the 64-bit registers they are passed in; a string argument is the memory
  from the pointer on, as far as it may be read. Floating-point directives are not modelled and give \<open>None\<close>,
  as do reads outside of format, arguments and strings.
\<close>

section \<open>Numbers\<close>

definition letters :: bytes where "letters = ascii ''0123456789abcdef''"

text \<open>The loop that writes the digits, the lowest first; the base is 10 or 16.\<close>

function rev_digits :: "nat \<Rightarrow> nat \<Rightarrow> bytes" where
  "rev_digits base v = (if v = 0 \<or> base < 2 then [] else (letters ! (v mod base)) # rev_digits base (v div base))"
  by pat_completeness auto

termination
  by (relation "measure snd") auto

declare rev_digits.simps [simp del]

text \<open>The loop that reverses the digits in place, \<open>n\<close> of them from place \<open>s\<close> on.\<close>

definition swap_digits :: "nat \<Rightarrow> nat \<Rightarrow> nat \<Rightarrow> bytes \<Rightarrow> bytes" where
  "swap_digits s n i b = b[s + i := b ! (s + n - i - 1), s + n - i - 1 := b ! (s + i)]"

definition reverse_digits :: "nat \<Rightarrow> nat \<Rightarrow> bytes \<Rightarrow> bytes" where
  "reverse_digits s n b = fold (swap_digits s n) [0..<n div 2] b"

definition mg_lld :: "u64 \<Rightarrow> bool \<Rightarrow> bool \<Rightarrow> bytes" where
  "mg_lld val is_signed is_hex =
     (let neg = is_signed \<and> sint val < 0;
          v = unat (if neg then - val else val);
          sign = (if neg then [45] else []);
          ds = rev_digits (if is_hex then 16 else 10) v
      in reverse_digits (length sign) (length ds) (sign @ ds) @ (if val = 0 then [48] else []))"

definition hex_digit :: "u8 \<Rightarrow> nat option" where
  "hex_digit c =
     (if 48 \<le> c \<and> c \<le> 57 then Some (unat (c - 48))
      else if 65 \<le> c \<and> c \<le> 70 then Some (unat (c - 55))
      else if 97 \<le> c \<and> c \<le> 102 then Some (unat (c - 87))
      else None)"

text \<open>The digits that the loops for the bases 2, 10 and 16 accept.\<close>

definition base_digit :: "nat \<Rightarrow> u8 \<Rightarrow> nat option" where
  "base_digit base c =
     (if base = 16 then hex_digit c
      else if 48 \<le> c \<and> unat c < 48 + base then Some (unat (c - 48)) else None)"

text \<open>One of these loops; \<open>None\<close> is the return on overflow, the results are value, count and rest.\<close>

fun num_loop :: "nat \<Rightarrow> nat \<Rightarrow> nat \<Rightarrow> nat \<Rightarrow> bytes \<Rightarrow> (nat \<times> nat \<times> bytes) option" where
  "num_loop base mx result ndigits [] = Some (result, ndigits, [])"
| "num_loop base mx result ndigits (c # s) =
     (case base_digit base c of
        None \<Rightarrow> Some (result, ndigits, c # s)
      | Some digit \<Rightarrow>
          if result > mx div base then None
          else if result * base > mx - digit then None
          else num_loop base mx (result * base + digit) (ndigits + 1) s)"

definition num_max :: "nat \<Rightarrow> nat" where
  "num_max val_len = (if val_len = 1 then 0xFF else if val_len = 2 then 0xFFFF else if val_len = 4 then 0xFFFFFFFF
     else 0xFFFFFFFFFFFFFFFF)"

text \<open>The prefix that chooses the base when the caller gives none.\<close>

definition num_base :: "bytes \<Rightarrow> nat \<Rightarrow> nat \<times> bytes" where
  "num_base str base =
     (if base = 0 \<and> length str \<ge> 2 then
        (if str ! 0 = 48 then
           (let b = (if str ! 1 = 98 then 2 else if str ! 1 = 120 then 16 else 10)
            in (b, drop (if b \<noteq> 10 then 2 else 1) str))
         else (10, str))
      else (base, str))"

definition mg_str_to_num :: "bytes \<Rightarrow> nat \<Rightarrow> nat \<Rightarrow> nat option" where
  "mg_str_to_num str base0 val_len =
     (let mx = num_max val_len in
      if mx = 0xFFFFFFFFFFFFFFFF \<and> val_len \<noteq> 8 then None
      else
        (let (base, s) = num_base str base0 in
         if base \<notin> {2, 10, 16} then None
         else (case num_loop base mx 0 0 s of
             None \<Rightarrow> None
           | Some (result, ndigits, rest) \<Rightarrow> if ndigits = 0 \<or> rest \<noteq> [] then None else Some result)))"

section \<open>Directives\<close>

datatype fmt_arg = Arg_word u64 | Arg_str "bytes option" | Arg_print bytes

definition cur :: "bytes \<Rightarrow> u8" where "cur f = (if f = [] then 0 else hd f)"

fun scan_size :: "nat \<Rightarrow> bytes \<Rightarrow> nat \<times> bytes" where
  "scan_size w [] = (w, [])"
| "scan_size w (c # f) = (if 48 \<le> c \<and> c \<le> 57 then scan_size ((w * 10 + unat (c - 48)) mod 2 ^ 64) f else (w, c # f))"

text \<open>The value \<open>~0U\<close> of the precision stands for none.\<close>

definition NO_PREC :: nat where "NO_PREC = 0xFFFFFFFF"

definition int_arg :: "u64 \<Rightarrow> u64" where "int_arg v = signed (ucast v :: u32)"

definition unsigned_arg :: "u64 \<Rightarrow> u64" where "unsigned_arg v = ucast (ucast v :: u32)"

definition scpy :: "bytes \<Rightarrow> nat \<Rightarrow> bytes option" where
  "scpy p len = (if 0 \<in> set (take len p) \<or> len \<le> length p then Some (takeWhile (\<lambda>c. c \<noteq> 0) (take len p)) else None)"

definition print_number :: "u8 \<Rightarrow> bool \<Rightarrow> bool \<Rightarrow> nat \<Rightarrow> bytes \<Rightarrow> bytes" where
  "print_number pad left x w0 tmp =
     (let xl = (if x then 2 else 0); w = w0 - xl; k = length tmp in
      (if pad = 32 \<and> \<not> left then replicate (w - k) 32 else []) @ take xl [48, 120] @
      (if pad = 48 then replicate (w - k) 48 else []) @ tmp @
      (if pad = 32 \<and> left then replicate (w - k) 32 else []))"

definition print_string :: "u8 \<Rightarrow> bool \<Rightarrow> nat \<Rightarrow> nat \<Rightarrow> bytes option \<Rightarrow> bytes option" where
  "print_string pad left w pr p = do {
     pr \<leftarrow> (if pr = NO_PREC then (case p of None \<Rightarrow> Some 0 | Some m \<Rightarrow> if 0 \<in> set m then Some (length (takeWhile (\<lambda>c. c \<noteq> 0) m)) else None)
            else Some pr);
     s \<leftarrow> (case p of None \<Rightarrow> if pr = 0 then Some [] else None | Some m \<Rightarrow> scpy m pr);
     Some ((if \<not> left then replicate (w - pr) pad else []) @ s @ (if left then replicate (w - pr) pad else []))
   }"

text \<open>The part of the format after \<open>%\<close> up to the letter of the directive.\<close>

record fmt_spec =
  sp_x :: bool
  sp_minus :: bool
  sp_pad :: u8
  sp_width :: nat
  sp_prec :: nat
  sp_long :: nat

definition flag_char :: "u8 \<Rightarrow> bytes \<Rightarrow> bool \<times> bytes" where
  "flag_char c f = (if cur f = c then (True, tl f) else (False, f))"

definition scan_prec :: "bytes \<Rightarrow> fmt_arg list \<Rightarrow> (nat \<times> bytes \<times> fmt_arg list) option" where
  "scan_prec f args =
     (if cur f = 46 then
        (if cur (tl f) = 42 then
           (case args of Arg_word v # args' \<Rightarrow> Some (unat (int_arg v), tl (tl f), args') | _ \<Rightarrow> None)
         else (case scan_size 0 (tl f) of (pr, f') \<Rightarrow> Some (pr, f', args)))
      else Some (NO_PREC, f, args))"

definition scan_long :: "bytes \<Rightarrow> nat \<times> bytes" where
  "scan_long f = (if cur f = 108 then (if cur (tl f) = 108 then (2, tl (tl f)) else (1, tl f)) else (0, f))"

definition scan_spec :: "bytes \<Rightarrow> fmt_arg list \<Rightarrow> (fmt_spec \<times> bytes \<times> fmt_arg list) option" where
  "scan_spec f args = do {
     let (x, f) = flag_char 35 f;
     let (left, f) = flag_char 45 f;
     let (zero, f) = flag_char 48 f;
     let (w, f) = scan_size 0 f;
     (pr, f, args) \<leftarrow> scan_prec f args;
     let f = dropWhile (\<lambda>c. c = 104) f;
     let (is_long, f) = scan_long f;
     let p = (cur f = 112);
     Some (\<lparr>sp_x = x \<or> p, sp_minus = left, sp_pad = (if zero then 48 else 32), sp_width = w, sp_prec = pr,
        sp_long = (if p then 1 else is_long)\<rparr>, f, args)
   }"

text \<open>One directive: what it prints, the rest of the format and of the arguments.\<close>

definition directive :: "bytes \<Rightarrow> fmt_arg list \<Rightarrow> (bytes \<times> bytes \<times> fmt_arg list) option" where
  "directive f0 args0 = do {
     (sp, f, args) \<leftarrow> scan_spec f0 args0;
     let c = cur f;
     (out, args) \<leftarrow>
       (if c \<in> {100, 117, 120, 88, 112} then
          (case args of
             Arg_word v # args' \<Rightarrow>
               (let s = (c = 100); h = (c \<in> {120, 88, 112});
                    val = (if sp_long sp > 0 then v else if s then int_arg v else unsigned_arg v)
                in Some (print_number (sp_pad sp) (sp_minus sp) (sp_x sp) (sp_width sp) (mg_lld val s h), args'))
           | _ \<Rightarrow> None)
        else if c \<in> {103, 102} then None
        else if c \<in> {109, 77} then
          (case args of
             Arg_print d # args' \<Rightarrow> Some ((if c = 109 then [34] else []) @ d @ (if c = 109 then [34] else []), args')
           | _ \<Rightarrow> None)
        else if c = 99 then
          (case args of Arg_word v # args' \<Rightarrow> Some ([ucast v], args') | _ \<Rightarrow> None)
        else if c = 115 then
          (case args of
             Arg_str p # args' \<Rightarrow> map_option (\<lambda>s. (s, args')) (print_string (sp_pad sp) (sp_minus sp) (sp_width sp) (sp_prec sp) p)
           | _ \<Rightarrow> None)
        else if c = 37 then Some ([37], args)
        else Some ([37, c], args));
     if f = [] then None else Some (out, tl f, args)
   }"

lemma length_scan_size: "length (snd (scan_size w f)) \<le> length f"
  by (induction f arbitrary: w) (auto simp: le_Suc_eq)

lemma length_scan_spec:
  assumes "scan_spec f args = Some (sp, f', args')"
  shows "length f' \<le> length f"
proof -
  obtain x f1 where 1: "flag_char 35 f = (x, f1)" by fastforce
  obtain left f2 where 2: "flag_char 45 f1 = (left, f2)" by fastforce
  obtain zero f3 where 3: "flag_char 48 f2 = (zero, f3)" by fastforce
  obtain w f4 where 4: "scan_size 0 f3 = (w, f4)" by fastforce
  obtain pr f5 a5 where 5: "scan_prec f4 args = Some (pr, f5, a5)"
    using assms by (auto simp: scan_spec_def 1 2 3 4 split: bind_splits)
  obtain il f6 where 6: "scan_long (dropWhile (\<lambda>c. c = 104) f5) = (il, f6)" by fastforce
  have f': "f' = f6" using assms by (simp add: scan_spec_def 1 2 3 4 5 6 Let_def)
  have flags: "length (snd (flag_char c g)) \<le> length g" for c g by (simp add: flag_char_def)
  have "length f4 \<le> length f" using flags [of 35 f] flags [of 45 f1] flags [of 48 f2] length_scan_size [of 0 f3] 1 2 3 4 by simp
  moreover have "length f5 \<le> length f4"
    using 5 length_scan_size [of 0 "tl f4"] by (auto simp: scan_prec_def split: if_splits list.splits fmt_arg.splits prod.splits)
  moreover have "length f6 \<le> length (dropWhile (\<lambda>c. c = 104) f5)"
    using 6 by (auto simp: scan_long_def split: if_splits)
  ultimately show ?thesis using length_dropWhile_le [of "\<lambda>c. c = 104" f5] unfolding f' by (meson le_trans)
qed

lemma length_directive:
  assumes "directive f args = Some (out, f', args')"
  shows "length f' < length f"
proof -
  obtain sp f1 a1 where sp: "scan_spec f args = Some (sp, f1, a1)"
    using assms by (auto simp: directive_def split: bind_splits)
  have "f' = tl f1 \<and> f1 \<noteq> []" using assms by (auto simp: directive_def sp Let_def split: bind_splits if_splits)
  with length_scan_spec [OF sp] show ?thesis by (cases f1) auto
qed

text \<open>\<open>mg_vxprintf\<close>: all that it puts out.\<close>

function mg_vxprintf :: "bytes \<Rightarrow> fmt_arg list \<Rightarrow> bytes option" where
  "mg_vxprintf f args =
     (case f of
        [] \<Rightarrow> Some []
      | c # f' \<Rightarrow>
          if c = 37 then
            (case directive f' args of
               None \<Rightarrow> None
             | Some (out, f'', args') \<Rightarrow> map_option ((@) out) (mg_vxprintf f'' args'))
          else map_option ((#) c) (mg_vxprintf f' args))"
  by pat_completeness auto

termination
  by (relation "measure (\<lambda>(f, args). length f)") (auto dest: length_directive)

declare mg_vxprintf.simps [simp del]

lemma vx_Nil [simp]: "mg_vxprintf [] args = Some []"
  by (simp add: mg_vxprintf.simps)

lemma vx_char [simp]: "c \<noteq> 37 \<Longrightarrow> mg_vxprintf (c # f) args = map_option ((#) c) (mg_vxprintf f args)"
  by (subst mg_vxprintf.simps) simp

section \<open>What is printed can be read\<close>

definition swapped :: "nat \<Rightarrow> nat \<Rightarrow> nat \<Rightarrow> bytes \<Rightarrow> nat \<Rightarrow> u8" where
  "swapped s n m b j = (if s \<le> j \<and> (j - s < m \<or> n - m \<le> j - s) then b ! (s + n - 1 - (j - s)) else b ! j)"

lemma swap_digits_fold:
  assumes "length b = s + n" "m \<le> n div 2"
  shows "fold (swap_digits s n) [0..<m] b = map (swapped s n m b) [0..<s + n]"
  using assms(2)
proof (induction m)
  case 0
  have "swapped s n 0 b j = b ! j" if "j < s + n" for j using that by (auto simp: swapped_def)
  then show ?case using assms(1) by (auto intro: nth_equalityI)
next
  case (Suc m)
  let ?b = "map (swapped s n m b) [0..<s + n]"
  have at: "?b ! j = swapped s n m b j" if "j < s + n" for j using that by simp
  have "fold (swap_digits s n) [0..<Suc m] b = swap_digits s n m ?b" using Suc by simp
  also have "\<dots> = map (swapped s n (Suc m) b) [0..<s + n]"
  proof (rule nth_equalityI)
    fix j assume "j < length (swap_digits s n m ?b)"
    then have j: "j < s + n" by (simp add: swap_digits_def)
    define k where "k = s + n - m - 1"
    have m: "s + m < k" "k < s + n" "k - s = n - m - 1" "s + n - 1 - (k - s) = s + m" "\<not> n - m \<le> m" "\<not> n - m \<le> n - m - 1"
      "\<not> n - m - 1 < m" "s + n - 1 - m = k"
      using Suc.prems by (auto simp: k_def)
    have "swap_digits s n m ?b ! j = (if j = k then swapped s n m b (s + m) else if j = s + m then swapped s n m b k else swapped s n m b j)"
      using j m(1,2) unfolding swap_digits_def k_def [symmetric] by (simp add: nth_list_update at)
    also have "\<dots> = swapped s n (Suc m) b j"
    proof -
      have "swapped s n m b (s + m) = swapped s n (Suc m) b k" using m by (simp add: swapped_def)
      moreover have "swapped s n m b k = swapped s n (Suc m) b (s + m)" using m by (simp add: swapped_def)
      moreover have "swapped s n m b j = swapped s n (Suc m) b j" if "j \<noteq> k" "j \<noteq> s + m"
      proof -
        have "s \<le> j \<Longrightarrow> j - s \<noteq> m" "s \<le> j \<Longrightarrow> j - s \<noteq> n - m - 1" using that m by auto
        then show ?thesis by (auto simp: swapped_def)
      qed
      ultimately show ?thesis by auto
    qed
    finally show "swap_digits s n m ?b ! j = map (swapped s n (Suc m) b) [0..<s + n] ! j" using j by simp
  qed (simp add: swap_digits_def)
  finally show ?case .
qed

lemma reverse_digits_rev: "reverse_digits (length pre) (length ds) (pre @ ds) = pre @ rev ds"
proof -
  have "map (swapped (length pre) (length ds) (length ds div 2) (pre @ ds)) [0..<length pre + length ds] = pre @ rev ds"
  proof (rule nth_equalityI)
    fix j assume "j < length (map (swapped (length pre) (length ds) (length ds div 2) (pre @ ds)) [0..<length pre + length ds])"
    then have j: "j < length pre + length ds" by simp
    show "map (swapped (length pre) (length ds) (length ds div 2) (pre @ ds)) [0..<length pre + length ds] ! j = (pre @ rev ds) ! j"
    proof (cases "length pre \<le> j")
      case True
      define i where "i = j - length pre"
      have i: "j = length pre + i" "i < length ds" using True j by (auto simp: i_def)
      have "length ds - 1 - i = i" if "\<not> i < length ds div 2" "\<not> length ds - length ds div 2 \<le> i" using that i(2) by presburger
      then show ?thesis using i by (auto simp: swapped_def nth_append rev_nth)
    qed (use j in \<open>auto simp: swapped_def nth_append\<close>)
  qed simp
  then show ?thesis by (simp add: reverse_digits_def swap_digits_fold)
qed

definition digits :: "nat \<Rightarrow> nat \<Rightarrow> bytes" where
  "digits base v = (if v = 0 then [48] else rev (rev_digits base v))"

lemma rev_digits_0 [simp]: "rev_digits base 0 = []"
  by (simp add: rev_digits.simps)

lemma mg_lld_digits:
  "mg_lld val is_signed is_hex =
     (if is_signed \<and> sint val < 0 then [45] else []) @
     digits (if is_hex then 16 else 10) (unat (if is_signed \<and> sint val < 0 then - val else val))"
  by (auto simp: mg_lld_def Let_def reverse_digits_rev digits_def unat_eq_0)

lemma base_digit_letter:
  assumes "base \<in> {2, 10, 16}" "d < base"
  shows "base_digit base (letters ! d) = Some d"
proof -
  have "d < 16" using assms by auto
  then have "d \<in> {0, 1, 2, 3, 4, 5, 6, 7, 8, 9, 10, 11, 12, 13, 14, 15}" by simp presburger
  then show ?thesis using assms
    by (elim insertE emptyE) (simp_all add: letters_def ascii_def hex_digit_def base_digit_def)
qed

lemma num_loop_digits:
  assumes "base \<in> {2, 10, 16}" "v \<le> mx"
  shows "num_loop base mx 0 n (rev (rev_digits base v) @ s) = num_loop base mx v (n + length (rev_digits base v)) s"
  using assms
proof (induction base v arbitrary: s rule: rev_digits.induct)
  case (1 base v)
  show ?case
  proof (cases "v = 0")
    case False
    have base: "\<not> base < 2" "0 < base" "v mod base < base" using 1(2) by auto
    have "v div base \<le> mx" using 1(3) div_le_dividend le_trans by blast
    have "v div base * base + v mod base \<le> mx" using 1(3) by simp
    then have fits: "\<not> mx div base < v div base" "\<not> mx - v mod base < v div base * base"
      using div_le_mono [OF 1(3), of base] \<open>v div base * base + v mod base \<le> mx\<close> by linarith+
    have "num_loop base mx 0 n (rev (rev_digits base v) @ s) =
        num_loop base mx 0 n (rev (rev_digits base (v div base)) @ letters ! (v mod base) # s)"
      using False base by (subst rev_digits.simps) simp
    also have "\<dots> = num_loop base mx (v div base) (n + length (rev_digits base (v div base))) (letters ! (v mod base) # s)"
      using 1(1) 1(2) False base \<open>v div base \<le> mx\<close> by blast
    also have "\<dots> = num_loop base mx v (n + length (rev_digits base (v div base)) + 1) s"
      using fits by (simp add: base_digit_letter [OF 1(2) base(3)])
    finally show ?thesis using False base by (subst (2) rev_digits.simps) simp
  qed simp
qed

lemma mg_str_to_num_digits:
  assumes "base \<in> {10, 16}" "v \<le> num_max val_len" "val_len \<in> {1, 2, 4, 8}"
  shows "mg_str_to_num (digits base v) base val_len = Some v"
proof -
  have mx: "\<not> (num_max val_len = 0xFFFFFFFFFFFFFFFF \<and> val_len \<noteq> 8)" using assms(3) by (auto simp: num_max_def)
  have nb: "num_base (digits base v) base = (base, digits base v)" using assms(1) by (auto simp: num_base_def)
  show ?thesis
  proof (cases "v = 0")
    case True
    have "base_digit base 48 = Some 0" using assms(1) by (auto simp: base_digit_def hex_digit_def)
    then show ?thesis using True mx nb assms(1) by (auto simp: mg_str_to_num_def Let_def digits_def)
  next
    case False
    have "rev_digits base v \<noteq> []" using False assms(1) by (subst rev_digits.simps) auto
    moreover have "num_loop base (num_max val_len) 0 0 (digits base v) = Some (v, length (rev_digits base v), [])"
      using num_loop_digits [of base v "num_max val_len" 0 "[]"] assms(1,2) False by (auto simp: digits_def)
    ultimately show ?thesis using mx nb assms(1) by (auto simp: mg_str_to_num_def Let_def)
  qed
qed

lemma length_rev_digits:
  assumes "2 \<le> base"
  shows "v < base ^ k \<Longrightarrow> length (rev_digits base v) \<le> k"
proof (induction k arbitrary: v)
  case (Suc k)
  show ?case
  proof (cases "v = 0")
    case False
    have "v div base < base ^ k" using Suc.prems by (simp add: less_mult_imp_div_less mult.commute)
    then show ?thesis using Suc.IH False assms by (subst rev_digits.simps) simp
  qed simp
qed simp

lemma length_digits:
  assumes "10 \<le> base" "v < 2 ^ 64"
  shows "length (digits base v) \<le> 20"
proof -
  have "(10 :: nat) ^ 20 \<le> base ^ 20" using assms(1) by (rule power_mono) simp
  then have "v < base ^ 20" using assms(2) by simp
  then show ?thesis using length_rev_digits [of base v 20] assms(1) by (simp add: digits_def)
qed

lemma unat_minus_neg:
  fixes v :: u64
  assumes "sint v < 0"
  shows "unat (- v) = nat \<bar>sint v\<bar>"
proof -
  have w: "- v = word_of_int (- sint v)" by simp
  have "- sint v < 2 ^ 64" using sint_ge [of v] by simp
  then have "uint (- v) = - sint v" using assms unfolding w uint_word_of_int by simp
  then show ?thesis using assms by (simp add: unat_eq_nat_uint)
qed

text \<open>
  C18. Every 64-bit number that the formatter prints, in decimal or hexadecimal, is read back by
  \<open>mg_str_to_num\<close> as the same number; a negative one is printed as a minus and the digits of its magnitude,
  also the least one, and no number needs more than 21 characters of the 40 there are.
\<close>

theorem number_roundtrip:
  "mg_str_to_num (mg_lld v False hex) (if hex then 16 else 10) 8 = Some (unat v) \<and> length (mg_lld v is_signed hex) \<le> 21 \<and>
   (0 \<le> sint v \<or> hd (mg_lld v True hex) = 45 \<and>
      mg_str_to_num (tl (mg_lld v True hex)) (if hex then 16 else 10) 8 = Some (nat \<bar>sint v\<bar>))"
proof -
  let ?base = "if hex then 16 else 10 :: nat"
  have read: "mg_str_to_num (digits ?base (unat w)) ?base 8 = Some (unat w)" for w :: u64
  proof -
    have "num_max 8 = 18446744073709551615" by (simp add: num_max_def)
    then have "unat w \<le> num_max 8" using unat_u64_less [of w] by linarith
    then show ?thesis by (intro mg_str_to_num_digits) simp_all
  qed
  have short: "length (digits ?base (unat w)) \<le> 20" for w :: u64
    using unat_u64_less [of w] by (intro length_digits) simp_all
  have "length (mg_lld v is_signed hex) \<le> 21"
    using short [of v] short [of "- v"] by (cases hex) (auto simp: mg_lld_digits)
  moreover have "0 \<le> sint v \<or> hd (mg_lld v True hex) = 45 \<and> mg_str_to_num (tl (mg_lld v True hex)) ?base 8 = Some (nat \<bar>sint v\<bar>)"
    using read [of "- v"] unat_minus_neg [of v] by (cases hex) (auto simp: mg_lld_digits not_le)
  moreover have "mg_str_to_num (mg_lld v False hex) ?base 8 = Some (unat v)"
    using read [of v] by (simp add: mg_lld_digits)
  ultimately show ?thesis by blast
qed

section \<open>Where output goes\<close>

text \<open>A character for a growing buffer (\<open>expand\<close>) or for one of fixed size.\<close>

definition mg_pfn_iobuf_private :: "(nat \<Rightarrow> bool) \<Rightarrow> bool \<Rightarrow> u8 \<Rightarrow> mg_iobuf \<Rightarrow> mg_iobuf option" where
  "mg_pfn_iobuf_private calloc expand ch io = do {
     io \<leftarrow> (if expand \<and> iolen io + 2 > iosize io then map_option snd (mg_iobuf_resize calloc io (iolen io + 2)) else Some io);
     Some (if iolen io + 2 \<le> iosize io then io\<lparr>iobuf := (iobuf io)[iolen io := ch, iolen io + 1 := 0], iolen := iolen io + 1\<rparr>
       else if iolen io < iosize io then io\<lparr>iobuf := (iobuf io)[iolen io := 0], iolen := iolen io + 1\<rparr>
       else io)
   }"

fun put_chars :: "(nat \<Rightarrow> bool) \<Rightarrow> bool \<Rightarrow> bytes \<Rightarrow> mg_iobuf \<Rightarrow> mg_iobuf option" where
  "put_chars calloc expand [] io = Some io"
| "put_chars calloc expand (ch # s) io = Option.bind (mg_pfn_iobuf_private calloc expand ch io) (put_chars calloc expand s)"

text \<open>\<open>mg_printf\<close> and \<open>mg_xprintf\<close> with \<open>mg_pfn_iobuf\<close>.\<close>

definition mg_printf :: "(nat \<Rightarrow> bool) \<Rightarrow> mg_iobuf \<Rightarrow> bytes \<Rightarrow> fmt_arg list \<Rightarrow> mg_iobuf option" where
  "mg_printf calloc io f args = Option.bind (mg_vxprintf f args) (\<lambda>out. put_chars calloc True out io)"

text \<open>\<open>mg_snprintf\<close>: the buffer and the number of characters of the whole output.\<close>

definition mg_snprintf :: "bytes \<Rightarrow> bytes \<Rightarrow> fmt_arg list \<Rightarrow> (bytes \<times> nat) option" where
  "mg_snprintf b f args = do {
     out \<leftarrow> mg_vxprintf f args;
     io \<leftarrow> put_chars (\<lambda>n. False) False out \<lparr>iobuf = b, iolen = 0, ioalign = 0\<rparr>;
     Some (if length out < length b then (iobuf io)[length out := 0] else iobuf io, length out)
   }"

lemma put_char_grow:
  assumes "iobuf_ok io" "iolen io + ioalign io + 2 < 2 ^ 61" "\<And>n. calloc n"
  shows "\<exists>io'. mg_pfn_iobuf_private calloc True ch io = Some io' \<and> iobuf_ok io' \<and> ioalign io' = ioalign io \<and>
    content io' = content io @ [ch]"
proof -
  obtain io1 where io1: "(if iolen io + 2 > iosize io then map_option snd (mg_iobuf_resize calloc io (iolen io + 2)) else Some io) = Some io1"
    "iobuf_ok io1" "ioalign io1 = ioalign io" "iolen io1 = iolen io" "content io1 = content io" "iolen io1 + 2 \<le> iosize io1"
  proof (cases "iolen io + 2 > iosize io")
    case True
    have "roundup (iolen io + 2) (ioalign io) < 2 ^ 62" "iolen io + 2 \<le> roundup (iolen io + 2) (ioalign io)"
      using roundup_bounds(1,2) [of "iolen io + 2" "ioalign io"] assms(1,2) by (auto simp: iobuf_ok_def split: if_splits)
    then obtain io1 where "mg_iobuf_resize calloc io (iolen io + 2) = Some (True, io1)" "content io1 = content io"
      "iobuf_ok io1" "ioalign io1 = ioalign io" "iolen io1 = iolen io" "iosize io1 = roundup (iolen io + 2) (ioalign io)"
      using resize_grow [OF assms(1), of "iolen io + 2" calloc] assms(2,3) by auto
    then show thesis using \<open>iolen io + 2 \<le> roundup (iolen io + 2) (ioalign io)\<close> True by (intro that [of io1]) simp_all
  next
    case False
    then show thesis using that [of io] assms(1) by simp
  qed
  have "take (iolen io1 + 1) ((iobuf io1)[iolen io1 := ch, iolen io1 + 1 := 0]) = take (iolen io1) (iobuf io1) @ [ch]"
    using io1(6) by (simp add: iosize_def take_Suc_conv_app_nth)
  then show ?thesis using io1 by (auto simp: mg_pfn_iobuf_private_def content_def iobuf_ok_def iosize_def)
qed

lemma put_chars_grow:
  assumes "iobuf_ok io" "iolen io + length s + ioalign io + 2 < 2 ^ 61" "\<And>n. calloc n"
  shows "\<exists>io'. put_chars calloc True s io = Some io' \<and> iobuf_ok io' \<and> ioalign io' = ioalign io \<and> content io' = content io @ s"
  using assms(1,2)
proof (induction s arbitrary: io)
  case (Cons ch s)
  obtain io1 where io1: "mg_pfn_iobuf_private calloc True ch io = Some io1" "iobuf_ok io1" "ioalign io1 = ioalign io"
    "content io1 = content io @ [ch]"
    using put_char_grow [OF Cons.prems(1), of calloc ch] Cons.prems(2) assms(3) by auto
  moreover have "iolen io1 = iolen io + 1"
    using length_content [OF io1(2)] length_content [OF Cons.prems(1)] io1(4) by simp
  ultimately show ?case using Cons.IH [OF io1(2)] Cons.prems(2) by auto
qed simp

lemma mg_printf_appends:
  assumes "mg_vxprintf f args = Some out" "iobuf_ok io" "iolen io + length out + ioalign io + 2 < 2 ^ 61" "\<And>n. calloc n"
  shows "\<exists>io'. mg_printf calloc io f args = Some io' \<and> iobuf_ok io' \<and> ioalign io' = ioalign io \<and> content io' = content io @ out"
  using put_chars_grow [OF assms(2-4)] assms(1) by (simp add: mg_printf_def)

lemma put_chars_fixed:
  assumes "n + length s < length b"
  shows "put_chars calloc False s \<lparr>iobuf = b, iolen = n, ioalign = a\<rparr> =
    Some \<lparr>iobuf = (if s = [] then b else take n b @ s @ 0 # drop (n + length s + 1) b), iolen = n + length s, ioalign = a\<rparr>"
  using assms
proof (induction s arbitrary: b n)
  case (Cons ch s)
  let ?b = "b[n := ch, n + 1 := 0]"
  have "?b = take n b @ ch # 0 # drop (n + 2) b"
  proof -
    have d: "drop n b = b ! n # b ! (n + 1) # drop (n + 2) b" using Cons.prems by (simp flip: Cons_nth_drop_Suc)
    have "?b = (take n b @ drop n b)[n := ch, n + 1 := 0]" by simp
    also have "\<dots> = take n b @ ch # 0 # drop (n + 2) b" unfolding d using Cons.prems by (simp add: list_update_append)
    finally show ?thesis .
  qed
  then show ?case using Cons.IH [of "n + 1" ?b] Cons.prems
    by (auto simp: mg_pfn_iobuf_private_def iosize_def take_Cons' add.commute)
qed simp

lemma mg_snprintf_fits:
  assumes "mg_vxprintf f args = Some out" "length out < length b"
  shows "mg_snprintf b f args = Some (out @ 0 # drop (length out + 1) b, length out)"
  using put_chars_fixed [of 0 out b "\<lambda>n. False" 0] assms
  by (cases b) (auto simp: mg_snprintf_def list_update_append)

end
