(* ===== verification/Http.thy ===== *)
theory Http
  imports Prelude
begin

unbundle bit_operations_syntax

text \<open>
  The part of mongoose's HTTP code that takes requests apart (\<open>externals/mongoose/src/http.c\<close>, \<open>str.c\<close>): finding
  the end of the head, the request line, the headers, lengths, the chunks of a body, and matching of a URI
  against a pattern. A string is the list of its bytes; the text from the scanning pointer to the end of the
  head is the list that is left. Where the code looks at a byte behind the pointer, the model gives \<open>None\<close> when
  there is none before the end. The lengths and offsets that the code keeps in an \<open>int\<close> are
  numbers without a bound: a receive buffer is limited to 3 MB, far from 2^31.
\<close>

section \<open>Characters and strings\<close>

definition isok :: "u8 \<Rightarrow> bool" where
  "isok c \<longleftrightarrow> c = 10 \<or> c = 13 \<or> 32 \<le> c"

definition vcb :: "u8 \<Rightarrow> bool" where
  "vcb c \<longleftrightarrow> c AND 0xc0 = 0x80"

text \<open>The length of the first character of a text that is not empty; 0 for blanks and for what is not UTF-8.\<close>

definition clen :: "bytes \<Rightarrow> nat" where
  "clen s =
     (let c = s ! 0; n = length s in
      if 32 < c \<and> c < 126 then 1
      else if c AND 0xe0 = 0xc0 \<and> n > 1 \<and> vcb (s ! 1) then 2
      else if c AND 0xf0 = 0xe0 \<and> n > 2 \<and> vcb (s ! 1) \<and> vcb (s ! 2) then 3
      else if c AND 0xf8 = 0xf0 \<and> n > 3 \<and> vcb (s ! 1) \<and> vcb (s ! 2) \<and> vcb (s ! 3) then 4
      else 0)"

definition mg_tolc :: "u8 \<Rightarrow> int" where
  "mg_tolc c = (if 65 \<le> c \<and> c \<le> 90 then uint c + 97 - 65 else uint c)"

text \<open>\<open>mg_ncasecmp\<close>: \<open>None\<close> when it reads behind one of the strings.\<close>

fun mg_ncasecmp :: "bytes \<Rightarrow> bytes \<Rightarrow> nat \<Rightarrow> int option" where
  "mg_ncasecmp s1 s2 0 = Some 0"
| "mg_ncasecmp (c # s1) (d # s2) (Suc n) =
     (let diff = mg_tolc c - mg_tolc d in
      if diff = 0 \<and> c \<noteq> 0 then mg_ncasecmp s1 s2 n else Some diff)"
| "mg_ncasecmp s1 s2 (Suc n) = None"

fun mg_strcasecmp :: "bytes \<Rightarrow> bytes \<Rightarrow> int" where
  "mg_strcasecmp (c # s1) (d # s2) =
     (if mg_tolc c < mg_tolc d then -1 else if mg_tolc c > mg_tolc d then 1 else mg_strcasecmp s1 s2)"
| "mg_strcasecmp (c # s1) [] = 1"
| "mg_strcasecmp [] (d # s2) = -1"
| "mg_strcasecmp [] [] = 0"

text \<open>Decimal numbers: the loop over the digits, with the checks for overflow.\<close>

fun scan_digits :: "nat \<Rightarrow> nat \<Rightarrow> bytes \<Rightarrow> (nat \<times> nat \<times> bytes) option" where
  "scan_digits result ndigits [] = Some (result, ndigits, [])"
| "scan_digits result ndigits (c # s) =
     (if 48 \<le> c \<and> c \<le> 57 then
        (let digit = unat (c - 48) in
         if result > SIZE_MAX div 10 then None
         else if result * 10 > SIZE_MAX - digit then None
         else scan_digits (result * 10 + digit) (ndigits + 1) s)
      else Some (result, ndigits, c # s))"

definition is_blank :: "u8 \<Rightarrow> bool" where "is_blank c \<longleftrightarrow> c = 32 \<or> c = 9"

definition mg_to_size_t :: "bytes \<Rightarrow> nat option" where
  "mg_to_size_t str =
     (let s = dropWhile is_blank str in
      if s \<noteq> [] \<and> hd s = 45 then None
      else (case scan_digits 0 0 s of
          None \<Rightarrow> None
        | Some (result, ndigits, rest) \<Rightarrow>
            if ndigits = 0 then None else if dropWhile is_blank rest \<noteq> [] then None else Some result))"

section \<open>The head of a message\<close>

text \<open>\<open>mg_http_get_request_len\<close>: -1 for a byte that is not text, 0 when the head is not complete.\<close>

fun request_len_loop :: "bytes \<Rightarrow> nat \<Rightarrow> nat \<Rightarrow> int" where
  "request_len_loop buf i 0 = 0"
| "request_len_loop buf i (Suc k) =
     (if \<not> isok (buf ! i) then -1
      else if i > 0 \<and> buf ! i = 10 \<and> buf ! (i - 1) = 10 \<or>
              i > 3 \<and> buf ! i = 10 \<and> buf ! (i - 1) = 13 \<and> buf ! (i - 2) = 10 then int i + 1
      else request_len_loop buf (i + 1) k)"

definition mg_http_get_request_len :: "bytes \<Rightarrow> int" where
  "mg_http_get_request_len buf = request_len_loop buf 0 (length buf)"

text \<open>The loop that collects characters, up to a byte that stops it.\<close>

function scan_token :: "(u8 \<Rightarrow> bool) \<Rightarrow> bytes \<Rightarrow> bytes \<times> bytes" where
  "scan_token stop s =
     (if s \<noteq> [] \<and> \<not> stop (hd s) \<and> clen s > 0
      then (case scan_token stop (drop (clen s) s) of (t, rest) \<Rightarrow> (take (clen s) s @ t, rest))
      else ([], s))"
  by pat_completeness auto

termination
  by (relation "measure (\<lambda>(stop, s). length s)") auto

declare scan_token.simps [simp del]

text \<open>\<open>skiptorn\<close>: the line up to its end and what follows; the inner \<open>None\<close> is the null pointer.\<close>

definition skiptorn :: "bytes \<Rightarrow> (bytes \<times> bytes) option option" where
  "skiptorn s =
     (let v = takeWhile (\<lambda>c. c \<noteq> 10 \<and> c \<noteq> 13) s; r = dropWhile (\<lambda>c. c \<noteq> 10 \<and> c \<noteq> 13) s in
      case r of
        [] \<Rightarrow> Some None
      | c # r' \<Rightarrow>
          if c = 13 then
            (case r' of [] \<Rightarrow> None | d # r'' \<Rightarrow> Some (if d \<noteq> 10 then None else Some (v, r'')))
          else Some (Some (v, r')))"

definition skip_spaces :: "bytes \<Rightarrow> bytes" where
  "skip_spaces = dropWhile (\<lambda>c. c = 32)"

definition trim_spaces :: "bytes \<Rightarrow> bytes" where
  "trim_spaces v = rev (dropWhile (\<lambda>c. c = 32) (rev v))"

definition MG_MAX_HTTP_HEADERS :: nat where "MG_MAX_HTTP_HEADERS = 30"

fun mg_http_parse_headers :: "nat \<Rightarrow> bytes \<Rightarrow> (bytes \<times> bytes) list option option" where
  "mg_http_parse_headers 0 s = Some (Some [])"
| "mg_http_parse_headers (Suc k) s =
     (if s = [] then Some None
      else if hd s = 10 then Some (Some [])
      else if hd s = 13 \<and> tl s = [] then None
      else if hd s = 13 \<and> s ! 1 = 10 then Some (Some [])
      else
        (let (name, s1) = scan_token (\<lambda>c. c = 58) s in
         if name = [] then Some None
         else if s1 = [] \<or> clen s1 = 0 then Some None
         else if hd s1 \<noteq> 58 then Some None
         else (case skiptorn (skip_spaces (tl s1)) of
             None \<Rightarrow> None
           | Some None \<Rightarrow> Some None
           | Some (Some (v, s2)) \<Rightarrow>
               map_option (map_option (\<lambda>hs. (name, trim_spaces v) # hs)) (mg_http_parse_headers k s2))))"

text \<open>
  A parsed message. \<open>head_len\<close> is the length of the head, where the body begins; lengths of bodies and
  messages can be \<open>SIZE_MAX\<close>, which stands for "until the connection is closed".
\<close>

record mg_http_message =
  hm_method :: bytes
  hm_uri :: bytes
  hm_query :: bytes
  hm_proto :: bytes
  hm_headers :: "(bytes \<times> bytes) list"
  body_len :: nat
  message_len :: nat
  head_len :: nat

definition mg_http_get_header :: "(bytes \<times> bytes) list \<Rightarrow> string \<Rightarrow> bytes option" where
  "mg_http_get_header hs name =
     map_option snd (find (\<lambda>(k, v). length name = length k \<and> mg_ncasecmp k (ascii name) (length name) = Some 0) hs)"

text \<open>The result of \<open>mg_http_parse\<close> with the message: a negative length is an error, zero an incomplete head.\<close>

definition split_query :: "bytes \<Rightarrow> bytes \<times> bytes" where
  "split_query uri = (takeWhile (\<lambda>c. c \<noteq> 63) uri, drop 1 (dropWhile (\<lambda>c. c \<noteq> 63) uri))"

definition mg_http_parse :: "bytes \<Rightarrow> (int \<times> mg_http_message) option" where
  "mg_http_parse buf =
     (let req_len = mg_http_get_request_len buf; empty = \<lparr>hm_method = [], hm_uri = [], hm_query = [], hm_proto = [], hm_headers = [],
        body_len = 0, message_len = 0, head_len = 0\<rparr> in
      if req_len \<le> 0 then Some (req_len, empty)
      else
        (let head = take (nat req_len) buf; (meth, s1) = scan_token (\<lambda>c. False) head;
             (uri0, s2) = scan_token (\<lambda>c. False) (skip_spaces s1) in
         case skiptorn (skip_spaces s2) of
           None \<Rightarrow> None
         | Some None \<Rightarrow> Some (0, empty)
         | Some (Some (proto, s3)) \<Rightarrow>
             (let (uri, query) = split_query uri0 in
              if meth = [] \<or> uri = [] then Some (-1, empty)
              else (case mg_http_parse_headers MG_MAX_HTTP_HEADERS s3 of
                  None \<Rightarrow> None
                | Some None \<Rightarrow> Some (-1, empty)
                | Some (Some hs) \<Rightarrow> do {
                    is_response \<leftarrow> map_option (\<lambda>d. d = 0) (mg_ncasecmp head (ascii ''HTTP/'') 5);
                    let cl = mg_http_get_header hs ''Content-Length'';
                    (case (case cl of None \<Rightarrow> Some SIZE_MAX | Some v \<Rightarrow> mg_to_size_t v) of
                       None \<Rightarrow> Some (-1, empty)
                     | Some bl \<Rightarrow>
                        (let ml = (if cl = None then SIZE_MAX else size_add (nat req_len) bl);
                             none = (bl = SIZE_MAX \<and> \<not> is_response \<and> mg_strcasecmp meth (ascii ''PUT'') \<noteq> 0 \<and>
                               mg_strcasecmp meth (ascii ''POST'') \<noteq> 0);
                             bl = (if none then 0 else bl); ml = (if none then nat req_len else ml);
                             no_content = (bl = SIZE_MAX \<and> is_response \<and> mg_strcasecmp uri (ascii ''204'') = 0);
                             bl = (if no_content then 0 else bl); ml = (if no_content then nat req_len else ml) in
                         if ml < nat req_len then Some (-1, empty)
                         else Some (req_len, \<lparr>hm_method = meth, hm_uri = uri, hm_query = query, hm_proto = proto,
                           hm_headers = hs, body_len = bl, message_len = ml, head_len = nat req_len\<rparr>)))
                  }))))"

section \<open>Patterns\<close>

text \<open>
  \<open>mg_match\<close> without captures. The loop over \<open>i\<close> in the pattern and \<open>j\<close> in the string, with the place of the
  last wildcard in \<open>ni\<close> and where to try it again in \<open>nj\<close>, may not end. \<open>behind\<close> is the byte that follows the
  string in memory, which the loop reads when the string is used up.
\<close>

partial_function (option) mg_match_loop :: "bytes \<Rightarrow> u8 \<Rightarrow> bytes \<Rightarrow> nat \<Rightarrow> nat \<Rightarrow> nat \<Rightarrow> nat \<Rightarrow> bool option" where
  "mg_match_loop s behind p i j ni nj =
     (if i < length p \<or> j < length s then
        (if i < length p \<and> j < length s \<and> (p ! i = 63 \<or> s ! j = p ! i) then mg_match_loop s behind p (i + 1) (j + 1) ni nj
         else if i < length p \<and> (p ! i = 42 \<or> p ! i = 35) then mg_match_loop s behind p (i + 1) j i (j + 1)
         else if 0 < nj \<and> nj \<le> length s \<and> (p ! ni = 35 \<or> (if j < length s then s ! j else behind) \<noteq> 47)
         then mg_match_loop s behind p ni nj ni nj
         else Some False)
      else Some True)"

definition mg_match :: "bytes \<Rightarrow> u8 \<Rightarrow> bytes \<Rightarrow> bool option" where
  "mg_match s behind p = mg_match_loop s behind p 0 0 0 0"

section \<open>Nothing is read outside of the head\<close>

definition ends_nl :: "bytes \<Rightarrow> bool" where
  "ends_nl s \<longleftrightarrow> s = [] \<or> last s = 10"

lemma ends_nl_drop [simp]: "ends_nl s \<Longrightarrow> ends_nl (drop n s)"
  by (cases "n < length s") (auto simp: ends_nl_def last_drop)

lemma ends_nl_dropWhile [simp]: "ends_nl s \<Longrightarrow> ends_nl (dropWhile P s)"
  by (metis dropWhile_eq_drop ends_nl_drop)

lemma ends_nl_tl [simp]: "ends_nl s \<Longrightarrow> ends_nl (tl s)"
  by (metis drop_Suc drop0 ends_nl_drop)

lemma ends_nl_Cons: "ends_nl (c # s) \<Longrightarrow> ends_nl s"
  using ends_nl_tl by fastforce

lemma ends_nl_skip [simp]: "ends_nl s \<Longrightarrow> ends_nl (skip_spaces s)"
  by (simp add: skip_spaces_def)

lemma scan_token_append: "scan_token stop s = (t, r) \<Longrightarrow> s = t @ r"
proof -
  have "s = fst (scan_token stop s) @ snd (scan_token stop s)"
  proof (induction stop s rule: scan_token.induct)
    case (1 stop s)
    show ?case
    proof (cases "s \<noteq> [] \<and> \<not> stop (hd s) \<and> clen s > 0")
      case True
      from 1 [OF True] have "s = take (clen s) s @ fst (scan_token stop (drop (clen s) s)) @ snd (scan_token stop (drop (clen s) s))"
        by (metis append_take_drop_id)
      moreover have "scan_token stop s = (take (clen s) s @ fst (scan_token stop (drop (clen s) s)), snd (scan_token stop (drop (clen s) s)))"
        using True by (subst scan_token.simps) (simp split: prod.splits)
      ultimately show ?thesis by simp
    next
      case False
      then have "scan_token stop s = ([], s)" by (subst scan_token.simps) auto
      then show ?thesis by simp
    qed
  qed
  then show "scan_token stop s = (t, r) \<Longrightarrow> s = t @ r" by simp
qed

lemma ends_nl_append: "ends_nl (t @ r) \<Longrightarrow> ends_nl r"
  by (auto simp: ends_nl_def last_append split: if_splits)

lemma skiptorn_some:
  assumes "ends_nl s"
  shows "skiptorn s \<noteq> None" and "skiptorn s = Some (Some (v, r)) \<Longrightarrow> ends_nl r"
proof -
  have r: "ends_nl (dropWhile (\<lambda>c. c \<noteq> 10 \<and> c \<noteq> 13) s)" using assms by simp
  show "skiptorn s \<noteq> None"
  proof (cases "dropWhile (\<lambda>c. c \<noteq> 10 \<and> c \<noteq> 13) s")
    case (Cons c r')
    with r show ?thesis by (cases r') (auto simp: skiptorn_def Let_def ends_nl_def)
  next
    case Nil
    show ?thesis unfolding skiptorn_def Let_def Nil by simp
  qed
  show "skiptorn s = Some (Some (v, r)) \<Longrightarrow> ends_nl r"
  proof (cases "dropWhile (\<lambda>c. c \<noteq> 10 \<and> c \<noteq> 13) s")
    case (Cons c r')
    then have "ends_nl r'" using r ends_nl_Cons by simp
    then show "skiptorn s = Some (Some (v, r)) \<Longrightarrow> ends_nl r"
      using Cons ends_nl_Cons by (auto simp: skiptorn_def Let_def split: list.splits if_splits)
  next
    case Nil
    show "skiptorn s = Some (Some (v, r)) \<Longrightarrow> ends_nl r" unfolding skiptorn_def Let_def Nil by simp
  qed
qed

lemma mg_http_parse_headers_some: "ends_nl s \<Longrightarrow> mg_http_parse_headers k s \<noteq> None"
proof (induction k arbitrary: s)
  case (Suc k)
  obtain name s1 where t: "scan_token (\<lambda>c. c = 58) s = (name, s1)" by fastforce
  have s1: "ends_nl s1" using Suc.prems scan_token_append [OF t] ends_nl_append by blast
  have cr: "\<not> (s \<noteq> [] \<and> hd s = 13 \<and> tl s = [])" using Suc.prems by (cases s) (auto simp: ends_nl_def)
  have nl: "ends_nl (skip_spaces (tl s1))" using s1 by simp
  show ?case
  proof (cases "skiptorn (skip_spaces (tl s1))")
    case None
    with skiptorn_some(1) [OF nl] show ?thesis by simp
  next
    case (Some o1)
    show ?thesis
    proof (cases o1)
      case None
      with Some cr show ?thesis by (auto simp: t)
    next
      case (Some vr)
      then have "ends_nl (snd vr)" using skiptorn_some(2) [OF nl, of "fst vr" "snd vr"] \<open>skiptorn _ = Some o1\<close> by simp
      then have "mg_http_parse_headers k (snd vr) \<noteq> None" by (rule Suc.IH)
      with Some \<open>skiptorn _ = Some o1\<close> cr show ?thesis by (auto simp: t split: prod.splits)
    qed
  qed
qed simp

lemma request_len_loop_pos:
  "0 < request_len_loop buf i k \<Longrightarrow> \<exists>j. i \<le> j \<and> j < i + k \<and> request_len_loop buf i k = int j + 1 \<and> buf ! j = 10"
proof (induction k arbitrary: i)
  case (Suc k)
  show ?case
  proof (cases "request_len_loop buf i (Suc k) = request_len_loop buf (i + 1) k")
    case True
    then obtain j where "i + 1 \<le> j" "j < i + 1 + k" "request_len_loop buf (i + 1) k = int j + 1" "buf ! j = 10"
      using Suc by fastforce
    with True show ?thesis by (intro exI [of _ j]) simp
  next
    case False
    with Suc.prems show ?thesis by (intro exI [of _ i]) (auto split: if_splits)
  qed
qed simp

lemma request_head:
  assumes "0 < mg_http_get_request_len buf"
  shows "nat (mg_http_get_request_len buf) \<le> length buf" and "take (nat (mg_http_get_request_len buf)) buf \<noteq> []"
    and "last (take (nat (mg_http_get_request_len buf)) buf) = 10"
proof -
  obtain j where j: "j < length buf" "mg_http_get_request_len buf = int j + 1" "buf ! j = 10"
    using request_len_loop_pos [of buf 0 "length buf"] assms by (auto simp: mg_http_get_request_len_def)
  then have "nat (mg_http_get_request_len buf) = Suc j" by simp
  with j show "nat (mg_http_get_request_len buf) \<le> length buf" "take (nat (mg_http_get_request_len buf)) buf \<noteq> []"
    "last (take (nat (mg_http_get_request_len buf)) buf) = 10"
    by (simp_all add: take_Suc_conv_app_nth)
qed

lemma mg_ncasecmp_some:
  "s1 \<noteq> [] \<Longrightarrow> last s1 = 10 \<Longrightarrow> 10 \<notin> set s2 \<Longrightarrow> n \<le> length s2 \<Longrightarrow> mg_ncasecmp s1 s2 n \<noteq> None"
proof (induction s1 s2 n rule: mg_ncasecmp.induct)
  case (2 c s1 d s2 n)
  show ?case
  proof (cases "s1 = []")
    case True
    then have "c = 10" "d \<noteq> 10" using 2 by auto
    then have "mg_tolc c - mg_tolc d \<noteq> 0"
    proof -
      have "mg_tolc d \<noteq> 10"
      proof
        assume t: "mg_tolc d = 10"
        then have "uint d = uint (10 :: u8)" by (auto simp: mg_tolc_def word_le_def split: if_splits)
        with \<open>d \<noteq> 10\<close> show False by (simp only: word_uint_eq_iff [symmetric])
      qed
      then show ?thesis using \<open>c = 10\<close> by (simp add: mg_tolc_def)
    qed
    then show ?thesis by simp
  next
    case False
    with 2 show ?thesis by (auto simp: Let_def)
  qed
qed simp_all

lemma mg_http_parse_some: "mg_http_parse buf \<noteq> None"
proof (cases "mg_http_get_request_len buf \<le> 0")
  case True
  then show ?thesis by (simp add: mg_http_parse_def Let_def)
next
  case False
  define head where "head = take (nat (mg_http_get_request_len buf)) buf"
  have head: "head \<noteq> []" "last head = 10" "ends_nl head" using request_head [of buf] False by (simp_all add: head_def ends_nl_def)
  obtain meth s1 where t1: "scan_token (\<lambda>c. False) head = (meth, s1)" by fastforce
  obtain uri s2 where t2: "scan_token (\<lambda>c. False) (skip_spaces s1) = (uri, s2)" by fastforce
  have s1: "ends_nl s1" using head(3) scan_token_append [OF t1] ends_nl_append by blast
  then have "ends_nl s2" using scan_token_append [OF t2] ends_nl_append by (metis ends_nl_skip)
  then have s2: "ends_nl (skip_spaces s2)" by simp
  obtain d where cmp: "mg_ncasecmp head (ascii ''HTTP/'') 5 = Some d"
    using mg_ncasecmp_some [OF head(1,2), of "ascii ''HTTP/''" 5] by (auto simp: ascii_def)
  show ?thesis
  proof (cases "skiptorn (skip_spaces s2)")
    case None
    with skiptorn_some(1) [OF s2] show ?thesis by simp
  next
    case (Some o1)
    show ?thesis
    proof (cases o1)
      case None
      with Some False t1 t2 show ?thesis by (simp add: mg_http_parse_def Let_def head_def)
    next
      case (Some vr)
      obtain proto s3 where vr: "vr = (proto, s3)" by (cases vr)
      have "ends_nl s3" using skiptorn_some(2) [OF s2, of proto s3] \<open>skiptorn _ = Some o1\<close> Some vr by simp
      then obtain hs where "mg_http_parse_headers MG_MAX_HTTP_HEADERS s3 = Some hs" using mg_http_parse_headers_some by blast
      with False t1 t2 \<open>skiptorn _ = Some o1\<close> Some vr cmp show ?thesis
        by (auto simp: mg_http_parse_def Let_def head_def split: option.splits prod.splits)
    qed
  qed
qed

section \<open>Requests as a client writes them\<close>

definition token_char :: "u8 \<Rightarrow> bool" where
  "token_char c \<longleftrightarrow> 32 < c \<and> c < 126"

definition line_char :: "u8 \<Rightarrow> bool" where
  "line_char c \<longleftrightarrow> 32 \<le> c"

definition header_line :: "bytes \<times> bytes \<Rightarrow> bytes" where
  "header_line h = fst h @ [58, 32] @ snd h @ [13, 10]"

definition render_request :: "bytes \<Rightarrow> bytes \<Rightarrow> bytes \<Rightarrow> (bytes \<times> bytes) list \<Rightarrow> bytes" where
  "render_request meth uri proto hs =
     meth @ [32] @ uri @ [32] @ proto @ [13, 10] @ concat (map header_line hs) @ [13, 10]"

definition header_ok :: "bytes \<times> bytes \<Rightarrow> bool" where
  "header_ok h \<longleftrightarrow> fst h \<noteq> [] \<and> (\<forall>c \<in> set (fst h). token_char c \<and> c \<noteq> 58) \<and>
     (\<forall>c \<in> set (snd h). line_char c) \<and> (snd h = [] \<or> hd (snd h) \<noteq> 32 \<and> last (snd h) \<noteq> 32)"

definition request_ok :: "bytes \<Rightarrow> bytes \<Rightarrow> bytes \<Rightarrow> (bytes \<times> bytes) list \<Rightarrow> bool" where
  "request_ok meth uri proto hs \<longleftrightarrow> meth \<noteq> [] \<and> (\<forall>c \<in> set meth. token_char c \<and> c \<noteq> 47) \<and>
     uri \<noteq> [] \<and> hd uri \<noteq> 63 \<and> (\<forall>c \<in> set uri. token_char c) \<and>
     proto \<noteq> [] \<and> hd proto \<noteq> 32 \<and> (\<forall>c \<in> set proto. line_char c) \<and> length hs \<le> MG_MAX_HTTP_HEADERS \<and> (\<forall>h \<in> set hs. header_ok h)"

lemma line_char_simps: "line_char c \<Longrightarrow> isok c" "line_char c \<Longrightarrow> c \<noteq> 10" "line_char c \<Longrightarrow> c \<noteq> 13"
  by (auto simp: line_char_def isok_def)

lemma token_line: "token_char c \<Longrightarrow> line_char c"
  by (auto simp: token_char_def line_char_def)

lemma clen_token: "token_char c \<Longrightarrow> clen (c # s) = 1"
  by (simp add: token_char_def clen_def)

lemma clen_zero: "c \<in> {10, 13, 32} \<Longrightarrow> clen (c # s) = 0"
  by (auto simp: clen_def)

lemma scan_token_tokens:
  assumes "\<forall>c \<in> set t. token_char c \<and> \<not> stop c" "r = [] \<or> stop (hd r) \<or> clen r = 0"
  shows "scan_token stop (t @ r) = (t, r)"
  using assms(1)
proof (induction t)
  case Nil
  then show ?case using assms(2) by (subst scan_token.simps) auto
next
  case (Cons c t)
  then show ?case using clen_token [of c "t @ r"] by (subst scan_token.simps) simp
qed

lemma skip_spaces_one: "s = [] \<or> hd s \<noteq> 32 \<Longrightarrow> skip_spaces (32 # s) = s" "s = [] \<or> hd s \<noteq> 32 \<Longrightarrow> skip_spaces s = s"
  by (cases s; auto simp: skip_spaces_def)+

lemma skiptorn_line: "\<forall>c \<in> set v. line_char c \<Longrightarrow> skiptorn (v @ 13 # 10 # r) = Some (Some (v, r))"
proof -
  assume v: "\<forall>c \<in> set v. line_char c"
  then have "\<And>c. c \<in> set v \<Longrightarrow> c \<noteq> 10 \<and> c \<noteq> 13" using line_char_simps by blast
  then have "takeWhile (\<lambda>c. c \<noteq> 10 \<and> c \<noteq> 13) (v @ 13 # 10 # r) = v \<and> dropWhile (\<lambda>c. c \<noteq> 10 \<and> c \<noteq> 13) (v @ 13 # 10 # r) = 13 # 10 # r"
    by (auto simp: takeWhile_append2 dropWhile_append2 line_char_simps)
  then show ?thesis by (simp add: skiptorn_def)
qed

lemma trim_spaces_id: "v = [] \<or> last v \<noteq> 32 \<Longrightarrow> trim_spaces v = v"
  by (cases v rule: rev_cases) (auto simp: trim_spaces_def)

lemma parse_headers_rendered:
  assumes "\<forall>h \<in> set hs. header_ok h" "length hs \<le> k"
  shows "mg_http_parse_headers k (concat (map header_line hs) @ 13 # 10 # rest) = Some (Some hs)"
  using assms
proof (induction hs arbitrary: k)
  case Nil
  then show ?case by (cases k) simp_all
next
  case (Cons h hs)
  obtain name v where h: "h = (name, v)" by (cases h)
  obtain k' where k: "k = Suc k'" using Cons.prems(2) by (cases k) auto
  have ok: "name \<noteq> []" "\<forall>c \<in> set name. token_char c \<and> c \<noteq> 58" "\<forall>c \<in> set v. line_char c" "v = [] \<or> hd v \<noteq> 32 \<and> last v \<noteq> 32"
    using Cons.prems(1) by (simp_all add: header_ok_def h)
  let ?r = "concat (map header_line hs) @ 13 # 10 # rest"
  let ?s = "name @ 58 # 32 # v @ 13 # 10 # ?r"
  have s: "concat (map header_line (h # hs)) @ 13 # 10 # rest = ?s" by (simp add: h header_line_def)
  have hd: "hd ?s \<noteq> 10" "hd ?s \<noteq> 13"
    using ok(1,2) by (cases name; auto dest!: token_line dest: line_char_simps)+
  have sc: "scan_token (\<lambda>c. c = 58) ?s = (name, 58 # 32 # v @ 13 # 10 # ?r)"
    using ok(2) by (intro scan_token_tokens) auto
  have c58: "clen (58 # xs) = 1" for xs by (rule clen_token) (simp add: token_char_def)
  have sk: "skip_spaces (32 # v @ 13 # 10 # ?r) = v @ 13 # 10 # ?r"
    using ok(4) by (intro skip_spaces_one) (cases v, auto)
  have ih: "mg_http_parse_headers k' ?r = Some (Some hs)" using Cons.IH [of k'] Cons.prems k by simp
  have tr: "trim_spaces v = v" using ok(4) by (intro trim_spaces_id) auto
  have ne: "?s \<noteq> []" by simp
  show ?case unfolding s k mg_http_parse_headers.simps
    using hd ok ne ih by (simp add: sc c58 sk skiptorn_line tr h)
qed

text \<open>The end of the head: behind every line something follows that is not the end of a line.\<close>

definition head_hit :: "bytes \<Rightarrow> nat \<Rightarrow> bool" where
  "head_hit buf i \<longleftrightarrow> i > 0 \<and> buf ! i = 10 \<and> buf ! (i - 1) = 10 \<or>
     i > 3 \<and> buf ! i = 10 \<and> buf ! (i - 1) = 13 \<and> buf ! (i - 2) = 10"

lemma request_len_loop_skip:
  assumes "\<And>j. i \<le> j \<Longrightarrow> j < i + n \<Longrightarrow> isok (buf ! j) \<and> \<not> head_hit buf j"
  shows "request_len_loop buf i (n + k) = request_len_loop buf (i + n) k"
  using assms
proof (induction n arbitrary: i)
  case (Suc n)
  then have "isok (buf ! i) \<and> \<not> head_hit buf i" by simp
  then have "request_len_loop buf i (Suc (n + k)) = request_len_loop buf (i + 1) (n + k)" by (auto simp: head_hit_def)
  also have "\<dots> = request_len_loop buf (i + 1 + n) k" using Suc.prems by (intro Suc.IH) simp
  finally show ?case by simp
qed simp

lemma line_no_hit:
  assumes buf: "buf = pre @ l @ [13, 10] @ rest" and l: "l \<noteq> []" "\<forall>c \<in> set l. line_char c"
    and pre: "pre = [] \<or> last pre = 10"
    and j: "length pre \<le> j" "j < length pre + length l + 2"
  shows "isok (buf ! j) \<and> \<not> head_hit buf j"
proof -
  have nth: "buf ! (length pre + k) = l ! k" if "k < length l" for k using that by (simp add: buf nth_append)
  have cr: "buf ! (length pre + length l) = 13" "buf ! (length pre + length l + 1) = 10"
    by (simp_all add: buf nth_append)
  have line: "line_char (buf ! (length pre + k))" if "k < length l" for k using l(2) nth [OF that] that by simp
  consider (in_line) k where "j = length pre + k" "k < length l" | (cr) "j = length pre + length l"
    | (lf) "j = length pre + length l + 1" using j by (metis add.commute add_Suc le_Suc_ex less_Suc_eq nat_add_left_cancel_less numeral_2_eq_2 One_nat_def add.right_neutral add_Suc_right)
  then show ?thesis
  proof cases
    case in_line
    then show ?thesis using line [OF in_line(2)] line_char_simps by (auto simp: head_hit_def)
  next
    case cr
    with \<open>buf ! (length pre + length l) = 13\<close> show ?thesis by (simp add: isok_def head_hit_def)
  next
    case lf
    have "buf ! (length pre + length l - 1) = l ! (length l - 1)"
      using nth [of "length l - 1"] l(1) by (simp add: Suc_le_eq)
    then have "buf ! (length pre + length l - 1) \<noteq> 10"
      using l line_char_simps(2) by (metis diff_less length_greater_0_conv nth_mem zero_less_one)
    with lf cr l(1) show ?thesis by (simp add: isok_def head_hit_def)
  qed
qed

lemma head_len_lines:
  assumes "\<forall>l \<in> set ls. l \<noteq> [] \<and> (\<forall>c \<in> set l. line_char c)" "ls \<noteq> []"
    and pre: "pre = [] \<or> last pre = 10"
    and buf: "buf = pre @ concat (map (\<lambda>l. l @ [13, 10]) ls) @ [13, 10] @ rest"
  shows "request_len_loop buf (length pre) (length buf - length pre) =
    int (length pre + length (concat (map (\<lambda>l. l @ [13, 10]) ls)) + 2)"
  using assms
proof (induction ls arbitrary: pre)
  case (Cons l ls)
  let ?r = "concat (map (\<lambda>l. l @ [13, 10]) ls) @ [13, 10] @ rest"
  have b: "buf = pre @ l @ [13, 10] @ ?r" using Cons.prems(4) by simp
  have l: "l \<noteq> []" "\<forall>c \<in> set l. line_char c" using Cons.prems(1) by simp_all
  let ?n = "length l + 2" and ?p = "pre @ l @ [13, 10]"
  have skip: "request_len_loop buf (length pre) (?n + length ?r) = request_len_loop buf (length pre + ?n) (length ?r)"
    using line_no_hit [OF b l Cons.prems(3)] by (intro request_len_loop_skip) auto
  have len: "length buf - length pre = ?n + length ?r" "length pre + ?n = length ?p" "length ?r = length buf - length ?p"
    using b by simp_all
  show ?case
  proof (cases "ls = []")
    case False
    have "request_len_loop buf (length ?p) (length buf - length ?p) =
        int (length ?p + length (concat (map (\<lambda>l. l @ [13, 10]) ls)) + 2)"
      using Cons.prems(1) False b by (intro Cons.IH) simp_all
    then show ?thesis using skip len by (simp del: request_len_loop.simps)
  next
    case True
    let ?e = "length pre + length l + 2"
    have e: "buf ! ?e = 13" "buf ! (?e + 1) = 10" "buf ! (?e - 1) = 10" using b True by (simp_all add: nth_append)
    have "4 \<le> ?e + 1" using l(1) by (cases l) simp_all
    then have "request_len_loop buf ?e (Suc (Suc (length rest))) = int ?e + 2"
      using e l(1) by (simp add: isok_def)
    moreover have "length ?r = Suc (Suc (length rest))" using True by simp
    ultimately show ?thesis using skip len True by simp
  qed
qed simp

lemma render_request_lines:
  "render_request meth uri proto hs = concat (map (\<lambda>l. l @ [13, 10])
     ((meth @ [32] @ uri @ [32] @ proto) # map (\<lambda>h. fst h @ [58, 32] @ snd h) hs)) @ [13, 10]"
proof -
  have "concat (map header_line hs) = concat (map ((\<lambda>l. l @ [13, 10]) \<circ> (\<lambda>h. fst h @ [58, 32] @ snd h)) hs)"
    by (induction hs) (simp_all add: header_line_def)
  then show ?thesis by (simp add: render_request_def)
qed

lemma request_len_rendered:
  assumes "request_ok meth uri proto hs"
  shows "mg_http_get_request_len (render_request meth uri proto hs @ rest) = int (length (render_request meth uri proto hs))"
proof -
  let ?ls = "(meth @ [32] @ uri @ [32] @ proto) # map (\<lambda>h. fst h @ [58, 32] @ snd h) hs"
  have sp: "line_char 32" "line_char 58" by (simp_all add: line_char_def)
  have "\<forall>l \<in> set ?ls. l \<noteq> [] \<and> (\<forall>c \<in> set l. line_char c)"
  proof -
    have "\<forall>h \<in> set hs. fst h \<noteq> [] \<and> (\<forall>c \<in> set (fst h). line_char c) \<and> (\<forall>c \<in> set (snd h). line_char c)"
      "\<forall>c \<in> set meth. line_char c" "\<forall>c \<in> set uri. line_char c" "\<forall>c \<in> set proto. line_char c"
      using assms token_line unfolding request_ok_def header_ok_def by blast+
    with sp show ?thesis by fastforce
  qed
  from head_len_lines [OF this, of "[]" "render_request meth uri proto hs @ rest" rest]
  show ?thesis by (simp add: mg_http_get_request_len_def render_request_lines)
qed

lemma request_len_loop_prefix:
  assumes "request_len_loop buf i m = int n" "k < n" "i \<le> k" "k - i \<le> m" "k \<le> length buf"
  shows "request_len_loop (take k buf) i (k - i) = 0"
  using assms
proof (induction m arbitrary: i)
  case (Suc m)
  show ?case
  proof (cases "k = i")
    case False
    then have ik: "i < k" using Suc.prems by simp
    have e: "take k buf ! i = buf ! i" "0 < i \<Longrightarrow> take k buf ! (i - 1) = buf ! (i - 1)" "1 < i \<Longrightarrow> take k buf ! (i - 2) = buf ! (i - 2)"
      using ik Suc.prems(5) by simp_all
    have ok: "isok (buf ! i)" "\<not> head_hit buf i" using Suc.prems(1,2) ik by (auto simp: head_hit_def split: if_splits)
    then have "request_len_loop buf (i + 1) m = int n" using Suc.prems(1) by (auto simp: head_hit_def split: if_splits)
    then have ih: "request_len_loop (take k buf) (i + 1) (k - (i + 1)) = 0" using Suc.prems ik by (intro Suc.IH) simp_all
    have "k - i = Suc (k - (i + 1))" using ik by simp
    moreover have "\<not> head_hit (take k buf) i" using ok(2) e by (auto simp: head_hit_def)
    ultimately show ?thesis using ih ok(1) e(1) by (auto simp: head_hit_def)
  qed simp
qed simp

lemma request_len_prefix:
  assumes "mg_http_get_request_len buf = int n" "k < n" "k \<le> length buf"
  shows "mg_http_get_request_len (take k buf) = 0"
  using request_len_loop_prefix [of buf 0 "length buf" n k] assms by (simp add: mg_http_get_request_len_def min_absorb2)

section \<open>Properties\<close>

text \<open>The comparison with \<open>HTTP/\<close> fails for a method that has no slash.\<close>

lemma mg_tolc_eq: "d < 65 \<Longrightarrow> mg_tolc c = mg_tolc d \<longleftrightarrow> c = d"
proof
  assume d: "d < 65" and e: "mg_tolc c = mg_tolc d"
  then have "uint c = uint d" by (auto simp: mg_tolc_def word_le_def word_less_def split: if_splits)
  then show "c = d" by (simp only: word_uint_eq_iff [symmetric])
qed simp

lemma not_response:
  assumes "t \<noteq> []" "last t = 47" "32 \<notin> set t" "\<forall>c \<in> set meth. c \<noteq> 47 \<and> c \<noteq> 0"
  shows "\<exists>d. mg_ncasecmp (meth @ 32 # s) t (length t) = Some d \<and> d \<noteq> 0"
  using assms
proof (induction meth arbitrary: t)
  case Nil
  then obtain d t' where t: "t = d # t'" "d \<noteq> 32" by (cases t) auto
  have "mg_tolc 32 \<noteq> mg_tolc d" using mg_tolc_eq [of 32 d] t(2) by auto
  then show ?case by (simp add: t(1) Let_def)
next
  case (Cons c meth)
  obtain d t' where t: "t = d # t'" using Cons.prems(1) by (cases t) auto
  show ?case
  proof (cases "t' = []")
    case True
    then have "mg_tolc c \<noteq> mg_tolc d" using Cons.prems t mg_tolc_eq [of 47 c] by auto
    then show ?thesis by (simp add: t Let_def)
  next
    case False
    then have "\<exists>d. mg_ncasecmp (meth @ 32 # s) t' (length t') = Some d \<and> d \<noteq> 0"
      using Cons.prems t by (intro Cons.IH) auto
    then show ?thesis using Cons.prems(4) by (simp add: t Let_def)
  qed
qed

text \<open>
  C16. The parser reads no byte outside of the head it was given, whatever the bytes are; the length it
  reports is that of a head within the buffer, and the length of the message is not less.
\<close>

theorem http_parse_in_bounds:
  "\<exists>n hm. mg_http_parse buf = Some (n, hm) \<and> n \<le> int (length buf) \<and>
     (n \<le> 0 \<or> head_len hm = nat n \<and> nat n \<le> message_len hm \<and> hm_method hm \<noteq> [] \<and> hm_uri hm \<noteq> [])"
proof -
  obtain n hm where r: "mg_http_parse buf = Some (n, hm)" using mg_http_parse_some [of buf] by auto
  have len: "0 < mg_http_get_request_len buf \<Longrightarrow> mg_http_get_request_len buf \<le> int (length buf)"
    using request_head(1) [of buf] by linarith
  have "n \<le> int (length buf) \<and> (0 < n \<longrightarrow> head_len hm = nat n \<and> nat n \<le> message_len hm \<and> hm_method hm \<noteq> [] \<and> hm_uri hm \<noteq> [])"
    using r len by (auto simp: mg_http_parse_def Let_def split: if_splits option.splits prod.splits bind_splits)
  with r show ?thesis by fastforce
qed

text \<open>A request of any method, by whether its body has a length.\<close>

definition has_body :: "bytes \<Rightarrow> bool" where
  "has_body meth \<longleftrightarrow> mg_strcasecmp meth (ascii ''PUT'') = 0 \<or> mg_strcasecmp meth (ascii ''POST'') = 0"

lemma mg_http_parse_sized:
  fixes b :: nat
  assumes ok: "request_ok meth uri proto hs"
  defines "n \<equiv> length (render_request meth uri proto hs)"
  assumes size: "case mg_http_get_header hs ''Content-Length'' of
      None \<Rightarrow> b = (if has_body meth then SIZE_MAX else 0)
    | Some v \<Rightarrow> mg_to_size_t v = Some b \<and> n + b < SIZE_MAX"
    and fits: "b = SIZE_MAX \<Longrightarrow> n \<le> SIZE_MAX"
  shows "mg_http_parse (render_request meth uri proto hs @ rest) = Some (int n,
     \<lparr>hm_method = meth, hm_uri = fst (split_query uri), hm_query = snd (split_query uri), hm_proto = proto, hm_headers = hs,
      body_len = b, message_len = (if b = SIZE_MAX then SIZE_MAX else n + b), head_len = n\<rparr>)"
proof -
  let ?hs = "concat (map header_line hs)"
  let ?req = "render_request meth uri proto hs"
  have tok: "\<forall>c \<in> set meth. token_char c" "\<forall>c \<in> set uri. token_char c" "meth \<noteq> []" "uri \<noteq> []" "proto \<noteq> []"
    using ok by (simp_all add: request_ok_def)
  have req: "?req = meth @ 32 # uri @ 32 # proto @ 13 # 10 # ?hs @ 13 # 10 # []" by (simp add: render_request_def)
  have pos: "mg_http_get_request_len (?req @ rest) = int n" "0 < n" "take n (?req @ rest) = ?req"
    using request_len_rendered [OF ok, of rest] by (simp add: n_def, simp add: n_def req, simp add: n_def)
  have t1: "scan_token (\<lambda>c. False) ?req = (meth, 32 # uri @ 32 # proto @ 13 # 10 # ?hs @ 13 # 10 # [])"
    unfolding req using tok by (intro scan_token_tokens) (simp_all add: clen_zero)
  have sp1: "skip_spaces (32 # uri @ 32 # proto @ 13 # 10 # ?hs @ 13 # 10 # []) = uri @ 32 # proto @ 13 # 10 # ?hs @ 13 # 10 # []"
    using tok by (intro skip_spaces_one) (cases uri, auto simp: token_char_def)
  have t2: "scan_token (\<lambda>c. False) (uri @ 32 # proto @ 13 # 10 # ?hs @ 13 # 10 # []) = (uri, 32 # proto @ 13 # 10 # ?hs @ 13 # 10 # [])"
    using tok by (intro scan_token_tokens) (simp_all add: clen_zero)
  have sp2: "skip_spaces (32 # proto @ 13 # 10 # ?hs @ 13 # 10 # []) = proto @ 13 # 10 # ?hs @ 13 # 10 # []"
    using ok by (intro skip_spaces_one) (cases proto, auto simp: request_ok_def)
  have line: "skiptorn (proto @ 13 # 10 # ?hs @ 13 # 10 # []) = Some (Some (proto, ?hs @ 13 # 10 # []))"
    using ok by (intro skiptorn_line) (simp add: request_ok_def)
  have hdrs: "mg_http_parse_headers MG_MAX_HTTP_HEADERS (?hs @ 13 # 10 # []) = Some (Some hs)"
    using ok by (intro parse_headers_rendered) (simp_all add: request_ok_def)
  obtain u0 us where uri: "uri = u0 # us" "u0 \<noteq> 63" using ok by (cases uri) (auto simp: request_ok_def)
  obtain path query where sq: "split_query uri = (path, query)" by fastforce
  then have path: "path \<noteq> []" by (auto simp: split_query_def uri)
  have http: "ascii ''HTTP/'' \<noteq> []" "last (ascii ''HTTP/'') = 47" "32 \<notin> set (ascii ''HTTP/'')" "length (ascii ''HTTP/'') = 5"
    by (simp_all add: ascii_def)
  have "\<forall>c \<in> set meth. c \<noteq> 47 \<and> c \<noteq> 0" using ok by (auto simp: request_ok_def token_char_def)
  then obtain d where d: "mg_ncasecmp ?req (ascii ''HTTP/'') 5 = Some d" "d \<noteq> 0"
    using not_response [OF http(1-3), of meth] unfolding http(4) req by blast
  show ?thesis
  proof (cases "mg_http_get_header hs ''Content-Length''")
    case None
    then show ?thesis
      unfolding mg_http_parse_def Let_def
      using pos path tok(3) size fits
      by (auto simp: t1 sp1 t2 sp2 line hdrs d sq has_body_def SIZE_MAX_def simp del: take_append)
  next
    case (Some v)
    then have v: "mg_to_size_t v = Some b" "n + b < SIZE_MAX" using size by simp_all
    then have sum: "size_add n b = n + b" "b \<noteq> SIZE_MAX" by (simp_all add: size_add_def SIZE_MAX_def)
    show ?thesis
      unfolding mg_http_parse_def Let_def
      using pos path tok(3)
      by (auto simp: t1 sp1 t2 sp2 line hdrs d sq Some v(1) sum simp del: take_append)
  qed
qed

lemma mg_http_parse_any:
  assumes ok: "request_ok meth uri proto hs"
    and no_cl: "mg_http_get_header hs ''Content-Length'' = None"
  defines "n \<equiv> length (render_request meth uri proto hs)"
  assumes fits: "has_body meth \<Longrightarrow> n \<le> SIZE_MAX"
  shows "mg_http_parse (render_request meth uri proto hs @ rest) = Some (int n,
     \<lparr>hm_method = meth, hm_uri = fst (split_query uri), hm_query = snd (split_query uri), hm_proto = proto, hm_headers = hs,
      body_len = (if has_body meth then SIZE_MAX else 0), message_len = (if has_body meth then SIZE_MAX else n), head_len = n\<rparr>)"
  using mg_http_parse_sized [OF ok, of "if has_body meth then SIZE_MAX else 0" rest] no_cl fits
  by (auto simp: n_def SIZE_MAX_def)

text \<open>
  C17. A request as clients write it is read back whatever follows it in the buffer: the method, the path and
  the query of the URI, the protocol and every header, up to thirty, and the length of the body: that of a
  \<open>Content-Length\<close> header that is a number, and without one none, or for \<open>PUT\<close> and \<open>POST\<close> no limit. The
  method and the URI consist of the characters 33 to 125 (the tilde ends a token), the method has no slash, the URI does
  not begin with its query, header names are made of those characters without the colon, values and the protocol
  of the characters from 32 on without a blank at the end or the beginning, and the whole message is shorter
  than \<open>2^64 - 1\<close> bytes.
\<close>

theorem http_parse_roundtrip:
  fixes b :: nat
  assumes "request_ok meth uri proto hs" and "n = length (render_request meth uri proto hs)"
    and "case mg_http_get_header hs ''Content-Length'' of
      None \<Rightarrow> b = (if has_body meth then SIZE_MAX else 0) \<and> n \<le> SIZE_MAX
    | Some v \<Rightarrow> mg_to_size_t v = Some b \<and> n + b < SIZE_MAX"
  shows "mg_http_parse (render_request meth uri proto hs @ rest) = Some (int n,
     \<lparr>hm_method = meth, hm_uri = fst (split_query uri), hm_query = snd (split_query uri), hm_proto = proto, hm_headers = hs,
      body_len = b, message_len = (if b = SIZE_MAX then SIZE_MAX else n + b), head_len = n\<rparr>)"
  unfolding assms(2) using assms(3) by (intro mg_http_parse_sized [OF assms(1)]) (auto simp: assms(2) split: option.splits)

theorem http_parse_roundtrip_witness:
  "mg_http_parse (ascii ''POST /ws/rpc?x HTTP/1.1'' @ [13, 10] @ ascii ''Content-Length: 7'' @ [13, 10, 13, 10, 9]) = Some (46,
     \<lparr>hm_method = ascii ''POST'', hm_uri = ascii ''/ws/rpc'', hm_query = ascii ''x'', hm_proto = ascii ''HTTP/1.1'',
      hm_headers = [(ascii ''Content-Length'', ascii ''7'')], body_len = 7, message_len = 53, head_len = 46\<rparr>)"
proof -
  let ?hs = "[(ascii ''Content-Length'', ascii ''7'')]"
  let ?req = "render_request (ascii ''POST'') (ascii ''/ws/rpc?x'') (ascii ''HTTP/1.1'') ?hs"
  have req: "ascii ''POST /ws/rpc?x HTTP/1.1'' @ [13, 10] @ ascii ''Content-Length: 7'' @ [13, 10, 13, 10, 9] = ?req @ [9]"
    by (simp add: render_request_def header_line_def ascii_def)
  have len: "46 = length ?req" by (simp add: render_request_def header_line_def)
  have ok: "request_ok (ascii ''POST'') (ascii ''/ws/rpc?x'') (ascii ''HTTP/1.1'') ?hs"
    by (simp add: request_ok_def header_ok_def ascii_def token_char_def line_char_def MG_MAX_HTTP_HEADERS_def)
  have same: "mg_ncasecmp t t (length t) = Some 0" for t :: bytes by (induction t) (simp_all add: Let_def)
  have "mg_http_get_header ?hs ''Content-Length'' = Some (ascii ''7'')"
    using same [of "ascii ''Content-Length''"] by (simp add: mg_http_get_header_def)
  moreover have "mg_to_size_t (ascii ''7'') = Some 7"
    by (simp add: mg_to_size_t_def ascii_def is_blank_def SIZE_MAX_def)
  ultimately have "case mg_http_get_header ?hs ''Content-Length'' of
      None \<Rightarrow> 7 = (if has_body (ascii ''POST'') then SIZE_MAX else 0) \<and> 46 \<le> SIZE_MAX
    | Some v \<Rightarrow> mg_to_size_t v = Some 7 \<and> 46 + 7 < SIZE_MAX" by (simp add: SIZE_MAX_def)
  from http_parse_roundtrip [OF ok len this, of "[9]"]
  have "mg_http_parse (?req @ [9]) = Some (46,
     \<lparr>hm_method = ascii ''POST'', hm_uri = fst (split_query (ascii ''/ws/rpc?x'')), hm_query = snd (split_query (ascii ''/ws/rpc?x'')),
      hm_proto = ascii ''HTTP/1.1'', hm_headers = ?hs, body_len = 7, message_len = 53, head_len = 46\<rparr>)"
    by (simp add: SIZE_MAX_def)
  moreover have "split_query (ascii ''/ws/rpc?x'') = (ascii ''/ws/rpc'', ascii ''x'')" by (simp add: split_query_def ascii_def)
  ultimately show ?thesis unfolding req by simp
qed

section \<open>Patterns without wildcards, and with\<close>

lemma mg_match_loop_plain:
  assumes "\<forall>c \<in> set p. c \<notin> {63, 42, 35}" "i \<le> length p" "i \<le> length s"
  shows "mg_match_loop s b p i i ni 0 = Some (drop i s = drop i p)"
  using assms(2,3)
proof (induction "length p - i" arbitrary: i)
  case 0
  then have i: "i = length p" by simp
  show ?case using 0 by (subst mg_match_loop.simps) (auto simp: i)
next
  case (Suc n)
  then have ip: "i < length p" by simp
  then have w: "p ! i \<noteq> 63" "p ! i \<noteq> 42" "p ! i \<noteq> 35" using assms(1) nth_mem [OF ip] by blast+
  show ?case
  proof (cases "i < length s")
    case True
    have d: "drop i s = drop i p \<longleftrightarrow> s ! i = p ! i \<and> drop (i + 1) s = drop (i + 1) p"
      using True ip by (simp flip: Cons_nth_drop_Suc)
    show ?thesis
    proof (cases "s ! i = p ! i")
      case eq: True
      have "mg_match_loop s b p (i + 1) (i + 1) ni 0 = Some (drop (i + 1) s = drop (i + 1) p)"
        using Suc ip True by (intro Suc.hyps(1)) simp_all
      then show ?thesis using eq True ip by (subst mg_match_loop.simps) (simp add: d)
    next
      case False
      then show ?thesis using True ip w by (subst mg_match_loop.simps) (simp add: d)
    qed
  next
    case False
    then show ?thesis using Suc.prems ip w by (subst mg_match_loop.simps) auto
  qed
qed

lemma mg_match_loop_cycle:
  "mg_match_loop [97, 42, 98] b [42, 120] i j ni nj = Some r \<Longrightarrow> (i, j, ni, nj) \<notin> {(0, 0, 0, 0), (1, 0, 0, 1), (0, 1, 0, 1), (1, Suc (Suc 0), 0, 1)}"
proof -
  have "s = [97, 42, 98] \<longrightarrow> p = [42, 120] \<longrightarrow> (i, j, ni, nj) \<notin> {(0, 0, 0, 0), (1, 0, 0, 1), (0, 1, 0, 1), (1, Suc (Suc 0), 0, 1)}"
    if ret: "mg_match_loop s b p i j ni nj = Some r" for s p :: bytes
  proof (rule mg_match_loop.raw_induct [where P = "\<lambda>s b p i j ni nj r. s = [97, 42, 98] \<longrightarrow> p = [42, 120] \<longrightarrow>
      (i, j, ni, nj) \<notin> {(0, 0, 0, 0), (1, 0, 0, 1), (0, 1, 0, 1), (1, Suc (Suc 0), 0, 1)}", OF _ ret])
    fix f and s :: bytes and b and p :: bytes and i j ni nj y
    assume ih: "\<And>s b p i j ni nj y. f s b p i j ni nj = Some y \<Longrightarrow> s = [97, 42, 98] \<longrightarrow> p = [42, 120] \<longrightarrow>
        (i, j, ni, nj) \<notin> {(0, 0, 0, 0), (1, 0, 0, 1), (0, 1, 0, 1), (1, Suc (Suc 0), 0, 1)}"
      and body: "(if i < length p \<or> j < length s then
        (if i < length p \<and> j < length s \<and> (p ! i = 63 \<or> s ! j = p ! i) then f s b p (i + 1) (j + 1) ni nj
         else if i < length p \<and> (p ! i = 42 \<or> p ! i = 35) then f s b p (i + 1) j i (j + 1)
         else if 0 < nj \<and> nj \<le> length s \<and> (p ! ni = 35 \<or> (if j < length s then s ! j else b) \<noteq> 47)
         then f s b p ni nj ni nj else Some False) else Some True) = Some y"
    show "s = [97, 42, 98] \<longrightarrow> p = [42, 120] \<longrightarrow> (i, j, ni, nj) \<notin> {(0, 0, 0, 0), (1, 0, 0, 1), (0, 1, 0, 1), (1, Suc (Suc 0), 0, 1)}"
      using body ih [of s b p 1 0 0 1 y] ih [of s b p 0 1 0 1 y] ih [of s b p 1 "Suc (Suc 0)" 0 1 y]
      by (auto split: if_splits)
  qed
  then show "mg_match_loop [97, 42, 98] b [42, 120] i j ni nj = Some r \<Longrightarrow> (i, j, ni, nj) \<notin> {(0, 0, 0, 0), (1, 0, 0, 1), (0, 1, 0, 1), (1, Suc (Suc 0), 0, 1)}"
    by blast
qed

text \<open>
  Matching ends for every string when the pattern has no wildcard, as those of the program, and then
  is equality. With wildcards it may not end: a star in the string is taken for the star of the pattern, and
  matching \<open>a*b\<close> against \<open>*x\<close> returns to the same place for ever.
\<close>

theorem match_ends_without_wildcards:
  "((\<forall>c \<in> set p. c \<notin> {63, 42, 35}) \<longrightarrow> mg_match s b p = Some (s = p)) \<and>
   mg_match (ascii ''a*b'') b (ascii ''*x'') = None"
proof
  show "(\<forall>c \<in> set p. c \<notin> {63, 42, 35}) \<longrightarrow> mg_match s b p = Some (s = p)"
    using mg_match_loop_plain [of p 0 s b 0] by (simp add: mg_match_def)
  have e: "ascii ''a*b'' = [97, 42, 98]" "ascii ''*x'' = [42, 120]" by (simp_all add: ascii_def)
  show "mg_match (ascii ''a*b'') b (ascii ''*x'') = None"
    unfolding mg_match_def e using mg_match_loop_cycle by (metis insertI1 not_Some_eq)
qed

theorem match_ends_without_wildcards_witness:
  "mg_match (ascii ''/ws/rpc'') 32 (ascii ''/ws/hose'') = Some False"
  using match_ends_without_wildcards [of "ascii ''/ws/hose''" "ascii ''/ws/rpc''" 32] by (simp add: ascii_def)

end
