(* ===== verification/HttpReply.thy ===== *)
theory HttpReply
  imports Prelude Iobuf Fmt Http
begin

unbundle bit_operations_syntax

text \<open>
  What mongoose writes and reads behind the head of an HTTP message (\<open>externals/mongoose/src/http.c\<close>): replies
  with their length, and bodies in chunks, which are taken apart in the receive buffer.
\<close>

section \<open>Replies\<close>

definition status_codes :: "(nat \<times> string) list" where
  "status_codes =
    [(100, ''Continue''), (101, ''Switching Protocols''), (102, ''Processing''), (200, ''OK''),
     (201, ''Created''), (202, ''Accepted''), (203, ''Non-authoritative Information''), (204, ''No Content''),
     (205, ''Reset Content''), (206, ''Partial Content''), (207, ''Multi-Status''),
     (208, ''Already Reported''), (226, ''IM Used''), (300, ''Multiple Choices''),
     (301, ''Moved Permanently''), (302, ''Found''), (303, ''See Other''), (304, ''Not Modified''),
     (305, ''Use Proxy''), (307, ''Temporary Redirect''), (308, ''Permanent Redirect''),
     (400, ''Bad Request''), (401, ''Unauthorized''), (402, ''Payment Required''), (403, ''Forbidden''),
     (404, ''Not Found''), (405, ''Method Not Allowed''), (406, ''Not Acceptable''),
     (407, ''Proxy Authentication Required''), (408, ''Request Timeout''), (409, ''Conflict''),
     (410, ''Gone''), (411, ''Length Required''), (412, ''Precondition Failed''), (413, ''Payload Too Large''),
     (414, ''Request-URI Too Long''), (415, ''Unsupported Media Type''),
     (416, ''Requested Range Not Satisfiable''), (417, ''Expectation Failed''), (418, ''I'm a teapot''),
     (421, ''Misdirected Request''), (422, ''Unprocessable Entity''), (423, ''Locked''),
     (424, ''Failed Dependency''), (426, ''Upgrade Required''), (428, ''Precondition Required''),
     (429, ''Too Many Requests''), (431, ''Request Header Fields Too Large''),
     (444, ''Connection Closed Without Response''), (451, ''Unavailable For Legal Reasons''),
     (499, ''Client Closed Request''), (500, ''Internal Server Error''), (501, ''Not Implemented''),
     (502, ''Bad Gateway''), (503, ''Service Unavailable''), (504, ''Gateway Timeout''),
     (505, ''HTTP Version Not Supported''), (506, ''Variant Also Negotiates''),
     (507, ''Insufficient Storage''), (508, ''Loop Detected''), (510, ''Not Extended''),
     (511, ''Network Authentication Required''), (599, ''Network Connect Timeout Error'')]"

definition mg_http_status_code_str :: "nat \<Rightarrow> string" where
  "mg_http_status_code_str code = (case map_of status_codes code of None \<Rightarrow> '''' | Some s \<Rightarrow> s)"

definition reply_head :: bytes where
  "reply_head = ascii ''HTTP/1.1 %d %s'' @ [13, 10] @ ascii ''%sContent-Length:            '' @ [13, 10, 13, 10]"

definition c_str :: "string \<Rightarrow> fmt_arg" where "c_str s = Arg_str (Some (ascii s @ [0]))"

text \<open>
  \<open>mg_http_reply\<close> on the send buffer: the head with room for the length, the body, and the length written
  into its place, ten characters wide; the zero that ends the number is overwritten with a space.
\<close>

definition mg_http_reply :: "(nat \<Rightarrow> bool) \<Rightarrow> mg_iobuf \<Rightarrow> nat \<Rightarrow> string \<Rightarrow> bytes \<Rightarrow> fmt_arg list \<Rightarrow> mg_iobuf option" where
  "mg_http_reply calloc io code headers f args = do {
     io \<leftarrow> mg_printf calloc io reply_head [Arg_word (word_of_nat code), c_str (mg_http_status_code_str code), c_str headers];
     let n = iolen io;
     io \<leftarrow> mg_printf calloc io f args;
     if iolen io > 16 then do {
       (w, k) \<leftarrow> mg_snprintf (slice (iobuf io) (n - 15) (n - 4)) (ascii ''%-10lu'') [Arg_word (word_of_nat (iolen io - n))];
       b \<leftarrow> memcpy_into (iobuf io) (n - 15) w;
       if n - 15 + k < length b then Some (io\<lparr>iobuf := b[n - 15 + k := 32]\<rparr>) else None
     } else Some io
   }"

section \<open>Chunks\<close>

definition is_hex_digit :: "u8 \<Rightarrow> bool" where
  "is_hex_digit c \<longleftrightarrow> 48 \<le> c \<and> c \<le> 57 \<or> 97 \<le> c \<and> c \<le> 102 \<or> 65 \<le> c \<and> c \<le> 70"

text \<open>
  \<open>skip_chunk\<close> on the bytes that are there; \<open>behind\<close> is the byte of the buffer that follows them, if the buffer
  goes on. The results are the value returned, \<open>pl\<close> and \<open>dl\<close>. What the code keeps in an \<open>int\<close> (the lengths and
  offsets of chunks in the receive buffer, which is limited to 3 MB) is an unbounded number here.
\<close>

definition skip_chunk :: "u8 option \<Rightarrow> bytes \<Rightarrow> (int \<times> nat \<times> nat) option" where
  "skip_chunk behind s =
     (let len = length s; i = length (takeWhile is_hex_digit s); err = Some (-1, 0, 0) in
      if len < 3 then Some (0, 0, 0)
      else if i = 0 then err
      else if i > 8 then err
      else if len < i + 1 then err
      else if s ! i \<noteq> 13 then err
      else do {
        c \<leftarrow> (if i + 1 < len then Some (s ! (i + 1)) else behind);
        if c \<noteq> 10 then err
        else (case mg_str_to_num (take i s) 16 4 of
            None \<Rightarrow> err
          | Some v \<Rightarrow>
              (let n = sint (word_of_nat v :: u32) in
               if n < 0 then err
               else if n > int len - int i - 4 then Some (0, 0, 0)
               else if s ! (i + nat n + 2) \<noteq> 13 \<or> s ! (i + nat n + 3) \<noteq> 10 then err
               else Some (int i + 2 + n + 2, i + 2, nat n)))
      })"

lemma skip_chunk_bounds:
  assumes "skip_chunk behind s = Some (cl, pl, dl)" "0 < cl"
  shows "nat cl \<le> length s" "nat cl = pl + dl + 2" "3 \<le> pl"
  using assms by (auto simp: skip_chunk_def Let_def Suc_le_eq split: if_splits option.splits bind_splits)

text \<open>The first pass, for the chunk that ends it: the value of \<open>cl\<close> on leaving the loop.\<close>

function last_chunk :: "u8 option \<Rightarrow> bytes \<Rightarrow> int option" where
  "last_chunk behind s =
     (case skip_chunk behind s of
        None \<Rightarrow> None
      | Some (cl, pl, dl) \<Rightarrow> if 0 < cl \<and> dl \<noteq> 0 then last_chunk behind (drop (nat cl) s) else Some cl)"
  by pat_completeness auto

termination
proof (relation "measure (\<lambda>(behind, s). length s)")
  fix behind s x cl y pl dl
  assume "skip_chunk behind s = Some x" "(cl, y) = x" "(pl, dl) = y" "0 < cl \<and> dl \<noteq> (0 :: nat)"
  then have "nat cl \<le> length s" "0 < nat cl" using skip_chunk_bounds(1) [of behind s cl pl dl] by auto
  then show "((behind, drop (nat cl) s), behind, s) \<in> measure (\<lambda>(behind, s). length s)" by simp
qed simp

declare last_chunk.simps [simp del]

text \<open>
  The second pass moves the data of each chunk to the end of what is moved already: the bytes, the offset
  behind the chunks and the length of the body.
\<close>

function strip_chunks :: "u8 option \<Rightarrow> bytes \<Rightarrow> nat \<Rightarrow> nat \<Rightarrow> (bytes \<times> nat \<times> nat) option" where
  "strip_chunks behind s off bl =
     (case skip_chunk behind (drop off s) of
        None \<Rightarrow> None
      | Some (cl, pl, dl) \<Rightarrow>
          if 0 < cl then
            (case memcpy_into s bl (slice s (off + pl) (off + pl + dl)) of
               None \<Rightarrow> None
             | Some s' \<Rightarrow> if dl = 0 then Some (s', off + nat cl, bl) else strip_chunks behind s' (off + nat cl) (bl + dl))
          else Some (s, off, bl))"
  by pat_completeness auto

termination
proof (relation "measure (\<lambda>(behind, s, off, bl). length s - off)")
  fix behind s off bl x cl y pl dl s'
  assume "skip_chunk behind (drop off s) = Some x" "(cl, y) = x" "(pl, dl) = y" "0 < cl"
    "memcpy_into s bl (slice s (off + pl) (off + pl + dl)) = Some s'" "dl \<noteq> (0 :: nat)"
  then have "nat cl \<le> length (drop off s)" "0 < nat cl" "length s' = length s"
    using skip_chunk_bounds(1) [of behind "drop off s" cl pl dl] by (auto simp: memcpy_into_def length_put_slice split: if_splits)
  then show "((behind, s', off + nat cl, bl + dl), behind, s, off, bl) \<in> measure (\<lambda>(behind, s, off, bl). length s - off)"
    by simp
qed simp

declare strip_chunks.simps [simp del]

text \<open>\<open>mg_http_write_chunk\<close> on the send buffer.\<close>

definition mg_http_write_chunk :: "(nat \<Rightarrow> bool) \<Rightarrow> mg_iobuf \<Rightarrow> bytes \<Rightarrow> mg_iobuf option" where
  "mg_http_write_chunk calloc io d = do {
     io \<leftarrow> mg_printf calloc io (ascii ''%lx'' @ [13, 10]) [Arg_word (word_of_nat (length d))];
     io \<leftarrow> mg_send calloc io d;
     mg_send calloc io [13, 10]
   }"

lemma vx_directive: "mg_vxprintf (37 # f) args =
  (case directive f args of None \<Rightarrow> None | Some (out, f', args') \<Rightarrow> map_option ((@) out) (mg_vxprintf f' args'))"
  by (subst mg_vxprintf.simps) simp

lemmas fmt_eval = directive_def scan_spec_def flag_char_def cur_def scan_prec_def scan_long_def print_number_def Let_def

lemma takeWhile_c_str: "0 \<notin> set s \<Longrightarrow> takeWhile (\<lambda>c. c \<noteq> 0) (s @ 0 # t) = (s :: bytes)"
  by (induction s) auto

lemma directive_lx [simp]: "directive (108 # 120 # f) (Arg_word v # args) = Some (digits 16 (unat v), f, args)"
  by (simp add: fmt_eval mg_lld_digits)

lemma sint_small: "v < 2 ^ 31 \<Longrightarrow> sint (word_of_nat v :: u32) = int v"
  by (simp add: signed_of_nat signed_take_bit_int_eq_self)

lemma int_arg_small:
  assumes "v < 2 ^ 31"
  shows "int_arg (word_of_nat v) = word_of_nat v"
proof -
  have "ucast (word_of_nat v :: u64) = (word_of_nat v :: u32)"
    by (rule bit_word_eqI) (simp add: bit_simps)
  then have "int_arg (word_of_nat v) = word_of_int (sint (word_of_nat v :: u32))"
    unfolding int_arg_def scast_eq by (simp only:)
  then show ?thesis using assms by (simp only: sint_small of_int_of_nat_eq)
qed

lemma directive_d [simp]:
  assumes "v < 2 ^ 31"
  shows "directive (100 # f) (Arg_word (word_of_nat v) # args) = Some (digits 10 v, f, args)"
proof -
  have "sint (word_of_nat v :: u64) = int v" "unat (word_of_nat v :: u64) = v"
    using assms by (simp_all add: signed_of_nat signed_take_bit_int_eq_self unat_of_nat)
  then show ?thesis by (simp add: fmt_eval mg_lld_digits int_arg_small [OF assms])
qed

lemma directive_10lu [simp]:
  "directive (45 # 49 # 48 # 108 # 117 # f) (Arg_word v # args) =
     Some (digits 10 (unat v) @ replicate (10 - length (digits 10 (unat v))) 32, f, args)"
  by (simp add: fmt_eval mg_lld_digits)

lemma directive_s [simp]:
  "0 \<notin> set s \<Longrightarrow> directive (115 # f) (Arg_str (Some (s @ 0 # t)) # args) = Some (s, f, args)"
  by (auto simp: fmt_eval print_string_def scpy_def takeWhile_c_str)

lemma directive_precision [simp]:
  assumes "0 \<notin> set s" "length s < 2 ^ 31"
  shows "directive (46 # 42 # 115 # f) (Arg_word (word_of_nat (length s)) # Arg_str (Some s) # args) = Some (s, f, args)"
proof -
  have "unat (int_arg (word_of_nat (length s))) = length s" using assms(2) by (simp add: int_arg_small [OF assms(2)] unat_of_nat)
  moreover have "length s \<noteq> NO_PREC" using assms(2) by (simp add: NO_PREC_def)
  ultimately show ?thesis using assms(1) by (auto simp: fmt_eval print_string_def scpy_def takeWhile_eq_all_conv)
qed

section \<open>What the chunks say\<close>

definition chunk_bytes :: "bytes \<Rightarrow> bytes" where
  "chunk_bytes d = digits 16 (length d) @ [13, 10] @ d @ [13, 10]"

lemma letters_hex: "d < 16 \<Longrightarrow> is_hex_digit (letters ! d)"
proof -
  assume "d < 16"
  then have "d \<in> {0, 1, 2, 3, 4, 5, 6, 7, 8, 9, 10, 11, 12, 13, 14, 15}" by simp presburger
  then show ?thesis by (elim insertE emptyE) (simp_all add: letters_def ascii_def is_hex_digit_def)
qed

lemma set_rev_digits: "c \<in> set (rev_digits base v) \<Longrightarrow> \<exists>d < base. c = letters ! d"
proof (induction base v rule: rev_digits.induct)
  case (1 base v)
  then have "\<not> (v = 0 \<or> base < 2)" by (auto simp: rev_digits.simps [of base v] split: if_splits)
  moreover from this have "c = letters ! (v mod base) \<or> c \<in> set (rev_digits base (v div base))"
    using 1(2) by (simp add: rev_digits.simps [of base v])
  moreover have "\<not> base < 2 \<Longrightarrow> v mod base < base" by simp
  ultimately show ?case using 1(1) by blast
qed

lemma hex_digit_simps [simp]: "is_hex_digit 48" "\<not> is_hex_digit 13"
  by (simp_all add: is_hex_digit_def)

lemma digits_hex: "c \<in> set (digits 16 v) \<Longrightarrow> is_hex_digit c"
  by (auto simp: digits_def dest!: set_rev_digits simp: letters_hex split: if_splits)

lemma digits_not_empty: "2 \<le> base \<Longrightarrow> digits base v \<noteq> []"
  by (subst digits_def) (auto simp: rev_digits.simps [of base v])

lemma length_digits_8: "v < 2 ^ 32 \<Longrightarrow> length (digits 16 v) \<le> 8"
  using length_rev_digits [of 16 v 8] by (simp add: digits_def)

lemma skip_chunk_chunk:
  assumes "length d < 2 ^ 31"
  shows "skip_chunk behind (chunk_bytes d @ rest) = Some (int (length (chunk_bytes d)), length (digits 16 (length d)) + 2, length d)"
proof -
  let ?n = "digits 16 (length d)"
  have tw: "takeWhile is_hex_digit (chunk_bytes d @ rest) = ?n"
    by (auto simp: chunk_bytes_def takeWhile_append digits_hex)
  have num: "mg_str_to_num ?n 16 4 = Some (length d)"
    using assms by (intro mg_str_to_num_digits) (simp_all add: num_max_def)
  have n: "?n \<noteq> []" "length ?n \<le> 8" using digits_not_empty length_digits_8 assms by simp_all
  have at: "(chunk_bytes d @ rest) ! length ?n = 13" "(chunk_bytes d @ rest) ! (length ?n + 1) = 10"
    "(chunk_bytes d @ rest) ! (length ?n + length d + 2) = 13" "(chunk_bytes d @ rest) ! (length ?n + length d + 3) = 10"
    "take (length ?n) (chunk_bytes d @ rest) = ?n" "length (chunk_bytes d) = length ?n + length d + 4"
    by (simp_all add: chunk_bytes_def nth_append)
  have sint: "sint (word_of_nat (length d) :: u32) = int (length d)" using assms by (rule sint_small)
  show ?thesis
    unfolding skip_chunk_def Let_def tw at(5)
    using n at by (simp add: num sint)
qed

lemma mg_http_write_chunk_appends:
  assumes "iobuf_ok io" "iolen io + length d + ioalign io + 30 < 2 ^ 60" "\<And>n. calloc n"
  shows "\<exists>io'. mg_http_write_chunk calloc io d = Some io' \<and> iobuf_ok io' \<and> content io' = content io @ chunk_bytes d"
proof -
  have "unat (word_of_nat (length d) :: u64) = length d" using assms(2) by (simp add: unat_of_nat)
  then have out: "mg_vxprintf (ascii ''%lx'' @ [13, 10]) [Arg_word (word_of_nat (length d))] = Some (digits 16 (length d) @ [13, 10])"
    by (simp add: ascii_def vx_directive)
  have len: "length (digits 16 (length d)) \<le> 20" using length_digits [of 16 "length d"] assms(2) by simp
  obtain io1 where 1: "mg_printf calloc io (ascii ''%lx'' @ [13, 10]) [Arg_word (word_of_nat (length d))] = Some io1" "iobuf_ok io1"
    "ioalign io1 = ioalign io" "content io1 = content io @ digits 16 (length d) @ [13, 10]"
    using mg_printf_appends [OF out assms(1), of calloc] len assms(2,3) by auto
  have "iolen io1 \<le> iolen io + 22" using length_content [OF 1(2)] length_content [OF assms(1)] 1(4) len by simp
  then obtain io2 where 2: "mg_send calloc io1 d = Some io2" "iobuf_ok io2" "ioalign io2 = ioalign io1" "content io2 = content io1 @ d"
    using iobuf_append [OF 1(2), of d calloc] assms(2,3) 1(3) by (auto simp: mg_send_def)
  have "iolen io2 \<le> iolen io + 22 + length d" using \<open>iolen io1 \<le> _\<close> length_content [OF 2(2)] length_content [OF 1(2)] 2(4) by simp
  then obtain io3 where "mg_send calloc io2 [13, 10] = Some io3" "iobuf_ok io3" "content io3 = content io2 @ [13, 10]"
    using iobuf_append [OF 2(2), of "[13, 10]" calloc] assms(2,3) 1(3) 2(3) by (auto simp: mg_send_def)
  with 1 2 show ?thesis by (simp add: mg_http_write_chunk_def chunk_bytes_def)
qed

definition chunked :: "bytes list \<Rightarrow> bytes" where
  "chunked ds = concat (map chunk_bytes ds) @ chunk_bytes []"

lemma last_chunk_chunked:
  assumes "\<forall>d \<in> set ds. d \<noteq> [] \<and> length d < 2 ^ 31"
  shows "last_chunk behind (chunked ds @ rest) = Some (int (length (chunk_bytes [])))"
  using assms
proof (induction ds)
  case Nil
  then show ?case using skip_chunk_chunk [of "[]" behind rest] by (subst last_chunk.simps) (simp add: chunked_def)
next
  case (Cons d ds)
  have "drop (length (chunk_bytes d)) (chunked (d # ds) @ rest) = chunked ds @ rest" by (simp add: chunked_def)
  moreover have "length (chunk_bytes d) > 0" by (simp add: chunk_bytes_def)
  ultimately show ?case using Cons skip_chunk_chunk [of d behind "chunked ds @ rest"]
    by (subst last_chunk.simps) (simp add: chunked_def)
qed

lemma strip_chunks_chunked:
  assumes "\<forall>d \<in> set ds. d \<noteq> [] \<and> length d < 2 ^ 31" "drop off s = chunked ds @ rest" "bl \<le> off"
  shows "\<exists>s'. strip_chunks behind s off bl = Some (s', off + length (chunked ds), bl + length (concat ds)) \<and> length s' = length s \<and>
    take (bl + length (concat ds)) s' = take bl s @ concat ds \<and> drop (off + length (chunked ds)) s' = rest"
  using assms
proof (induction ds arbitrary: s off bl)
  case Nil
  have "skip_chunk behind (drop off s) = Some (int (length (chunk_bytes [])), 3, 0)"
    using skip_chunk_chunk [of "[]" behind rest] Nil(2) by (simp add: chunked_def digits_def)
  moreover have "length (chunk_bytes []) > 0" by (simp add: chunk_bytes_def)
  moreover have "off \<le> length s" using Nil(2) by (cases "off \<le> length s") (simp_all add: chunked_def chunk_bytes_def)
  moreover have "drop (off + length (chunk_bytes [])) s = rest"
    using Nil(2) by (metis add.commute append_Nil append_eq_conv_conj chunked_def concat.simps(1) drop_drop list.map(1))
  ultimately show ?case using Nil(3)
    by (subst strip_chunks.simps) (simp add: chunked_def memcpy_into_def put_slice_def)
next
  case (Cons d ds)
  let ?p = "length (digits 16 (length d)) + 2" and ?c = "length (chunk_bytes d)"
  have all: "drop off s = chunk_bytes d @ chunked ds @ rest" using Cons.prems(2) by (simp add: chunked_def)
  have sk: "skip_chunk behind (drop off s) = Some (int ?c, ?p, length d)"
    using skip_chunk_chunk [of d behind "chunked ds @ rest"] Cons.prems(1) by (simp add: all)
  have c: "?c = ?p + length d + 2" "0 < ?c" by (simp_all add: chunk_bytes_def)
  have len: "length s = off + ?c + length (chunked ds @ rest)"
    using arg_cong [OF all, of length] c by simp
  have "slice s (off + ?p) (off + ?p + length d) = take (length d) (drop ?p (drop off s))"
    by (simp add: slice_def add.commute)
  also have "\<dots> = d" unfolding all by (simp add: chunk_bytes_def)
  finally have sl: "slice s (off + ?p) (off + ?p + length d) = d" .
  define s' where "s' = put_slice s bl d"
  have s': "memcpy_into s bl d = Some s'" "length s' = length s" "take (bl + length d) s' = take bl s @ d"
    "drop (off + ?c) s' = chunked ds @ rest"
  proof -
    show "memcpy_into s bl d = Some s'" "length s' = length s"
      using len c Cons.prems(3) by (simp_all add: memcpy_into_def s'_def length_put_slice)
    show "take (bl + length d) s' = take bl s @ d" using len c Cons.prems(3) by (simp add: s'_def put_slice_def)
    have "drop (off + ?c) s' = drop (off + ?c) s" using len c Cons.prems(3) by (simp add: s'_def put_slice_def eval_nat_numeral)
    also have "\<dots> = drop ?c (drop off s)" by (simp add: add.commute)
    finally show "drop (off + ?c) s' = chunked ds @ rest" by (simp add: all)
  qed
  obtain s2 where "strip_chunks behind s' (off + ?c) (bl + length d) =
      Some (s2, off + ?c + length (chunked ds), bl + length d + length (concat ds))" "length s2 = length s'"
    "take (bl + length d + length (concat ds)) s2 = take (bl + length d) s' @ concat ds" "drop (off + ?c + length (chunked ds)) s2 = rest"
    using Cons.IH [OF _ s'(4), of "bl + length d"] Cons.prems c by auto
  moreover have "strip_chunks behind s off bl = strip_chunks behind s' (off + ?c) (bl + length d)"
    using Cons.prems(1) c(2) by (subst strip_chunks.simps) (simp only: sk sl s'(1) option.case prod.case nat_int of_nat_0_less_iff if_True
      length_0_conv list.set_intros if_False ball_simps simp_thms)
  moreover have "length (chunked (d # ds)) = ?c + length (chunked ds)" by (simp add: chunked_def)
  ultimately show ?case using s'(2,3) by (simp add: add.assoc)
qed

section \<open>Replies carry their length\<close>

lemma scan_digits_num_loop: "scan_digits r n s = num_loop 10 SIZE_MAX r n s"
  by (induction s arbitrary: r n) (auto simp: Let_def base_digit_def word_le_nat_alt)

lemma digits_blank: "c \<in> set (digits 10 v) \<Longrightarrow> \<not> is_blank c \<and> c \<noteq> 45"
proof -
  have "\<not> is_blank (letters ! d) \<and> letters ! d \<noteq> 45" if "d < 10" for d
  proof -
    have "d \<in> {0, 1, 2, 3, 4, 5, 6, 7, 8, 9}" using that by simp presburger
    then show ?thesis by (elim insertE emptyE) (simp_all add: letters_def ascii_def is_blank_def)
  qed
  then have "c \<in> set (rev_digits 10 v) \<Longrightarrow> \<not> is_blank c \<and> c \<noteq> 45" by (auto dest!: set_rev_digits)
  then show "c \<in> set (digits 10 v) \<Longrightarrow> \<not> is_blank c \<and> c \<noteq> 45"
    by (auto simp: digits_def is_blank_def split: if_splits)
qed

lemma mg_to_size_t_digits:
  assumes "v \<le> SIZE_MAX"
  shows "mg_to_size_t (digits 10 v @ replicate k 32) = Some v"
proof -
  have ne: "digits 10 v \<noteq> []" by (simp add: digits_not_empty)
  then have hd: "\<not> is_blank (hd (digits 10 v))" "hd (digits 10 v) \<noteq> 45" using digits_blank by (meson hd_in_set)+
  have dw: "dropWhile is_blank (digits 10 v @ replicate k 32) = digits 10 v @ replicate k 32"
    using ne hd(1) by (cases "digits 10 v") auto
  have blank_32: "is_blank 32" by (simp add: is_blank_def)
  have stop: "num_loop 10 SIZE_MAX r n (replicate k 32) = Some (r, n, replicate k 32)" for r n
    by (cases k) (simp_all add: base_digit_def)
  obtain n where "0 < n" "num_loop 10 SIZE_MAX 0 0 (digits 10 v @ replicate k 32) = Some (v, n, replicate k 32)"
  proof (cases "v = 0")
    case True
    then show thesis using that [of 1] by (simp add: digits_def base_digit_def stop)
  next
    case False
    have "rev_digits 10 v \<noteq> []" using False by (subst rev_digits.simps) auto
    then show thesis
      using that [of "length (rev_digits 10 v)"] num_loop_digits [of 10 v SIZE_MAX 0 "replicate k 32"] assms False stop
      by (simp add: digits_def)
  qed
  then show ?thesis using ne hd(2) by (simp only: mg_to_size_t_def Let_def dw scan_digits_num_loop) (simp add: blank_32)
qed

lemma vx_reply_head:
  assumes "code < 2 ^ 31" "0 \<notin> set (ascii reason)" "0 \<notin> set (ascii headers)"
  shows "mg_vxprintf reply_head [Arg_word (word_of_nat code), c_str reason, c_str headers] =
    Some (ascii ''HTTP/1.1 '' @ digits 10 code @ [32] @ ascii reason @ [13, 10] @ ascii headers @ ascii ''Content-Length: '' @
      ascii ''           '' @ [13, 10, 13, 10])"
proof -
  have "mg_vxprintf reply_head [Arg_word (word_of_nat code), Arg_str (Some (r @ [0])), Arg_str (Some (h @ [0]))] =
    Some (ascii ''HTTP/1.1 '' @ digits 10 code @ [32] @ r @ [13, 10] @ h @ ascii ''Content-Length: '' @ ascii ''           '' @ [13, 10, 13, 10])"
    if "0 \<notin> set r" "0 \<notin> set h" for r h :: bytes
    using that assms(1) by (simp add: reply_head_def ascii_def vx_directive)
  then show ?thesis using assms(2,3) by (simp add: c_str_def)
qed

lemma reason_no_zero: "0 \<notin> set (ascii (mg_http_status_code_str code))"
proof -
  have all: "\<forall>(c, s) \<in> set status_codes. 0 \<notin> set (ascii s)" by (simp add: status_codes_def ascii_def)
  show ?thesis
  proof (cases "map_of status_codes code")
    case (Some s)
    then show ?thesis using all map_of_SomeD [OF Some] by (auto simp: mg_http_status_code_str_def)
  qed (simp add: mg_http_status_code_str_def ascii_def)
qed

text \<open>The number written into its place: the window of eleven bytes, and the zero that becomes a space.\<close>

lemma patch_length:
  assumes "length W = 11" "v < 10 ^ 10"
  shows "mg_snprintf (slice (P @ W @ Q) (length P) (length P + 11)) (ascii ''%-10lu'') [Arg_word (word_of_nat v)] =
      Some (digits 10 v @ replicate (10 - length (digits 10 v)) 32 @ [0], 10) \<and>
    memcpy_into (P @ W @ Q) (length P) (digits 10 v @ replicate (10 - length (digits 10 v)) 32 @ [0]) =
      Some (P @ (digits 10 v @ replicate (10 - length (digits 10 v)) 32 @ [0]) @ Q) \<and>
    (P @ (digits 10 v @ replicate (10 - length (digits 10 v)) 32 @ [0]) @ Q)[length P + 10 := 32] =
      P @ (digits 10 v @ replicate (11 - length (digits 10 v)) 32) @ Q"
proof -
  let ?d = "digits 10 v @ replicate (10 - length (digits 10 v)) 32"
  have d: "length (digits 10 v) \<le> 10" using length_rev_digits [of 10 v 10] assms(2) by (simp add: digits_def)
  then have ten: "length ?d = 10" by simp
  have "v < 2 ^ 64" using assms(2) by simp
  then have "unat (word_of_nat v :: u64) = v" by (simp add: unat_of_nat)
  then have out: "mg_vxprintf (ascii ''%-10lu'') [Arg_word (word_of_nat v)] = Some ?d" by (simp add: ascii_def vx_directive)
  have win: "slice (P @ W @ Q) (length P) (length P + 11) = W" using assms(1) by (simp add: slice_def)
  have "length (drop (length ?d + 1) W) = 0" using ten assms(1) by simp
  then have "mg_snprintf W (ascii ''%-10lu'') [Arg_word (word_of_nat v)] = Some (?d @ [0], 10)"
    using mg_snprintf_fits [OF out, of W] ten assms(1) by simp
  moreover have "memcpy_into (P @ W @ Q) (length P) (?d @ [0]) = Some (P @ (?d @ [0]) @ Q)"
    using ten assms(1) by (simp add: memcpy_into_def put_slice_def)
  moreover have "(P @ (?d @ [0]) @ Q)[length P + 10 := 32] = P @ (digits 10 v @ replicate (11 - length (digits 10 v)) 32) @ Q"
  proof -
    have "(P @ (?d @ [0]) @ Q)[length P + 10 := 32] = P @ (?d @ [32]) @ Q" using ten by (simp add: list_update_append)
    moreover have "replicate (11 - length (digits 10 v)) (32 :: u8) = replicate (10 - length (digits 10 v)) 32 @ [32]"
      using d by (simp add: replicate_append_same flip: replicate_Suc add: Suc_diff_le)
    ultimately show ?thesis by simp
  qed
  ultimately show ?thesis using win by simp
qed

definition length_field :: "nat \<Rightarrow> bytes" where
  "length_field n = digits 10 n @ replicate (11 - length (digits 10 n)) 32"

definition reply_start :: "nat \<Rightarrow> string \<Rightarrow> bytes" where
  "reply_start code headers =
     ascii ''HTTP/1.1 '' @ digits 10 code @ [32] @ ascii (mg_http_status_code_str code) @ [13, 10] @ ascii headers @ ascii ''Content-Length: ''"

definition reply_bytes :: "nat \<Rightarrow> string \<Rightarrow> bytes \<Rightarrow> bytes" where
  "reply_bytes code headers body = reply_start code headers @ length_field (length body) @ [13, 10, 13, 10] @ body"

lemma length_reason: "length (mg_http_status_code_str code) \<le> 40"
proof -
  have all: "\<forall>(c, s) \<in> set status_codes. length s \<le> 40" by (simp add: status_codes_def)
  show ?thesis
  proof (cases "map_of status_codes code")
    case (Some s)
    then show ?thesis using all map_of_SomeD [OF Some] by (auto simp: mg_http_status_code_str_def)
  qed (simp add: mg_http_status_code_str_def)
qed

lemma mg_http_reply_appends:
  assumes "iobuf_ok io" "\<And>n. calloc n" "mg_vxprintf f args = Some body" "code < 2 ^ 31" "0 \<notin> set (ascii headers)"
    "length body < 10 ^ 10" "iolen io + length headers + length body + ioalign io + 200 < 2 ^ 60"
  shows "\<exists>io'. mg_http_reply calloc io code headers f args = Some io' \<and> iobuf_ok io' \<and> ioalign io' = ioalign io \<and>
    content io' = content io @ reply_bytes code headers body"
proof -
  let ?A = "reply_start code headers" and ?W = "ascii ''           ''"
  let ?args = "[Arg_word (word_of_nat code), c_str (mg_http_status_code_str code), c_str headers]"
  let ?E = "[13, 10, 13, 10]"
  have head: "mg_vxprintf reply_head ?args = Some (?A @ ?W @ ?E)"
    using vx_reply_head [OF assms(4) reason_no_zero assms(5)] by (simp add: reply_start_def)
  have lA: "25 < length ?A" "length ?A \<le> length headers + 100"
    using length_reason [of code] length_digits [of 10 code] assms(4) digits_not_empty [of 10 code]
    by (cases "digits 10 code"; simp add: reply_start_def)+
  obtain io1 where 1: "mg_printf calloc io reply_head ?args = Some io1" "iobuf_ok io1" "ioalign io1 = ioalign io"
    "content io1 = content io @ ?A @ ?W @ ?E"
    using mg_printf_appends [OF head assms(1), of calloc] lA assms(2,7) by auto
  have n: "iolen io1 = iolen io + length ?A + 15"
    using length_content [OF 1(2)] length_content [OF assms(1)] 1(4) by simp
  obtain io2 where 2: "mg_printf calloc io1 f args = Some io2" "iobuf_ok io2" "ioalign io2 = ioalign io" "content io2 = content io1 @ body"
    using mg_printf_appends [OF assms(3) 1(2), of calloc] lA assms(2,7) 1(3) n by auto
  have n2: "iolen io2 = iolen io1 + length body"
    using length_content [OF 2(2)] length_content [OF 1(2)] 2(4) by simp
  define P where "P = content io @ ?A"
  define Q where "Q = ?E @ body @ drop (iolen io2) (iobuf io2)"
  have b: "iobuf io2 = P @ ?W @ Q"
  proof -
    have "iobuf io2 = content io2 @ drop (iolen io2) (iobuf io2)" by (simp add: content_def)
    then show ?thesis using 1(4) 2(4) by (simp add: P_def Q_def)
  qed
  have lP: "iolen io1 - 15 = length P" "iolen io1 - 4 = length P + 11"
    using n length_content [OF assms(1)] by (simp_all add: P_def)
  have body: "iolen io2 - iolen io1 = length body" "16 < iolen io2" using n2 n lA by simp_all
  let ?F = "length_field (length body)"
  have lF: "length ?F = 11" using length_rev_digits [of 10 "length body" 10] assms(6) by (simp add: length_field_def digits_def)
  have rep: "mg_http_reply calloc io code headers f args = Some (io2\<lparr>iobuf := P @ ?F @ Q\<rparr>)"
    using patch_length [of ?W "length body" P Q] assms(6)
    by (simp add: mg_http_reply_def 1(1) 2(1) Let_def body lP b length_field_def)
  have "content (io2\<lparr>iobuf := P @ ?F @ Q\<rparr>) = content io @ reply_bytes code headers body"
  proof -
    have e: "P @ ?F @ Q = (P @ ?F @ ?E @ body) @ drop (iolen io2) (iobuf io2)" by (simp add: Q_def)
    have l: "iolen io2 = length (P @ ?F @ ?E @ body)" using lF n2 n length_content [OF assms(1)] by (simp add: P_def)
    have "take (length xs) (xs @ ys) = xs" for xs ys :: bytes by simp
    then have "take (iolen io2) (P @ ?F @ Q) = P @ ?F @ ?E @ body" unfolding e l by blast
    then show ?thesis by (simp add: content_def P_def reply_bytes_def)
  qed
  moreover have "iobuf_ok (io2\<lparr>iobuf := P @ ?F @ Q\<rparr>)"
    using 2(2) lF b by (simp add: iobuf_ok_def iosize_def)
  ultimately show ?thesis using rep 2(3) by simp
qed

text \<open>
  C19. A reply is appended to the send buffer as status line with the reason of the code, headers, the length
  of the body and the body, whatever the format of the body prints; the length that is written over the
  spaces afterwards is read back by \<open>mg_to_size_t\<close>, which the parser of messages uses, as the length of the body.
\<close>

theorem http_reply_carries_length:
  assumes "iobuf_ok io" "\<And>n. calloc n" "mg_vxprintf f args = Some body" "code < 2 ^ 31" "0 \<notin> set (ascii headers)"
    "length body < 10 ^ 10" "iolen io + length headers + length body + ioalign io + 200 < 2 ^ 60"
  shows "\<exists>io' field. mg_http_reply calloc io code headers f args = Some io' \<and> iobuf_ok io' \<and>
    content io' = content io @ ascii ''HTTP/1.1 '' @ digits 10 code @ [32] @ ascii (mg_http_status_code_str code) @ [13, 10] @
      ascii headers @ ascii ''Content-Length: '' @ field @ [13, 10, 13, 10] @ body \<and>
    mg_to_size_t field = Some (length body)"
proof -
  have "length body \<le> SIZE_MAX" using assms(6) by (simp add: SIZE_MAX_def)
  then have "mg_to_size_t (length_field (length body)) = Some (length body)"
    by (simp add: length_field_def mg_to_size_t_digits)
  then show ?thesis
    using mg_http_reply_appends [where calloc = calloc, OF assms] by (auto simp: reply_bytes_def reply_start_def)
qed

theorem http_reply_carries_length_witness:
  "\<exists>io' field. mg_http_reply (\<lambda>n. True) \<lparr>iobuf = [7, 0, 0], iolen = 1, ioalign = 0\<rparr> 404 '''' (ascii ''not found'') [] = Some io' \<and>
    iobuf_ok io' \<and> content io' = [7] @ ascii ''HTTP/1.1 '' @ ascii ''404'' @ [32] @ ascii ''Not Found'' @ [13, 10] @
      ascii '''' @ ascii ''Content-Length: '' @ field @ [13, 10, 13, 10] @ ascii ''not found'' \<and>
    mg_to_size_t field = Some (length (ascii ''not found''))"
proof -
  have "mg_vxprintf (ascii ''not found'') [] = Some (ascii ''not found'')" by (simp add: ascii_def)
  moreover have "digits 10 404 = ascii ''404''" by (simp add: digits_def rev_digits.simps letters_def ascii_def)
  moreover have "mg_http_status_code_str 404 = ''Not Found''" by (simp add: mg_http_status_code_str_def status_codes_def)
  ultimately show ?thesis
    using http_reply_carries_length [of "\<lparr>iobuf = [7, 0, 0], iolen = 1, ioalign = 0\<rparr>" "\<lambda>n. True" "ascii ''not found''" "[]"
      "ascii ''not found''" 404 "''''"] by (simp add: iobuf_ok_def iosize_def content_def ascii_def [of "[]"])
qed

text \<open>
  C20. A body written chunk by chunk with \<open>mg_http_write_chunk\<close>, the last one empty, is recognised as complete
  and put together again in place by the two passes of \<open>http_cb\<close>: the first bytes are the data of the chunks,
  joined, and the bytes behind the last chunk stay where they are.
\<close>

theorem chunks_joined:
  assumes "\<forall>d \<in> set ds. d \<noteq> [] \<and> length d < 2 ^ 31"
  shows "(\<exists>cl. last_chunk behind (chunked ds @ rest) = Some cl \<and> 0 < cl) \<and>
    (\<exists>s'. strip_chunks behind (chunked ds @ rest) 0 0 = Some (s', length (chunked ds), length (concat ds)) \<and>
      take (length (concat ds)) s' = concat ds \<and> drop (length (chunked ds)) s' = rest) \<and>
    (iobuf_ok io \<and> iolen io + length d + ioalign io + 30 < 2 ^ 60 \<longrightarrow>
      (\<exists>io'. mg_http_write_chunk (\<lambda>n. True) io d = Some io' \<and> content io' = content io @ chunk_bytes d))"
proof (intro conjI)
  have "0 < length (chunk_bytes [])" by (simp add: chunk_bytes_def)
  then show "\<exists>cl. last_chunk behind (chunked ds @ rest) = Some cl \<and> 0 < cl" using last_chunk_chunked [OF assms] by auto
  show "\<exists>s'. strip_chunks behind (chunked ds @ rest) 0 0 = Some (s', length (chunked ds), length (concat ds)) \<and>
      take (length (concat ds)) s' = concat ds \<and> drop (length (chunked ds)) s' = rest"
    using strip_chunks_chunked [OF assms, of 0 "chunked ds @ rest" rest 0 behind] by auto
  show "iobuf_ok io \<and> iolen io + length d + ioalign io + 30 < 2 ^ 60 \<longrightarrow>
      (\<exists>io'. mg_http_write_chunk (\<lambda>n. True) io d = Some io' \<and> content io' = content io @ chunk_bytes d)"
    using mg_http_write_chunk_appends [of io d "\<lambda>n. True"] by blast
qed

theorem chunks_joined_witness:
  "(\<exists>s'. strip_chunks None (ascii ''2'' @ [13, 10, 65, 66, 13, 10] @ ascii ''1'' @ [13, 10, 67, 13, 10] @ ascii ''0'' @ [13, 10, 13, 10]) 0 0 =
      Some (s', 18, 3) \<and> take 3 s' = [65, 66, 67]) \<and>
   (\<exists>io'. mg_http_write_chunk (\<lambda>n. True) \<lparr>iobuf = [], iolen = 0, ioalign = 0\<rparr> [67] = Some io' \<and>
      content io' = ascii ''1'' @ [13, 10, 67, 13, 10])"
proof -
  have d: "digits 16 (Suc (Suc 0)) = ascii ''2''" "digits 16 (Suc 0) = ascii ''1''" "digits 16 0 = ascii ''0''"
    by (simp_all add: digits_def rev_digits.simps letters_def ascii_def)
  let ?s = "ascii ''2'' @ [13, 10, 65, 66, 13, 10] @ ascii ''1'' @ [13, 10, 67, 13, 10] @ ascii ''0'' @ [13, 10, 13, 10]"
  have c: "chunked [[65, 66], [67]] = ?s" using d by (simp add: chunked_def chunk_bytes_def)
  have ok: "\<forall>d \<in> set [[65, 66], [67 :: u8]]. d \<noteq> [] \<and> length d < 2 ^ 31" by simp
  note all = chunks_joined [OF ok, of None "[]" "\<lparr>iobuf = [], iolen = 0, ioalign = 0\<rparr>" "[67]", unfolded append_Nil2 c]
  have "length ?s = 18" "concat [[65, 66], [67]] = [65, 66, 67 :: u8]" "length [65, 66, 67 :: u8] = 3" by simp_all
  then have "\<exists>s'. strip_chunks None ?s 0 0 = Some (s', 18, 3) \<and> take 3 s' = [65, 66, 67]" using all by metis
  moreover have "chunk_bytes [67] = ascii ''1'' @ [13, 10, 67, 13, 10]" using d by (simp add: chunk_bytes_def)
  moreover have "iobuf_ok \<lparr>iobuf = [], iolen = 0, ioalign = 0\<rparr>" "content \<lparr>iobuf = [], iolen = 0, ioalign = 0\<rparr> = []"
    by (simp_all add: iobuf_ok_def iosize_def content_def)
  ultimately show ?thesis using all by simp
qed

text \<open>
  A chunk whose length has three digits or more is refused when just the digits have arrived, and then
  the connection is closed with an error, although the same bytes with what follows are a correct chunk. When
  the line feed of the length is the next byte to come, the code reads the byte behind the received ones,
  which is outside of the buffer if that is full.
\<close>

theorem cut_chunk_refused:
  assumes "256 \<le> length d" "length d < 2 ^ 31"
  shows "skip_chunk behind (digits 16 (length d)) = Some (-1, 0, 0) \<and>
    skip_chunk None (digits 16 (length d) @ [13]) = None \<and>
    (\<exists>cl pl. skip_chunk behind (chunk_bytes d) = Some (cl, pl, length d) \<and> 0 < cl)"
proof -
  let ?n = "digits 16 (length d)"
  have step: "rev_digits 16 v = letters ! (v mod 16) # rev_digits 16 (v div 16)" if "v \<noteq> 0" for v
    using that by (subst rev_digits.simps) simp
  have "length d \<noteq> 0" "length d div 16 \<noteq> 0" "length d div 16 div 16 \<noteq> 0" using assms(1) by auto
  from this [THEN step] have "length (rev_digits 16 (length d)) = 3 + length (rev_digits 16 (length d div 16 div 16 div 16))"
    by (metis length_Cons numeral_3_eq_3 plus_nat.simps)
  then have three: "3 \<le> length ?n" using \<open>length d \<noteq> 0\<close> by (simp add: digits_def)
  have eight: "length ?n \<le> 8" using length_digits_8 assms(2) by simp
  have tw: "takeWhile is_hex_digit ?n = ?n" "takeWhile is_hex_digit (?n @ [13]) = ?n"
    by (auto simp: takeWhile_append digits_hex takeWhile_eq_all_conv)
  have "skip_chunk behind ?n = Some (-1, 0, 0)" using three eight by (auto simp: skip_chunk_def Let_def tw)
  moreover have "skip_chunk None (?n @ [13]) = None" using three eight by (auto simp: skip_chunk_def Let_def tw)
  moreover have "0 < length (chunk_bytes d)" by (simp add: chunk_bytes_def)
  ultimately show ?thesis using skip_chunk_chunk [OF assms(2), of behind "[]"] by simp
qed

theorem cut_chunk_refused_witness:
  "skip_chunk (Some 0) (ascii ''100'') = Some (-1, 0, 0) \<and> skip_chunk None (ascii ''100'' @ [13]) = None \<and>
   (\<exists>cl pl. skip_chunk (Some 0) (chunk_bytes (replicate 256 7)) = Some (cl, pl, 256) \<and> 0 < cl)"
proof -
  have "digits 16 256 = ascii ''100''" by (simp add: digits_def rev_digits.simps letters_def ascii_def)
  then show ?thesis using cut_chunk_refused [of "replicate 256 7" "Some 0"] by simp
qed

end
