(* ===== verification/HttpConn.thy ===== *)
theory HttpConn
  imports Prelude Iobuf Fmt Http HttpReply WsConn
begin

unbundle bit_operations_syntax

text \<open>
  HTTP connections of mongoose (\<open>externals/mongoose/src/http.c\<close>, \<open>event.c\<close>): \<open>http_cb\<close> cuts the received bytes into
  messages and hands them to the user's handler. The handler is an argument of the definitions, as \<open>c->fn\<close> is
  of the code; the locale \<open>http_handler\<close> says what the callback relies on.
\<close>

section \<open>The callback of HTTP connections\<close>

text \<open>
  A connection, as far as HTTP and WebSocket use it; records that extend it add what the user keeps in
  \<open>c->data\<close>. \<open>recv_data\<close> is what is received and not yet consumed (what \<open>Iobuf\<close> refines).
\<close>

datatype protocol_fn = Http_cb | Mg_ws_cb

record mg_connection =
  conn_fd :: int
  recv_data :: bytes
  send_buf :: mg_iobuf
  pfn :: protocol_fn
  pfn_data :: nat
  c_accepted :: bool
  c_websocket :: bool
  c_draining :: bool
  c_closing :: bool
  c_resp :: bool
  c_freed :: bool

datatype conn_event = EV_ERROR | EV_POLL | EV_READ | EV_WRITE | EV_CLOSE | EV_HTTP_HDRS mg_http_message | EV_HTTP_MSG mg_http_message
  | EV_WS_OPEN mg_http_message | EV_WS_MSG ws_message | EV_WS_CTL ws_message

type_synonym ('p, 'c) handler = "'p \<Rightarrow> 'c mg_connection_scheme \<Rightarrow> conn_event \<Rightarrow> ('p \<times> 'c mg_connection_scheme) option"

text \<open>\<open>atoi\<close> on a token, without its overflow.\<close>

definition atoi :: "bytes \<Rightarrow> int" where
  "atoi s =
     (let neg = (s \<noteq> [] \<and> hd s = 45); ds = (if s \<noteq> [] \<and> (hd s = 45 \<or> hd s = 43) then tl s else s);
          v = foldl (\<lambda>v c. v * 10 + int (unat (c - 48))) 0 (takeWhile (\<lambda>c. 48 \<le> c \<and> c \<le> 57) ds)
      in if neg then - v else v)"

definition mg_http_status :: "mg_http_message \<Rightarrow> int" where
  "mg_http_status hm = atoi (hm_uri hm)"

text \<open>\<open>mg_error\<close>: the handler is told after the flag is set.\<close>

definition mg_error :: "('p, 'c) handler \<Rightarrow> ('p, 'c) handler" where
  "mg_error fn p c ev = fn p (c\<lparr>c_closing := True\<rparr>) EV_ERROR"

text \<open>The check for a length in messages that must have one; such a message is answered at once.\<close>

definition require_content_len :: "bytes \<Rightarrow> mg_http_message \<Rightarrow> bool option" where
  "require_content_len buf hm = do {
     d \<leftarrow> mg_ncasecmp buf (ascii ''HTTP/'') 5;
     let is_response = (d = 0);
     Some (if \<not> is_response \<and> (mg_strcasecmp (hm_method hm) (ascii ''POST'') = 0 \<or> mg_strcasecmp (hm_method hm) (ascii ''PUT'') = 0) then True
       else if is_response then mg_http_status hm \<ge> 200 \<and> mg_http_status hm \<noteq> 204 \<and> mg_http_status hm \<noteq> 304
       else False)
   }"

definition check_content_len :: "(nat \<Rightarrow> bool) \<Rightarrow> bytes \<Rightarrow> mg_http_message \<Rightarrow> 'c mg_connection_scheme \<Rightarrow> 'c mg_connection_scheme option" where
  "check_content_len calloc buf hm c =
     (if mg_http_get_header (hm_headers hm) ''Transfer-Encoding'' = None \<and> mg_http_get_header (hm_headers hm) ''Content-length'' = None
      then do {
        need \<leftarrow> require_content_len buf hm;
        if need then map_option (\<lambda>io. c\<lparr>send_buf := io, c_resp := False\<rparr>) (mg_http_reply calloc (send_buf c) 411 '''' [] [])
        else Some c
      } else Some c)"

text \<open>How a round of the loop ends: \<open>return\<close>, \<open>break\<close>, or the next round at a new offset.\<close>

datatype 's round = Return 's | Break 's nat | Next 's nat

definition http_finish :: "('p, 'c) handler \<Rightarrow> 'p \<Rightarrow> 'c mg_connection_scheme \<Rightarrow> mg_http_message \<Rightarrow> nat \<Rightarrow> ('p \<times> 'c mg_connection_scheme) round option" where
  "http_finish fn p c hm ofs = do {
     let c = (if c_accepted c then c\<lparr>c_resp := True\<rparr> else c);
     s \<leftarrow> fn p c (EV_HTTP_MSG hm);
     Some (Next s ofs)
   }"

definition http_message :: "(nat \<Rightarrow> bool) \<Rightarrow> ('p, 'c) handler \<Rightarrow> u8 option \<Rightarrow> bool \<Rightarrow> 'p \<Rightarrow> 'c mg_connection_scheme \<Rightarrow> nat \<Rightarrow>
    ('p \<times> 'c mg_connection_scheme) round option" where
  "http_message calloc fn behind is_close p c ofs = do {
     let buf = drop ofs (recv_data c);
     (n, hm) \<leftarrow> mg_http_parse buf;
     if n < 0 then Some (Return (p, c\<lparr>c_draining := True, recv_data := []\<rparr>))
     else if n = 0 then Some (Break (p, c) ofs)
     else do {
       (p, c) \<leftarrow> fn p c (EV_HTTP_HDRS hm);
       let n = nat n;
       let hm = (if is_close then hm\<lparr>message_len := length (recv_data c) - ofs, body_len := length (recv_data c) - ofs - n\<rparr> else hm);
       let te = mg_http_get_header (hm_headers hm) ''Transfer-Encoding'';
       if te \<noteq> None \<and> mg_strcasecmp (the te) (ascii ''chunked'') \<noteq> 0 then map_option Return (mg_error fn p c EV_ERROR)
       else do {
         c \<leftarrow> check_content_len calloc buf hm c;
         if te \<noteq> None then do {
           let s = drop (ofs + n) (recv_data c);
           cl \<leftarrow> last_chunk behind s;
           if cl = 0 then Some (Break (p, c) ofs)
           else if cl < 0 then map_option (\<lambda>s. Break s ofs) (mg_error fn p c EV_ERROR)
           else do {
             (s', off, bl) \<leftarrow> strip_chunks behind s 0 0;
             http_finish fn p (c\<lparr>recv_data := take (ofs + n) (recv_data c) @ s'\<rparr>) (hm\<lparr>body_len := bl, message_len := n + bl\<rparr>) (ofs + n + off)
           }
         }
         else if body_len hm > length (recv_data c) - ofs - n then Some (Break (p, c) ofs)
         else http_finish fn p c hm (ofs + n + body_len hm)
       }
     }
   }"

definition http_consume :: "nat \<Rightarrow> 'p \<times> 'c mg_connection_scheme \<Rightarrow> 'p \<times> 'c mg_connection_scheme" where
  "http_consume ofs s = (fst s, (snd s)\<lparr>recv_data := drop ofs (recv_data (snd s))\<rparr>)"

partial_function (option) http_loop :: "(nat \<Rightarrow> bool) \<Rightarrow> ('p, 'c) handler \<Rightarrow> u8 option \<Rightarrow> bool \<Rightarrow> 'p \<times> 'c mg_connection_scheme \<Rightarrow> nat \<Rightarrow>
    ('p \<times> 'c mg_connection_scheme) option" where
  "http_loop calloc fn behind is_close s ofs =
     (if \<not> c_resp (snd s) \<and> ofs < length (recv_data (snd s)) then
        Option.bind (http_message calloc fn behind is_close (fst s) (snd s) ofs) (\<lambda>r. case r of
            Return s' \<Rightarrow> Some s'
          | Break s' ofs' \<Rightarrow> Some (http_consume ofs' s')
          | Next s' ofs' \<Rightarrow> http_loop calloc fn behind is_close s' ofs')
      else Some (http_consume ofs s))"

definition http_cb :: "(nat \<Rightarrow> bool) \<Rightarrow> ('p, 'c) handler \<Rightarrow> u8 option \<Rightarrow> ('p, 'c) handler" where
  "http_cb calloc fn behind p c ev =
     (if ev = EV_READ \<or> ev = EV_CLOSE then http_loop calloc fn behind (ev = EV_CLOSE) (p, c) 0 else Some (p, c))"


section \<open>What the callback relies on, and what it does\<close>

text \<open>
  The user's handler leaves the receive buffer alone and ignores the events that tell of headers and errors.
\<close>

locale http_handler =
  fixes fn :: "('p, 'c) handler"
  assumes keeps_recv: "fn p c (EV_HTTP_MSG m) = Some (p', c') \<Longrightarrow> recv_data c' = recv_data c"
    and ignores: "fn p c (EV_HTTP_HDRS hm) = Some (p, c)" "fn p c EV_ERROR = Some (p, c)"

definition plain_request :: "bytes \<Rightarrow> bytes \<Rightarrow> bytes \<Rightarrow> (bytes \<times> bytes) list \<Rightarrow> bool" where
  "plain_request meth uri proto hs \<longleftrightarrow> request_ok meth uri proto hs \<and>
     mg_http_get_header hs ''Content-Length'' = None \<and> mg_http_get_header hs ''Transfer-Encoding'' = None"

definition request_message :: "bytes \<Rightarrow> bytes \<Rightarrow> bytes \<Rightarrow> (bytes \<times> bytes) list \<Rightarrow> mg_http_message" where
  "request_message meth uri proto hs =
     \<lparr>hm_method = meth, hm_uri = fst (split_query uri), hm_query = snd (split_query uri), hm_proto = proto, hm_headers = hs,
      body_len = (if has_body meth then SIZE_MAX else 0),
      message_len = (if has_body meth then SIZE_MAX else length (render_request meth uri proto hs)),
      head_len = length (render_request meth uri proto hs)\<rparr>"

lemma request_message_simps [simp]:
  "hm_headers (request_message meth uri proto hs) = hs" "hm_method (request_message meth uri proto hs) = meth"
  "hm_uri (request_message meth uri proto hs) = fst (split_query uri)"
  "body_len (request_message meth uri proto hs) = (if has_body meth then SIZE_MAX else 0)"
  by (simp_all add: request_message_def)

lemma mg_ncasecmp_cong: "map mg_tolc t = map mg_tolc t' \<Longrightarrow> mg_ncasecmp s t n = mg_ncasecmp s t' n"
proof (induction s t n arbitrary: t' rule: mg_ncasecmp.induct)
  case (2 c s1 d s2 n)
  then show ?case by (cases t') (auto simp: Let_def)
qed auto

lemma get_header_case:
  "map mg_tolc (ascii name) = map mg_tolc (ascii name') \<Longrightarrow> mg_http_get_header hs name = mg_http_get_header hs name'"
proof -
  assume e: "map mg_tolc (ascii name) = map mg_tolc (ascii name')"
  then have "length name = length name'" by (metis length_ascii length_map)
  with mg_ncasecmp_cong [OF e] show ?thesis by (simp add: mg_http_get_header_def)
qed

lemma content_length_case: "mg_http_get_header hs ''Content-length'' = mg_http_get_header hs ''Content-Length''"
  by (rule get_header_case) (simp add: ascii_def mg_tolc_def word_le_def)

lemma mg_http_parse_request:
  assumes "plain_request meth uri proto hs" "has_body meth \<Longrightarrow> length (render_request meth uri proto hs) \<le> SIZE_MAX"
  shows "mg_http_parse (render_request meth uri proto hs @ rest) =
    Some (int (length (render_request meth uri proto hs)), request_message meth uri proto hs)"
  using mg_http_parse_any [of meth uri proto hs rest] assms
  by (simp add: plain_request_def request_message_def)

lemma request_not_response:
  assumes "request_ok meth uri proto hs"
  shows "\<exists>d. mg_ncasecmp (render_request meth uri proto hs @ rest) (ascii ''HTTP/'') 5 = Some d \<and> d \<noteq> 0"
proof -
  have m: "\<forall>c \<in> set meth. c \<noteq> 47 \<and> c \<noteq> 0" using assms by (auto simp: request_ok_def token_char_def)
  have http: "ascii ''HTTP/'' \<noteq> []" "last (ascii ''HTTP/'') = 47" "32 \<notin> set (ascii ''HTTP/'')" "length (ascii ''HTTP/'') = 5"
    by (simp_all add: ascii_def)
  have e: "render_request meth uri proto hs @ rest = meth @ 32 # uri @ [32] @ proto @ [13, 10] @ concat (map header_line hs) @ [13, 10] @ rest"
    by (simp add: render_request_def)
  show ?thesis using not_response [OF http(1-3) m] unfolding http(4) e by blast
qed

lemma check_content_len_request:
  assumes "plain_request meth uri proto hs" and c: "drop ofs (recv_data c) = render_request meth uri proto hs @ rest"
  shows "check_content_len calloc (drop ofs (recv_data c)) (request_message meth uri proto hs) c =
    (if has_body meth then map_option (\<lambda>io. c\<lparr>send_buf := io, c_resp := False\<rparr>) (mg_http_reply calloc (send_buf c) 411 '''' [] [])
     else Some c)"
proof -
  have "require_content_len (drop ofs (recv_data c)) (request_message meth uri proto hs) = Some (has_body meth)"
    using request_not_response [of meth uri proto hs rest] assms(1)
    by (auto simp: require_content_len_def c plain_request_def has_body_def)
  then show ?thesis using assms(1) by (simp add: check_content_len_def plain_request_def content_length_case)
qed

context http_handler
begin

lemma incomplete_head:
  assumes "mg_http_get_request_len (recv_data c) = 0" "\<not> c_resp c"
  shows "http_cb calloc fn behind p c EV_READ = Some (p, c)"
proof (cases "recv_data c = []")
  case True
  then show ?thesis by (simp add: http_cb_def http_loop.simps http_consume_def)
next
  case False
  obtain hm where "mg_http_parse (recv_data c) = Some (0, hm)" using assms(1) by (simp add: mg_http_parse_def Let_def)
  then have "http_message calloc fn behind False p c 0 = Some (Break (p, c) 0)" by (simp add: http_message_def)
  then show ?thesis using False assms(2) by (simp add: http_cb_def http_loop.simps http_consume_def)
qed

lemma request_step:
  assumes "plain_request meth uri proto hs" "\<not> has_body meth" "drop ofs (recv_data c) = render_request meth uri proto hs @ rest"
  shows "http_message calloc fn behind False p c ofs =
    http_finish fn p c (request_message meth uri proto hs) (ofs + length (render_request meth uri proto hs))"
proof -
  have pos: "0 < length (render_request meth uri proto hs)" by (simp add: render_request_def)
  show ?thesis
    using mg_http_parse_request [OF assms(1), of rest] check_content_len_request [OF assms(1,3), of calloc] assms pos
    by (simp add: http_message_def ignores Let_def plain_request_def)
qed

text \<open>A message that needs a length and has none is answered, but it stays in the buffer.\<close>

lemma lengthless_step:
  assumes "plain_request meth uri proto hs" "has_body meth" "recv_data c = render_request meth uri proto hs @ rest"
    "length (recv_data c) < SIZE_MAX" "\<not> c_resp c"
    "mg_http_reply calloc (send_buf c) 411 '''' [] [] = Some io"
  shows "http_cb calloc fn behind p c EV_READ = Some (p, c\<lparr>send_buf := io, c_resp := False\<rparr>)"
proof -
  let ?n = "length (render_request meth uri proto hs)"
  have pos: "0 < ?n" "0 < length (recv_data c)" by (simp_all add: render_request_def assms(3))
  have fits: "?n \<le> SIZE_MAX" "\<not> SIZE_MAX \<le> length (recv_data c) - ?n" using assms(3,4) by auto
  have "http_message calloc fn behind False p c 0 = Some (Break (p, c\<lparr>send_buf := io, c_resp := False\<rparr>) 0)"
    using mg_http_parse_request [OF assms(1), of rest] check_content_len_request [OF assms(1), of 0 c rest calloc] assms pos fits
    by (simp add: http_message_def ignores Let_def plain_request_def)
  then show ?thesis using assms(5) pos by (simp add: http_cb_def http_loop.simps http_consume_def)
qed

lemma whole_request:
  assumes "plain_request meth uri proto hs" "\<not> has_body meth" "recv_data c = render_request meth uri proto hs" "c_accepted c" "\<not> c_resp c"
    and fn: "fn p (c\<lparr>c_resp := True\<rparr>) (EV_HTTP_MSG (request_message meth uri proto hs)) = Some (p', c')"
  shows "http_cb calloc fn behind p c EV_READ = Some (p', c'\<lparr>recv_data := []\<rparr>)"
proof -
  let ?n = "length (recv_data c)"
  have "0 < ?n" using assms(3) by (simp add: render_request_def)
  moreover have "http_message calloc fn behind False p c 0 = Some (Next (p', c') ?n)"
    using request_step [OF assms(1,2), of 0 c "[]"] assms(3,4) fn by (simp add: http_finish_def)
  moreover have "recv_data c' = recv_data c" using keeps_recv [OF fn] by simp
  ultimately show ?thesis using assms(5) by (simp add: http_cb_def http_loop.simps http_consume_def)
qed

text \<open>What the handler keeps when it is called for messages, the callback keeps.\<close>

lemma http_message_invariant:
  assumes step: "http_message calloc fn behind is_close p c ofs = Some r" and inv: "I p c"
    and fn: "\<And>p c ev p' c'. I p c \<Longrightarrow> ev = EV_ERROR \<or> (\<exists>hm. ev = EV_HTTP_MSG hm) \<Longrightarrow> fn p c ev = Some (p', c') \<Longrightarrow> I p' c'"
    and frame: "\<And>p c x. I p c \<Longrightarrow> I p (c\<lparr>recv_data := x\<rparr>)" "\<And>p c x y. I p c \<Longrightarrow> I p (c\<lparr>send_buf := x, c_resp := y\<rparr>)"
      "\<And>p c. I p c \<Longrightarrow> I p (c\<lparr>c_draining := True\<rparr>)" "\<And>p c. I p c \<Longrightarrow> I p (c\<lparr>c_closing := True\<rparr>)"
      "\<And>p c x. I p c \<Longrightarrow> I p (c\<lparr>c_resp := x\<rparr>)"
  shows "case r of Return s \<Rightarrow> I (fst s) (snd s) | Break s ofs \<Rightarrow> I (fst s) (snd s) | Next s ofs \<Rightarrow> I (fst s) (snd s)"
proof -
  have close: "I p (c\<lparr>c_draining := True, recv_data := []\<rparr>)" using frame(1) [OF frame(3) [OF inv], of "[]"] by simp
  have err: "I p' c'" if "mg_error fn p c EV_ERROR = Some (p', c')" "I p c" for p c p' c'
    using fn [OF frame(4) [OF that(2)]] that(1) by (auto simp: mg_error_def)
  have chk: "I p c'" if "check_content_len calloc b hm c = Some c'" for b hm c'
    using that inv frame(2) [OF inv] by (auto simp: check_content_len_def split: if_splits bind_splits)
  have fin: "I (fst s) (snd s)" if "I p c" "http_finish fn p c hm k = Some (Next s k')" for p c hm k s k'
    using that fn [OF frame(5) [OF that(1)], of "EV_HTTP_MSG hm" True] fn [OF that(1), of "EV_HTTP_MSG hm"]
    by (cases s) (auto simp: http_finish_def split: if_splits bind_splits)
  have nxt: "\<exists>s k'. r = Next s k'" if "http_finish fn p c hm k = Some r" for p c hm k r
    using that by (auto simp: http_finish_def split: bind_splits)
  have finish: "case r of Return s \<Rightarrow> I (fst s) (snd s) | Break s ofs \<Rightarrow> I (fst s) (snd s) | Next s ofs \<Rightarrow> I (fst s) (snd s)"
    if "http_finish fn p c hm k = Some r" "I p c" for p c hm k r
    using nxt [OF that(1)] fin [OF that(2)] that(1) by auto
  show ?thesis
    using step inv close unfolding http_message_def Let_def
    by (auto simp: ignores split: if_splits bind_splits dest!: chk) (rule err finish, assumption, (rule frame(1))?, assumption)+
qed

lemma http_cb_invariant:
  assumes cb: "http_cb calloc fn behind p c ev = Some (p', c')" and inv: "I p c"
    and fn: "\<And>p c ev p' c'. I p c \<Longrightarrow> ev = EV_ERROR \<or> (\<exists>hm. ev = EV_HTTP_MSG hm) \<Longrightarrow> fn p c ev = Some (p', c') \<Longrightarrow> I p' c'"
    and frame: "\<And>p c x. I p c \<Longrightarrow> I p (c\<lparr>recv_data := x\<rparr>)" "\<And>p c x y. I p c \<Longrightarrow> I p (c\<lparr>send_buf := x, c_resp := y\<rparr>)"
      "\<And>p c. I p c \<Longrightarrow> I p (c\<lparr>c_draining := True\<rparr>)" "\<And>p c. I p c \<Longrightarrow> I p (c\<lparr>c_closing := True\<rparr>)"
      "\<And>p c x. I p c \<Longrightarrow> I p (c\<lparr>c_resp := x\<rparr>)"
  shows "I p' c'"
proof -
  have consume: "I (fst (http_consume k s)) (snd (http_consume k s))" if "I (fst s) (snd s)" for k s
    using frame(1) [OF that] by (simp add: http_consume_def)
  have "f = fn \<longrightarrow> I (fst s) (snd s) \<longrightarrow> I (fst s') (snd s')"
    if "http_loop calloc f behind is_close s ofs = Some s'" for f is_close s ofs s'
  proof (rule http_loop.raw_induct [where P = "\<lambda>calloc f behind is_close s ofs s'. f = fn \<longrightarrow> I (fst s) (snd s) \<longrightarrow> I (fst s') (snd s')", OF _ that], intro impI)
    fix loop calloc f behind is_close and s :: "'p \<times> 'c mg_connection_scheme" and ofs s'
    assume ih: "\<And>calloc f behind is_close s ofs s'. loop calloc f behind is_close s ofs = Some s' \<Longrightarrow>
        f = fn \<longrightarrow> I (fst s) (snd s) \<longrightarrow> I (fst s') (snd s')"
      and body: "(if \<not> c_resp (snd s) \<and> ofs < length (recv_data (snd s)) then
          Option.bind (http_message calloc f behind is_close (fst s) (snd s) ofs) (\<lambda>r. case r of
              Return s' \<Rightarrow> Some s' | Break s' ofs' \<Rightarrow> Some (http_consume ofs' s') | Next s' ofs' \<Rightarrow> loop calloc f behind is_close s' ofs')
        else Some (http_consume ofs s)) = Some s'"
      and f: "f = fn" and s: "I (fst s) (snd s)"
    show "I (fst s') (snd s')"
    proof (cases "\<not> c_resp (snd s) \<and> ofs < length (recv_data (snd s))")
      case True
      then obtain r where r: "http_message calloc fn behind is_close (fst s) (snd s) ofs = Some r"
        using body f by (auto split: bind_splits)
      have "case r of Return s \<Rightarrow> I (fst s) (snd s) | Break s ofs \<Rightarrow> I (fst s) (snd s) | Next s ofs \<Rightarrow> I (fst s) (snd s)"
        using http_message_invariant [where I = I, OF r s fn frame] by simp
      then show ?thesis using body r f True ih consume by (cases r) auto
    next
      case False
      then show ?thesis using body consume [OF s] by auto
    qed
  qed
  then show ?thesis using cb inv by (auto simp: http_cb_def split: if_splits)
qed

end

end
