(* ===== verification/Server.thy ===== *)
theory Server
  imports Prelude Iobuf Hose MemLayout Rpc Fmt Http HttpReply HttpConn WsConn Sha1 Base64
begin

unbundle bit_operations_syntax

text \<open>
  The web server of \<open>program/serve.cpp\<close> (\<open>mongoose_server\<close>) on the parts of mongoose it runs on: the handshake of
  WebSocket (\<open>ws.c\<close>), the calling of handlers (\<open>event.c\<close>), reading, writing, closing (\<open>sock.c\<close>, \<open>net.c\<close>) and what
  \<open>mg_mgr_poll\<close> does with a connection. The state is the process, as \<open>Rpc\<close> has it, and one connection; the fields
  \<open>send\<close> and \<open>is_draining\<close> of the process stand for those of the connection a request came from. \<open>None\<close> is an
  assertion that fails, a read outside of a buffer, or the use of a connection that is freed.
\<close>

section \<open>Connections of the server\<close>

datatype conn_state = CONN_STATE_DEFAULT | CONN_STATE_RPC_WEBSOCKET | CONN_STATE_DRAINING_BEFORE_HOSE_HANDOFF

record server_conn = mg_connection +
  cd_state :: conn_state

text \<open>
  What is outside of the model: memory and kernel for the RPC server, the modules of the process with their
  build ids, the uninitialised buffers of the handshake, the bytes behind received data and behind a URI, and what the
  two calls of \<open>fcntl\<close> in \<open>push_fd\<close> return for a descriptor.
\<close>

record server_env =
  rpc :: rpc_env
  mod_infos :: "ModuleInfo option list"
  g_build_ids :: "bytes option list"
  sha_stack :: bytes
  b64_stack :: bytes
  recv_behind :: "u8 option"
  uri_behind :: u8
  fcntl_result :: "int \<Rightarrow> int \<times> int"

definition sv_alloc :: "server_env \<Rightarrow> nat \<Rightarrow> bool" where "sv_alloc env = alloc_ok (rpc env)"

type_synonym server_handler = "rpc_server \<Rightarrow> server_conn \<Rightarrow> conn_event \<Rightarrow> (rpc_server \<times> server_conn) option"

section \<open>The handshake\<close>

definition ws_magic :: bytes where "ws_magic = ascii ''258EAFA5-E914-47DA-95CA-C5AB0DC85B11''"

definition switching_head :: bytes where
  "switching_head = ascii ''HTTP/1.1 101 Switching Protocols'' @ [13, 10] @ ascii ''Upgrade: websocket'' @ [13, 10] @
     ascii ''Connection: Upgrade'' @ [13, 10] @ ascii ''Sec-WebSocket-Accept: %s'' @ [13, 10]"

definition ws_handshake :: "server_env \<Rightarrow> mg_iobuf \<Rightarrow> bytes \<Rightarrow> bytes option \<Rightarrow> mg_iobuf option" where
  "ws_handshake env io wskey wsproto = do {
     let ctx = mg_sha1_update (mg_sha1_update (mg_sha1_init (sha_stack env)) wskey) ws_magic;
     sha \<leftarrow> mg_sha1_final ctx;
     (b64, _) \<leftarrow> mg_base64_encode sha (b64_stack env);
     io \<leftarrow> mg_printf (sv_alloc env) io switching_head [Arg_str (Some b64)];
     io \<leftarrow> (case wsproto of None \<Rightarrow> Some io
       | Some v \<Rightarrow> mg_printf (sv_alloc env) io (ascii ''Sec-WebSocket-Protocol: %.*s'' @ [13, 10]) [Arg_word (word_of_nat (length v)), Arg_str (Some v)]);
     mg_send (sv_alloc env) io [13, 10]
   }"

text \<open>\<open>mg_ws_upgrade\<close>; its last call, of the handler with \<open>MG_EV_WS_OPEN\<close>, is the argument \<open>on_open\<close>.\<close>

definition mg_ws_upgrade :: "server_env \<Rightarrow> server_handler \<Rightarrow> rpc_server \<Rightarrow> server_conn \<Rightarrow> mg_http_message \<Rightarrow> (rpc_server \<times> server_conn) option" where
  "mg_ws_upgrade env on_open p c hm = do {
     let c = c\<lparr>pfn := Mg_ws_cb, pfn_data := 0\<rparr>;
     case mg_http_get_header (hm_headers hm) ''Sec-WebSocket-Key'' of
       None \<Rightarrow> do {
         io \<leftarrow> mg_http_reply (sv_alloc env) (send_buf c) 426 '''' (ascii ''WS upgrade expected'' @ [10]) [];
         Some (p, c\<lparr>send_buf := io, c_resp := False, c_draining := True\<rparr>)
       }
     | Some wskey \<Rightarrow> do {
         io \<leftarrow> ws_handshake env (send_buf c) wskey (mg_http_get_header (hm_headers hm) ''Sec-WebSocket-Protocol'');
         on_open p (c\<lparr>send_buf := io, c_websocket := True, c_resp := False\<rparr>) (EV_WS_OPEN hm)
       }
   }"

section \<open>The handler of the program\<close>

definition range_bytes :: "Range \<Rightarrow> bytes" where
  "range_bytes r = le_bytes 8 (m_Start r) @ le_bytes 8 (m_Size r)"

text \<open>A \<open>hello_mod_info\<close>: four ranges and the build id, or zeros.\<close>

definition hello_mod_info :: "ModuleInfo \<Rightarrow> bytes option \<Rightarrow> bytes" where
  "hello_mod_info mi build_id =
     range_bytes (m_Total mi) @ range_bytes (m_Text mi) @ range_bytes (m_Rodata mi) @ range_bytes (m_Data mi) @
     (case build_id of None \<Rightarrow> replicate 16 0 | Some b \<Rightarrow> b)"

definition hello :: "server_env \<Rightarrow> bytes" where
  "hello env = concat (map (\<lambda>smi. case mod_infos env ! smi of None \<Rightarrow> [] | Some mi \<Rightarrow> hello_mod_info mi (g_build_ids env ! smi))
     [0..<ModuleIndex_value End])"

definition send_hello :: "server_env \<Rightarrow> server_conn \<Rightarrow> server_conn option" where
  "send_hello env c = map_option (\<lambda>io. c\<lparr>send_buf := io\<rparr>) (mg_ws_send (sv_alloc env) (send_buf c) (hello env) WEBSOCKET_OP_BINARY)"

text \<open>\<open>handle_rpc_packet\<close> for a connection.\<close>

definition run_rpc :: "server_env \<Rightarrow> rpc_server \<Rightarrow> server_conn \<Rightarrow> bytes \<Rightarrow> (rpc_server \<times> server_conn) option" where
  "run_rpc env p c pkt = do {
     p' \<leftarrow> handle_rpc_packet (rpc env) (p\<lparr>send := send_buf c, is_draining := c_draining c\<rparr>) pkt;
     Some (p', c\<lparr>send_buf := send p', c_draining := is_draining p'\<rparr>)
   }"

definition on_ws_open :: "server_env \<Rightarrow> server_handler" where
  "on_ws_open env p c ev =
     (if cd_state c = CONN_STATE_RPC_WEBSOCKET then map_option (\<lambda>c. (p, c)) (send_hello env c) else Some (p, c))"

definition on_http_msg :: "server_env \<Rightarrow> rpc_server \<Rightarrow> server_conn \<Rightarrow> mg_http_message \<Rightarrow> (rpc_server \<times> server_conn) option" where
  "on_http_msg env p c hm = do {
     hose \<leftarrow> mg_match (hm_uri hm) (uri_behind env) (ascii ''/ws/hose'');
     if hose then mg_ws_upgrade env (on_ws_open env) p (c\<lparr>cd_state := CONN_STATE_DRAINING_BEFORE_HOSE_HANDOFF\<rparr>) hm
     else do {
       rpc_uri \<leftarrow> mg_match (hm_uri hm) (uri_behind env) (ascii ''/ws/rpc'');
       if rpc_uri then mg_ws_upgrade env (on_ws_open env) p (c\<lparr>cd_state := CONN_STATE_RPC_WEBSOCKET\<rparr>) hm
       else map_option (\<lambda>io. (p, c\<lparr>send_buf := io, c_resp := False\<rparr>))
         (mg_http_reply (sv_alloc env) (send_buf c) 404 '''' (ascii ''not found'') [])
     }
   }"

definition on_ws_msg :: "server_env \<Rightarrow> rpc_server \<Rightarrow> server_conn \<Rightarrow> ws_message \<Rightarrow> (rpc_server \<times> server_conn) option" where
  "on_ws_msg env p c m =
     (if cd_state c \<noteq> CONN_STATE_RPC_WEBSOCKET then Some (p, c\<lparr>c_draining := True\<rparr>)
      else if mg_str_ok m then run_rpc env p c (mg_str_bytes m) else None)"

text \<open>\<open>mongoose_callback_impl\<close> without the event \<open>MG_EV_WRITE\<close>, whose branch calls handlers again.\<close>

definition callback_no_write :: "server_env \<Rightarrow> server_handler" where
  "callback_no_write env p c ev =
     (case ev of
        EV_HTTP_MSG hm \<Rightarrow> on_http_msg env p c hm
      | EV_WS_MSG m \<Rightarrow> on_ws_msg env p c m
      | EV_WS_OPEN hm \<Rightarrow> on_ws_open env p c ev
      | _ \<Rightarrow> Some (p, c))"

section \<open>Calls of handlers\<close>

definition run_action :: "server_env \<Rightarrow> server_handler \<Rightarrow> rpc_server \<times> server_conn \<Rightarrow> ws_action \<Rightarrow> (rpc_server \<times> server_conn) option" where
  "run_action env fn s a =
     (case a of
        Call_WS_CTL m \<Rightarrow> fn (fst s) (snd s) (EV_WS_CTL m)
      | Call_WS_MSG m \<Rightarrow> fn (fst s) (snd s) (EV_WS_MSG m)
      | Ws_send m op \<Rightarrow>
          if mg_str_ok m then map_option (\<lambda>io. (fst s, (snd s)\<lparr>send_buf := io\<rparr>)) (mg_ws_send (sv_alloc env) (send_buf (snd s)) (mg_str_bytes m) op)
          else None
      | Set_draining \<Rightarrow> Some (fst s, (snd s)\<lparr>c_draining := True\<rparr>)
      | Ws_error op \<Rightarrow> mg_error fn (fst s) (snd s) EV_ERROR)"

fun run_actions :: "server_env \<Rightarrow> server_handler \<Rightarrow> ws_action list \<Rightarrow> rpc_server \<times> server_conn \<Rightarrow> (rpc_server \<times> server_conn) option" where
  "run_actions env fn [] s = Some s"
| "run_actions env fn (a # as) s = Option.bind (run_action env fn s a) (run_actions env fn as)"

text \<open>\<open>mg_ws_cb\<close> for a connection of the server.\<close>

definition ws_cb :: "server_env \<Rightarrow> server_handler \<Rightarrow> server_handler" where
  "ws_cb env fn p c ev =
     (if ev = EV_READ then
        (case mg_ws_cb \<lparr>ws_recv = recv_data c, ws_ofs = pfn_data c\<rparr> [] of (acts, w) \<Rightarrow>
           map_option (\<lambda>(p, c). (p, c\<lparr>recv_data := ws_recv w, pfn_data := ws_ofs w\<rparr>)) (run_actions env fn acts (p, c)))
      else Some (p, c))"

definition mg_call :: "server_env \<Rightarrow> server_handler \<Rightarrow> server_handler" where
  "mg_call env fn p c ev = do {
     (p, c) \<leftarrow> (case pfn c of Http_cb \<Rightarrow> http_cb (sv_alloc env) fn (recv_behind env) p c ev | Mg_ws_cb \<Rightarrow> ws_cb env fn p c ev);
     fn p c ev
   }"

text \<open>\<open>mg_close_conn\<close>: the handlers are told, then the connection is freed.\<close>

definition mg_close_conn :: "server_env \<Rightarrow> server_handler \<Rightarrow> rpc_server \<Rightarrow> server_conn \<Rightarrow> (rpc_server \<times> server_conn) option" where
  "mg_close_conn env fn p c = map_option (\<lambda>(p, c). (p, c\<lparr>c_freed := True\<rparr>)) (mg_call env fn p c EV_CLOSE)"

definition mongoose_callback_impl :: "server_env \<Rightarrow> server_handler" where
  "mongoose_callback_impl env p c ev =
     (if ev = EV_WRITE then
        (if cd_state c = CONN_STATE_DRAINING_BEFORE_HOSE_HANDOFF \<and> iolen (send_buf c) = 0
         then do {
           (h, _) \<leftarrow> hose_push_fd (fst (fcntl_result env (conn_fd c))) (snd (fcntl_result env (conn_fd c))) (s_hose p) (conn_fd c);
           mg_close_conn env (callback_no_write env) (p\<lparr>s_hose := h\<rparr>) (c\<lparr>conn_fd := 0\<rparr>)
         }
         else Some (p, c))
      else callback_no_write env p c ev)"

section \<open>Sockets\<close>

text \<open>What a socket gives when it is read or written; the numbers are the results of \<open>recv\<close> and \<open>send\<close>.\<close>

datatype io_read = Read_wait | Read_closed | Read_data bytes | Read_oom
datatype io_write = Write_wait | Write_closed | Write_sent nat

definition MG_MAX_RECV_SIZE :: nat where "MG_MAX_RECV_SIZE = 3 * 1024 * 1024"
definition MG_IO_SIZE :: nat where "MG_IO_SIZE = 2048"

text \<open>\<open>read_conn\<close> with \<open>ioalloc\<close> and the half of \<open>iolog\<close> for received data; \<open>write_conn\<close> with the other half.\<close>

definition read_conn :: "server_env \<Rightarrow> rpc_server \<Rightarrow> server_conn \<Rightarrow> io_read \<Rightarrow> (rpc_server \<times> server_conn) option" where
  "read_conn env p c r =
     (if length (recv_data c) \<ge> MG_MAX_RECV_SIZE then mg_error (mongoose_callback_impl env) p c EV_ERROR
      else (case r of
          Read_wait \<Rightarrow> Some (p, c)
        | Read_closed \<Rightarrow> Some (p, c\<lparr>c_closing := True\<rparr>)
        | Read_oom \<Rightarrow> mg_error (mongoose_callback_impl env) p c EV_ERROR
        | Read_data d \<Rightarrow> mg_call env (mongoose_callback_impl env) p (c\<lparr>recv_data := recv_data c @ d\<rparr>) EV_READ))"

definition write_conn :: "server_env \<Rightarrow> rpc_server \<Rightarrow> server_conn \<Rightarrow> io_write \<Rightarrow> (rpc_server \<times> server_conn) option" where
  "write_conn env p c w =
     (case w of
        Write_wait \<Rightarrow> Some (p, c)
      | Write_closed \<Rightarrow> Some (p, c\<lparr>c_closing := True\<rparr>)
      | Write_sent n \<Rightarrow> do {
          (_, io) \<leftarrow> mg_iobuf_del (send_buf c) 0 n;
          mg_call env (mongoose_callback_impl env) p (c\<lparr>send_buf := io\<rparr>) EV_WRITE
        })"

definition close_conn :: "server_env \<Rightarrow> rpc_server \<Rightarrow> server_conn \<Rightarrow> (rpc_server \<times> server_conn) option" where
  "close_conn env p c = mg_close_conn env (mongoose_callback_impl env) p c"

text \<open>
  What one turn of \<open>mg_mgr_poll\<close> does with an accepted connection that is readable (\<open>rd\<close>) or writable (\<open>wr\<close>):
  polling, reading and writing first; then the flags are read, for which the connection must not be freed.
\<close>

definition poll_io :: "server_env \<Rightarrow> rpc_server \<Rightarrow> server_conn \<Rightarrow> io_read option \<Rightarrow> io_write option \<Rightarrow> (rpc_server \<times> server_conn) option" where
  "poll_io env p c rd wr = do {
     let is_resp = c_resp c;
     (p, c) \<leftarrow> mg_call env (mongoose_callback_impl env) p c EV_POLL;
     (p, c) \<leftarrow> (if is_resp \<and> \<not> c_resp c then mg_call env (mongoose_callback_impl env) p c EV_READ else Some (p, c));
     if c_closing c then Some (p, c)
     else do {
       (p, c) \<leftarrow> (case rd of None \<Rightarrow> Some (p, c) | Some r \<Rightarrow> read_conn env p c r);
       (case wr of None \<Rightarrow> Some (p, c) | Some w \<Rightarrow> write_conn env p c w)
     }
   }"

definition poll_end :: "server_env \<Rightarrow> rpc_server \<Rightarrow> server_conn \<Rightarrow> (rpc_server \<times> server_conn) option" where
  "poll_end env p c =
     (if c_freed c then None
      else
        (let c = (if c_draining c \<and> iolen (send_buf c) = 0 then c\<lparr>c_closing := True\<rparr> else c) in
         if c_closing c then close_conn env p c else Some (p, c)))"

definition poll_conn :: "server_env \<Rightarrow> rpc_server \<Rightarrow> server_conn \<Rightarrow> io_read option \<Rightarrow> io_write option \<Rightarrow> (rpc_server \<times> server_conn) option" where
  "poll_conn env p c rd wr = do { (p, c) \<leftarrow> poll_io env p c rd wr; poll_end env p c }"

text \<open>A connection as \<open>accept_conn\<close> makes it from a new socket, with zeros in the user's data.\<close>

definition accepted_conn :: "int \<Rightarrow> server_conn" where
  "accepted_conn fd = \<lparr>conn_fd = fd, recv_data = [], send_buf = \<lparr>iobuf = [], iolen = 0, ioalign = MG_IO_SIZE\<rparr>, pfn = Http_cb, pfn_data = 0,
     c_accepted = True, c_websocket = False, c_draining = False, c_closing = False, c_resp = False, c_freed = False,
     cd_state = CONN_STATE_DEFAULT\<rparr>"

text \<open>
  The turns of the server for one connection: between them other connections and threads may change the state
  of the process in any way. A turn that hands the connection over ends with the freed connection (reading
  its flags after that is \<open>None\<close> in \<open>poll_conn\<close>).
\<close>

inductive server_reaches :: "server_env \<Rightarrow> int \<Rightarrow> rpc_server \<times> server_conn \<Rightarrow> bool" for env fd where
  accepted: "server_reaches env fd (p, accepted_conn fd)"
| polled: "server_reaches env fd (p, c) \<Longrightarrow> \<not> c_freed c \<Longrightarrow> poll_conn env p c rd wr = Some s \<Longrightarrow> server_reaches env fd s"
| handed_off: "server_reaches env fd (p, c) \<Longrightarrow> \<not> c_freed c \<Longrightarrow> poll_io env p c rd wr = Some (p', c') \<Longrightarrow> c_freed c' \<Longrightarrow>
    server_reaches env fd (p', c')"
| elsewhere: "server_reaches env fd (p, c) \<Longrightarrow> server_reaches env fd (p', c)"

section \<open>The state of a connection\<close>

definition conn_inv :: "int \<Rightarrow> server_conn \<Rightarrow> bool" where
  "conn_inv fd c \<longleftrightarrow> (cd_state c = CONN_STATE_DEFAULT \<longleftrightarrow> pfn c = Http_cb) \<and> (c_websocket c \<longrightarrow> pfn c = Mg_ws_cb) \<and>
     c_accepted c \<and> conn_fd c = fd"

lemma callback_keeps_recv: "callback_no_write env p c ev = Some (p', c') \<Longrightarrow> recv_data c' = recv_data c"
  by (auto simp: callback_no_write_def on_http_msg_def on_ws_msg_def on_ws_open_def mg_ws_upgrade_def run_rpc_def send_hello_def Let_def
      split: conn_event.splits if_splits option.splits bind_splits)

lemma callback_ignores:
  "callback_no_write env p c (EV_HTTP_HDRS hm) = Some (p, c)" "callback_no_write env p c EV_ERROR = Some (p, c)"
  "callback_no_write env p c EV_POLL = Some (p, c)" "callback_no_write env p c EV_READ = Some (p, c)" "callback_no_write env p c EV_CLOSE = Some (p, c)"
  "callback_no_write env p c (EV_WS_CTL m) = Some (p, c)"
  by (simp_all add: callback_no_write_def)

lemma callback_impl: "ev \<noteq> EV_WRITE \<Longrightarrow> mongoose_callback_impl env p c ev = callback_no_write env p c ev"
  by (simp add: mongoose_callback_impl_def)

interpretation outer: http_handler "mongoose_callback_impl env" for env
  by unfold_locales (auto simp: callback_impl callback_ignores dest: callback_keeps_recv)

text \<open>Requests change the connection within the invariant and leave the process alone.\<close>

lemma on_http_msg_inv:
  assumes "on_http_msg env p c hm = Some (p', c')" "conn_inv fd c"
  shows "p' = p" "conn_inv fd c'" "c_freed c' = c_freed c"
  using assms
  by (auto simp: on_http_msg_def mg_ws_upgrade_def on_ws_open_def send_hello_def conn_inv_def Let_def
      split: if_splits option.splits bind_splits)

definition quiet :: "int \<Rightarrow> rpc_server \<Rightarrow> rpc_server \<Rightarrow> server_conn \<Rightarrow> bool" where
  "quiet fd p0 p c \<longleftrightarrow> p = p0 \<and> conn_inv fd c \<and> \<not> c_freed c"

lemma quiet_frame:
  "quiet fd p0 p c \<Longrightarrow> quiet fd p0 p (c\<lparr>recv_data := x\<rparr>)" "quiet fd p0 p c \<Longrightarrow> quiet fd p0 p (c\<lparr>send_buf := io, c_resp := y\<rparr>)"
  "quiet fd p0 p c \<Longrightarrow> quiet fd p0 p (c\<lparr>c_draining := True\<rparr>)" "quiet fd p0 p c \<Longrightarrow> quiet fd p0 p (c\<lparr>c_closing := True\<rparr>)"
  "quiet fd p0 p c \<Longrightarrow> quiet fd p0 p (c\<lparr>c_resp := z\<rparr>)"
  by (simp_all add: quiet_def conn_inv_def)

lemma callback_quiet:
  assumes "quiet fd p0 p c" "ev = EV_ERROR \<or> (\<exists>hm. ev = EV_HTTP_MSG hm)" "callback_no_write env p c ev = Some (p', c')"
  shows "quiet fd p0 p' c'"
  using assms on_http_msg_inv [of env p c _ p' c' fd] by (auto simp: quiet_def callback_no_write_def)

lemma callback_impl_quiet:
  assumes "quiet fd p0 p c" "ev = EV_ERROR \<or> (\<exists>hm. ev = EV_HTTP_MSG hm)" "mongoose_callback_impl env p c ev = Some (p', c')"
  shows "quiet fd p0 p' c'"
  using callback_quiet [OF assms(1,2)] assms(2,3) by (auto simp: callback_impl)

lemma http_cb_impl_quiet:
  assumes "http_cb calloc (mongoose_callback_impl env) nb p c ev = Some (p', c')" "quiet fd p0 p c"
  shows "quiet fd p0 p' c'"
  by (rule outer.http_cb_invariant [where I = "quiet fd p0", OF assms]) (blast intro: callback_impl_quiet, simp_all add: quiet_frame)

text \<open>WebSocket frames: only the RPC server changes the process, and only for its connections.\<close>

definition calm :: "int \<Rightarrow> conn_state \<Rightarrow> rpc_server \<Rightarrow> rpc_server \<times> server_conn \<Rightarrow> bool" where
  "calm fd st p0 s \<longleftrightarrow> (st = CONN_STATE_RPC_WEBSOCKET \<or> fst s = p0) \<and> conn_inv fd (snd s) \<and> \<not> c_freed (snd s) \<and> cd_state (snd s) = st"

lemma run_action_calm:
  assumes "run_action env (mongoose_callback_impl env) s a = Some s'" "calm fd st p0 s"
  shows "calm fd st p0 s'"
  using assms
  by (cases s; cases a) (auto simp: run_action_def callback_impl callback_ignores callback_no_write_def on_ws_msg_def run_rpc_def
      mg_error_def calm_def conn_inv_def split: if_splits bind_splits)

lemma run_actions_calm:
  "run_actions env (mongoose_callback_impl env) acts s = Some s' \<Longrightarrow> calm fd st p0 s \<Longrightarrow> calm fd st p0 s'"
  by (induction acts arbitrary: s) (auto dest: run_action_calm split: bind_splits)

lemma ws_cb_calm:
  assumes "ws_cb env (mongoose_callback_impl env) p c ev = Some (p', c')" "calm fd st p0 (p, c)"
  shows "calm fd st p0 (p', c')"
proof (cases "ev = EV_READ")
  case True
  obtain acts w where w: "mg_ws_cb \<lparr>ws_recv = recv_data c, ws_ofs = pfn_data c\<rparr> [] = (acts, w)" by fastforce
  then obtain c1 where c1: "run_actions env (mongoose_callback_impl env) acts (p, c) = Some (p', c1)"
    "c' = c1\<lparr>recv_data := ws_recv w, pfn_data := ws_ofs w\<rparr>"
    using assms(1) True by (auto simp: ws_cb_def)
  have "calm fd st p0 (p', c1)" using run_actions_calm [OF c1(1) assms(2)] .
  then show ?thesis by (auto simp: c1(2) calm_def conn_inv_def)
qed (use assms in \<open>simp add: ws_cb_def\<close>)

text \<open>Both together, for the events of a turn.\<close>

definition turn_ok :: "int \<Rightarrow> rpc_server \<Rightarrow> server_conn \<Rightarrow> rpc_server \<Rightarrow> server_conn \<Rightarrow> bool" where
  "turn_ok fd p c p' c' \<longleftrightarrow> conn_inv fd c' \<and> \<not> c_freed c' \<and> (cd_state c \<noteq> CONN_STATE_RPC_WEBSOCKET \<longrightarrow> p' = p) \<and>
     (cd_state c = CONN_STATE_RPC_WEBSOCKET \<longrightarrow> cd_state c' = CONN_STATE_RPC_WEBSOCKET)"

lemma mg_call_turn:
  assumes "mg_call env (mongoose_callback_impl env) p c ev = Some (p', c')" "ev \<in> {EV_READ, EV_POLL, EV_CLOSE}" "conn_inv fd c" "\<not> c_freed c"
  shows "turn_ok fd p c p' c' \<and> (pfn c = Mg_ws_cb \<longrightarrow> cd_state c' = cd_state c)"
proof -
  have last: "mongoose_callback_impl env p c ev = Some (p, c)" for p c using assms(2) by (auto simp: callback_impl callback_ignores)
  show ?thesis
  proof (cases "pfn c")
    case Http_cb
    then have "quiet fd p p' c'"
      using assms(1,3,4) http_cb_impl_quiet [of "sv_alloc env" env "recv_behind env" p c ev _ _ fd p] by (auto simp: mg_call_def last quiet_def split: bind_splits)
    moreover have "cd_state c \<noteq> CONN_STATE_RPC_WEBSOCKET" using Http_cb assms(3) by (auto simp: conn_inv_def)
    ultimately show ?thesis by (simp add: turn_ok_def quiet_def Http_cb)
  next
    case Mg_ws_cb
    then have "calm fd (cd_state c) p (p', c')"
      using assms(1,3,4) ws_cb_calm [of env p c ev _ _ fd "cd_state c" p] by (auto simp: mg_call_def last calm_def split: bind_splits)
    then show ?thesis by (auto simp: turn_ok_def calm_def)
  qed
qed


lemma mg_call_poll: "mg_call env (mongoose_callback_impl env) p c EV_POLL = Some (p, c)"
  by (simp add: mg_call_def http_cb_def ws_cb_def callback_impl callback_ignores split: protocol_fn.splits)

lemma mg_call_write:
  "mg_call env (mongoose_callback_impl env) p c EV_WRITE = mongoose_callback_impl env p c EV_WRITE"
  by (simp add: mg_call_def http_cb_def ws_cb_def split: protocol_fn.splits)

lemma ws_close: "pfn c = Mg_ws_cb \<Longrightarrow> mg_call env (callback_no_write env) p c EV_CLOSE = Some (p, c)"
  "pfn c = Mg_ws_cb \<Longrightarrow> mg_call env (mongoose_callback_impl env) p c EV_CLOSE = Some (p, c)"
  by (simp_all add: mg_call_def ws_cb_def callback_impl callback_ignores)

lemma close_conn_quiet:
  assumes "close_conn env p c = Some (p', c')" "conn_inv fd c" "\<not> c_freed c"
  shows "p' = p \<and> conn_inv fd c' \<and> c_freed c'"
proof -
  obtain c1 where c1: "mg_call env (mongoose_callback_impl env) p c EV_CLOSE = Some (p', c1)" "c' = c1\<lparr>c_freed := True\<rparr>"
    using assms(1) by (auto simp: close_conn_def mg_close_conn_def)
  have "conn_inv fd c1" using mg_call_turn [OF c1(1) _ assms(2,3)] by (simp add: turn_ok_def)
  moreover have "p' = p"
  proof (cases "pfn c")
    case Http_cb
    then have "cd_state c \<noteq> CONN_STATE_RPC_WEBSOCKET" using assms(2) by (auto simp: conn_inv_def)
    then show ?thesis using mg_call_turn [OF c1(1) _ assms(2,3)] by (simp add: turn_ok_def)
  qed (use c1(1) ws_close in simp)
  ultimately show ?thesis by (simp add: c1(2) conn_inv_def)
qed

lemma read_conn_turn:
  assumes "read_conn env p c r = Some (p', c')" "conn_inv fd c" "\<not> c_freed c"
  shows "turn_ok fd p c p' c'"
proof -
  have frame: "turn_ok fd p c p (c\<lparr>c_closing := True\<rparr>)" "turn_ok fd p c p c"
    "conn_inv fd (c\<lparr>recv_data := d\<rparr>)" "\<not> c_freed (c\<lparr>recv_data := d\<rparr>)" for d
    using assms(2,3) by (simp_all add: turn_ok_def conn_inv_def)
  have "turn_ok fd p c p' c'" if "mg_call env (mongoose_callback_impl env) p (c\<lparr>recv_data := d\<rparr>) EV_READ = Some (p', c')" for d
    using mg_call_turn [OF that _ frame(3,4)] by (simp add: turn_ok_def)
  then show ?thesis using assms(1) frame(1,2)
    by (auto simp: read_conn_def mg_error_def callback_impl callback_ignores split: if_splits io_read.splits)
qed

lemma write_conn_quiet:
  assumes "write_conn env p c w = Some (p', c')" "conn_inv fd c" "\<not> c_freed c"
  shows "if c_freed c'
    then cd_state c = CONN_STATE_DRAINING_BEFORE_HOSE_HANDOFF \<and> cd_state c' = CONN_STATE_DRAINING_BEFORE_HOSE_HANDOFF \<and>
      iolen (send_buf c') = 0 \<and> p' = p\<lparr>s_hose := push_fd (s_hose p) fd\<rparr>
    else p' = p \<and> conn_inv fd c'"
proof (cases "\<exists>n. w = Write_sent n")
  case True
  then obtain n io where d: "mg_iobuf_del (send_buf c) 0 n = Some io" "mongoose_callback_impl env p (c\<lparr>send_buf := snd io\<rparr>) EV_WRITE = Some (p', c')"
    using assms(1) by (auto simp: write_conn_def mg_call_write split: bind_splits)
  let ?c = "c\<lparr>send_buf := snd io\<rparr>"
  show ?thesis
  proof (cases "cd_state ?c = CONN_STATE_DRAINING_BEFORE_HOSE_HANDOFF \<and> iolen (send_buf ?c) = 0")
    case True
    then have "pfn c = Mg_ws_cb" using assms(2) by (cases "pfn c") (simp_all add: conn_inv_def)
    then show ?thesis using True d(2) assms(2)
      by (auto simp: mongoose_callback_impl_def hose_push_fd_def Let_def mg_close_conn_def ws_close conn_inv_def split: if_splits)
  next
    case False
    then have "p' = p" "c' = ?c" using d(2) by (auto simp: mongoose_callback_impl_def)
    then show ?thesis using assms(2,3) by (simp add: conn_inv_def)
  qed
qed (use assms in \<open>auto simp: write_conn_def conn_inv_def split: io_write.splits\<close>)

text \<open>A turn: what reading and writing leave, and how the turn ends.\<close>

lemma poll_io_turn:
  assumes "poll_io env p c rd wr = Some (p2, c2)" "conn_inv fd c" "\<not> c_freed c"
  shows "if c_freed c2
    then cd_state c2 = CONN_STATE_DRAINING_BEFORE_HOSE_HANDOFF \<and> cd_state c \<noteq> CONN_STATE_RPC_WEBSOCKET \<and>
      iolen (send_buf c2) = 0 \<and> p2 = p\<lparr>s_hose := push_fd (s_hose p) fd\<rparr>
    else turn_ok fd p c p2 c2"
proof (cases "c_closing c")
  case True
  then show ?thesis using assms by (auto simp: poll_io_def mg_call_poll turn_ok_def)
next
  case False
  then obtain p1 c1 where 1: "(case rd of None \<Rightarrow> Some (p, c) | Some r \<Rightarrow> read_conn env p c r) = Some (p1, c1)"
    and w: "(case wr of None \<Rightarrow> Some (p1, c1) | Some w \<Rightarrow> write_conn env p1 c1 w) = Some (p2, c2)"
    using assms(1) by (auto simp: poll_io_def mg_call_poll split: bind_splits)
  have t: "turn_ok fd p c p1 c1"
    using 1 read_conn_turn [OF _ assms(2,3)] assms(2,3) by (auto simp: turn_ok_def split: option.splits)
  show ?thesis
  proof (cases wr)
    case None
    then show ?thesis using w t by (simp add: turn_ok_def)
  next
    case (Some x)
    then have x: "write_conn env p1 c1 x = Some (p2, c2)" using w by simp
    have live: "conn_inv fd c1" "\<not> c_freed c1" using t by (simp_all add: turn_ok_def)
    show ?thesis
    proof (cases "c_freed c2")
      case True
      with write_conn_quiet [OF x live] t show ?thesis by (auto simp: turn_ok_def)
    next
      case False
      then have "cd_state c2 = cd_state c1"
        using x live by (auto simp: write_conn_def mg_call_write mongoose_callback_impl_def mg_close_conn_def split: io_write.splits if_splits bind_splits)
      with False write_conn_quiet [OF x live] t show ?thesis by (simp add: turn_ok_def)
    qed
  qed
qed

lemma poll_end_turn:
  assumes "poll_end env p c = Some (p', c')" "conn_inv fd c"
  shows "p' = p \<and> conn_inv fd c'"
proof -
  let ?c = "if c_draining c \<and> iolen (send_buf c) = 0 then c\<lparr>c_closing := True\<rparr> else c"
  have live: "\<not> c_freed c" and rest: "(if c_closing ?c then close_conn env p ?c else Some (p, ?c)) = Some (p', c')"
    using assms(1) by (auto simp: poll_end_def Let_def split: if_splits)
  have "conn_inv fd ?c" "\<not> c_freed ?c" using assms(2) live by (auto simp: conn_inv_def)
  then show ?thesis using rest close_conn_quiet [of env p ?c p' c' fd] by (auto split: if_splits)
qed

lemma poll_conn_turn:
  assumes "poll_conn env p c rd wr = Some (p', c')" "conn_inv fd c" "\<not> c_freed c"
  shows "conn_inv fd c' \<and> (cd_state c \<noteq> CONN_STATE_RPC_WEBSOCKET \<longrightarrow> p' = p)"
proof -
  obtain p2 c2 where 2: "poll_io env p c rd wr = Some (p2, c2)" "poll_end env p2 c2 = Some (p', c')"
    using assms(1) by (auto simp: poll_conn_def split: bind_splits)
  then have "\<not> c_freed c2" by (auto simp: poll_end_def)
  then show ?thesis
    using poll_io_turn [OF 2(1) assms(2,3)] poll_end_turn [OF 2(2), of fd] by (auto simp: turn_ok_def)
qed

lemma reaches_inv: "server_reaches env fd s \<Longrightarrow> \<not> c_freed (snd s) \<Longrightarrow> conn_inv fd (snd s)"
proof (induction rule: server_reaches.induct)
  case (accepted p)
  then show ?case by (simp add: conn_inv_def accepted_conn_def)
next
  case (polled p c rd wr s)
  then show ?case using poll_conn_turn [of env p c rd wr "fst s" "snd s" fd] by simp
qed simp_all

definition server_witness_env :: server_env where
  "server_witness_env = \<lparr>rpc = witness_env, mod_infos = replicate 16 None, g_build_ids = replicate 16 None,
     sha_stack = replicate 64 0, b64_stack = replicate 30 0, recv_behind = None, uri_behind = 0,
     fcntl_result = (\<lambda>_. (2, 0))\<rparr>"

text \<open>
  C22. Whatever bytes a connection receives in whatever pieces, and in whatever order its socket becomes readable
  and writable: a turn of the server changes the state of the process (hose, memory, monitor) only in two
  ways. For a connection that was upgraded to the RPC service before it may run requests; and the turn that
  empties the send buffer of a connection waiting for the hose gives the connection's own descriptor to the hose, changes
  nothing else, and ends in the use of the freed connection. In every other turn the connection keeps its
  descriptor and is served as HTTP exactly as long as no upgrade was asked for and as WebSocket afterwards, also
  when the turn ends with closing it.
\<close>

theorem server_connection_safe:
  assumes "server_reaches env fd (p, c)" and "\<not> c_freed c" and "poll_io env p c rd wr = Some (p1, c1)"
  shows "if c_freed c1
    then cd_state c1 = CONN_STATE_DRAINING_BEFORE_HOSE_HANDOFF \<and> cd_state c \<noteq> CONN_STATE_RPC_WEBSOCKET \<and> iolen (send_buf c1) = 0 \<and>
      p1 = p\<lparr>s_hose := push_fd (s_hose p) fd\<rparr> \<and> poll_conn env p c rd wr = None
    else (cd_state c = CONN_STATE_RPC_WEBSOCKET \<or> p1 = p) \<and> conn_fd c1 = fd \<and>
      (case poll_conn env p c rd wr of None \<Rightarrow> close_conn env p1 (c1\<lparr>c_closing := True\<rparr>) = None
       | Some (p', c') \<Rightarrow> p' = p1 \<and> conn_fd c' = fd \<and> (cd_state c' = CONN_STATE_DEFAULT \<longleftrightarrow> pfn c' = Http_cb) \<and>
           \<not> (c_websocket c' \<and> pfn c' = Http_cb))"
proof -
  have inv: "conn_inv fd c" using reaches_inv [OF assms(1)] assms(2) by simp
  note io = poll_io_turn [OF assms(3) inv assms(2)]
  have turn: "poll_conn env p c rd wr = poll_end env p1 c1" by (simp add: poll_conn_def assms(3))
  show ?thesis
  proof (cases "c_freed c1")
    case True
    then show ?thesis using io turn by (simp add: poll_end_def)
  next
    case False
    then have ok: "turn_ok fd p c p1 c1" using io by simp
    have none: "close_conn env p1 (c1\<lparr>c_closing := True\<rparr>) = None" if stop: "poll_end env p1 c1 = None"
    proof (cases "c_closing c1")
      case True
      then have "c1\<lparr>c_closing := True\<rparr> = c1" by simp
      then show ?thesis using stop False True by (simp only: poll_end_def Let_def if_False if_True if_cancel)
    qed (use stop False in \<open>auto simp: poll_end_def Let_def split: if_splits\<close>)
    have "conn_inv fd c1" using ok by (simp add: turn_ok_def)
    from poll_end_turn [OF _ this] have "p' = p1 \<and> conn_inv fd c'" if "poll_end env p1 c1 = Some (p', c')" for p' c'
      using that by blast
    then show ?thesis using False ok none by (auto simp: turn turn_ok_def conn_inv_def split: option.split)
  qed
qed

theorem server_connection_safe_witness:
  "poll_io server_witness_env witness_server (accepted_conn 5) (Some Read_closed) None =
     Some (witness_server, accepted_conn 5\<lparr>c_closing := True\<rparr>) \<and> conn_fd (accepted_conn 5\<lparr>c_closing := True\<rparr>) = 5"
proof -
  have run: "poll_io server_witness_env witness_server (accepted_conn 5) (Some Read_closed) None =
     Some (witness_server, accepted_conn 5\<lparr>c_closing := True\<rparr>)"
    by (simp add: poll_io_def mg_call_poll accepted_conn_def read_conn_def MG_MAX_RECV_SIZE_def)
  show ?thesis
    using server_connection_safe [OF server_reaches.accepted _ run] run by (simp add: accepted_conn_def)
qed


section \<open>The handshake as bytes\<close>

definition env_ready :: "server_env \<Rightarrow> bool" where
  "env_ready env \<longleftrightarrow> (\<forall>n. sv_alloc env n) \<and> length (sha_stack env) = 64 \<and> length (b64_stack env) = 30 \<and>
     (\<forall>smi < ModuleIndex_value End. \<forall>b. g_build_ids env ! smi = Some b \<longrightarrow> length b = 16)"

definition accept_key :: "bytes \<Rightarrow> bytes" where
  "accept_key key = base64 (SHA1 (key @ ws_magic))"

definition switching_reply :: "bytes \<Rightarrow> bytes" where
  "switching_reply key =
     ascii ''HTTP/1.1 101 Switching Protocols'' @ [13, 10] @ ascii ''Upgrade: websocket'' @ [13, 10] @
     ascii ''Connection: Upgrade'' @ [13, 10] @ ascii ''Sec-WebSocket-Accept: '' @ accept_key key @ [13, 10, 13, 10]"

lemma base64_letter: "mg_base64_encode_single c \<noteq> 0"
proof -
  have "c - 52 + 48 \<noteq> 0" if "\<not> c < 52" "c < 62"
    using that by (simp add: word_less_nat_alt unat_word_ariths unat_sub word_le_nat_alt flip: unat_eq_zero)
  moreover have "c + 65 \<noteq> 0" if "c < 26"
    using that by (simp add: word_less_nat_alt unat_word_ariths flip: unat_eq_zero)
  moreover have "c - 26 + 97 \<noteq> 0" if "\<not> c < 26" "c < 52"
    using that by (simp add: word_less_nat_alt unat_word_ariths unat_sub word_le_nat_alt flip: unat_eq_zero)
  ultimately show ?thesis by (simp add: mg_base64_encode_single_def)
qed

lemma base64_no_zero: "0 \<notin> set (base64 p)"
  by (induction p rule: base64.induct) (simp_all add: base64_letter base64_letter [symmetric])

lemma length_SHA1: "length (SHA1 m) = 20"
  by (simp add: SHA1_def word_bytes_def split: prod.splits)

lemma length_accept_key: "length (accept_key key) = 28"
  by (simp add: accept_key_def length_base64 length_SHA1)

lemma vx_switching:
  assumes "0 \<notin> set s"
  shows "mg_vxprintf switching_head [Arg_str (Some (s @ 0 # t))] = Some (
     ascii ''HTTP/1.1 101 Switching Protocols'' @ [13, 10] @ ascii ''Upgrade: websocket'' @ [13, 10] @
     ascii ''Connection: Upgrade'' @ [13, 10] @ ascii ''Sec-WebSocket-Accept: '' @ s @ [13, 10])"
  using assms by (simp add: switching_head_def ascii_def vx_directive)

lemma mg_send_appends:
  assumes "iobuf_ok io" "iolen io + length d + ioalign io < 2 ^ 62" "\<And>n. calloc n"
  shows "\<exists>io'. mg_send calloc io d = Some io' \<and> iobuf_ok io' \<and> ioalign io' = ioalign io \<and> content io' = content io @ d"
  using iobuf_append [OF assms(1,2), of calloc] assms(3) by (auto simp: mg_send_def)

lemma ws_handshake_bytes:
  assumes env: "env_ready env" and io: "iobuf_ok io" "iolen io + ioalign io < 2 ^ 60" and key: "length key < 2 ^ 59"
  shows "\<exists>io'. ws_handshake env io key None = Some io' \<and> iobuf_ok io' \<and> ioalign io' = ioalign io \<and>
    content io' = content io @ switching_reply key"
proof -
  have alloc: "sv_alloc env n" for n using env by (simp add: env_ready_def)
  let ?ctx = "mg_sha1_update (mg_sha1_update (mg_sha1_init (sha_stack env)) key) ws_magic"
  have "ctx_after ([] @ key) (mg_sha1_update (mg_sha1_init (sha_stack env)) key)"
    using key env by (intro ctx_update ctx_init) (simp_all add: env_ready_def)
  then have "ctx_after (key @ ws_magic) ?ctx"
    using key by (intro ctx_update) (simp_all add: ws_magic_def)
  then have sha: "mg_sha1_final ?ctx = Some (SHA1 (key @ ws_magic))"
    using key by (intro final_SHA1) (simp_all add: ws_magic_def)
  obtain t where b64: "mg_base64_encode (SHA1 (key @ ws_magic)) (b64_stack env) = Some (accept_key key @ 0 # t, 28)"
    using base64_encode_decode(1) [of "SHA1 (key @ ws_magic)" "b64_stack env" "replicate 22 0"] env length_accept_key [of key]
    by (simp add: accept_key_def env_ready_def)
  have out: "mg_vxprintf switching_head [Arg_str (Some (accept_key key @ 0 # t))] = Some (
     ascii ''HTTP/1.1 101 Switching Protocols'' @ [13, 10] @ ascii ''Upgrade: websocket'' @ [13, 10] @
     ascii ''Connection: Upgrade'' @ [13, 10] @ ascii ''Sec-WebSocket-Accept: '' @ accept_key key @ [13, 10])"
    by (rule vx_switching) (simp add: accept_key_def base64_no_zero)
  obtain io1 where 1: "mg_printf (sv_alloc env) io switching_head [Arg_str (Some (accept_key key @ 0 # t))] = Some io1" "iobuf_ok io1"
    "ioalign io1 = ioalign io" "content io1 = content io @ ascii ''HTTP/1.1 101 Switching Protocols'' @ [13, 10] @ ascii ''Upgrade: websocket'' @ [13, 10] @
     ascii ''Connection: Upgrade'' @ [13, 10] @ ascii ''Sec-WebSocket-Accept: '' @ accept_key key @ [13, 10]"
    using mg_printf_appends [OF out io(1), of "sv_alloc env"] alloc io(2) by (auto simp: length_accept_key)
  have "iolen io1 < iolen io + 200" using length_content [OF 1(2)] length_content [OF io(1)] 1(4) by (simp add: length_accept_key)
  then obtain io2 where 2: "mg_send (sv_alloc env) io1 [13, 10] = Some io2" "iobuf_ok io2" "ioalign io2 = ioalign io" "content io2 = content io1 @ [13, 10]"
    using mg_send_appends [OF 1(2), of "[13, 10]" "sv_alloc env"] alloc io(2) 1(3) by auto
  have "ws_handshake env io key None = Some io2"
    by (simp add: ws_handshake_def Let_def sha b64 1(1) 2(1))
  then show ?thesis using 2 1(4) by (simp add: switching_reply_def)
qed


lemma length_hello:
  assumes "env_ready env"
  shows "length (hello env) \<le> 80 * ModuleIndex_value End"
proof -
  have "length (concat (map (\<lambda>smi. case mod_infos env ! smi of None \<Rightarrow> [] | Some mi \<Rightarrow> hello_mod_info mi (g_build_ids env ! smi)) [0..<n])) \<le> 80 * n"
    if "n \<le> ModuleIndex_value End" for n
    using that
  proof (induction n)
    case (Suc n)
    have "length b = 16" if "g_build_ids env ! n = Some b" for b using assms Suc_le_lessD [OF Suc.prems] that unfolding env_ready_def by blast
    then have "length (hello_mod_info mi (g_build_ids env ! n)) = 80" for mi
      by (simp add: hello_mod_info_def range_bytes_def split: option.splits)
    then show ?case using Suc by (simp split: option.splits)
  qed simp
  from this [OF order_refl] show ?thesis unfolding hello_def .
qed

lemma send_hello_bytes:
  assumes env: "env_ready env" and io: "iobuf_ok (send_buf c)" "iolen (send_buf c) + ioalign (send_buf c) < 2 ^ 61"
  shows "\<exists>io'. send_hello env c = Some (c\<lparr>send_buf := io'\<rparr>) \<and>
    content io' = content (send_buf c) @ mg_ws_frame False [] WEBSOCKET_OP_BINARY (hello env)"
proof -
  have "length (hello env) < 2 ^ 32" using length_hello [OF env] by simp
  then show ?thesis
    using mg_ws_send_ok [OF io, of "hello env" "sv_alloc env" WEBSOCKET_OP_BINARY] env by (auto simp: send_hello_def env_ready_def)
qed

lemma mg_match_plain:
  "\<forall>c \<in> set p. c \<notin> {63, 42, 35} \<Longrightarrow> mg_match s b p = Some (s = p)"
  using mg_match_loop_plain [of p 0 s b 0] by (simp add: mg_match_def)

lemma uri_matches: "mg_match s b (ascii ''/ws/hose'') = Some (s = ascii ''/ws/hose'')" "mg_match s b (ascii ''/ws/rpc'') = Some (s = ascii ''/ws/rpc'')"
  by (rule mg_match_plain, simp add: ascii_def)+

lemma uris_differ: "ascii ''/ws/rpc'' \<noteq> ascii ''/ws/hose''"
  by (simp add: ascii_def)

text \<open>The received data in pieces.\<close>

fun read_all :: "server_env \<Rightarrow> bytes list \<Rightarrow> rpc_server \<times> server_conn \<Rightarrow> (rpc_server \<times> server_conn) option" where
  "read_all env [] s = Some s"
| "read_all env (d # ds) s = Option.bind (read_conn env (fst s) (snd s) (Read_data d)) (read_all env ds)"

lemma read_incomplete:
  assumes "pfn c = Http_cb" "\<not> c_resp c" "length (recv_data c) < MG_MAX_RECV_SIZE" "mg_http_get_request_len (recv_data c @ d) = 0"
  shows "read_conn env p c (Read_data d) = Some (p, c\<lparr>recv_data := recv_data c @ d\<rparr>)"
  using assms outer.incomplete_head [of "c\<lparr>recv_data := recv_data c @ d\<rparr>"]
  by (simp add: read_conn_def mg_call_def callback_impl callback_ignores)

text \<open>Only the last piece that is not empty can complete the request.\<close>

lemma read_all_request:
  assumes "pfn c = Http_cb" "\<not> c_resp c" "recv_data c @ concat ds = req" "mg_http_get_request_len req = int (length req)"
    "length req < MG_MAX_RECV_SIZE" "ds \<noteq> []" "last ds \<noteq> []"
  shows "read_all env ds (p, c) = read_conn env p (c\<lparr>recv_data := recv_data c @ concat (butlast ds)\<rparr>) (Read_data (last ds))"
  using assms
proof (induction ds arbitrary: c)
  case (Cons d ds)
  show ?case
  proof (cases "ds = []")
    case True
    then show ?thesis using Cons.prems by (cases "read_conn env p c (Read_data d)") simp_all
  next
    case False
    then have rest: "concat ds \<noteq> []" using Cons.prems(7) by (auto simp: last_in_set)
    have "recv_data c @ d = take (length (recv_data c @ d)) req" by (simp flip: Cons.prems(3))
    moreover have "length (recv_data c @ d) < length req" using rest by (simp flip: Cons.prems(3))
    ultimately have "mg_http_get_request_len (recv_data c @ d) = 0"
      using request_len_prefix [OF Cons.prems(4), of "length (recv_data c @ d)"] by simp
    then have "read_conn env p c (Read_data d) = Some (p, c\<lparr>recv_data := recv_data c @ d\<rparr>)"
      using Cons.prems by (intro read_incomplete) auto
    then show ?thesis
      using Cons.IH [of "c\<lparr>recv_data := recv_data c @ d\<rparr>"] Cons.prems False by simp
  qed
qed simp


definition upgrade_request :: "bytes \<Rightarrow> bytes \<Rightarrow> bytes \<Rightarrow> (bytes \<times> bytes) list \<Rightarrow> bytes option \<Rightarrow> bool" where
  "upgrade_request meth uri proto hdrs key \<longleftrightarrow> plain_request meth uri proto hdrs \<and> \<not> has_body meth \<and>
     mg_http_get_header hdrs ''Sec-WebSocket-Key'' = key \<and> mg_http_get_header hdrs ''Sec-WebSocket-Protocol'' = None \<and>
     length (render_request meth uri proto hdrs) < MG_MAX_RECV_SIZE"

lemma header_in_request:
  assumes "(k, v) \<in> set hdrs"
  shows "length v \<le> length (render_request meth uri proto hdrs)"
proof -
  have "length v \<le> length (header_line (k, v))" by (simp add: header_line_def)
  also have "\<dots> \<le> length (concat (map header_line hdrs))"
    using assms by (auto simp: length_concat intro!: member_le_sum_list)
  finally show ?thesis by (simp add: render_request_def)
qed

lemma get_header_in: "mg_http_get_header hdrs name = Some v \<Longrightarrow> \<exists>k. (k, v) \<in> set hdrs"
  by (auto simp: mg_http_get_header_def find_Some_iff) (metis nth_mem)

text \<open>A request that arrives in pieces reaches the handler once, when it is complete.\<close>

lemma request_arrives:
  assumes req: "upgrade_request meth uri proto hdrs key" "concat ds = render_request meth uri proto hdrs" "ds \<noteq> []" "last ds \<noteq> []"
    and fn: "on_http_msg env p ((accepted_conn fd)\<lparr>recv_data := render_request meth uri proto hdrs, c_resp := True\<rparr>)
        (request_message meth uri proto hdrs) = Some (p', c')"
  shows "read_all env ds (p, accepted_conn fd) = Some (p', c'\<lparr>recv_data := []\<rparr>)"
proof -
  let ?r = "render_request meth uri proto hdrs"
  let ?c = "(accepted_conn fd)\<lparr>recv_data := concat (butlast ds)\<rparr>"
  have ds: "concat (butlast ds) @ last ds = ?r" using req(2,3) concat_append [of "butlast ds" "[last ds]"] by simp
  have ok: "plain_request meth uri proto hdrs" "\<not> has_body meth" "length ?r < MG_MAX_RECV_SIZE"
    using req(1) by (simp_all add: upgrade_request_def)
  then have len: "mg_http_get_request_len ?r = int (length ?r)"
    using request_len_rendered [of meth uri proto hdrs "[]"] by (simp add: plain_request_def)
  have all: "read_all env ds (p, accepted_conn fd) = read_conn env p ?c (Read_data (last ds))"
    using read_all_request [of "accepted_conn fd" ds ?r env p] req(2-4) ok(3) len by (simp add: accepted_conn_def)
  have small: "length (recv_data ?c) < MG_MAX_RECV_SIZE" using ok(3) arg_cong [OF ds, of length] by simp
  let ?d = "(accepted_conn fd)\<lparr>recv_data := ?r\<rparr>"
  have d: "pfn ?d = Http_cb" "c_accepted ?d" "\<not> c_resp ?d" "recv_data ?d = ?r" by (simp_all add: accepted_conn_def)
  have "http_cb (sv_alloc env) (mongoose_callback_impl env) (recv_behind env) p ?d EV_READ = Some (p', c'\<lparr>recv_data := []\<rparr>)"
    using outer.whole_request [OF ok(1,2) d(4,2,3)] fn by (simp add: callback_impl callback_no_write_def)
  then have "mg_call env (mongoose_callback_impl env) p ?d EV_READ = Some (p', c'\<lparr>recv_data := []\<rparr>)"
    using d(1) by (simp add: mg_call_def callback_impl callback_ignores)
  then show ?thesis using small ds by (simp add: all read_conn_def)
qed


lemma pieces_end:
  assumes "[] \<notin> set ds" "concat ds = render_request meth uri proto hdrs"
  shows "ds \<noteq> []" "last ds \<noteq> []"
proof -
  show "ds \<noteq> []" using assms(2) by (auto simp: render_request_def)
  then show "last ds \<noteq> []" using assms(1) by (metis last_in_set)
qed

lemma accepted_send: "iobuf_ok (send_buf (accepted_conn fd))" "content (send_buf (accepted_conn fd)) = []"
  "iolen (send_buf (accepted_conn fd)) = 0" "ioalign (send_buf (accepted_conn fd)) = 2048"
  by (simp_all add: accepted_conn_def iobuf_ok_def iosize_def content_def MG_IO_SIZE_def)

lemma rpc_upgrade:
  assumes env: "env_ready env" and req: "upgrade_request meth uri proto hdrs (Some key)" "fst (split_query uri) = ascii ''/ws/rpc''"
    and c: "iobuf_ok (send_buf c)" "content (send_buf c) = []" "ioalign (send_buf c) = 2048"
  shows "\<exists>io. on_http_msg env p c (request_message meth uri proto hdrs) =
      Some (p, c\<lparr>cd_state := CONN_STATE_RPC_WEBSOCKET, pfn := Mg_ws_cb, pfn_data := 0, c_websocket := True, c_resp := False, send_buf := io\<rparr>) \<and>
    content io = switching_reply key @ mg_ws_frame False [] WEBSOCKET_OP_BINARY (hello env)"
proof -
  let ?c = "c\<lparr>cd_state := CONN_STATE_RPC_WEBSOCKET, pfn := Mg_ws_cb, pfn_data := 0\<rparr>"
  have get: "mg_http_get_header hdrs ''Sec-WebSocket-Key'' = Some key" "mg_http_get_header hdrs ''Sec-WebSocket-Protocol'' = None"
    "length (render_request meth uri proto hdrs) < MG_MAX_RECV_SIZE" using req(1) by (simp_all add: upgrade_request_def)
  obtain k where "(k, key) \<in> set hdrs" using get_header_in [OF get(1)] ..
  from header_in_request [OF this, of meth uri proto] have key: "length key < 2 ^ 59"
    using get(3) by (simp add: MG_MAX_RECV_SIZE_def)
  have l: "iolen (send_buf c) = 0" using length_content [OF c(1)] c(2) by simp
  obtain io1 where 1: "ws_handshake env (send_buf c) key None = Some io1" "iobuf_ok io1" "ioalign io1 = 2048" "content io1 = switching_reply key"
    using ws_handshake_bytes [OF env c(1) _ key] c l by auto
  have "iolen io1 < 200" using length_content [OF 1(2)] 1(4) by (simp add: switching_reply_def length_accept_key)
  then obtain io2 where 2: "send_hello env (?c\<lparr>send_buf := io1, c_websocket := True, c_resp := False\<rparr>) =
      Some (?c\<lparr>c_websocket := True, c_resp := False, send_buf := io2\<rparr>)"
    "content io2 = switching_reply key @ mg_ws_frame False [] WEBSOCKET_OP_BINARY (hello env)"
    using send_hello_bytes [OF env, of "?c\<lparr>send_buf := io1, c_websocket := True, c_resp := False\<rparr>"] 1 by auto
  then show ?thesis
    by (intro exI [of _ io2]) (simp add: on_http_msg_def uri_matches req(2) uris_differ mg_ws_upgrade_def get 1(1) on_ws_open_def)
qed

text \<open>
  C21. The start of an RPC session. A client asks for \<open>/ws/rpc\<close> with a \<open>Sec-WebSocket-Key\<close>; however the network
  cuts its request into pieces, once the last piece is read the connection is a WebSocket in the RPC state with
  nothing left to read, and what waits to be sent is the reply 101 with the accept key of the standard (Base64
  of SHA-1 of the key and the magic number), followed by the greeting with the modules of the process.
\<close>

theorem rpc_handshake:
  assumes "env_ready env" "upgrade_request meth uri proto hdrs (Some key)" "fst (split_query uri) = ascii ''/ws/rpc''"
    and "concat ds = render_request meth uri proto hdrs" "[] \<notin> set ds"
  shows "\<exists>c. read_all env ds (p, accepted_conn fd) = Some (p, c) \<and>
    content (send_buf c) = switching_reply key @ mg_ws_frame False [] WEBSOCKET_OP_BINARY (hello env) \<and>
    pfn c = Mg_ws_cb \<and> cd_state c = CONN_STATE_RPC_WEBSOCKET \<and> c_websocket c \<and> recv_data c = [] \<and> \<not> c_resp c \<and> \<not> c_closing c"
proof -
  let ?c = "(accepted_conn fd)\<lparr>recv_data := render_request meth uri proto hdrs, c_resp := True\<rparr>"
  obtain io where "on_http_msg env p ?c (request_message meth uri proto hdrs) =
      Some (p, ?c\<lparr>cd_state := CONN_STATE_RPC_WEBSOCKET, pfn := Mg_ws_cb, pfn_data := 0, c_websocket := True, c_resp := False, send_buf := io\<rparr>)"
    "content io = switching_reply key @ mg_ws_frame False [] WEBSOCKET_OP_BINARY (hello env)"
    using rpc_upgrade [OF assms(1-3), of ?c p] accepted_send by auto
  then show ?thesis
    using request_arrives [OF assms(2,4) pieces_end [OF assms(5,4)]] by (simp add: accepted_conn_def)
qed

definition witness_request :: "string \<Rightarrow> (bytes \<times> bytes) list \<Rightarrow> bytes" where
  "witness_request uri hdrs = render_request (ascii ''GET'') (ascii uri) (ascii ''HTTP/1.1'') hdrs"

lemma witness_env_ready: "env_ready server_witness_env"
  by (simp add: env_ready_def server_witness_env_def sv_alloc_def witness_env_def)

lemma witness_upgrade:
  "upgrade_request (ascii ''GET'') (ascii ''/ws/rpc'') (ascii ''HTTP/1.1'') [(ascii ''Sec-WebSocket-Key'', ascii ''x3JJHMbDL1EzLkh9GBhXDw=='')]
     (Some (ascii ''x3JJHMbDL1EzLkh9GBhXDw==''))"
  "upgrade_request (ascii ''GET'') (ascii ''/ws/hose'') (ascii ''HTTP/1.1'') [] None"
  by (simp_all add: upgrade_request_def plain_request_def request_ok_def header_ok_def ascii_def token_char_def line_char_def
      MG_MAX_HTTP_HEADERS_def has_body_def mg_tolc_def word_le_def mg_http_get_header_def render_request_def header_line_def MG_MAX_RECV_SIZE_def)

theorem rpc_handshake_witness:
  "\<exists>c. read_all server_witness_env
      [[71], drop 1 (witness_request ''/ws/rpc'' [(ascii ''Sec-WebSocket-Key'', ascii ''x3JJHMbDL1EzLkh9GBhXDw=='')])] (witness_server, accepted_conn 5) =
      Some (witness_server, c) \<and>
    content (send_buf c) = switching_reply (ascii ''x3JJHMbDL1EzLkh9GBhXDw=='') @ mg_ws_frame False [] WEBSOCKET_OP_BINARY (hello server_witness_env) \<and>
    cd_state c = CONN_STATE_RPC_WEBSOCKET"
proof -
  let ?h = "[(ascii ''Sec-WebSocket-Key'', ascii ''x3JJHMbDL1EzLkh9GBhXDw=='')]"
  have uri: "fst (split_query (ascii ''/ws/rpc'')) = ascii ''/ws/rpc''" by (simp add: split_query_def ascii_def)
  have pieces: "concat [[71], drop 1 (witness_request ''/ws/rpc'' ?h)] = render_request (ascii ''GET'') (ascii ''/ws/rpc'') (ascii ''HTTP/1.1'') ?h"
    "[] \<notin> set [[71], drop 1 (witness_request ''/ws/rpc'' ?h)]"
    by (simp_all add: witness_request_def render_request_def ascii_def)
  show ?thesis
    using rpc_handshake [OF witness_env_ready witness_upgrade(1) uri pieces, of witness_server 5] by blast
qed


section \<open>Handing a connection to the hose\<close>

definition upgrade_expected :: bytes where "upgrade_expected = ascii ''WS upgrade expected'' @ [10]"

lemma mg_call_callback_close: "pfn c = Mg_ws_cb \<Longrightarrow> mg_close_conn env (callback_no_write env) p c = Some (p, c\<lparr>c_freed := True\<rparr>)"
  by (simp add: mg_close_conn_def ws_close)

lemma drained: "iobuf_ok io \<Longrightarrow> \<exists>n io'. mg_iobuf_del io 0 (iolen io) = Some (n, io') \<and> iolen io' = 0"
proof -
  assume ok: "iobuf_ok io"
  then have "iolen io < 2 ^ 62" by (simp add: iobuf_ok_def)
  then obtain n io' where del: "mg_iobuf_del io 0 (iolen io) = Some (n, io')" "iobuf_ok io'" "content io' = []"
    using iobuf_del [OF ok, of 0 "iolen io"] length_content [OF ok] by auto
  then show ?thesis using length_content [OF del(2)] by auto
qed

definition fcntl_fails :: "server_env \<Rightarrow> int \<Rightarrow> bool" where
  "fcntl_fails env fd \<longleftrightarrow> fst (fcntl_result env fd) = -1 \<or> snd (fcntl_result env fd) = -1"

lemma handoff_write:
  assumes "cd_state c = CONN_STATE_DRAINING_BEFORE_HOSE_HANDOFF" "pfn c = Mg_ws_cb" "iobuf_ok (send_buf c)"
  shows "if fcntl_fails env (conn_fd c) then write_conn env p c (Write_sent (iolen (send_buf c))) = None
    else \<exists>c'. write_conn env p c (Write_sent (iolen (send_buf c))) = Some (p\<lparr>s_hose := push_fd (s_hose p) (conn_fd c)\<rparr>, c') \<and> c_freed c'"
proof -
  obtain n io where "mg_iobuf_del (send_buf c) 0 (iolen (send_buf c)) = Some (n, io)" "iolen io = 0" using drained [OF assms(3)] by blast
  then show ?thesis
    using assms by (simp add: write_conn_def mg_call_write mongoose_callback_impl_def mg_call_callback_close fcntl_fails_def
      hose_push_fd_def Let_def)
qed

lemma no_body_text: "mg_vxprintf upgrade_expected [] = Some upgrade_expected"
  by (simp add: upgrade_expected_def ascii_def mg_vxprintf.simps)

lemma hose_refused:
  assumes env: "env_ready env" and req: "upgrade_request meth uri proto hdrs None" "fst (split_query uri) = ascii ''/ws/hose''"
    and c: "iobuf_ok (send_buf c)" "content (send_buf c) = []" "ioalign (send_buf c) = 2048"
  shows "\<exists>io. on_http_msg env p c (request_message meth uri proto hdrs) =
      Some (p, c\<lparr>cd_state := CONN_STATE_DRAINING_BEFORE_HOSE_HANDOFF, pfn := Mg_ws_cb, pfn_data := 0, send_buf := io, c_resp := False, c_draining := True\<rparr>) \<and>
    iobuf_ok io \<and> content io = reply_bytes 426 '''' upgrade_expected"
proof -
  have l: "iolen (send_buf c) = 0" using length_content [OF c(1)] c(2) by simp
  have "\<exists>io. mg_http_reply (sv_alloc env) (send_buf c) 426 '''' upgrade_expected [] = Some io \<and> iobuf_ok io \<and> ioalign io = ioalign (send_buf c) \<and>
      content io = content (send_buf c) @ reply_bytes 426 '''' upgrade_expected"
    using env l c(3) by (intro mg_http_reply_appends [OF c(1) _ no_body_text]) (simp_all add: env_ready_def upgrade_expected_def ascii_def)
  then obtain io where io: "mg_http_reply (sv_alloc env) (send_buf c) 426 '''' upgrade_expected [] = Some io" "iobuf_ok io"
    "content io = reply_bytes 426 '''' upgrade_expected" using c(2) by auto
  have "mg_http_get_header hdrs ''Sec-WebSocket-Key'' = None" using req(1) by (simp add: upgrade_request_def)
  then show ?thesis using io
    by (intro exI [of _ io]) (simp add: on_http_msg_def uri_matches req(2) mg_ws_upgrade_def upgrade_expected_def [symmetric])
qed

definition refused_conn :: "int \<Rightarrow> mg_iobuf \<Rightarrow> server_conn" where
  "refused_conn fd io = (accepted_conn fd)\<lparr>cd_state := CONN_STATE_DRAINING_BEFORE_HOSE_HANDOFF, pfn := Mg_ws_cb, send_buf := io, c_draining := True\<rparr>"

lemma refused_conn_simps [simp]:
  "cd_state (refused_conn fd io) = CONN_STATE_DRAINING_BEFORE_HOSE_HANDOFF" "pfn (refused_conn fd io) = Mg_ws_cb"
  "send_buf (refused_conn fd io) = io" "c_draining (refused_conn fd io)" "conn_fd (refused_conn fd io) = fd"
  "\<not> c_websocket (refused_conn fd io)" "\<not> c_closing (refused_conn fd io)" "\<not> c_freed (refused_conn fd io)"
  by (simp_all add: refused_conn_def accepted_conn_def)

lemma hose_request_refused:
  assumes "env_ready env" "upgrade_request meth uri proto hdrs None" "fst (split_query uri) = ascii ''/ws/hose''"
    and "concat ds = render_request meth uri proto hdrs" "[] \<notin> set ds"
  shows "\<exists>io. read_all env ds (p, accepted_conn fd) = Some (p, refused_conn fd io) \<and> iobuf_ok io \<and>
    content io = reply_bytes 426 '''' upgrade_expected"
proof -
  let ?c = "(accepted_conn fd)\<lparr>recv_data := render_request meth uri proto hdrs, c_resp := True\<rparr>"
  obtain io where io: "on_http_msg env p ?c (request_message meth uri proto hdrs) =
      Some (p, ?c\<lparr>cd_state := CONN_STATE_DRAINING_BEFORE_HOSE_HANDOFF, pfn := Mg_ws_cb, pfn_data := 0, send_buf := io, c_resp := False, c_draining := True\<rparr>)"
    "iobuf_ok io" "content io = reply_bytes 426 '''' upgrade_expected"
    using hose_refused [OF assms(1-3), of ?c p] accepted_send by auto
  have "read_all env ds (p, accepted_conn fd) = Some (p, refused_conn fd io)"
    using request_arrives [OF assms(2,4) pieces_end [OF assms(5,4)] io(1)] by (simp add: refused_conn_def accepted_conn_def)
  with io(2,3) show ?thesis by blast
qed

text \<open>
  A request for \<open>/ws/hose\<close> that is not a WebSocket handshake (it has no \<open>Sec-WebSocket-Key\<close>) is refused with
  426 and the connection drains; but the state of the connection was set before the upgrade was tried
  (serve.cpp:702), so as soon as the refusal is sent the descriptor is handed to the hose all the same, which
  will stream packets into a connection that never spoke WebSocket.
\<close>

theorem handoff_without_key:
  assumes "env_ready env" "upgrade_request meth uri proto hdrs None" "fst (split_query uri) = ascii ''/ws/hose''"
    and "concat ds = render_request meth uri proto hdrs" "[] \<notin> set ds" and fcntl: "\<not> fcntl_fails env fd"
  shows "\<exists>c c'. read_all env ds (p, accepted_conn fd) = Some (p, c) \<and>
    content (send_buf c) = reply_bytes 426 '''' upgrade_expected \<and> c_draining c \<and> \<not> c_websocket c \<and>
    write_conn env p c (Write_sent (iolen (send_buf c))) = Some (p\<lparr>s_hose := push_fd (s_hose p) fd\<rparr>, c')"
proof -
  obtain io where io: "read_all env ds (p, accepted_conn fd) = Some (p, refused_conn fd io)" "iobuf_ok io"
    "content io = reply_bytes 426 '''' upgrade_expected"
    using hose_request_refused [OF assms(1-5)] by blast
  moreover obtain c' where "write_conn env p (refused_conn fd io) (Write_sent (iolen io)) = Some (p\<lparr>s_hose := push_fd (s_hose p) fd\<rparr>, c')"
    using handoff_write [of "refused_conn fd io" env p] io(2) fcntl by auto
  ultimately show ?thesis by (intro exI [of _ "refused_conn fd io"] exI [of _ c']) simp
qed

lemma witness_fcntl: "fcntl_result server_witness_env fd = (2, 0)"
  by (simp add: server_witness_env_def)

theorem handoff_without_key_witness:
  "\<exists>c c'. read_all server_witness_env [witness_request ''/ws/hose'' []] (witness_server, accepted_conn 5) = Some (witness_server, c) \<and>
    content (send_buf c) = reply_bytes 426 '''' upgrade_expected \<and>
    write_conn server_witness_env witness_server c (Write_sent (iolen (send_buf c))) =
      Some (witness_server\<lparr>s_hose := push_fd (hose_init 64) 5\<rparr>, c')"
proof -
  have uri: "fst (split_query (ascii ''/ws/hose'')) = ascii ''/ws/hose''" by (simp add: split_query_def ascii_def)
  have pieces: "concat [witness_request ''/ws/hose'' []] = render_request (ascii ''GET'') (ascii ''/ws/hose'') (ascii ''HTTP/1.1'') []"
    "[] \<notin> set [witness_request ''/ws/hose'' []]"
    by (simp_all add: witness_request_def render_request_def)
  have fcntl: "\<not> fcntl_fails server_witness_env 5" by (simp add: fcntl_fails_def witness_fcntl)
  have "s_hose witness_server = hose_init 64" by (simp add: witness_server_def)
  then show ?thesis
    using handoff_without_key [OF witness_env_ready witness_upgrade(2) uri pieces fcntl, of witness_server] by metis
qed

text \<open>
  C24. The handover to the hose frees the connection inside of its own event handler (serve.cpp:715 calls
  \<open>mg_close_conn\<close> from \<open>MG_EV_WRITE\<close>), and the poll loop of mongoose that is writing the connection then reads
  its flags (sock.c:713): every turn in which the last waiting bytes of such a connection are sent uses a
  connection that is freed (unless \<open>fcntl\<close> fails for its descriptor, which fails an assertion before).
\<close>

theorem handoff_uses_freed:
  assumes "server_reaches env fd (p, c)" "\<not> c_freed c" "\<not> c_closing c" "cd_state c = CONN_STATE_DRAINING_BEFORE_HOSE_HANDOFF"
    "iobuf_ok (send_buf c)"
  shows "(if fcntl_fails env fd then write_conn env p c (Write_sent (iolen (send_buf c))) = None
      else \<exists>c'. write_conn env p c (Write_sent (iolen (send_buf c))) = Some (p\<lparr>s_hose := push_fd (s_hose p) fd\<rparr>, c') \<and> c_freed c') \<and>
    poll_conn env p c None (Some (Write_sent (iolen (send_buf c)))) = None"
proof -
  have inv: "pfn c = Mg_ws_cb" "conn_fd c = fd"
    using reaches_inv [OF assms(1)] assms(2,4) by (cases "pfn c"; simp add: conn_inv_def)+
  note w = handoff_write [OF assms(4) inv(1) assms(5), of env p, unfolded inv(2)]
  then have "poll_conn env p c None (Some (Write_sent (iolen (send_buf c)))) = None"
    using assms(3) by (auto simp: poll_conn_def poll_io_def poll_end_def mg_call_poll split: if_splits)
  with w show ?thesis by blast
qed


lemma refused_reached:
  "\<exists>io. server_reaches server_witness_env 5 (witness_server, refused_conn 5 io) \<and> iobuf_ok io"
proof -
  have uri: "fst (split_query (ascii ''/ws/hose'')) = ascii ''/ws/hose''" by (simp add: split_query_def ascii_def)
  let ?r = "witness_request ''/ws/hose'' []"
  have pieces: "concat [?r] = render_request (ascii ''GET'') (ascii ''/ws/hose'') (ascii ''HTTP/1.1'') []" "[] \<notin> set [?r]"
    by (simp_all add: witness_request_def render_request_def)
  obtain io where io: "read_all server_witness_env [?r] (witness_server, accepted_conn 5) = Some (witness_server, refused_conn 5 io)" "iobuf_ok io"
    "content io = reply_bytes 426 '''' upgrade_expected"
    using hose_request_refused [OF witness_env_ready witness_upgrade(2) uri pieces] by blast
  have rd: "read_conn server_witness_env witness_server (accepted_conn 5) (Read_data ?r) = Some (witness_server, refused_conn 5 io)"
    using io(1) by (cases "read_conn server_witness_env witness_server (accepted_conn 5) (Read_data ?r)") simp_all
  have "iolen io \<noteq> 0" using length_content [OF io(2)] io(3) by (simp add: reply_bytes_def)
  then have "poll_conn server_witness_env witness_server (accepted_conn 5) (Some (Read_data ?r)) None = Some (witness_server, refused_conn 5 io)"
    by (simp add: poll_conn_def poll_io_def poll_end_def mg_call_poll rd) (simp add: accepted_conn_def)
  then show ?thesis using server_reaches.polled [OF server_reaches.accepted] io(2) by (fastforce simp: accepted_conn_def)
qed

theorem handoff_uses_freed_witness:
  "\<exists>c. server_reaches server_witness_env 5 (witness_server, c) \<and>
    poll_conn server_witness_env witness_server c None (Some (Write_sent (iolen (send_buf c)))) = None"
proof -
  obtain io where io: "server_reaches server_witness_env 5 (witness_server, refused_conn 5 io)" "iobuf_ok io" using refused_reached by blast
  have "poll_conn server_witness_env witness_server (refused_conn 5 io) None (Some (Write_sent (iolen (send_buf (refused_conn 5 io))))) = None"
    using handoff_uses_freed [OF io(1)] io(2) by simp
  with io(1) show ?thesis by blast
qed

section \<open>Messages that must have a length\<close>

lemma length_refused:
  assumes "env_ready env" "iobuf_ok io" "iolen io + ioalign io < 2 ^ 59"
  shows "\<exists>io'. mg_http_reply (sv_alloc env) io 411 '''' [] [] = Some io' \<and> iobuf_ok io' \<and> ioalign io' = ioalign io \<and>
    content io' = content io @ reply_bytes 411 '''' [] \<and> iolen io' \<le> iolen io + 200"
proof -
  have "\<exists>io'. mg_http_reply (sv_alloc env) io 411 '''' [] [] = Some io' \<and> iobuf_ok io' \<and> ioalign io' = ioalign io \<and>
    content io' = content io @ reply_bytes 411 '''' []"
    using assms(1,3) by (intro mg_http_reply_appends [OF assms(2)]) (simp_all add: env_ready_def mg_vxprintf.simps ascii_def)
  then obtain io' where io': "mg_http_reply (sv_alloc env) io 411 '''' [] [] = Some io'" "iobuf_ok io'" "ioalign io' = ioalign io"
    "content io' = content io @ reply_bytes 411 '''' []" by blast
  have "length (reply_bytes 411 '''' []) \<le> 200"
    using length_reason [of 411] length_digits [of 10 411] length_rev_digits [of 10 0 10]
    by (simp add: reply_bytes_def reply_start_def length_field_def digits_def)
  then show ?thesis using io' length_content [OF io'(2)] length_content [OF assms(2)] by auto
qed

lemma lengthless_read:
  assumes env: "env_ready env" and req: "plain_request meth uri proto hdrs" "has_body meth" "recv_data c = render_request meth uri proto hdrs @ rest"
    and c: "pfn c = Http_cb" "\<not> c_resp c" "length (recv_data c) < MG_MAX_RECV_SIZE" "length d < 2 ^ 62"
      "iobuf_ok (send_buf c)" "iolen (send_buf c) + ioalign (send_buf c) < 2 ^ 59"
  shows "\<exists>io. read_conn env p c (Read_data d) = Some (p, c\<lparr>recv_data := recv_data c @ d, send_buf := io\<rparr>) \<and> iobuf_ok io \<and>
    ioalign io = ioalign (send_buf c) \<and> content io = content (send_buf c) @ reply_bytes 411 '''' [] \<and> iolen io \<le> iolen (send_buf c) + 200"
proof -
  obtain io where io: "mg_http_reply (sv_alloc env) (send_buf c) 411 '''' [] [] = Some io" "iobuf_ok io" "ioalign io = ioalign (send_buf c)"
    "content io = content (send_buf c) @ reply_bytes 411 '''' []" "iolen io \<le> iolen (send_buf c) + 200"
    using length_refused [OF env c(5,6)] by blast
  let ?c = "c\<lparr>recv_data := recv_data c @ d\<rparr>"
  have "http_cb (sv_alloc env) (mongoose_callback_impl env) (recv_behind env) p ?c EV_READ = Some (p, ?c\<lparr>send_buf := io, c_resp := False\<rparr>)"
    using req(3) c(2-4) io(1)
    by (intro outer.lengthless_step [OF req(1,2), of _ "rest @ d"]) (simp_all add: SIZE_MAX_def MG_MAX_RECV_SIZE_def)
  moreover have "?c\<lparr>send_buf := io, c_resp := False\<rparr> = c\<lparr>recv_data := recv_data c @ d, send_buf := io\<rparr>" using c(2) by simp
  ultimately show ?thesis using c(1,3) io
    by (intro exI [of _ io]) (simp add: read_conn_def mg_call_def callback_impl callback_ignores)
qed


lemma lengthless_reads:
  assumes env: "env_ready env" and req: "plain_request meth uri proto hdrs" "has_body meth" "recv_data c = render_request meth uri proto hdrs @ rest"
    and c: "pfn c = Http_cb" "\<not> c_resp c" "length (recv_data c) + length (concat ds) < MG_MAX_RECV_SIZE"
      "iobuf_ok (send_buf c)" "iolen (send_buf c) + 200 * length ds + ioalign (send_buf c) < 2 ^ 59"
  shows "\<exists>io. read_all env ds (p, c) = Some (p, c\<lparr>recv_data := recv_data c @ concat ds, send_buf := io\<rparr>) \<and>
    content io = content (send_buf c) @ concat (replicate (length ds) (reply_bytes 411 '''' []))"
  using req(3) c
proof (induction ds arbitrary: c rest)
  case (Cons d ds)
  have small: "length (recv_data c) < MG_MAX_RECV_SIZE" "length d < 2 ^ 62" "iolen (send_buf c) + ioalign (send_buf c) < 2 ^ 59"
    using Cons.prems(4,6) by (simp_all add: MG_MAX_RECV_SIZE_def)
  obtain io where io: "read_conn env p c (Read_data d) = Some (p, c\<lparr>recv_data := recv_data c @ d, send_buf := io\<rparr>)" "iobuf_ok io"
    "ioalign io = ioalign (send_buf c)" "content io = content (send_buf c) @ reply_bytes 411 '''' []" "iolen io \<le> iolen (send_buf c) + 200"
    using lengthless_read [OF env req(1,2) Cons.prems(1-3) small(1,2) Cons.prems(5) small(3)] by blast
  let ?c = "c\<lparr>recv_data := recv_data c @ d, send_buf := io\<rparr>"
  obtain io' where io': "read_all env ds (p, ?c) = Some (p, ?c\<lparr>recv_data := recv_data ?c @ concat ds, send_buf := io'\<rparr>)"
    "content io' = content (send_buf ?c) @ concat (replicate (length ds) (reply_bytes 411 '''' []))"
    using Cons.IH [of ?c "rest @ d"] Cons.prems io by auto
  then show ?case using io by (intro exI [of _ io']) simp
next
  case Nil
  have "c = c\<lparr>recv_data := recv_data c, send_buf := send_buf c\<rparr>" by simp
  then show ?case by (intro exI [of _ "send_buf c"]) simp
qed

text \<open>
  C23. \<open>POST\<close> and \<open>PUT\<close> without a length (http.c:1048). Once the head of such a request is received the server
  answers 411 at every read, the request stays at the front of the receive buffer and nothing after it is
  served: k further reads put k replies 411 into the send buffer. One request without a length is answered as
  often as the client's packets are cut, and the connection serves no other request.
\<close>

theorem lengthless_post:
  assumes "env_ready env" "plain_request meth uri proto hdrs" "has_body meth" "recv_data c = render_request meth uri proto hdrs @ rest"
    and "pfn c = Http_cb" "\<not> c_resp c" "length (recv_data c) + length (concat ds) < MG_MAX_RECV_SIZE"
      "iobuf_ok (send_buf c)" "iolen (send_buf c) + 200 * length ds + ioalign (send_buf c) < 2 ^ 59"
  shows "\<exists>io. read_all env ds (p, c) = Some (p, c\<lparr>recv_data := recv_data c @ concat ds, send_buf := io\<rparr>) \<and>
    content io = content (send_buf c) @ concat (replicate (length ds) (reply_bytes 411 '''' []))"
  using lengthless_reads [OF assms] .

theorem lengthless_post_witness:
  "\<exists>c io. recv_data c = render_request (ascii ''POST'') (ascii ''/'') (ascii ''HTTP/1.1'') [] \<and>
    read_all server_witness_env [[65], [66, 67]] (witness_server, c) =
      Some (witness_server, c\<lparr>recv_data := recv_data c @ [65, 66, 67], send_buf := io\<rparr>) \<and>
    content io = reply_bytes 411 '''' [] @ reply_bytes 411 '''' []"
proof -
  let ?r = "render_request (ascii ''POST'') (ascii ''/'') (ascii ''HTTP/1.1'') []"
  let ?c = "(accepted_conn 5)\<lparr>recv_data := ?r\<rparr>"
  have req: "plain_request (ascii ''POST'') (ascii ''/'') (ascii ''HTTP/1.1'') []" "has_body (ascii ''POST'')"
    by (simp_all add: plain_request_def request_ok_def ascii_def token_char_def line_char_def
        has_body_def mg_tolc_def word_le_def mg_http_get_header_def)
  have c: "recv_data ?c = ?r @ []" "pfn ?c = Http_cb" "\<not> c_resp ?c" "length (recv_data ?c) + length (concat [[65], [66, 67 :: u8]]) < MG_MAX_RECV_SIZE"
    "iobuf_ok (send_buf ?c)" "iolen (send_buf ?c) + 200 * length [[65], [66, 67 :: u8]] + ioalign (send_buf ?c) < 2 ^ 59"
    using accepted_send [of 5] by (simp_all add: accepted_conn_def render_request_def MG_MAX_RECV_SIZE_def)
  have "content (send_buf ?c) = []" using accepted_send [of 5] by (simp add: accepted_conn_def)
  then show ?thesis
    using lengthless_post [OF witness_env_ready req c, of witness_server]
    by (intro exI [of _ ?c]) simp
qed

end
