(* ===== verification/Spec2Isabelle.thy ===== *)
theory Spec2Isabelle
  imports Prelude Links Kernel StupidHash WsFrame Hose MemRegions MemMonitor Iobuf Rpc Virtmem Armv8 Hook Rtld MemLayout
    Hashes Reloc Pages Game Syscalls WsConn Base64 Sha1 Fmt Http HttpReply HttpConn Server
begin

text \<open>
  A verification library for \<open>smmboss2\<close>: code that runs inside a game on the Horizon operating system,
  hooks its functions, collects what they see in a hash table, and serves memory and events to
  clients over WebSocket. Paths below are relative to \<open>src/exlaunch/source\<close>.

  \<^bold>\<open>Parts and how they interact.\<close> When the module is loaded, \<open>rtld\<close> relocates it and binds its symbols;
  \<open>lib/util/sys/mem_layout\<close> finds the modules of the process with kernel queries; \<open>lib/reloc\<close> writes the
  addresses of the game's symbols into it; \<open>lib/nx/kernel/virtmem.c\<close> finds room for the writable views
  (\<open>rw_pages\<close>) through which \<open>lib/patch\<close> writes and \<open>lib/hook\<close> installs hooks and trampolines, using the
  encoders of \<open>lib/armv8\<close>. The program itself (\<open>program\<close>) has one game thread that writes packets into
  the hose (\<open>serve.cpp\<close>) and one server thread that runs mongoose, forwards the hose to its
  connections, and answers the RPC requests that read and write the process through the cached
  memory map. The memory monitor passes its configuration from server to game thread in a triple
  buffer; the game thread looks objects up in three tables of type \<open>StupidHash\<close>.

  \<^bold>\<open>Theories.\<close>
  \<^item> \<open>Prelude\<close>: machine integers (\<open>size_t\<close> as numbers below \<open>2^64\<close> with wrapped addition and
    subtraction, \<open>wN\<close> words elsewhere), byte encodings, list updates, \<open>std::lower_bound\<close>.
    \<open>Links\<close>: doubly linked chains over indices or addresses, shared by \<open>StupidHash\<close> and \<open>Virtmem\<close>.
  \<^item> \<open>StupidHash\<close>: \<open>program/stupid_hash.hpp\<close>; the array of slots, chains, dense allocation. The
    invariant \<open>well_formed\<close>, each operation as a refinement of a finite map (\<open>table_map\<close>), the locale
    \<open>bounded_map\<close> of what a client relies on with its interpretation, and the fuzzing harness of the
    file, for which no assertion fails on any input.
  \<^item> \<open>WsFrame\<close>: the frame headers of \<open>serve.cpp\<close> and \<open>mkhdr\<close>, \<open>ws_process\<close> and masking of mongoose's
    \<open>ws.c\<close>: round trip and bounds. \<open>Iobuf\<close>: \<open>iobuf.c\<close>, as byte strings.
  \<^item> \<open>Hose\<close>: the ring buffer of \<open>serve.cpp\<close>: \<open>reserve\<close>, \<open>find_space\<close>, overrun packets, \<open>do_iter\<close>, as
    functions and as a step relation of writer, reader, connections, backpressure with its clock, and calls
    from other threads; the reachable states satisfy
    an invariant from which absence of panics of writer and reader, of races and of silent loss, and the bytes each
    connection gets, follow. The callback of \<open>write_packet\<close> gives the same chunks in its two passes.
  \<^item> \<open>Kernel\<close>: result codes, memory types and permissions of \<open>lib/nx/result.h\<close> and \<open>svc.h\<close>.
    \<open>MemRegions\<close>: the cached memory map, its search and \<open>safe_memcpy\<close>. \<open>MemMonitor\<close>: the triple buffer
    and the monitor. \<open>Rpc\<close>: \<open>handle_rpc_packet\<close> on top of them.
  \<^item> \<open>Virtmem\<close>: regions, random search, reservations (refinement to a list). \<open>Pages\<close>: \<open>RwPages\<close>, the
    patchers of \<open>lib/patch\<close> and inline hooks.
  \<^item> \<open>Armv8\<close>: bit fields and instruction constructors, with every static assertion of the sources
    proved. \<open>Hook\<close>: \<open>hook/nx64/hook_impl.cpp\<close>: each class of moved instruction, the trampoline, and an
    execution model of the few instructions the generated code consists of.
  \<^item> \<open>Rtld\<close>: \<open>rtld/\<close>: dynamic section, relocations, symbol lookup, lazy binding. \<open>MemLayout\<close>:
    \<open>mem_layout.cpp\<close>, module names, \<open>stack_trace.hpp\<close> and \<open>ptr_path.hpp\<close>. \<open>Hashes\<close>: Murmur3 and CRC-32.
    \<open>Reloc\<close>: \<open>lib/reloc\<close>.
  \<^item> \<open>Game\<close>: \<open>program/main.cpp\<close>, the hooks on the game as functions on a state of game memory, flags,
    tables and published packets, composed from the theories above; runs of hooks in any order, with exactly
    the panics they have; what clients learn from the packets.
  \<^item> \<open>WsConn\<close>: \<open>mg_ws_cb\<close> of mongoose, which takes the frames of a connection from its receive buffer and
    puts fragmented messages together. \<open>Sha1\<close> and \<open>Base64\<close>: the hash and the text encoding of the handshake.
    \<open>Fmt\<close>: formatted output and the reading of numbers.
  \<^item> \<open>Http\<close>: the head of a request, its headers and the patterns of paths. \<open>HttpReply\<close>: replies and
    chunked bodies. \<open>HttpConn\<close>: \<open>http_cb\<close>, which cuts the received bytes into messages, with the user's
    handler as an argument and the locale \<open>http_handler\<close> of what it relies on.
  \<^item> \<open>Server\<close>: the web server of \<open>serve.cpp\<close>, which puts all of these together with \<open>Rpc\<close> and \<open>Hose\<close>: its
    handler (which interprets \<open>http_handler\<close>), the handshake, calls of handlers, reading, writing,
    closing, and what a turn of \<open>mg_mgr_poll\<close> does with a connection (\<open>poll_io\<close> and \<open>poll_end\<close>; the turn that
    hands a connection to the hose uses it after it is freed); the states a connection reaches
    under any input, and what the server answers.
  \<^item> \<open>Syscalls\<close>: \<open>program/syscalls.cpp\<close> and \<open>convert_errno.c\<close>, what the C library asks of the system:
    error numbers, recursive locks and condition variables as steps of interleaved threads.

  \<^bold>\<open>Conventions.\<close> \<open>None\<close> is an abort, a failed assertion or a fault; error codes and null pointers are
  values. A definition carries the name of its function, with the class or a suffix where it clashes.
  Addresses are numbers below \<open>2^64\<close> or 64-bit words. What the program calls but does not contain (the
  kernel's \<open>svcQueryMemory\<close>, \<open>malloc\<close>, random numbers, the console's libraries) is an argument of the
  definitions that use it, with its documented behaviour as a named hypothesis (\<open>answers_blocks\<close>:
  the kernel partitions the address space into blocks).

  \<^bold>\<open>Bounds and fuel.\<close> Loops over memory queries take fuel; \<open>2^64\<close> steps suffice because every answer
  advances, which \<open>MemRegions\<close>, \<open>MemLayout\<close> and \<open>Pages\<close> prove. The random search of \<open>Virtmem\<close> takes the
  stream of random numbers and is a partial function: it returns when a candidate avoids the
  excluded regions, and the lemma on termination states when that is. The walk of stack frames is a
  partial function that is shown to return, and to hang on an unreadable frame. The moved
  instructions of a hook are at most five, and fuel for them is their number. The fuzzing harness
  consumes its input.

  \<^bold>\<open>What the groups of lemmas show.\<close> For the data structures: an invariant kept by every operation and
  the operation on the abstract value. For the concurrent parts (\<open>Hose\<close>, \<open>MemMonitor\<close>): an invariant of
  all reachable interleavings of atomic steps under sequential consistency. For searches: that
  exactly the described value is found. For code generation: that running the generated words has
  the effect of the original ones, on the classes of instruction where it has; the classes where it
  has not are stated as theorems too. Where the code can fail, the theorems say exactly when: \<open>event_panics\<close> for the
  hooks, \<open>config_panics\<close> for the requests, \<open>both_one\<close> for the triple buffer, \<open>meets_lone_end\<close> for WebSocket frames,
  \<open>fcntl_fails\<close> for the handover to the hose.

  \<^bold>\<open>Not modelled.\<close> The views of \<open>RwPages\<close> when a hook is written (their own theorem is in \<open>Pages\<close>), the assembly stubs (system calls, the context switch of inline hooks, program
  entry), the headers of the console's own libraries (\<open>nn/\<close>), logging and the crash path (\<open>lib/log\<close>,
  \<open>lib/diag\<close>) which only print or stop, the log lines of the hooks, the system calls on
  sockets (their results are arguments, those of \<open>fcntl\<close> included), listening sockets, and the parts of mongoose the program does not
  use (TLS, MQTT, DNS, UDP, multipart bodies, file serving, floating-point output, drivers), the third-party \<open>xxhash\<close>, and the clients in Python and JavaScript. Weak memory ordering is not
  modelled: atomics are sequentially consistent steps.
\<close>

end
